(* ===== verification/Rt_Prelude.thy ===== *)
theory Rt_Prelude
  imports Main "HOL-Library.Word" "HOL-Library.Monad_Syntax" "HOL-Library.Sublist"
begin

text \<open>
  Shared vocabulary of the development: the integer types of \<^verbatim>\<open>include/rtdef.h\<close>, the
  configuration constants of \<^verbatim>\<open>bsp/qemu-vexpress-a9/rtconfig.h\<close>, the error codes, the
  alignment macros, the reading of \<^verbatim>\<open>RT_ASSERT\<close> as a value of type \<open>option\<close>, and the
  generic lemmas on lists, words, functions and the option monad on which the components rest.

  A kernel call is modelled by a function into \<open>option\<close>. \<open>None\<close> means that the call does
  not come back from the given state: it spins on a lock another CPU holds, it stops in
  \<^verbatim>\<open>rt_assert_handler\<close> (which loops for ever), or it follows a null pointer.
\<close>

unbundle bit_operations_syntax

section \<open>Integer types, configuration, error codes\<close>

type_synonym u8 = "8 word"
type_synonym u16 = "16 word"
type_synonym u32 = "32 word"

text \<open>Threads, CPUs and kernel objects are named by their (distinct) addresses.\<close>

type_synonym tid = nat
type_synonym cpu_id = nat
type_synonym objid = nat

type_synonym rt_err_t = int

definition RT_CPUS_NR :: nat where "RT_CPUS_NR = 2"
definition RT_THREAD_PRIORITY_MAX :: nat where "RT_THREAD_PRIORITY_MAX = 32"
definition RT_ALIGN_SIZE :: nat where "RT_ALIGN_SIZE = 4"
definition RT_NAME_MAX :: nat where "RT_NAME_MAX = 8"
definition RT_TICK_PER_SECOND :: int where "RT_TICK_PER_SECOND = 100"
definition RT_TICK_MAX :: u32 where "RT_TICK_MAX = 0xffffffff"

abbreviation RT_EOK :: rt_err_t where "RT_EOK \<equiv> 0"
abbreviation RT_ERROR :: rt_err_t where "RT_ERROR \<equiv> 1"
abbreviation RT_ETIMEOUT :: rt_err_t where "RT_ETIMEOUT \<equiv> 2"
abbreviation RT_EFULL :: rt_err_t where "RT_EFULL \<equiv> 3"
abbreviation RT_EEMPTY :: rt_err_t where "RT_EEMPTY \<equiv> 4"
abbreviation RT_ENOMEM :: rt_err_t where "RT_ENOMEM \<equiv> 5"
abbreviation RT_EINTR :: rt_err_t where "RT_EINTR \<equiv> 9"

text \<open>\<^verbatim>\<open>RT_ALIGN\<close> and \<^verbatim>\<open>RT_ALIGN_DOWN\<close>, at the width of \<^verbatim>\<open>rt_ubase_t\<close>.\<close>

definition RT_ALIGN :: "u32 \<Rightarrow> u32 \<Rightarrow> u32" where
  "RT_ALIGN sz align = (sz + align - 1) AND NOT (align - 1)"

definition RT_ALIGN_DOWN :: "u32 \<Rightarrow> u32 \<Rightarrow> u32" where
  "RT_ALIGN_DOWN sz align = sz AND NOT (align - 1)"

text \<open>\<^verbatim>\<open>RT_ASSERT(EX)\<close> of the \<^verbatim>\<open>RT_DEBUG\<close> build: when \<open>EX\<close> fails the call never returns.\<close>

definition RT_ASSERT :: "bool \<Rightarrow> unit option" where
  "RT_ASSERT ex = (if ex then Some () else None)"

lemma RT_ASSERT_simps [simp]:
  "RT_ASSERT True = Some ()" "RT_ASSERT False = None"
  by (simp_all add: RT_ASSERT_def)

lemma RT_ASSERT_eq_Some [simp]: "RT_ASSERT P = Some u \<longleftrightarrow> P"
  by (simp add: RT_ASSERT_def)

section \<open>Generic lemmas\<close>

lemmas bind_Some_iff = Option.bind_eq_Some_conv

lemma Some_bind_iff: "Some y = Option.bind f g \<longleftrightarrow> (\<exists>x. f = Some x \<and> g x = Some y)"
  by (cases f) auto

lemma bind_SomeE:
  assumes "Option.bind m f = Some y"
  obtains x where "m = Some x" "f x = Some y"
  using assms by (auto simp: bind_Some_iff)

lemma RT_ASSERT_bind [simp]:
  "(RT_ASSERT P \<bind> f) = (if P then f () else None)"
  by (simp add: RT_ASSERT_def)

lemma removeAll_id: "x \<notin> set xs \<Longrightarrow> removeAll x xs = xs"
  by (induction xs) auto

lemma removeAll_split:
  "distinct (xs @ x # ys) \<Longrightarrow> removeAll x (xs @ x # ys) = xs @ ys"
  by (simp add: removeAll_id)

lemma unat_ucast_8_32: "unat (ucast (x :: u8) :: u32) = unat x"
  by (simp add: unsigned_ucast_eq take_bit_nat_eq_self_iff order_less_trans [OF unsigned_less])

lemma unat_ucast_16_32: "unat (ucast (x :: u16) :: u32) = unat x"
  by (simp add: unsigned_ucast_eq take_bit_nat_eq_self_iff order_less_trans [OF unsigned_less])

lemma unat_of_nat_small: "n < 2 ^ LENGTH('a) \<Longrightarrow> unat (of_nat n :: 'a::len word) = n"
  by (simp add: unsigned_of_nat take_bit_nat_eq_self)

lemma RT_ALIGN_DOWN_unat: "unat (RT_ALIGN_DOWN x (of_nat RT_ALIGN_SIZE)) = 4 * (unat x div 4)"
proof -
  have s: "2 \<le> n \<Longrightarrow> Suc (Suc (n - 2)) = n" for n by simp
  have "(of_nat RT_ALIGN_SIZE - 1 :: u32) = mask 2" by (simp add: RT_ALIGN_SIZE_def mask_eq_exp_minus_1)
  then have "RT_ALIGN_DOWN x (of_nat RT_ALIGN_SIZE) = push_bit 2 (drop_bit 2 x)"
    unfolding RT_ALIGN_DOWN_def by (auto intro!: bit_word_eqI simp: bit_simps s not_less)
  moreover have "unat x < 2 ^ LENGTH(32)" by (rule unsigned_less)
  then have "4 * (unat x div 4) < 2 ^ 32" using order_le_less_trans [of "4 * (unat x div 4)" "unat x"] by simp
  then have "unat (x div 4) * unat (4 :: u32) < 2 ^ LENGTH(32)" by (simp add: unat_div)
  then have "unat (x div 4 * 4) = 4 * (unat x div 4)" by (simp only: unat_mult_lem) (simp add: unat_div)
  ultimately show ?thesis by (simp add: push_bit_eq_mult drop_bit_eq_div)
qed

lemma RT_ALIGN_unat:
  "unat (RT_ALIGN x (of_nat RT_ALIGN_SIZE)) = 4 * (unat (x + 3) div 4)"
  using RT_ALIGN_DOWN_unat [of "3 + x"] by (simp add: add.commute [of x] RT_ALIGN_def RT_ALIGN_DOWN_def RT_ALIGN_SIZE_def)

lemma unat_Suc_less:
  assumes "(x :: 'a::len word) < y"
  shows "unat (x + 1) = Suc (unat x)"
proof -
  have "unat y < 2 ^ LENGTH('a)" by (rule unsigned_less)
  moreover have "unat x < unat y" using assms by (simp add: word_less_nat_alt)
  ultimately have "Suc (unat x) < 2 ^ LENGTH('a)" by linarith
  then have "unat x + unat (1 :: 'a word) < 2 ^ LENGTH('a)" by simp
  then have "unat (x + 1) = unat x + unat (1 :: 'a word)" by (simp only: unat_add_lem)
  then show ?thesis by simp
qed

end
