(* ===== verification/Rt_List.thy ===== *)
theory Rt_List
  imports Rt_Prelude
begin

text \<open>
  The intrusive doubly linked lists of \<^verbatim>\<open>include/rtservice.h\<close>: every node is a pair of
  pointers inside another structure, a list is a head node and the ring of nodes around it.
  The first part translates the pointer code; the second part shows that, on a store whose rings
  are disjoint, the pointer code implements operations on finite sequences. The kernel model
  (theory \<^verbatim>\<open>Rt_Kernel\<close> and after) works with those sequences.
\<close>

section \<open>The pointer code\<close>

text \<open>\<^verbatim>\<open>struct rt_list_node\<close>: the two pointer fields, as functions of the node's address.\<close>

record 'n list_store =
  nxt :: "'n \<Rightarrow> 'n"
  prv :: "'n \<Rightarrow> 'n"

definition set_next :: "'n \<Rightarrow> 'n \<Rightarrow> 'n list_store \<Rightarrow> 'n list_store" where
  "set_next p v st = st\<lparr>nxt := (nxt st)(p := v)\<rparr>"

definition set_prev :: "'n \<Rightarrow> 'n \<Rightarrow> 'n list_store \<Rightarrow> 'n list_store" where
  "set_prev p v st = st\<lparr>prv := (prv st)(p := v)\<rparr>"

definition rt_list_init :: "'n \<Rightarrow> 'n list_store \<Rightarrow> 'n list_store" where
  "rt_list_init l st = set_next l l (set_prev l l st)"

definition rt_list_insert_after :: "'n \<Rightarrow> 'n \<Rightarrow> 'n list_store \<Rightarrow> 'n list_store" where
  "rt_list_insert_after l n st =
     (let st1 = set_prev (nxt st l) n st;
          st2 = set_next n (nxt st1 l) st1;
          st3 = set_next l n st2
      in set_prev n l st3)"

definition rt_list_insert_before :: "'n \<Rightarrow> 'n \<Rightarrow> 'n list_store \<Rightarrow> 'n list_store" where
  "rt_list_insert_before l n st =
     (let st1 = set_next (prv st l) n st;
          st2 = set_prev n (prv st1 l) st1;
          st3 = set_prev l n st2
      in set_next n l st3)"

definition rt_list_remove :: "'n \<Rightarrow> 'n list_store \<Rightarrow> 'n list_store" where
  "rt_list_remove n st =
     (let st1 = set_prev (nxt st n) (prv st n) st;
          st2 = set_next (prv st1 n) (nxt st1 n) st1
      in set_next n n (set_prev n n st2))"

definition rt_list_isempty :: "'n \<Rightarrow> 'n list_store \<Rightarrow> bool" where
  "rt_list_isempty l st \<longleftrightarrow> nxt st l = l"

text \<open>The counting loop of \<^verbatim>\<open>rt_list_len\<close>; on a damaged ring it need not end.\<close>

partial_function (option) rt_list_len_loop ::
    "'n list_store \<Rightarrow> 'n \<Rightarrow> 'n \<Rightarrow> u32 \<Rightarrow> u32 option" where
  "rt_list_len_loop st l p len =
     (if nxt st p \<noteq> l then rt_list_len_loop st l (nxt st p) (len + 1) else Some len)"

definition rt_list_len :: "'n \<Rightarrow> 'n list_store \<Rightarrow> u32 option" where
  "rt_list_len l st = rt_list_len_loop st l l 0"

section \<open>Rings as sequences\<close>

fun linked :: "'n list_store \<Rightarrow> 'n list \<Rightarrow> bool" where
  "linked st (a # b # r) \<longleftrightarrow> nxt st a = b \<and> prv st b = a \<and> linked st (b # r)"
| "linked st _ \<longleftrightarrow> True"

text \<open>\<open>is_list st h xs\<close>: the ring around the head \<open>h\<close> holds the nodes \<open>xs\<close>, in this order.\<close>

definition is_list :: "'n list_store \<Rightarrow> 'n \<Rightarrow> 'n list \<Rightarrow> bool" where
  "is_list st h xs \<longleftrightarrow> linked st (h # xs @ [h]) \<and> distinct (h # xs)"

lemma linked_append:
  "linked st (xs @ y # ys) \<longleftrightarrow> linked st (xs @ [y]) \<and> linked st (y # ys)"
proof (induction xs)
  case (Cons x xs)
  then show ?case by (cases xs) auto
qed simp

lemma linked_cong:
  assumes "linked st xs"
    and "\<And>a. a \<in> set (butlast xs) \<Longrightarrow> nxt st' a = nxt st a"
    and "\<And>a. a \<in> set (tl xs) \<Longrightarrow> prv st' a = prv st a"
  shows "linked st' xs"
  using assms
proof (induction st xs rule: linked.induct)
  case (1 st a b r)
  have "linked st' (b # r)"
    using 1 by (intro "1.IH") (cases r; simp)+
  with 1 show ?case by simp
qed simp_all

text \<open>The neighbours of a node that splits the ring.\<close>

lemma linked_split:
  "linked st (xs @ a # b # ys) \<longleftrightarrow>
     linked st (xs @ [a]) \<and> nxt st a = b \<and> prv st b = a \<and> linked st (b # ys)"
  using linked_append [of st xs a "b # ys"] by auto

lemma is_list_frame:
  assumes "is_list st h xs"
    and same: "\<And>a. a \<in> set (h # xs) \<Longrightarrow> nxt st' a = nxt st a \<and> prv st' a = prv st a"
  shows "is_list st' h xs"
proof -
  have "linked st' (h # xs @ [h])"
  proof (rule linked_cong)
    show "linked st (h # xs @ [h])" using assms(1) by (simp add: is_list_def)
    show "nxt st' a = nxt st a" if "a \<in> set (butlast (h # xs @ [h]))" for a
      using same that by (simp add: butlast_append)
    show "prv st' a = prv st a" if "a \<in> set (tl (h # xs @ [h]))" for a
      using same that by simp
  qed
  with assms(1) show ?thesis by (simp add: is_list_def)
qed

text \<open>Writing a fresh node between two neighbours, and taking a node out, on chains.\<close>

definition link_between :: "'n \<Rightarrow> 'n \<Rightarrow> 'n \<Rightarrow> 'n list_store \<Rightarrow> 'n list_store" where
  "link_between p n q st = st\<lparr>nxt := (nxt st)(p := n, n := q), prv := (prv st)(q := n, n := p)\<rparr>"

definition unlink_between :: "'n \<Rightarrow> 'n \<Rightarrow> 'n \<Rightarrow> 'n list_store \<Rightarrow> 'n list_store" where
  "unlink_between p n q st = st\<lparr>nxt := (nxt st)(p := q, n := n), prv := (prv st)(q := p, n := n)\<rparr>"

lemma linked_link:
  assumes "linked st (bs @ p # q # cs)"
    and "p \<notin> set bs" "p \<notin> set (butlast (q # cs))" "q \<notin> set cs" "q \<notin> set (tl (bs @ [p]))"
    and "n \<notin> set (bs @ p # q # cs)"
  shows "linked (link_between p n q st) (bs @ p # n # q # cs)"
proof -
  let ?st = "link_between p n q st"
  have l: "linked st (bs @ [p])" and r: "linked st (q # cs)"
    using assms(1) by (auto simp: linked_split)
  have "linked ?st (bs @ [p])"
    using l assms(2,5,6) by (elim linked_cong) (cases bs; auto simp: link_between_def)+
  moreover have "linked ?st (q # cs)"
    using r assms(3,4,6) by (elim linked_cong) (auto simp: link_between_def dest: in_set_butlastD split: if_splits)
  ultimately show ?thesis
    using assms(6) by (auto simp: linked_split link_between_def)
qed

lemma linked_unlink:
  assumes "linked st (bs @ p # n # q # cs)"
    and "p \<notin> set bs" "p \<notin> set (butlast (q # cs))" "q \<notin> set cs" "q \<notin> set (tl (bs @ [p]))"
    and "n \<notin> set (bs @ p # q # cs)"
  shows "linked (unlink_between p n q st) (bs @ p # q # cs)"
proof -
  let ?st = "unlink_between p n q st"
  have l: "linked st (bs @ [p])" and r: "linked st (q # cs)"
    using assms(1) by (auto simp: linked_split)
  have "linked ?st (bs @ [p])"
    using l assms(2,5,6) by (elim linked_cong) (cases bs; auto simp: unlink_between_def)+
  moreover have "linked ?st (q # cs)"
    using r assms(3,4,6) by (elim linked_cong) (auto simp: unlink_between_def dest: in_set_butlastD split: if_splits)
  ultimately show ?thesis
    using assms(6) by (auto simp: linked_split unlink_between_def)
qed

text \<open>A position in a ring: the chain before it ends in \<open>p\<close>, the chain after it starts with \<open>q\<close>.\<close>

lemma ring_position:
  assumes "distinct (h # us @ vs)"
  obtains bs p q cs where "h # us = bs @ [p]" "vs @ [h] = q # cs"
    "p = last (h # us)" "q = hd (vs @ [h])"
    "p \<notin> set bs" "p \<notin> set (butlast (q # cs))" "q \<notin> set cs" "q \<notin> set (tl (bs @ [p]))"
proof -
  obtain bs p where bs: "h # us = bs @ [p]" by (metis list.distinct(1) rev_exhaust)
  obtain q cs where cs: "vs @ [h] = q # cs" by (metis list.exhaust snoc_eq_iff_butlast)
  have p: "p \<in> set (h # us)" and q: "q \<in> set (vs @ [h])" by (simp_all add: bs cs)
  have "distinct (bs @ [p])" using assms bs by (metis append_Cons distinct_append)
  then have 1: "p \<notin> set bs" by simp
  have "distinct (q # cs)" using assms unfolding cs [symmetric] by auto
  then have 2: "q \<notin> set cs" by simp
  have 3: "p \<notin> set (butlast (q # cs))" using assms p by (auto simp flip: cs)
  have 4: "q \<notin> set (tl (bs @ [p]))" using assms q by (auto simp flip: bs)
  show thesis using that [OF bs cs _ _ 1 3 2 4] by (simp add: bs cs)
qed

lemma is_list_link:
  assumes ring: "is_list st h (us @ vs)" and fresh: "n \<notin> set (h # us @ vs)"
  shows "is_list (link_between (last (h # us)) n (hd (vs @ [h])) st) h (us @ n # vs)"
proof -
  have dist: "distinct (h # us @ vs)" using ring by (simp add: is_list_def)
  obtain bs p q cs where pos: "h # us = bs @ [p]" "vs @ [h] = q # cs"
    "p = last (h # us)" "q = hd (vs @ [h])"
    and ne: "p \<notin> set bs" "p \<notin> set (butlast (q # cs))" "q \<notin> set cs" "q \<notin> set (tl (bs @ [p]))"
    using dist by (rule ring_position)
  have split: "h # us @ ws @ vs @ [h] = bs @ p # ws @ q # cs" for ws
    using pos(1,2) by (metis append.assoc append_Cons append_Nil)
  have "linked st (bs @ p # q # cs)" "n \<notin> set (bs @ p # q # cs)"
    using ring fresh split [of "[]", symmetric] by (simp_all add: is_list_def)
  then have "linked (link_between p n q st) (h # us @ [n] @ vs @ [h])"
    using ne unfolding split by (simp add: linked_link)
  with dist fresh pos(3,4) show ?thesis by (auto simp: is_list_def)
qed

lemma is_list_unlink:
  assumes ring: "is_list st h (us @ n # vs)"
  shows "is_list (unlink_between (last (h # us)) n (hd (vs @ [h])) st) h (us @ vs)"
proof -
  have dist: "distinct (h # us @ vs)" and fresh: "n \<notin> set (h # us @ vs)"
    using ring by (auto simp: is_list_def)
  obtain bs p q cs where pos: "h # us = bs @ [p]" "vs @ [h] = q # cs"
    "p = last (h # us)" "q = hd (vs @ [h])"
    and ne: "p \<notin> set bs" "p \<notin> set (butlast (q # cs))" "q \<notin> set cs" "q \<notin> set (tl (bs @ [p]))"
    using dist by (rule ring_position)
  have split: "h # us @ ws @ vs @ [h] = bs @ p # ws @ q # cs" for ws
    using pos(1,2) by (metis append.assoc append_Cons append_Nil)
  have "linked st (bs @ p # n # q # cs)" "n \<notin> set (bs @ p # q # cs)"
    using ring fresh split [of "[]", symmetric] split [of "[n]", symmetric]
    by (simp_all add: is_list_def)
  then have "linked (unlink_between p n q st) (h # us @ [] @ vs @ [h])"
    using ne unfolding split by (simp add: linked_unlink)
  with dist pos(3,4) show ?thesis by (simp add: is_list_def)
qed

lemma ring_neighbours:
  assumes "is_list st h (us @ vs)"
  shows "nxt st (last (h # us)) = hd (vs @ [h])" "prv st (hd (vs @ [h])) = last (h # us)"
proof -
  obtain bs p where bs: "h # us = bs @ [p]" by (metis list.distinct(1) rev_exhaust)
  obtain q cs where cs: "vs @ [h] = q # cs" by (metis list.exhaust snoc_eq_iff_butlast)
  have "linked st (bs @ p # q # cs)"
    using assms bs cs unfolding is_list_def by (metis append.assoc append_Cons append_Nil)
  then show "nxt st (last (h # us)) = hd (vs @ [h])" "prv st (hd (vs @ [h])) = last (h # us)"
    unfolding bs cs by (simp_all add: linked_split)
qed

text \<open>Each operation of the header is one of the two link updates.\<close>

lemma rt_list_insert_after_link:
  "nxt st l = q \<Longrightarrow> n \<noteq> l \<Longrightarrow> rt_list_insert_after l n st = link_between l n q st"
  by (simp add: rt_list_insert_after_def link_between_def set_next_def set_prev_def Let_def
      fun_upd_twist)

lemma rt_list_insert_before_link:
  "prv st l = p \<Longrightarrow> n \<noteq> l \<Longrightarrow> rt_list_insert_before l n st = link_between p n l st"
  by (simp add: rt_list_insert_before_def link_between_def set_next_def set_prev_def Let_def
      fun_upd_twist)

lemma rt_list_remove_unlink:
  "nxt st n = q \<Longrightarrow> prv st n = p \<Longrightarrow> rt_list_remove n st = unlink_between p n q st"
  by (auto simp: rt_list_remove_def unlink_between_def set_next_def set_prev_def Let_def)

section \<open>A store of disjoint lists\<close>

text \<open>
  The nodes of the kernel are list heads (ready-queue slots, IPC wait queues, ...) and the
  \<^verbatim>\<open>tlist\<close>, \<^verbatim>\<open>list\<close> or \<^verbatim>\<open>row\<close> members of objects. \<open>store_rel st L\<close>: the
  ring of every head \<open>h\<close> holds exactly the objects \<open>L h\<close>, no object is in two lists, and the
  node of an object in no list points to itself, as \<^verbatim>\<open>rt_list_init\<close> and
  \<^verbatim>\<open>rt_list_remove\<close> leave it.
\<close>

datatype ('h, 'n) lnode = Head 'h | Node 'n

definition store_rel :: "('h, 'n) lnode list_store \<Rightarrow> ('h \<Rightarrow> 'n list) \<Rightarrow> bool" where
  "store_rel st L \<longleftrightarrow>
     (\<forall>h. is_list st (Head h) (map Node (L h))) \<and>
     (\<forall>h h'. h \<noteq> h' \<longrightarrow> set (L h) \<inter> set (L h') = {}) \<and>
     (\<forall>n. (\<forall>h. n \<notin> set (L h)) \<longrightarrow> nxt st (Node n) = Node n \<and> prv st (Node n) = Node n)"

definition detached :: "'n \<Rightarrow> ('h \<Rightarrow> 'n list) \<Rightarrow> bool" where
  "detached n L \<longleftrightarrow> (\<forall>h. n \<notin> set (L h))"

definition ll_insert_head :: "'h \<Rightarrow> 'n \<Rightarrow> ('h \<Rightarrow> 'n list) \<Rightarrow> ('h \<Rightarrow> 'n list)" where
  "ll_insert_head h n L = L(h := n # L h)"

definition ll_insert_tail :: "'h \<Rightarrow> 'n \<Rightarrow> ('h \<Rightarrow> 'n list) \<Rightarrow> ('h \<Rightarrow> 'n list)" where
  "ll_insert_tail h n L = L(h := L h @ [n])"

definition ll_remove :: "'n \<Rightarrow> ('h \<Rightarrow> 'n list) \<Rightarrow> ('h \<Rightarrow> 'n list)" where
  "ll_remove n L = (\<lambda>h. removeAll n (L h))"

lemma store_rel_distinct: "store_rel st L \<Longrightarrow> distinct (L h)"
  by (auto simp: store_rel_def is_list_def distinct_map)

lemma store_rel_disjoint: "store_rel st L \<Longrightarrow> g \<noteq> h \<Longrightarrow> set (L h) \<inter> set (L g) = {}"
  by (simp add: store_rel_def)

lemma last_in_ring: "last (Head h # map Node us) \<in> insert (Head h) (Node ` set us)"
  by (cases us rule: rev_cases) auto

lemma hd_in_ring: "hd (map Node vs @ [Head h]) \<in> insert (Head h) (Node ` set vs)"
  by (cases vs) auto

lemmas ends_in_ring = last_in_ring hd_in_ring

lemma link_frame:
  "is_list st g ys \<Longrightarrow> {p, n, q} \<inter> set (g # ys) = {} \<Longrightarrow> is_list (link_between p n q st) g ys"
  by (erule is_list_frame) (auto simp: link_between_def)

lemma unlink_frame:
  "is_list st g ys \<Longrightarrow> {p, n, q} \<inter> set (g # ys) = {} \<Longrightarrow> is_list (unlink_between p n q st) g ys"
  by (erule is_list_frame) (auto simp: unlink_between_def)

lemma other_ring:
  assumes "p \<in> insert (Head h) (Node ` S)" "q \<in> insert (Head h) (Node ` S)"
    and "h' \<noteq> h" "insert n S \<inter> set xs = {}"
  shows "{p, Node n, q} \<inter> set (Head h' # map Node xs) = {}"
  using assms by auto

lemma store_link:
  assumes rel: "store_rel st L" and Lh: "L h = us @ vs" and det: "detached n L"
  shows "store_rel (link_between (last (Head h # map Node us)) (Node n)
           (hd (map Node vs @ [Head h])) st) (L(h := us @ n # vs))"
proof -
  define p q where "p = last (Head h # map Node us)" and "q = hd (map Node vs @ [Head h])"
  let ?st = "link_between p (Node n) q st" and ?L = "L(h := us @ n # vs)"
  have pq: "p \<in> insert (Head h) (Node ` set (L h))" "q \<in> insert (Head h) (Node ` set (L h))"
    using ends_in_ring(1) [of h us] ends_in_ring(2) [of vs h] Lh by (auto simp: p_def q_def)
  have n: "n \<notin> set (L g)" for g using det by (simp add: detached_def)
  have "is_list st (Head h) (map Node us @ map Node vs)"
    using rel Lh by (metis map_append store_rel_def)
  moreover have "Node n \<notin> set (Head h # map Node us @ map Node vs)"
    using n [of h] Lh by auto
  ultimately have "is_list ?st (Head h) (map Node (?L h))"
    by (simp add: is_list_link p_def q_def del: last.simps)
  moreover have "is_list ?st (Head g) (map Node (?L g))" if g: "g \<noteq> h" for g
  proof -
    have "insert n (set (L h)) \<inter> set (L g) = {}"
      using n store_rel_disjoint [OF rel g] by blast
    from other_ring [OF pq g this] rel show ?thesis
      by (simp add: link_frame store_rel_def g del: set_map list.set)
  qed
  ultimately have "\<forall>g. is_list ?st (Head g) (map Node (?L g))" by metis
  moreover have "nxt ?st (Node m) = Node m \<and> prv ?st (Node m) = Node m"
    if "\<forall>g. m \<notin> set (?L g)" for m
  proof -
    have "m \<noteq> n" using spec [OF that, of h] by simp
    moreover have "m \<notin> set (L g)" for g using spec [OF that, of g] Lh by (cases "g = h") auto
    ultimately have "Node m \<notin> {p, Node n, q}" "nxt st (Node m) = Node m" "prv st (Node m) = Node m"
      using pq rel unfolding store_rel_def by blast+
    then show ?thesis by (simp add: link_between_def)
  qed
  moreover have "set (?L h1) \<inter> set (?L h2) = {}" if "h1 \<noteq> h2" for h1 h2
    using n [of h1] n [of h2] Lh that store_rel_disjoint [OF rel that] by auto
  ultimately show ?thesis by (simp add: store_rel_def p_def q_def)
qed

lemma store_unlink:
  assumes rel: "store_rel st L" and Lh: "L h = us @ n # vs"
  shows "store_rel (unlink_between (last (Head h # map Node us)) (Node n)
           (hd (map Node vs @ [Head h])) st) (L(h := us @ vs))"
proof -
  define p q where "p = last (Head h # map Node us)" and "q = hd (map Node vs @ [Head h])"
  let ?st = "unlink_between p (Node n) q st" and ?L = "L(h := us @ vs)"
  have pq: "p \<in> insert (Head h) (Node ` set (?L h))" "q \<in> insert (Head h) (Node ` set (?L h))"
    using ends_in_ring(1) [of h us] ends_in_ring(2) [of vs h] by (auto simp: p_def q_def)
  have ring: "is_list st (Head h) (map Node us @ Node n # map Node vs)"
    using rel Lh by (metis list.simps(9) map_append store_rel_def)
  have sub: "set (?L g) \<subseteq> set (L g)" for g using Lh by auto
  have "is_list ?st (Head h) (map Node (?L h))"
    using is_list_unlink [OF ring] by (simp add: p_def q_def)
  moreover have "is_list ?st (Head g) (map Node (?L g))" if g: "g \<noteq> h" for g
  proof -
    have "insert n (set (?L h)) \<inter> set (L g) = {}"
      using Lh store_rel_disjoint [OF rel g] by auto
    from other_ring [OF pq g this] rel show ?thesis
      by (simp add: unlink_frame store_rel_def g del: set_map list.set)
  qed
  ultimately have "\<forall>g. is_list ?st (Head g) (map Node (?L g))" by metis
  moreover have "nxt ?st (Node m) = Node m \<and> prv ?st (Node m) = Node m"
    if m: "\<forall>g. m \<notin> set (?L g)" for m
  proof (cases "m = n")
    case False
    have "m \<notin> set (L g)" for g using spec [OF m, of g] False Lh by (cases "g = h") auto
    then have "Node m \<notin> {p, Node n, q}" "nxt st (Node m) = Node m" "prv st (Node m) = Node m"
      using m pq rel False unfolding store_rel_def by blast+
    then show ?thesis by (simp add: unlink_between_def)
  qed (simp add: unlink_between_def)
  moreover have "set (?L h1) \<inter> set (?L h2) = {}" if "h1 \<noteq> h2" for h1 h2
    using sub [of h1] sub [of h2] store_rel_disjoint [OF rel that] by blast
  ultimately show ?thesis by (simp add: store_rel_def p_def q_def)
qed

lemma rt_list_insert_before_head_refines:
  assumes "store_rel st L" "detached n L"
  shows "store_rel (rt_list_insert_before (Head h) (Node n) st) (ll_insert_tail h n L)"
proof -
  have "is_list st (Head h) (map Node (L h) @ [])" using assms(1) by (simp add: store_rel_def)
  from ring_neighbours(2) [OF this]
  have "rt_list_insert_before (Head h) (Node n) st =
      link_between (last (Head h # map Node (L h))) (Node n) (Head h) st"
    by (simp add: rt_list_insert_before_link del: last.simps)
  with store_link [OF assms(1) _ assms(2), of h "L h" "[]"] show ?thesis
    by (simp add: ll_insert_tail_def del: last.simps)
qed

lemma rt_list_insert_after_head_refines:
  assumes "store_rel st L" "detached n L"
  shows "store_rel (rt_list_insert_after (Head h) (Node n) st) (ll_insert_head h n L)"
proof -
  have "is_list st (Head h) ([] @ map Node (L h))" using assms(1) by (simp add: store_rel_def)
  from ring_neighbours(1) [OF this]
  have "rt_list_insert_after (Head h) (Node n) st =
      link_between (Head h) (Node n) (hd (map Node (L h) @ [Head h])) st"
    by (simp add: rt_list_insert_after_link)
  with store_link [OF assms(1) _ assms(2), of h "[]" "L h"] show ?thesis
    by (simp add: ll_insert_head_def)
qed

lemma rt_list_insert_before_node_refines:
  assumes "store_rel st L" "detached n L" "L h = us @ m # vs"
  shows "store_rel (rt_list_insert_before (Node m) (Node n) st) (L(h := us @ n # m # vs))"
proof -
  have "is_list st (Head h) (map Node us @ map Node (m # vs))"
    using assms(1,3) by (metis map_append store_rel_def)
  from ring_neighbours(2) [OF this]
  have "prv st (Node m) = last (Head h # map Node us)" by (simp del: last.simps)
  moreover have "m \<noteq> n" using assms(2,3) by (auto simp: detached_def dest: spec [of _ h])
  ultimately have "rt_list_insert_before (Node m) (Node n) st =
      link_between (last (Head h # map Node us)) (Node n) (Node m) st"
    by (simp add: rt_list_insert_before_link del: last.simps)
  with store_link [OF assms(1,3,2)] show ?thesis by (simp del: last.simps)
qed

lemma unlink_self: "nxt st n = n \<Longrightarrow> prv st n = n \<Longrightarrow> unlink_between n n n st = st"
  by (simp add: unlink_between_def fun_upd_idem)

lemma rt_list_remove_refines:
  assumes rel: "store_rel st L"
  shows "store_rel (rt_list_remove (Node n) st) (ll_remove n L)"
proof (cases "detached n L")
  case True
  then have "nxt st (Node n) = Node n" "prv st (Node n) = Node n" "ll_remove n L = L"
    using rel by (auto simp: detached_def store_rel_def ll_remove_def removeAll_id)
  with rel show ?thesis by (simp add: rt_list_remove_unlink unlink_self)
next
  case False
  then obtain h where h: "n \<in> set (L h)" by (auto simp: detached_def)
  then obtain us vs where Lh: "L h = us @ n # vs" by (meson split_list)
  have "n \<notin> set (L h')" if "h' \<noteq> h" for h'
    using rel h that by (auto simp: store_rel_def)
  then have "ll_remove n L = L(h := us @ vs)"
    using store_rel_distinct [OF rel, of h] Lh
    by (auto simp: ll_remove_def fun_eq_iff removeAll_id)
  moreover have "nxt st (Node n) = hd (map Node vs @ [Head h])"
      "prv st (Node n) = last (Head h # map Node us)"
    using ring_neighbours [of st "Head h" "map Node us @ [Node n]" "map Node vs"]
      ring_neighbours [of st "Head h" "map Node us" "Node n # map Node vs"] rel Lh
    by (simp_all add: store_rel_def del: last.simps) (metis append.assoc append_Cons append_Nil
        last_snoc list.distinct(1) list.simps(9) map_append last_ConsR snoc_eq_iff_butlast)+
  ultimately show ?thesis
    using store_unlink [OF rel Lh] by (simp add: rt_list_remove_unlink del: last.simps)
qed

lemma nxt_head:
  assumes "store_rel st L"
  shows "nxt st (Head h) = hd (map Node (L h) @ [Head h])"
proof -
  have "is_list st (Head h) ([] @ map Node (L h))" using assms by (simp add: store_rel_def)
  from ring_neighbours(1) [OF this] show ?thesis by simp
qed

lemma rt_list_isempty_refines:
  "store_rel st L \<Longrightarrow> rt_list_isempty (Head h) st \<longleftrightarrow> L h = []"
  by (cases "L h") (auto simp: rt_list_isempty_def nxt_head)

lemma rt_list_first_refines:
  "store_rel st L \<Longrightarrow> L h \<noteq> [] \<Longrightarrow> nxt st (Head h) = Node (hd (L h))"
  by (cases "L h") (auto simp: nxt_head)

text \<open>\<^verbatim>\<open>rt_list_len\<close> ends on a well-formed ring and counts its nodes (modulo \<open>2 ^ 32\<close>).\<close>

lemma rt_list_len_loop_chain:
  "linked st (p # xs @ [l]) \<Longrightarrow> l \<notin> set xs \<Longrightarrow>
     rt_list_len_loop st l p k = Some (k + of_nat (length xs))"
  by (induction xs arbitrary: p k) (auto simp: rt_list_len_loop.simps [of st])

lemma rt_list_len_refines:
  assumes "store_rel st L"
  shows "rt_list_len (Head h) st = Some (of_nat (length (L h)))"
proof -
  have "is_list st (Head h) (map Node (L h))" using assms by (simp add: store_rel_def)
  then show ?thesis
    using rt_list_len_loop_chain [of st "Head h" "map Node (L h)" "Head h" 0]
    by (simp add: is_list_def rt_list_len_def)
qed

section \<open>The interface the kernel relies on\<close>

text \<open>
  What a client of the lists may use: a relation between the store and the sequences it holds,
  and one law per operation. The lemmas inside are the two moves the scheduler makes.
\<close>

locale intrusive_lists =
  fixes rel :: "'s \<Rightarrow> ('h \<Rightarrow> 'n list) \<Rightarrow> bool"
    and ins_tail ins_head :: "'h \<Rightarrow> 'n \<Rightarrow> 's \<Rightarrow> 's"
    and rem :: "'n \<Rightarrow> 's \<Rightarrow> 's"
    and isempty :: "'h \<Rightarrow> 's \<Rightarrow> bool"
    and first :: "'h \<Rightarrow> 's \<Rightarrow> 'n"
  assumes rel_distinct: "rel s L \<Longrightarrow> distinct (L h)"
    and rel_disjoint: "rel s L \<Longrightarrow> g \<noteq> h \<Longrightarrow> set (L h) \<inter> set (L g) = {}"
    and rel_tail: "rel s L \<Longrightarrow> detached n L \<Longrightarrow> rel (ins_tail h n s) (ll_insert_tail h n L)"
    and rel_head: "rel s L \<Longrightarrow> detached n L \<Longrightarrow> rel (ins_head h n s) (ll_insert_head h n L)"
    and rel_rem: "rel s L \<Longrightarrow> rel (rem n s) (ll_remove n L)"
    and rel_isempty: "rel s L \<Longrightarrow> isempty h s \<longleftrightarrow> L h = []"
    and rel_first: "rel s L \<Longrightarrow> L h \<noteq> [] \<Longrightarrow> first h s = hd (L h)"
begin

lemma requeue:
  "rel s L \<Longrightarrow> rel (ins_tail h n (rem n s)) ((ll_remove n L)(h := removeAll n (L h) @ [n]))"
  using rel_tail [OF rel_rem [of s L n], of n h]
  by (simp add: ll_remove_def detached_def ll_insert_tail_def)

lemma rotate:
  assumes "rel s L" "L h \<noteq> []"
  shows "rel (ins_tail h (first h s) (rem (first h s) s)) (L(h := rotate1 (L h)))"
proof -
  obtain n xs where Lh: "L h = n # xs" using assms(2) by (cases "L h") auto
  have "n \<notin> set xs" using rel_distinct [OF assms(1), of h] Lh by simp
  moreover have "n \<notin> set (L g)" if "g \<noteq> h" for g
    using rel_disjoint [OF assms(1) that] Lh by auto
  ultimately have "(ll_remove n L)(h := removeAll n (L h) @ [n]) = L(h := rotate1 (L h))"
    using Lh by (auto simp: ll_remove_def fun_eq_iff removeAll_id)
  with requeue [OF assms(1), of h n] rel_first [OF assms] Lh show ?thesis by simp
qed

end

interpretation ptr: intrusive_lists store_rel
    "\<lambda>h n. rt_list_insert_before (Head h) (Node n)" "\<lambda>h n. rt_list_insert_after (Head h) (Node n)"
    "\<lambda>n. rt_list_remove (Node n)" "\<lambda>h. rt_list_isempty (Head h)"
    "\<lambda>h st. (case nxt st (Head h) of Node n \<Rightarrow> n | Head _ \<Rightarrow> undefined)"
  by unfold_locales
    (auto simp: store_rel_distinct store_rel_disjoint rt_list_insert_before_head_refines
      rt_list_insert_after_head_refines rt_list_remove_refines rt_list_isempty_refines
      rt_list_first_refines)

section \<open>The lists as a whole\<close>

text \<open>A store with only empty rings.\<close>

definition empty_store :: "('h, 'n) lnode list_store" where
  "empty_store = \<lparr>nxt = \<lambda>p. p, prv = \<lambda>p. p\<rparr>"

lemma empty_store_rel: "store_rel empty_store (\<lambda>_. [])"
  by (simp add: store_rel_def empty_store_def is_list_def)

text \<open>
  C27. The pointer code of \<^verbatim>\<open>rt_list_insert_before\<close>, \<^verbatim>\<open>rt_list_insert_after\<close>, \<^verbatim>\<open>rt_list_remove\<close>,
  \<^verbatim>\<open>rt_list_isempty\<close> and \<^verbatim>\<open>rt_list_len\<close> implements appending, prepending, removal (of a linked or an
  unlinked node), the emptiness test and the length on finite sequences, and no operation disturbs
  another list.
\<close>

theorem list_ops_refine:
  assumes "store_rel st L" "detached n L"
  shows "store_rel (rt_list_insert_before (Head h) (Node n) st) (ll_insert_tail h n L) \<and>
     store_rel (rt_list_insert_after (Head h) (Node n) st) (ll_insert_head h n L) \<and>
     store_rel (rt_list_remove (Node m) st) (ll_remove m L) \<and>
     (rt_list_isempty (Head h) st \<longleftrightarrow> L h = []) \<and>
     rt_list_len (Head h) st = Some (of_nat (length (L h)))"
  using ptr.rel_tail [OF assms] ptr.rel_head [OF assms] ptr.rel_rem [OF assms(1)] ptr.rel_isempty [OF assms(1)]
    rt_list_len_refines [OF assms(1)] by blast

theorem list_ops_refine_witness:
  "store_rel (rt_list_insert_before (Head True) (Node (1 :: nat)) empty_store) ((\<lambda>_. [])(True := [1]))"
  using list_ops_refine [OF empty_store_rel, of "1 :: nat" True] by (simp add: detached_def ll_insert_tail_def)

end
