(* ===== verification/Rt_Kservice.thy ===== *)
theory Rt_Kservice
  imports Rt_Prelude
begin

text \<open>
  Kernel services of \<^verbatim>\<open>src/kservice.c\<close> on which the scheduler and the object system
  rest: the bitmap search \<^verbatim>\<open>__rt_ffs\<close> and the bounded string routines.
\<close>

section \<open>First set bit\<close>

text \<open>\<^verbatim>\<open>__lowest_bit_bitmap\<close>: sixteen rows of sixteen entries, row by row as in the source.\<close>

definition lowest_bit_row :: "nat list" where
  "lowest_bit_row = [0, 1, 0, 2, 0, 1, 0, 3, 0, 1, 0, 2, 0, 1, 0]"

definition lowest_bit_bitmap :: "nat list" where
  "lowest_bit_bitmap =
     0 # lowest_bit_row @ 4 # lowest_bit_row @ 5 # lowest_bit_row @ 4 # lowest_bit_row @
     6 # lowest_bit_row @ 4 # lowest_bit_row @ 5 # lowest_bit_row @ 4 # lowest_bit_row @
     7 # lowest_bit_row @ 4 # lowest_bit_row @ 5 # lowest_bit_row @ 4 # lowest_bit_row @
     6 # lowest_bit_row @ 4 # lowest_bit_row @ 5 # lowest_bit_row @ 4 # lowest_bit_row"

definition rt_ffs :: "u32 \<Rightarrow> int" where
  "rt_ffs v =
     (if v = 0 then 0
      else if v AND 0xff \<noteq> 0 then int (lowest_bit_bitmap ! unat (v AND 0xff)) + 1
      else if v AND 0xff00 \<noteq> 0 then
        int (lowest_bit_bitmap ! unat (drop_bit 8 (v AND 0xff00))) + 9
      else if v AND 0xff0000 \<noteq> 0 then
        int (lowest_bit_bitmap ! unat (drop_bit 16 (v AND 0xff0000))) + 17
      else int (lowest_bit_bitmap ! unat (drop_bit 24 (v AND 0xff000000))) + 25)"

text \<open>
  The table is a ruler: odd positions hold 0 and position \<open>2 * k\<close> holds one more than
  position \<open>k\<close>; hence every entry is the index of the lowest set bit.
\<close>

fun interleave :: "'a list \<Rightarrow> 'a list \<Rightarrow> 'a list" where
  "interleave (x # xs) (y # ys) = x # y # interleave xs ys"
| "interleave _ _ = []"

lemma nth_interleave:
  "length xs = length ys \<Longrightarrow> k < length xs \<Longrightarrow>
     interleave xs ys ! (2 * k) = xs ! k \<and> interleave xs ys ! Suc (2 * k) = ys ! k"
proof (induction xs ys arbitrary: k rule: interleave.induct)
  case (1 x xs y ys)
  then show ?case by (cases k) auto
qed auto

lemma lowest_bit_bitmap_ruler:
  "lowest_bit_bitmap =
     interleave (0 # map Suc (tl (take 128 lowest_bit_bitmap))) (replicate 128 0)"
  by (simp add: lowest_bit_bitmap_def lowest_bit_row_def numeral_eq_Suc)

lemma length_lowest_bit_bitmap: "length lowest_bit_bitmap = 256"
  by (simp add: lowest_bit_bitmap_def lowest_bit_row_def)

lemma lowest_bit_rec:
  assumes "k < 128"
  shows "lowest_bit_bitmap ! Suc (2 * k) = 0"
    and "0 < k \<Longrightarrow> lowest_bit_bitmap ! (2 * k) = Suc (lowest_bit_bitmap ! k)"
proof -
  let ?e = "0 # map Suc (tl (take 128 lowest_bit_bitmap))"
  have "length ?e = length (replicate 128 0)" by (simp add: length_lowest_bit_bitmap)
  from nth_interleave [OF this, of k] assms lowest_bit_bitmap_ruler
  have "lowest_bit_bitmap ! (2 * k) = ?e ! k \<and> lowest_bit_bitmap ! Suc (2 * k) = replicate 128 0 ! k"
    by (simp add: length_lowest_bit_bitmap)
  then show "lowest_bit_bitmap ! Suc (2 * k) = 0"
    and "0 < k \<Longrightarrow> lowest_bit_bitmap ! (2 * k) = Suc (lowest_bit_bitmap ! k)"
    using assms by (auto simp: nth_Cons' nth_tl length_lowest_bit_bitmap)
qed

lemma lowest_bit_byte:
  assumes "b \<noteq> 0" "b < 256"
  shows "bit b (lowest_bit_bitmap ! b)" "i < lowest_bit_bitmap ! b \<Longrightarrow> \<not> bit b i"
proof -
  have "bit b (lowest_bit_bitmap ! b) \<and> (\<forall>i < lowest_bit_bitmap ! b. \<not> bit b i)"
    using assms
  proof (induction b rule: less_induct)
    case (less b)
    obtain k where k: "b = 2 * k \<or> b = Suc (2 * k)" by (metis evenE oddE Suc_eq_plus1)
    then have "k < 128" using less.prems by auto
    note rec = lowest_bit_rec [OF this]
    show ?case
    proof (cases "b = 2 * k")
      case True
      then have "0 < k" "k < b" using less.prems by auto
      with less.IH [of k] less.prems rec(2) True show ?thesis
        by (auto simp: bit_double_iff less_Suc_eq_0_disj)
    next
      case False
      with k rec(1) show ?thesis by (auto simp: bit_0)
    qed
  qed
  then show "bit b (lowest_bit_bitmap ! b)" "i < lowest_bit_bitmap ! b \<Longrightarrow> \<not> bit b i"
    by auto
qed

text \<open>One byte of the word, as the code masks and shifts it out.\<close>

lemma byte_of_word:
  fixes v :: u32
  assumes "m = push_bit n (mask 8)" "n \<le> 24"
  shows "bit (unat (drop_bit n (v AND m))) i \<longleftrightarrow> i < 8 \<and> bit v (n + i)"
    and "unat (drop_bit n (v AND m)) < 256"
proof -
  have m: "bit m j \<longleftrightarrow> n \<le> j \<and> j < n + 8" if "j < 32" for j
    using assms that by (auto simp: bit_push_bit_iff bit_mask_iff)
  show b: "bit (unat (drop_bit n (v AND m))) i \<longleftrightarrow> i < 8 \<and> bit v (n + i)" for i
    using m [of "n + i"] assms(2) bit_imp_le_length [of v "n + i"]
    by (auto simp: bit_unsigned_iff bit_drop_bit_eq bit_and_iff dest: bit_imp_le_length)
  have "take_bit 8 (unat (drop_bit n (v AND m))) = unat (drop_bit n (v AND m))"
    by (rule bit_eqI) (use b in \<open>auto simp: bit_take_bit_iff simp del: drop_bit_and\<close>)
  then show "unat (drop_bit n (v AND m)) < 256"
    using take_bit_nat_less_exp [of 8 "unat (drop_bit n (v AND m))"] by simp
qed

text \<open>The first non-zero byte holds the lowest set bit of the word.\<close>

lemma ffs_byte:
  fixes v :: u32
  assumes m: "m = push_bit n (mask 8)" "n \<le> 24" and nz: "v AND m \<noteq> 0"
    and low: "\<And>i. i < n \<Longrightarrow> \<not> bit v i"
  defines "e \<equiv> lowest_bit_bitmap ! unat (drop_bit n (v AND m))"
  shows "bit v (n + e)" "i < n + e \<Longrightarrow> \<not> bit v i"
proof -
  let ?b = "unat (drop_bit n (v AND m))"
  have "?b \<noteq> 0"
  proof
    assume "?b = 0"
    then have b0: "\<not> bit v (n + i)" if "i < 8" for i
      using byte_of_word(1) [OF m, of v i] that by simp
    have "v AND m = 0"
    proof (rule bit_eqI)
      fix j assume "possible_bit TYPE(32 word) j"
      show "bit (v AND m) j \<longleftrightarrow> bit 0 j"
        using b0 [of "j - n"] m(1) by (auto simp: bit_and_iff bit_push_bit_iff bit_mask_iff)
    qed
    with nz show False by simp
  qed
  note low_byte = lowest_bit_byte [OF this byte_of_word(2) [OF m]]
  show "bit v (n + e)"
    using low_byte(1) byte_of_word(1) [OF m, of v e] by (simp add: e_def)
  show "\<not> bit v i" if "i < n + e"
  proof (cases "i < n")
    case False
    have "e < 8" using low_byte(1) byte_of_word(1) [OF m, of v e] by (simp add: e_def)
    then show ?thesis
      using low_byte(2) [of "i - n"] byte_of_word(1) [OF m, of v "i - n"] that False
      by (auto simp: e_def)
  qed (rule low)
qed

lemma low_byte_clear:
  fixes v :: u32
  assumes "m = push_bit n (mask 8)" "v AND m = 0" "n \<le> i" "i < n + 8"
  shows "\<not> bit v i"
proof
  assume b: "bit v i"
  then have "bit m i"
    using assms bit_imp_le_length [OF b] by (auto simp: bit_push_bit_iff bit_mask_iff)
  with b have "bit (v AND m) i" by (simp add: bit_and_iff)
  with assms(2) show False by simp
qed

lemma byte_masks:
  "(0xff :: u32) = push_bit 0 (mask 8)" "(0xff00 :: u32) = push_bit 8 (mask 8)"
  "(0xff0000 :: u32) = push_bit 16 (mask 8)" "(0xff000000 :: u32) = push_bit 24 (mask 8)"
  by (simp_all add: mask_eq_exp_minus_1 push_bit_eq_mult)

lemma rt_ffs_byte:
  fixes v :: u32
  assumes "m = push_bit n (mask 8)" "n \<le> 24" "v AND m \<noteq> 0" "\<And>i. i < n \<Longrightarrow> \<not> bit v i"
    and "rt_ffs v = int (lowest_bit_bitmap ! unat (drop_bit n (v AND m))) + 1 + int n"
  shows "\<exists>i. rt_ffs v = int i + 1 \<and> bit v i \<and> (\<forall>j<i. \<not> bit v j)"
  using ffs_byte [OF assms(1-4)] assms(5)
  by (intro exI [of _ "n + lowest_bit_bitmap ! unat (drop_bit n (v AND m))"]) (simp del: drop_bit_and)

lemma rt_ffs_lowest:
  assumes "v \<noteq> 0"
  shows "\<exists>i. rt_ffs v = int i + 1 \<and> bit v i \<and> (\<forall>j<i. \<not> bit v j)"
proof -
  note clear = low_byte_clear [OF byte_masks(1), of v] low_byte_clear [OF byte_masks(2), of v]
    low_byte_clear [OF byte_masks(3), of v] low_byte_clear [OF byte_masks(4), of v]
  consider (1) "v AND 0xff \<noteq> 0" | (2) "v AND 0xff = 0" "v AND 0xff00 \<noteq> 0"
    | (3) "v AND 0xff = 0" "v AND 0xff00 = 0" "v AND 0xff0000 \<noteq> 0"
    | (4) "v AND 0xff = 0" "v AND 0xff00 = 0" "v AND 0xff0000 = 0"
    by blast
  then show ?thesis
  proof cases
    case 1
    then show ?thesis
      using assms by (intro rt_ffs_byte [OF byte_masks(1)]) (auto simp: rt_ffs_def)
  next
    case 2
    then have "\<not> bit v i" if "i < 8" for i using clear(1) [of i] that by simp
    with 2 show ?thesis
      using assms by (intro rt_ffs_byte [OF byte_masks(2)]) (auto simp: rt_ffs_def)
  next
    case 3
    then have "\<not> bit v i" if "i < 16" for i
      using clear(1) [of i] clear(2) [of i] that by linarith
    with 3 show ?thesis
      using assms by (intro rt_ffs_byte [OF byte_masks(3)]) (auto simp: rt_ffs_def)
  next
    case 4
    then have low: "\<not> bit v i" if "i < 24" for i
      using clear(1) [of i] clear(2) [of i] clear(3) [of i] that by linarith
    have "v AND 0xff000000 \<noteq> 0"
    proof
      assume "v AND 0xff000000 = 0"
      then have "\<not> bit v i" if "i < 32" for i
        using low [of i] clear(4) [of i] that by linarith
      then have "v = 0" by (intro bit_eqI) (auto dest: bit_imp_le_length)
      with assms show False by simp
    qed
    with 4 low show ?thesis
      using assms by (intro rt_ffs_byte [OF byte_masks(4)]) (auto simp: rt_ffs_def)
  qed
qed

lemma rt_ffs_zero [simp]: "rt_ffs 0 = 0"
  by (simp add: rt_ffs_def)

text \<open>The form in which the scheduler uses it: \<^verbatim>\<open>__rt_ffs(group) - 1\<close> at 32 bits.\<close>

lemma ffs_index:
  assumes "v \<noteq> 0"
  shows "unat (word_of_int (rt_ffs v - 1) :: u32) < 32"
    and "bit v (unat (word_of_int (rt_ffs v - 1) :: u32))"
    and "\<And>j. j < unat (word_of_int (rt_ffs v - 1) :: u32) \<Longrightarrow> \<not> bit v j"
proof -
  obtain i where i: "rt_ffs v = int i + 1" "bit v i" "\<forall>j<i. \<not> bit v j"
    using rt_ffs_lowest [OF assms] by blast
  from i(2) have "i < 32" by (auto dest: bit_imp_le_length)
  with i(1) have "unat (word_of_int (rt_ffs v - 1) :: u32) = i"
    by (simp add: unat_of_nat take_bit_nat_eq_self)
  with i \<open>i < 32\<close> show "unat (word_of_int (rt_ffs v - 1) :: u32) < 32"
    "bit v (unat (word_of_int (rt_ffs v - 1) :: u32))"
    "\<And>j. j < unat (word_of_int (rt_ffs v - 1) :: u32) \<Longrightarrow> \<not> bit v j" by simp_all
qed

section \<open>Strings\<close>

text \<open>
  A C string is the list of its bytes; reading past the end of the list reads the terminating NUL.
  \<^verbatim>\<open>rt_strncpy\<close> gives the \<open>n\<close> bytes written at the destination.
\<close>

fun rt_strncpy :: "u8 list \<Rightarrow> nat \<Rightarrow> u8 list" where
  "rt_strncpy s 0 = []"
| "rt_strncpy [] (Suc n) = 0 # replicate n 0"
| "rt_strncpy (b # s) (Suc n) = (if b = 0 then 0 # replicate n 0 else b # rt_strncpy s n)"

definition first_byte :: "u8 list \<Rightarrow> u8" where
  "first_byte s = (case s of [] \<Rightarrow> 0 | b # _ \<Rightarrow> b)"

text \<open>The result is a \<^verbatim>\<open>signed char\<close>: the difference of the first bytes that differ, at 8 bits.\<close>

fun rt_strncmp :: "u8 list \<Rightarrow> u8 list \<Rightarrow> nat \<Rightarrow> int" where
  "rt_strncmp cs ct 0 = 0"
| "rt_strncmp cs ct (Suc count) =
     (let res = first_byte cs - first_byte ct in
      if res \<noteq> 0 \<or> first_byte cs = 0 then sint res
      else rt_strncmp (tl cs) (tl ct) count)"

fun rt_strcmp :: "u8 list \<Rightarrow> u8 list \<Rightarrow> int" where
  "rt_strcmp (a # cs) ct =
     (if a \<noteq> 0 \<and> a = first_byte ct then rt_strcmp cs (tl ct) else uint a - uint (first_byte ct))"
| "rt_strcmp [] ct = 0 - uint (first_byte ct)"

fun rt_strnlen :: "u8 list \<Rightarrow> nat \<Rightarrow> nat" where
  "rt_strnlen (b # s) (Suc n) = (if b = 0 then 0 else Suc (rt_strnlen s n))"
| "rt_strnlen _ _ = 0"

fun rt_strlen :: "u8 list \<Rightarrow> nat" where
  "rt_strlen (b # s) = (if b = 0 then 0 else Suc (rt_strlen s))"
| "rt_strlen [] = 0"

text \<open>The part of a buffer that counts as its string.\<close>

definition cstr :: "u8 list \<Rightarrow> u8 list" where
  "cstr s = takeWhile (\<lambda>b. b \<noteq> 0) s"

lemma length_rt_strncpy [simp]: "length (rt_strncpy s n) = n"
  by (induction s n rule: rt_strncpy.induct) auto

lemma cstr_replicate0 [simp]: "cstr (replicate n 0) = []" "cstr (0 # s) = []" "cstr [] = []"
  by (cases n; simp add: cstr_def)+

lemma cstr_rt_strncpy: "cstr (rt_strncpy s n) = take n (cstr s)"
  by (induction s n rule: rt_strncpy.induct) (auto simp: cstr_def)

lemma rt_strlen_cstr: "rt_strlen s = length (cstr s)"
  by (induction s) (auto simp: cstr_def)

lemma rt_strnlen_cstr: "rt_strnlen s n = min n (length (cstr s))"
  by (induction s n rule: rt_strnlen.induct) (auto simp: cstr_def)

lemma cstr_unfold: "cstr s = (if first_byte s = 0 then [] else first_byte s # cstr (tl s))"
  by (cases s) (simp_all add: cstr_def first_byte_def)

lemma sint_eq_0: "sint (w :: u8) = 0 \<longleftrightarrow> w = 0"
  by (rule signed_eq_0_iff)

text \<open>\<^verbatim>\<open>rt_strncmp\<close> is 0 exactly when the first \<open>n\<close> bytes of the two strings agree.\<close>

lemma rt_strncmp_eq_0: "rt_strncmp cs ct n = 0 \<longleftrightarrow> take n (cstr cs) = take n (cstr ct)"
proof (induction n arbitrary: cs ct)
  case (Suc n)
  show ?case
    using Suc [of "tl cs" "tl ct"] cstr_unfold [of cs] cstr_unfold [of ct]
    by (auto simp: Let_def sint_eq_0)
qed simp

text \<open>\<^verbatim>\<open>rt_strcmp\<close> is 0 exactly on equal strings.\<close>

lemma rt_strcmp_eq_0: "rt_strcmp cs ct = 0 \<longleftrightarrow> cstr cs = cstr ct"
proof (induction cs ct rule: rt_strcmp.induct)
  case (1 a cs ct)
  then show ?case
    using cstr_unfold [of ct] unsigned_word_eqI [of a "first_byte ct"] by (auto simp: cstr_def)
next
  case (2 ct)
  then show ?case using cstr_unfold [of ct] by (auto simp: cstr_def unsigned_eq_0_iff)
qed

section \<open>Properties\<close>

text \<open>
  C28. \<^verbatim>\<open>__rt_ffs\<close>, which finds the highest ready priority by table look-up, returns 0 for 0 and otherwise
  the position, counted from 1, of the lowest bit that is set.
\<close>

theorem ffs_correct:
  "if v = 0 then rt_ffs v = 0
   else \<exists>i. rt_ffs v = int i + 1 \<and> bit v i \<and> (\<forall>j. bit v j \<longrightarrow> i \<le> j)"
  using rt_ffs_lowest [of v] by (auto simp: not_less [symmetric])

theorem ffs_correct_witness: "\<exists>i. rt_ffs 0x28 = int i + 1 \<and> bit (0x28 :: u32) i"
  using ffs_correct [of "0x28"] by auto

end
