(* ===== verification/Rt_Kernel.thy ===== *)
theory Rt_Kernel
  imports Rt_List Rt_Kservice
begin

text \<open>
  The kernel's data (\<^verbatim>\<open>include/rtdef.h\<close>) as records, the state of the whole kernel, and the
  lock layer below everything else: \<^verbatim>\<open>src/cpu.c\<close>, \<^verbatim>\<open>src/irq.c\<close> and the context
  checks of \<^verbatim>\<open>include/rtdebug.h\<close>.

  The state has two parts. \<open>klock\<close> holds what the lock layer writes: the two nest counters
  of every thread, the two global spin locks, the interrupt mask of every CPU and the saved
  interrupt level of threads that were switched out inside \<^verbatim>\<open>rt_schedule\<close>. \<open>kcore\<close> holds
  everything the locks protect. Every operation takes the CPU it runs on as its first argument.
  A spin lock that is taken is never released while the caller spins in this sequential reading,
  so acquiring a taken lock gives \<open>None\<close>.
\<close>

section \<open>Kernel objects\<close>

text \<open>
  Addresses of kernel objects; the timer inside a thread is an object of its own. The last two are structures of the driver framework that
  hold wait lists but are not registered.
\<close>

datatype objref =
    OThread tid | OThreadTimer tid | OTimer objid | OSem objid | OMutex objid
  | OEvent objid | OMailBox objid | OMq objid | OMemPool objid | ODevice objid | OCompletion objid | ODataQueue objid

text \<open>
  List heads that link threads through their \<^verbatim>\<open>tlist\<close> member: the global ready lists, the
  ready lists of each CPU, the list of dead threads, the wait list of an object and the second
  wait list (of senders) of a mailbox or a data queue.
\<close>

datatype lhead = Ready nat | CpuReady cpu_id nat | Defunct | SuspendQ objref | SenderQ objref

record rt_object =
  obj_name :: "u8 list"
  obj_type :: u8
  obj_flag :: u8

text \<open>\<^verbatim>\<open>timeout_func\<close> with its \<^verbatim>\<open>parameter\<close>: the kernel's own function or a user's.\<close>

datatype timeout_fn = ThreadTimeout tid | UserTimeout nat

record rt_timer =
  timeout_func :: timeout_fn
  init_tick :: u32
  timeout_tick :: u32

record rt_thread =
  sp :: u32
  stack_addr :: u32
  stack_size :: u32
  stack_guard :: u8
  th_error :: rt_err_t
  stat :: u8
  bind_cpu :: nat
  oncpu :: nat
  current_priority :: u8
  init_priority :: u8
  number_mask :: u32
  event_set :: u32
  event_info :: u8
  th_init_tick :: u32
  remaining_tick :: u32
  cleanup :: "nat option"
  user_data :: u32

record rt_cpu =
  current_thread :: "tid option"
  irq_nest :: u16
  irq_switch_flag :: bool
  cpu_current_priority :: u8
  cpu_priority_group :: u32
  cpu_tick :: u32

record rt_semaphore =
  sem_value :: u16

record rt_mutex =
  mtx_value :: u16
  original_priority :: u8
  hold :: u8
  owner :: "tid option"

record rt_event =
  ev_set :: u32

record rt_mailbox =
  mb_pool :: "u32 list"
  mb_size :: u16
  mb_entry :: u16
  in_offset :: u16
  out_offset :: u16

text \<open>
  A message queue's pool is an array of slots; \<open>mq_next\<close> is the header of each slot and
  \<open>mq_data\<close> the bytes after it. Pointers into the pool are slot numbers.
\<close>

record rt_messagequeue =
  mq_next :: "nat \<Rightarrow> nat option"
  mq_data :: "nat \<Rightarrow> u8 list"
  mq_msg_size :: u16
  mq_max_msgs :: u16
  mq_entry :: u16
  msg_queue_head :: "nat option"
  msg_queue_tail :: "nat option"
  msg_queue_free :: "nat option"

text \<open>
  A memory pool is an array of blocks of equal size, each after a header word: the next free block
  while it is free, the pool it belongs to while it is allocated. Pointers into a pool are block numbers.
\<close>

datatype block_header = NextFree "nat option" | OwnedBy objid

record rt_mempool =
  mp_header :: "nat \<Rightarrow> block_header"
  mp_size :: u32
  block_size :: u32
  block_list :: "nat option"
  block_total_count :: u32
  block_free_count :: u32
  suspend_thread_count :: u32

section \<open>State\<close>

record kcore =
  threads :: "tid \<Rightarrow> rt_thread"
  lists :: "lhead \<Rightarrow> tid list"
  ready_priority_group :: u32
  cpus :: "cpu_id \<Rightarrow> rt_cpu"
  ipi_pending :: "cpu_id \<Rightarrow> bool"
  objs :: "objref \<Rightarrow> rt_object"
  container :: "nat \<Rightarrow> objref list"
  timers :: "objref \<Rightarrow> rt_timer"
  rt_timer_list :: "objref list"
  rt_soft_timer_list :: "objref list"
  sems :: "objid \<Rightarrow> rt_semaphore"
  mutexes :: "objid \<Rightarrow> rt_mutex"
  events :: "objid \<Rightarrow> rt_event"
  mailboxes :: "objid \<Rightarrow> rt_mailbox"
  mqueues :: "objid \<Rightarrow> rt_messagequeue"
  mempools :: "objid \<Rightarrow> rt_mempool"
  k_errno :: rt_err_t
  freed :: "objref list"

record klock =
  cpus_lock_nest :: "tid \<Rightarrow> u16"
  scheduler_lock_nest :: "tid \<Rightarrow> u16"
  cpus_lock :: bool
  critical_lock :: bool
  irq_disabled :: "cpu_id \<Rightarrow> bool"
  sp_reg :: "cpu_id \<Rightarrow> u32"
  switch_frame :: "tid \<Rightarrow> bool option"

record kstate =
  lk :: klock
  kc :: kcore

definition RT_CPU_DETACHED :: nat where "RT_CPU_DETACHED = RT_CPUS_NR"

abbreviation (input) cur :: "cpu_id \<Rightarrow> kcore \<Rightarrow> tid option" where
  "cur c k \<equiv> current_thread (cpus k c)"

text \<open>Writing one field of one thread or CPU.\<close>

definition upd_thread :: "tid \<Rightarrow> (rt_thread \<Rightarrow> rt_thread) \<Rightarrow> kcore \<Rightarrow> kcore" where
  "upd_thread t f k = k\<lparr>threads := (threads k)(t := f (threads k t))\<rparr>"

definition upd_cpu :: "cpu_id \<Rightarrow> (rt_cpu \<Rightarrow> rt_cpu) \<Rightarrow> kcore \<Rightarrow> kcore" where
  "upd_cpu c f k = k\<lparr>cpus := (cpus k)(c := f (cpus k c))\<rparr>"

definition upd_obj :: "objref \<Rightarrow> (rt_object \<Rightarrow> rt_object) \<Rightarrow> kcore \<Rightarrow> kcore" where
  "upd_obj r f k = k\<lparr>objs := (objs k)(r := f (objs k r))\<rparr>"

definition upd_timer :: "objref \<Rightarrow> (rt_timer \<Rightarrow> rt_timer) \<Rightarrow> kcore \<Rightarrow> kcore" where
  "upd_timer r f k = k\<lparr>timers := (timers k)(r := f (timers k r))\<rparr>"

section \<open>Locks\<close>

subsection \<open>Interrupt mask and spin lock of one CPU\<close>

definition rt_hw_local_irq_disable :: "cpu_id \<Rightarrow> kstate \<Rightarrow> bool \<times> kstate" where
  "rt_hw_local_irq_disable c s =
     (irq_disabled (lk s) c,
      s\<lparr>lk := (lk s)\<lparr>irq_disabled := (irq_disabled (lk s))(c := True)\<rparr>\<rparr>)"

definition rt_hw_local_irq_enable :: "cpu_id \<Rightarrow> bool \<Rightarrow> kstate \<Rightarrow> kstate" where
  "rt_hw_local_irq_enable c level s =
     s\<lparr>lk := (lk s)\<lparr>irq_disabled := (irq_disabled (lk s))(c := level)\<rparr>\<rparr>"

definition spin_lock_cpus :: "kstate \<Rightarrow> kstate option" where
  "spin_lock_cpus s = (if cpus_lock (lk s) then None else Some (s\<lparr>lk := (lk s)\<lparr>cpus_lock := True\<rparr>\<rparr>))"

definition spin_unlock_cpus :: "kstate \<Rightarrow> kstate" where
  "spin_unlock_cpus s = s\<lparr>lk := (lk s)\<lparr>cpus_lock := False\<rparr>\<rparr>"

definition upd_cpus_nest :: "tid \<Rightarrow> (u16 \<Rightarrow> u16) \<Rightarrow> kstate \<Rightarrow> kstate" where
  "upd_cpus_nest t f s =
     s\<lparr>lk := (lk s)\<lparr>cpus_lock_nest := (cpus_lock_nest (lk s))(t := f (cpus_lock_nest (lk s) t))\<rparr>\<rparr>"

definition upd_sched_nest :: "tid \<Rightarrow> (u16 \<Rightarrow> u16) \<Rightarrow> kstate \<Rightarrow> kstate" where
  "upd_sched_nest t f s =
     s\<lparr>lk := (lk s)\<lparr>scheduler_lock_nest :=
        (scheduler_lock_nest (lk s))(t := f (scheduler_lock_nest (lk s) t))\<rparr>\<rparr>"

subsection \<open>The CPUs lock\<close>

definition rt_cpus_lock :: "cpu_id \<Rightarrow> kstate \<Rightarrow> (bool \<times> kstate) option" where
  "rt_cpus_lock c s =
     (let (level, s) = rt_hw_local_irq_disable c s in
      case cur c (kc s) of
        None \<Rightarrow> Some (level, s)
      | Some t \<Rightarrow>
          (let n = cpus_lock_nest (lk s) t; s = upd_cpus_nest t (\<lambda>n. n + 1) s in
           if n = 0 then
             do { s \<leftarrow> spin_lock_cpus (upd_sched_nest t (\<lambda>n. n + 1) s);
                  Some (level, s) }
           else Some (level, s)))"

definition rt_cpus_unlock :: "cpu_id \<Rightarrow> bool \<Rightarrow> kstate \<Rightarrow> kstate" where
  "rt_cpus_unlock c level s =
     (let s1 =
        (case cur c (kc s) of
           None \<Rightarrow> s
         | Some t \<Rightarrow>
             (let s = upd_cpus_nest t (\<lambda>n. n - 1) s in
              if cpus_lock_nest (lk s) t = 0 then spin_unlock_cpus (upd_sched_nest t (\<lambda>n. n - 1) s)
              else s))
      in rt_hw_local_irq_enable c level s1)"

definition rt_cpus_lock_status_restore :: "cpu_id \<Rightarrow> tid \<Rightarrow> kstate \<Rightarrow> kstate" where
  "rt_cpus_lock_status_restore c t s =
     (let s = s\<lparr>kc := upd_cpu c (\<lambda>p. p\<lparr>current_thread := Some t\<rparr>) (kc s)\<rparr> in
      if cpus_lock_nest (lk s) t = 0 then spin_unlock_cpus s else s)"

abbreviation rt_hw_interrupt_disable :: "cpu_id \<Rightarrow> kstate \<Rightarrow> (bool \<times> kstate) option" where
  "rt_hw_interrupt_disable \<equiv> rt_cpus_lock"

abbreviation rt_hw_interrupt_enable :: "cpu_id \<Rightarrow> bool \<Rightarrow> kstate \<Rightarrow> kstate" where
  "rt_hw_interrupt_enable \<equiv> rt_cpus_unlock"

subsection \<open>What one lock adds\<close>

text \<open>
  \<open>lockn c th n L\<close>: the lock state after the CPU \<open>c\<close>, running \<open>th\<close>, has called
  \<^verbatim>\<open>rt_cpus_lock\<close> \<open>n\<close> times on \<open>L\<close>. \<open>lk_ok c th L\<close>: the lock can be taken from
  \<open>L\<close>, that is, the running thread holds it or nobody does, and there is room in the counter.
\<close>

definition lockn :: "cpu_id \<Rightarrow> tid option \<Rightarrow> nat \<Rightarrow> klock \<Rightarrow> klock" where
  "lockn c th n L =
     (if n = 0 then L
      else let L = L\<lparr>irq_disabled := (irq_disabled L)(c := True)\<rparr> in
        case th of None \<Rightarrow> L
        | Some t \<Rightarrow>
            (let m = cpus_lock_nest L t;
                 L = L\<lparr>cpus_lock_nest := (cpus_lock_nest L)(t := m + of_nat n)\<rparr> in
             if m = 0 then
               L\<lparr>scheduler_lock_nest := (scheduler_lock_nest L)(t := scheduler_lock_nest L t + 1),
                 cpus_lock := True\<rparr>
             else L))"

definition lk_ok :: "tid option \<Rightarrow> klock \<Rightarrow> bool" where
  "lk_ok th L \<longleftrightarrow>
     (case th of None \<Rightarrow> True
      | Some t \<Rightarrow> unat (cpus_lock_nest L t) < 0x8000 \<and>
                  (cpus_lock_nest L t = 0 \<longrightarrow> \<not> cpus_lock L))"

abbreviation mk :: "klock \<Rightarrow> kcore \<Rightarrow> kstate" where
  "mk L k \<equiv> \<lparr>lk = L, kc = k\<rparr>"

lemmas lock_defs = rt_hw_local_irq_disable_def rt_hw_local_irq_enable_def spin_lock_cpus_def
  spin_unlock_cpus_def upd_cpus_nest_def upd_sched_nest_def

lemma lockn_0 [simp]: "lockn c th 0 L = L"
  by (simp add: lockn_def)

text \<open>The nest counter has room for a few more levels.\<close>

lemma nest_room:
  fixes m :: u16
  assumes "unat m < 0x8000" "n < 0x1000"
  shows "m + of_nat n = 0 \<longleftrightarrow> m = 0 \<and> n = 0"
proof -
  have "unat (m + of_nat n) = unat m + n"
    using assms by (subst unat_add_lem [THEN iffD1]) (simp_all add: unat_of_nat take_bit_nat_eq_self)
  then show ?thesis using assms by (metis add_eq_0_iff_both_eq_0 unat_eq_zero unsigned_0)
qed

lemma rt_cpus_lock_first [simp]:
  assumes "lk_ok th L" "cur c k = th"
  shows "rt_cpus_lock c (mk L k) = Some (irq_disabled L c, mk (lockn c th (Suc 0) L) k)"
  using assms
  by (auto simp: rt_cpus_lock_def lock_defs lockn_def lk_ok_def Let_def split: option.splits)

lemma rt_cpus_lock_again [simp]:
  assumes "lk_ok th L" "cur c k = th" "n < 0x100"
  shows "rt_cpus_lock c (mk (lockn c th (Suc n) L) k) = Some (True, mk (lockn c th (Suc (Suc n)) L) k)"
proof (cases th)
  case None
  with assms(2) show ?thesis
    by (simp add: rt_cpus_lock_def lock_defs lockn_def Let_def)
next
  case (Some t)
  then have "cpus_lock_nest L t + of_nat (Suc n) \<noteq> 0"
    using assms nest_room [of "cpus_lock_nest L t" "Suc n"] by (simp add: lk_ok_def del: of_nat_Suc)
  then have "1 + (cpus_lock_nest L t + of_nat n) \<noteq> 0" by (simp add: add.left_commute add.assoc)
  with Some assms(2) show ?thesis
    by (auto simp: rt_cpus_lock_def lock_defs lockn_def Let_def fun_upd_upd algebra_simps)
qed

lemma rt_cpus_unlock_again [simp]:
  assumes "lk_ok th L" "cur c k = th" "n < 0x100"
  shows "rt_cpus_unlock c True (mk (lockn c th (Suc (Suc n)) L) k) = mk (lockn c th (Suc n) L) k"
proof (cases th)
  case None
  with assms(2) show ?thesis
    by (simp add: rt_cpus_unlock_def lock_defs lockn_def Let_def)
next
  case (Some t)
  then have "cpus_lock_nest L t + of_nat (Suc n) \<noteq> 0"
    using assms nest_room [of "cpus_lock_nest L t" "Suc n"] by (simp add: lk_ok_def del: of_nat_Suc)
  then have "1 + (cpus_lock_nest L t + of_nat n) \<noteq> 0" by (simp add: add.left_commute add.assoc)
  with Some assms(2) show ?thesis
    by (auto simp: rt_cpus_unlock_def lock_defs lockn_def Let_def fun_upd_upd algebra_simps)
qed

lemma rt_cpus_unlock_last [simp]:
  assumes "lk_ok th L" "cur c k = th"
  shows "rt_cpus_unlock c (irq_disabled L c) (mk (lockn c th (Suc 0) L) k) = mk L k"
  using assms
  by (cases th)
    (auto simp: rt_cpus_unlock_def lock_defs lockn_def lk_ok_def Let_def fun_upd_idem)

text \<open>A locked state can be locked again; the other CPU finds the lock taken.\<close>

lemma lockn_fields [simp]:
  "critical_lock (lockn c th n L) = critical_lock L"
  "sp_reg (lockn c th n L) = sp_reg L"
  "switch_frame (lockn c th n L) = switch_frame L"
  by (auto simp: lockn_def Let_def split: option.splits)

lemma lockn_irq [simp]: "irq_disabled (lockn c th (Suc n) L) c"
  by (auto simp: lockn_def Let_def split: option.splits)

section \<open>Interrupt nesting\<close>

definition rt_interrupt_enter :: "cpu_id \<Rightarrow> kstate \<Rightarrow> kstate option" where
  "rt_interrupt_enter c s =
     do { (level, s) \<leftarrow> rt_hw_interrupt_disable c s;
          let s = s\<lparr>kc := upd_cpu c (\<lambda>p. p\<lparr>irq_nest := irq_nest p + 1\<rparr>) (kc s)\<rparr>;
          Some (rt_hw_interrupt_enable c level s) }"

definition rt_interrupt_leave :: "cpu_id \<Rightarrow> kstate \<Rightarrow> kstate option" where
  "rt_interrupt_leave c s =
     do { (level, s) \<leftarrow> rt_hw_interrupt_disable c s;
          let s = s\<lparr>kc := upd_cpu c (\<lambda>p. p\<lparr>irq_nest := irq_nest p - 1\<rparr>) (kc s)\<rparr>;
          Some (rt_hw_interrupt_enable c level s) }"

definition rt_interrupt_get_nest :: "cpu_id \<Rightarrow> kstate \<Rightarrow> (u8 \<times> kstate) option" where
  "rt_interrupt_get_nest c s =
     do { (level, s) \<leftarrow> rt_hw_interrupt_disable c s;
          let ret = ucast (irq_nest (cpus (kc s) c));
          Some (ret, rt_hw_interrupt_enable c level s) }"

text \<open>\<^verbatim>\<open>rt_thread_self\<close> of \<^verbatim>\<open>src/thread.c\<close> is needed by the context checks below.\<close>

definition rt_thread_self :: "cpu_id \<Rightarrow> kstate \<Rightarrow> tid option \<times> kstate" where
  "rt_thread_self c s =
     (let (lock, s) = rt_hw_local_irq_disable c s;
          self = cur c (kc s)
      in (self, rt_hw_local_irq_enable c lock s))"

definition RT_DEBUG_NOT_IN_INTERRUPT :: "cpu_id \<Rightarrow> kstate \<Rightarrow> kstate option" where
  "RT_DEBUG_NOT_IN_INTERRUPT c s =
     do { (level, s) \<leftarrow> rt_hw_interrupt_disable c s;
          (nest, s) \<leftarrow> rt_interrupt_get_nest c s;
          RT_ASSERT (nest = 0);
          Some (rt_hw_interrupt_enable c level s) }"

definition RT_DEBUG_IN_THREAD_CONTEXT :: "cpu_id \<Rightarrow> kstate \<Rightarrow> kstate option" where
  "RT_DEBUG_IN_THREAD_CONTEXT c s =
     do { (level, s) \<leftarrow> rt_hw_interrupt_disable c s;
          let (self, s) = rt_thread_self c s;
          RT_ASSERT (self \<noteq> None);
          s \<leftarrow> RT_DEBUG_NOT_IN_INTERRUPT c s;
          Some (rt_hw_interrupt_enable c level s) }"

text \<open>
  Update rules the component proofs share: what a write to one part of the core leaves alone.
\<close>

named_theorems core_simps

lemma upd_thread_simps [simp, core_simps]:
  "threads (upd_thread t f k) = (threads k)(t := f (threads k t))"
  "lists (upd_thread t f k) = lists k"
  "ready_priority_group (upd_thread t f k) = ready_priority_group k"
  "cpus (upd_thread t f k) = cpus k" "ipi_pending (upd_thread t f k) = ipi_pending k"
  "objs (upd_thread t f k) = objs k" "container (upd_thread t f k) = container k"
  "timers (upd_thread t f k) = timers k" "rt_timer_list (upd_thread t f k) = rt_timer_list k"
  "rt_soft_timer_list (upd_thread t f k) = rt_soft_timer_list k"
  "sems (upd_thread t f k) = sems k" "mutexes (upd_thread t f k) = mutexes k"
  "events (upd_thread t f k) = events k" "mailboxes (upd_thread t f k) = mailboxes k"
  "mqueues (upd_thread t f k) = mqueues k" "mempools (upd_thread t f k) = mempools k" "freed (upd_thread t f k) = freed k"
  by (simp_all add: upd_thread_def)

lemma upd_cpu_simps [simp, core_simps]:
  "cpus (upd_cpu c f k) = (cpus k)(c := f (cpus k c))"
  "threads (upd_cpu c f k) = threads k" "lists (upd_cpu c f k) = lists k"
  "ready_priority_group (upd_cpu c f k) = ready_priority_group k"
  "ipi_pending (upd_cpu c f k) = ipi_pending k"
  "objs (upd_cpu c f k) = objs k" "container (upd_cpu c f k) = container k"
  "timers (upd_cpu c f k) = timers k" "rt_timer_list (upd_cpu c f k) = rt_timer_list k"
  "rt_soft_timer_list (upd_cpu c f k) = rt_soft_timer_list k"
  "sems (upd_cpu c f k) = sems k" "mutexes (upd_cpu c f k) = mutexes k"
  "events (upd_cpu c f k) = events k" "mailboxes (upd_cpu c f k) = mailboxes k"
  "mqueues (upd_cpu c f k) = mqueues k" "mempools (upd_cpu c f k) = mempools k" "freed (upd_cpu c f k) = freed k"
  by (simp_all add: upd_cpu_def)

lemma upd_obj_simps [simp, core_simps]:
  "objs (upd_obj r f k) = (objs k)(r := f (objs k r))"
  "threads (upd_obj r f k) = threads k" "lists (upd_obj r f k) = lists k"
  "ready_priority_group (upd_obj r f k) = ready_priority_group k"
  "cpus (upd_obj r f k) = cpus k" "ipi_pending (upd_obj r f k) = ipi_pending k"
  "container (upd_obj r f k) = container k"
  "timers (upd_obj r f k) = timers k" "rt_timer_list (upd_obj r f k) = rt_timer_list k"
  "rt_soft_timer_list (upd_obj r f k) = rt_soft_timer_list k"
  "sems (upd_obj r f k) = sems k" "mutexes (upd_obj r f k) = mutexes k"
  "events (upd_obj r f k) = events k" "mailboxes (upd_obj r f k) = mailboxes k"
  "mqueues (upd_obj r f k) = mqueues k" "mempools (upd_obj r f k) = mempools k" "freed (upd_obj r f k) = freed k"
  by (simp_all add: upd_obj_def)

lemma upd_timer_simps [simp, core_simps]:
  "timers (upd_timer r f k) = (timers k)(r := f (timers k r))"
  "threads (upd_timer r f k) = threads k" "lists (upd_timer r f k) = lists k"
  "ready_priority_group (upd_timer r f k) = ready_priority_group k"
  "cpus (upd_timer r f k) = cpus k" "ipi_pending (upd_timer r f k) = ipi_pending k"
  "objs (upd_timer r f k) = objs k" "container (upd_timer r f k) = container k"
  "rt_timer_list (upd_timer r f k) = rt_timer_list k"
  "rt_soft_timer_list (upd_timer r f k) = rt_soft_timer_list k"
  "sems (upd_timer r f k) = sems k" "mutexes (upd_timer r f k) = mutexes k"
  "events (upd_timer r f k) = events k" "mailboxes (upd_timer r f k) = mailboxes k"
  "mqueues (upd_timer r f k) = mqueues k" "mempools (upd_timer r f k) = mempools k" "freed (upd_timer r f k) = freed k"
  by (simp_all add: upd_timer_def)

text \<open>Every protected operation of this theory, outside the lock.\<close>

lemma rt_interrupt_nest_first:
  assumes "lk_ok th L" "cur c k = th"
  shows "rt_interrupt_enter c (mk L k) = Some (mk L (upd_cpu c (\<lambda>p. p\<lparr>irq_nest := irq_nest p + 1\<rparr>) k))"
    and "rt_interrupt_leave c (mk L k) = Some (mk L (upd_cpu c (\<lambda>p. p\<lparr>irq_nest := irq_nest p - 1\<rparr>) k))"
  using assms by (simp_all add: rt_interrupt_enter_def rt_interrupt_leave_def)

lemma rt_thread_self_eq [simp]: "rt_thread_self c s = (cur c (kc s), s)"
  by (simp add: rt_thread_self_def lock_defs)

lemma rt_interrupt_get_nest_first [simp]:
  "lk_ok th L \<Longrightarrow> cur c k = th \<Longrightarrow>
     rt_interrupt_get_nest c (mk L k) = Some (ucast (irq_nest (cpus k c)), mk L k)"
  by (simp add: rt_interrupt_get_nest_def)

lemma rt_interrupt_get_nest_again [simp]:
  "lk_ok th L \<Longrightarrow> cur c k = th \<Longrightarrow> n < 0xff \<Longrightarrow>
     rt_interrupt_get_nest c (mk (lockn c th (Suc n) L) k) =
       Some (ucast (irq_nest (cpus k c)), mk (lockn c th (Suc n) L) k)"
  by (simp add: rt_interrupt_get_nest_def)

text \<open>The CPU is not serving an interrupt, as the checks read it.\<close>

abbreviation not_in_irq :: "cpu_id \<Rightarrow> kcore \<Rightarrow> bool" where
  "not_in_irq c k \<equiv> (ucast (irq_nest (cpus k c)) :: u8) = 0"

lemma not_in_interrupt_first [simp]:
  "lk_ok th L \<Longrightarrow> cur c k = th \<Longrightarrow>
     RT_DEBUG_NOT_IN_INTERRUPT c (mk L k) = (if not_in_irq c k then Some (mk L k) else None)"
  by (simp add: RT_DEBUG_NOT_IN_INTERRUPT_def)

lemma not_in_interrupt_again [simp]:
  "lk_ok th L \<Longrightarrow> cur c k = th \<Longrightarrow> n < 0xfe \<Longrightarrow>
     RT_DEBUG_NOT_IN_INTERRUPT c (mk (lockn c th (Suc n) L) k) =
       (if not_in_irq c k then Some (mk (lockn c th (Suc n) L) k) else None)"
  by (simp add: RT_DEBUG_NOT_IN_INTERRUPT_def)

lemma in_thread_context_first [simp]:
  "lk_ok th L \<Longrightarrow> cur c k = th \<Longrightarrow>
     RT_DEBUG_IN_THREAD_CONTEXT c (mk L k) =
       (if th \<noteq> None \<and> not_in_irq c k then Some (mk L k) else None)"
  by (auto simp: RT_DEBUG_IN_THREAD_CONTEXT_def)

lemma in_thread_context_again [simp]:
  "lk_ok th L \<Longrightarrow> cur c k = th \<Longrightarrow> n < 0xf0 \<Longrightarrow>
     RT_DEBUG_IN_THREAD_CONTEXT c (mk (lockn c th (Suc n) L) k) =
       (if th \<noteq> None \<and> not_in_irq c k then Some (mk (lockn c th (Suc n) L) k) else None)"
  by (auto simp: RT_DEBUG_IN_THREAD_CONTEXT_def)

end
