(* ===== verification/Rt_Scheduler.thy ===== *)
theory Rt_Scheduler
  imports Rt_Kernel
begin

text \<open>
  The SMP scheduler, \<^verbatim>\<open>src/scheduler.c\<close>: ready queues with their bitmaps, the choice of the
  next thread, the switch itself and the scheduler lock. The context switch follows
  \<^verbatim>\<open>bsp/qemu-vexpress-a9/cpu/context_gcc.S\<close>: it stores the stack pointer of the thread that
  leaves, calls \<^verbatim>\<open>rt_cpus_lock_status_restore\<close> and pops the saved state of the thread that
  comes in. A thread that was switched out inside \<^verbatim>\<open>rt_schedule\<close> comes back there
  with interrupts masked and finishes with \<^verbatim>\<open>rt_hw_interrupt_enable(level)\<close>; a new or
  a preempted thread comes back in its own code with interrupts enabled.
\<close>

section \<open>Thread states and ready queues\<close>

definition RT_THREAD_INIT :: u8 where "RT_THREAD_INIT = 0x00"
definition RT_THREAD_READY :: u8 where "RT_THREAD_READY = 0x01"
definition RT_THREAD_SUSPEND :: u8 where "RT_THREAD_SUSPEND = 0x02"
definition RT_THREAD_CLOSE :: u8 where "RT_THREAD_CLOSE = 0x04"
definition RT_THREAD_STAT_MASK :: u8 where "RT_THREAD_STAT_MASK = 0x0f"
definition RT_CPU_MASK :: u32 where "RT_CPU_MASK = push_bit RT_CPUS_NR 1 - 1"

lemmas stat_defs = RT_THREAD_INIT_def RT_THREAD_READY_def RT_THREAD_SUSPEND_def RT_THREAD_CLOSE_def
  RT_THREAD_STAT_MASK_def

text \<open>\<^verbatim>\<open>thread->stat & RT_THREAD_STAT_MASK\<close>.\<close>

definition tstate :: "tid \<Rightarrow> kcore \<Rightarrow> u8" where
  "tstate t k = stat (threads k t) AND RT_THREAD_STAT_MASK"

definition set_tstate :: "u8 \<Rightarrow> u8 \<Rightarrow> u8" where
  "set_tstate st old = st OR (old AND NOT RT_THREAD_STAT_MASK)"

text \<open>\<^verbatim>\<open>rt_hw_ipi_send\<close>: every CPU of the mask gets a pending scheduling interrupt.\<close>

definition rt_hw_ipi_send :: "u32 \<Rightarrow> kcore \<Rightarrow> kcore" where
  "rt_hw_ipi_send cpu_mask k =
     k\<lparr>ipi_pending := (\<lambda>c. ipi_pending k c \<or> (c < RT_CPUS_NR \<and> bit cpu_mask c))\<rparr>"

definition sched_insert_body :: "cpu_id \<Rightarrow> tid \<Rightarrow> kcore \<Rightarrow> kcore" where
  "sched_insert_body c t k =
     (let k = upd_thread t (\<lambda>th. th\<lparr>stat := set_tstate RT_THREAD_READY (stat th)\<rparr>) k;
          th = threads k t
      in
      if oncpu th \<noteq> RT_CPU_DETACHED then k
      else if bind_cpu th = RT_CPUS_NR then
        let k = k\<lparr>ready_priority_group := ready_priority_group k OR number_mask th\<rparr>;
            k = k\<lparr>lists := ll_insert_tail (Ready (unat (current_priority th))) t (lists k)\<rparr>
        in rt_hw_ipi_send (RT_CPU_MASK XOR push_bit c 1) k
      else
        let k = upd_cpu (bind_cpu th)
                  (\<lambda>p. p\<lparr>cpu_priority_group := cpu_priority_group p OR number_mask th\<rparr>) k;
            k = k\<lparr>lists := ll_insert_tail (CpuReady (bind_cpu th) (unat (current_priority th))) t (lists k)\<rparr>
        in if c \<noteq> bind_cpu th then rt_hw_ipi_send (push_bit (bind_cpu th) 1) k else k)"

definition rt_schedule_insert_thread :: "cpu_id \<Rightarrow> tid \<Rightarrow> kstate \<Rightarrow> kstate option" where
  "rt_schedule_insert_thread c t s =
     do { (level, s) \<leftarrow> rt_hw_interrupt_disable c s;
          let s = s\<lparr>kc := sched_insert_body c t (kc s)\<rparr>;
          Some (rt_hw_interrupt_enable c level s) }"

definition sched_remove_body :: "tid \<Rightarrow> kcore \<Rightarrow> kcore" where
  "sched_remove_body t k =
     (let k = k\<lparr>lists := ll_remove t (lists k)\<rparr>;
          th = threads k t
      in
      if bind_cpu th = RT_CPUS_NR then
        if lists k (Ready (unat (current_priority th))) = [] then
          k\<lparr>ready_priority_group := ready_priority_group k AND NOT (number_mask th)\<rparr>
        else k
      else
        if lists k (CpuReady (bind_cpu th) (unat (current_priority th))) = [] then
          upd_cpu (bind_cpu th)
            (\<lambda>p. p\<lparr>cpu_priority_group := cpu_priority_group p AND NOT (number_mask th)\<rparr>) k
        else k)"

definition rt_schedule_remove_thread :: "cpu_id \<Rightarrow> tid \<Rightarrow> kstate \<Rightarrow> kstate option" where
  "rt_schedule_remove_thread c t s =
     do { (level, s) \<leftarrow> rt_hw_interrupt_disable c s;
          let s = s\<lparr>kc := sched_remove_body t (kc s)\<rparr>;
          Some (rt_hw_interrupt_enable c level s) }"

section \<open>Choosing and switching\<close>

text \<open>
  \<^verbatim>\<open>rt_list_entry(head.next)\<close> of an empty list, or of a slot outside the table (the value
  \<^verbatim>\<open>0xffffffff\<close> of an empty bitmap), is not a thread.
\<close>

definition first_thread :: "tid list \<Rightarrow> tid option" where
  "first_thread ts = (case ts of [] \<Rightarrow> None | t # _ \<Rightarrow> Some t)"

definition get_highest_priority_thread :: "cpu_id \<Rightarrow> kcore \<Rightarrow> (tid \<times> u32) option" where
  "get_highest_priority_thread c k =
     (let highest = word_of_int (rt_ffs (ready_priority_group k) - 1) :: u32;
          local_highest = word_of_int (rt_ffs (cpu_priority_group (cpus k c)) - 1) :: u32
      in
      if highest < local_highest then
        do { t \<leftarrow> first_thread (lists k (Ready (unat highest))); Some (t, highest) }
      else if unat local_highest < RT_THREAD_PRIORITY_MAX then
        do { t \<leftarrow> first_thread (lists k (CpuReady c (unat local_highest))); Some (t, local_highest) }
      else None)"

text \<open>\<^verbatim>\<open>_rt_scheduler_stack_check\<close>; the byte at \<^verbatim>\<open>stack_addr\<close> is \<open>stack_guard\<close>. On an overflow the
  loop \<^verbatim>\<open>while (level)\<close> does not end, \<^verbatim>\<open>level\<close> being a CPSR value and so not zero.\<close>

definition rt_scheduler_stack_check :: "tid \<Rightarrow> kcore \<Rightarrow> unit option" where
  "rt_scheduler_stack_check t k =
     (let th = threads k t in
      if stack_guard th \<noteq> 0x23 \<or> sp th \<le> stack_addr th \<or> stack_addr th + stack_size th < sp th
      then None else Some ())"

text \<open>What both schedulers do between choosing the next thread and switching to it.\<close>

definition schedule_select :: "cpu_id \<Rightarrow> tid \<Rightarrow> kstate \<Rightarrow> (tid \<times> u32 \<times> kstate) option" where
  "schedule_select c current s =
     do { (to, highest) \<leftarrow> get_highest_priority_thread c (kc s);
          let s = s\<lparr>kc := upd_thread current (\<lambda>th. th\<lparr>oncpu := RT_CPU_DETACHED\<rparr>) (kc s)\<rparr>;
          (to, s) \<leftarrow>
            (if tstate current (kc s) = RT_THREAD_READY then
               if ucast (current_priority (threads (kc s) current)) < highest then Some (current, s)
               else do { s \<leftarrow> rt_schedule_insert_thread c current s; Some (to, s) }
             else Some (to, s));
          let s = s\<lparr>kc := upd_thread to (\<lambda>th. th\<lparr>oncpu := c\<rparr>) (kc s)\<rparr>;
          Some (to, highest, s) }"

text \<open>The registers: the saved state of \<open>to\<close> is popped from its stack (16 words).\<close>

definition pop_context :: "cpu_id \<Rightarrow> tid \<Rightarrow> kstate \<Rightarrow> kstate" where
  "pop_context c to s =
     (let s = s\<lparr>lk := (lk s)\<lparr>sp_reg := (sp_reg (lk s))(c := sp (threads (kc s) to) + 64)\<rparr>\<rparr>;
          s = rt_cpus_lock_status_restore c to s
      in case switch_frame (lk s) to of
           None \<Rightarrow> rt_hw_local_irq_enable c False s
         | Some level \<Rightarrow>
             rt_cpus_unlock c level
               (s\<lparr>lk := (lk s)\<lparr>switch_frame := (switch_frame (lk s))(to := None),
                               irq_disabled := (irq_disabled (lk s))(c := True)\<rparr>\<rparr>))"

definition save_context :: "cpu_id \<Rightarrow> tid \<Rightarrow> bool option \<Rightarrow> kstate \<Rightarrow> kstate" where
  "save_context c t fr s =
     s\<lparr>lk := (lk s)\<lparr>switch_frame := (switch_frame (lk s))(t := fr)\<rparr>,
       kc := upd_thread t (\<lambda>th. th\<lparr>sp := sp_reg (lk s) c - 64\<rparr>) (kc s)\<rparr>"

text \<open>
  \<^verbatim>\<open>rt_hw_context_switch\<close> called from \<^verbatim>\<open>rt_schedule\<close>, whose local \<^verbatim>\<open>level\<close> stays in the frame.
\<close>

definition rt_hw_context_switch :: "cpu_id \<Rightarrow> bool \<Rightarrow> tid \<Rightarrow> tid \<Rightarrow> kstate \<Rightarrow> kstate" where
  "rt_hw_context_switch c level from to s = pop_context c to (save_context c from (Some level) s)"

definition rt_hw_context_switch_interrupt :: "cpu_id \<Rightarrow> tid \<Rightarrow> tid \<Rightarrow> kstate \<Rightarrow> kstate" where
  "rt_hw_context_switch_interrupt c from to s = pop_context c to (save_context c from None s)"

definition rt_schedule :: "cpu_id \<Rightarrow> kstate \<Rightarrow> kstate option" where
  "rt_schedule c s =
     do { (level, s) \<leftarrow> rt_hw_interrupt_disable c s;
          if irq_nest (cpus (kc s) c) \<noteq> 0 then
            Some (rt_hw_interrupt_enable c level
                   (s\<lparr>kc := upd_cpu c (\<lambda>p. p\<lparr>irq_switch_flag := True\<rparr>) (kc s)\<rparr>))
          else
            do { current \<leftarrow> cur c (kc s);
                 if scheduler_lock_nest (lk s) current = 1 \<and>
                    (ready_priority_group (kc s) \<noteq> 0 \<or> cpu_priority_group (cpus (kc s) c) \<noteq> 0)
                 then
                   do { (to, highest, s) \<leftarrow> schedule_select c current s;
                        if to \<noteq> current then
                          do { let s = s\<lparr>kc := upd_cpu c (\<lambda>p. p\<lparr>cpu_current_priority := ucast highest\<rparr>) (kc s)\<rparr>;
                               s \<leftarrow> rt_schedule_remove_thread c to s;
                               rt_scheduler_stack_check to (kc s);
                               Some (rt_hw_context_switch c level current to s) }
                        else Some (rt_hw_interrupt_enable c level s) }
                 else Some (rt_hw_interrupt_enable c level s) } }"

definition rt_scheduler_ipi_handler :: "cpu_id \<Rightarrow> kstate \<Rightarrow> kstate option" where
  "rt_scheduler_ipi_handler c s = rt_schedule c s"

definition rt_scheduler_do_irq_switch :: "cpu_id \<Rightarrow> kstate \<Rightarrow> kstate option" where
  "rt_scheduler_do_irq_switch c s =
     do { (level, s) \<leftarrow> rt_hw_interrupt_disable c s;
          if \<not> irq_switch_flag (cpus (kc s) c) then Some (rt_hw_interrupt_enable c level s)
          else
            do { current \<leftarrow> cur c (kc s);
                 if scheduler_lock_nest (lk s) current = 1 \<and> irq_nest (cpus (kc s) c) = 0 then
                   do { let s = s\<lparr>kc := upd_cpu c (\<lambda>p. p\<lparr>irq_switch_flag := False\<rparr>) (kc s)\<rparr>;
                        if ready_priority_group (kc s) \<noteq> 0 \<or> cpu_priority_group (cpus (kc s) c) \<noteq> 0
                        then
                          do { (to, highest, s) \<leftarrow> schedule_select c current s;
                               if to \<noteq> current then
                                 do { let s = s\<lparr>kc := upd_cpu c (\<lambda>p. p\<lparr>cpu_current_priority := ucast highest\<rparr>) (kc s)\<rparr>;
                                      s \<leftarrow> rt_schedule_remove_thread c to s;
                                      rt_scheduler_stack_check to (kc s);
                                      let s = upd_sched_nest current (\<lambda>n. n - 1)
                                                (upd_cpus_nest current (\<lambda>n. n - 1) s);
                                      Some (rt_hw_context_switch_interrupt c current to s) }
                               else Some (rt_hw_interrupt_enable c level s) }
                        else Some (rt_hw_interrupt_enable c level s) }
                 else Some (rt_hw_interrupt_enable c level s) } }"

section \<open>Start and scheduler lock\<close>

definition rt_system_scheduler_init :: "kcore \<Rightarrow> kcore" where
  "rt_system_scheduler_init k =
     k\<lparr>lists := (\<lambda>h. case h of
                       Ready p \<Rightarrow> if p < RT_THREAD_PRIORITY_MAX then [] else lists k h
                     | CpuReady c p \<Rightarrow>
                         if c < RT_CPUS_NR \<and> p < RT_THREAD_PRIORITY_MAX then [] else lists k h
                     | Defunct \<Rightarrow> []
                     | _ \<Rightarrow> lists k h),
       cpus := (\<lambda>c. if c < RT_CPUS_NR
                    then (cpus k c)\<lparr>irq_switch_flag := False,
                                    cpu_current_priority := of_nat (RT_THREAD_PRIORITY_MAX - 1),
                                    current_thread := None, cpu_priority_group := 0\<rparr>
                    else cpus k c),
       ready_priority_group := 0\<rparr>"

definition rt_system_scheduler_start :: "cpu_id \<Rightarrow> kstate \<Rightarrow> kstate option" where
  "rt_system_scheduler_start c s =
     do { (to, _) \<leftarrow> get_highest_priority_thread c (kc s);
          let s = s\<lparr>kc := upd_thread to (\<lambda>th. th\<lparr>oncpu := c\<rparr>) (kc s)\<rparr>;
          s \<leftarrow> rt_schedule_remove_thread c to s;
          Some (pop_context c to s) }"

definition spin_lock_critical :: "kstate \<Rightarrow> kstate option" where
  "spin_lock_critical s =
     (if critical_lock (lk s) then None else Some (s\<lparr>lk := (lk s)\<lparr>critical_lock := True\<rparr>\<rparr>))"

definition spin_unlock_critical :: "kstate \<Rightarrow> kstate" where
  "spin_unlock_critical s = s\<lparr>lk := (lk s)\<lparr>critical_lock := False\<rparr>\<rparr>"

text \<open>\<^verbatim>\<open>!!current_thread->cpus_lock_nest\<close>.\<close>

definition cpus_nest_flag :: "tid \<Rightarrow> kstate \<Rightarrow> u16" where
  "cpus_nest_flag t s = (if cpus_lock_nest (lk s) t \<noteq> 0 then 1 else 0)"

definition rt_enter_critical :: "cpu_id \<Rightarrow> kstate \<Rightarrow> kstate option" where
  "rt_enter_critical c s =
     (let (level, s) = rt_hw_local_irq_disable c s in
      do { t \<leftarrow> cur c (kc s);
           s \<leftarrow> (if scheduler_lock_nest (lk s) t = cpus_nest_flag t s then spin_lock_critical s
                  else Some s);
           let s = upd_sched_nest t (\<lambda>n. n + 1) s;
           Some (rt_hw_local_irq_enable c level s) })"

definition rt_exit_critical :: "cpu_id \<Rightarrow> kstate \<Rightarrow> kstate option" where
  "rt_exit_critical c s =
     (let (level, s) = rt_hw_local_irq_disable c s in
      do { t \<leftarrow> cur c (kc s);
           let s = upd_sched_nest t (\<lambda>n. n - 1) s;
           let s = (if scheduler_lock_nest (lk s) t = cpus_nest_flag t s then spin_unlock_critical s
                    else s);
           if scheduler_lock_nest (lk s) t \<le> 0 then
             rt_schedule c (rt_hw_local_irq_enable c level (upd_sched_nest t (\<lambda>_. 0) s))
           else Some (rt_hw_local_irq_enable c level s) })"

definition rt_critical_level :: "cpu_id \<Rightarrow> kstate \<Rightarrow> u16 option" where
  "rt_critical_level c s = do { t \<leftarrow> cur c (kc s); Some (scheduler_lock_nest (lk s) t) }"

section \<open>The invariant of the ready queues\<close>

fun ready_head :: "lhead \<Rightarrow> bool" where
  "ready_head (Ready _) = True"
| "ready_head (CpuReady _ _) = True"
| "ready_head _ = False"

text \<open>The ready list a thread belongs to.\<close>

definition home :: "rt_thread \<Rightarrow> lhead" where
  "home th = (if bind_cpu th = RT_CPUS_NR then Ready (unat (current_priority th))
              else CpuReady (bind_cpu th) (unat (current_priority th)))"

text \<open>
  The state a thread in a list must have: waiters are suspended, dead threads closed. A thread
  past \<^verbatim>\<open>rt_thread_startup\<close> and not closed has a priority in range, its bit mask, and a valid
  binding.
\<close>

definition thread_ok :: "rt_thread \<Rightarrow> bool" where
  "thread_ok th \<longleftrightarrow>
     unat (current_priority th) < RT_THREAD_PRIORITY_MAX \<and>
     number_mask th = push_bit (unat (current_priority th)) 1 \<and>
     bind_cpu th \<le> RT_CPUS_NR"

definition waits :: "rt_thread \<Rightarrow> bool" where
  "waits th \<longleftrightarrow> stat th AND RT_THREAD_STAT_MASK = RT_THREAD_SUSPEND"

definition is_ready :: "rt_thread \<Rightarrow> bool" where
  "is_ready th \<longleftrightarrow> stat th AND RT_THREAD_STAT_MASK = RT_THREAD_READY"

definition started :: "rt_thread \<Rightarrow> bool" where
  "started th \<longleftrightarrow> stat th AND RT_THREAD_STAT_MASK \<notin> {RT_THREAD_INIT, RT_THREAD_CLOSE}"

text \<open>
  \<open>queue_inv X k\<close>: except for the threads \<open>X\<close> in transit, which are in no list, the ready lists
  hold exactly the ready threads that run on no CPU, each in the list of its own priority and
  binding; a bit of a priority group is set exactly when its list is not empty.
\<close>

definition lists_wf :: "(lhead \<Rightarrow> tid list) \<Rightarrow> bool" where
  "lists_wf L \<longleftrightarrow> (\<forall>h. distinct (L h)) \<and> (\<forall>h g. h \<noteq> g \<longrightarrow> set (L h) \<inter> set (L g) = {})"

definition queue_inv :: "tid set \<Rightarrow> kcore \<Rightarrow> bool" where
  "queue_inv X k \<longleftrightarrow>
     lists_wf (lists k) \<and>
     (\<forall>t \<in> X. detached t (lists k)) \<and>
     (\<forall>t h. ready_head h \<longrightarrow>
        (t \<in> set (lists k h) \<longleftrightarrow>
           t \<notin> X \<and> is_ready (threads k t) \<and> oncpu (threads k t) = RT_CPU_DETACHED \<and>
           h = home (threads k t))) \<and>
     (\<forall>t q. t \<in> set (lists k (SuspendQ q)) \<union> set (lists k (SenderQ q)) \<longrightarrow> waits (threads k t)) \<and>
     (\<forall>t \<in> set (lists k Defunct). tstate t k = RT_THREAD_CLOSE) \<and>
     (\<forall>t. started (threads k t) \<longrightarrow> thread_ok (threads k t)) \<and>
     (\<forall>p. bit (ready_priority_group k) p \<longleftrightarrow> lists k (Ready p) \<noteq> []) \<and>
     (\<forall>c p. c < RT_CPUS_NR \<longrightarrow> (bit (cpu_priority_group (cpus k c)) p \<longleftrightarrow> lists k (CpuReady c p) \<noteq> []))"

text \<open>\<open>cpu_inv k\<close>: a thread's \<^verbatim>\<open>oncpu\<close> and a CPU's \<^verbatim>\<open>current_thread\<close> agree.\<close>

definition cpu_inv :: "kcore \<Rightarrow> bool" where
  "cpu_inv k \<longleftrightarrow>
     (\<forall>t. oncpu (threads k t) \<le> RT_CPU_DETACHED) \<and>
     (\<forall>t c. c < RT_CPUS_NR \<longrightarrow> (oncpu (threads k t) = c \<longleftrightarrow> cur c k = Some t))"

definition sched_inv :: "kcore \<Rightarrow> bool" where
  "sched_inv k \<longleftrightarrow> queue_inv {} k \<and> cpu_inv k"

subsection \<open>Reading the invariant\<close>

lemma queue_invD:
  assumes "queue_inv X k"
  shows "lists_wf (lists k)"
    and "t \<in> X \<Longrightarrow> detached t (lists k)"
    and "ready_head h \<Longrightarrow> t \<in> set (lists k h) \<longleftrightarrow>
           t \<notin> X \<and> is_ready (threads k t) \<and> oncpu (threads k t) = RT_CPU_DETACHED \<and>
           h = home (threads k t)"
    and "t \<in> set (lists k (SuspendQ q)) \<Longrightarrow> waits (threads k t)"
    and "t \<in> set (lists k (SenderQ q)) \<Longrightarrow> waits (threads k t)"
    and "t \<in> set (lists k Defunct) \<Longrightarrow> tstate t k = RT_THREAD_CLOSE"
    and "started (threads k t) \<Longrightarrow> thread_ok (threads k t)"
    and "bit (ready_priority_group k) p \<longleftrightarrow> lists k (Ready p) \<noteq> []"
    and "c < RT_CPUS_NR \<Longrightarrow> bit (cpu_priority_group (cpus k c)) p \<longleftrightarrow> lists k (CpuReady c p) \<noteq> []"
  using assms unfolding queue_inv_def by blast+

lemma stat_distinct [simp]:
  "RT_THREAD_INIT \<noteq> RT_THREAD_READY" "RT_THREAD_READY \<noteq> RT_THREAD_INIT"
  "RT_THREAD_INIT \<noteq> RT_THREAD_SUSPEND" "RT_THREAD_SUSPEND \<noteq> RT_THREAD_INIT"
  "RT_THREAD_INIT \<noteq> RT_THREAD_CLOSE" "RT_THREAD_CLOSE \<noteq> RT_THREAD_INIT"
  "RT_THREAD_READY \<noteq> RT_THREAD_SUSPEND" "RT_THREAD_SUSPEND \<noteq> RT_THREAD_READY"
  "RT_THREAD_READY \<noteq> RT_THREAD_CLOSE" "RT_THREAD_CLOSE \<noteq> RT_THREAD_READY"
  "RT_THREAD_SUSPEND \<noteq> RT_THREAD_CLOSE" "RT_THREAD_CLOSE \<noteq> RT_THREAD_SUSPEND"
  by (simp_all add: stat_defs)

lemma set_tstate_mask [simp]:
  "st \<in> {RT_THREAD_READY, RT_THREAD_SUSPEND, RT_THREAD_CLOSE, RT_THREAD_INIT} \<Longrightarrow>
     set_tstate st old AND RT_THREAD_STAT_MASK = st"
  by (auto simp: set_tstate_def stat_defs bit.conj_disj_distrib2 and.assoc)

lemma state_excl:
  "is_ready th \<Longrightarrow> \<not> waits th" "is_ready th \<Longrightarrow> started th" "waits th \<Longrightarrow> started th"
  by (simp_all add: is_ready_def waits_def started_def)

lemma home_inj: "ready_head (home th)"
  "home th \<noteq> SuspendQ q" "home th \<noteq> SenderQ q" "home th \<noteq> Defunct"
  "SuspendQ q \<noteq> home th" "SenderQ q \<noteq> home th" "Defunct \<noteq> home th"
  by (simp_all add: home_def)

lemma lists_wfD:
  "lists_wf L \<Longrightarrow> distinct (L h)" "lists_wf L \<Longrightarrow> t \<in> set (L h) \<Longrightarrow> t \<in> set (L g) \<Longrightarrow> g = h"
  by (auto simp: lists_wf_def)

lemma lists_wf_insert_tail:
  "lists_wf L \<Longrightarrow> detached t L \<Longrightarrow> lists_wf (ll_insert_tail h t L)"
  by (auto simp: lists_wf_def detached_def ll_insert_tail_def)

lemma lists_wf_insert_head:
  "lists_wf L \<Longrightarrow> detached t L \<Longrightarrow> lists_wf (ll_insert_head h t L)"
  by (auto simp: lists_wf_def detached_def ll_insert_head_def)

lemma lists_wf_remove: "lists_wf L \<Longrightarrow> lists_wf (ll_remove t L)"
  by (auto simp: lists_wf_def ll_remove_def distinct_removeAll)

lemma detached_remove [simp]: "detached t (ll_remove t L)"
  by (simp add: detached_def ll_remove_def)

lemma set_ll_remove [simp]: "set (ll_remove t L h) = set (L h) - {t}"
  by (simp add: ll_remove_def)

lemma ll_remove_detached: "detached t L \<Longrightarrow> ll_remove t L = L"
  by (simp add: detached_def ll_remove_def removeAll_id)

lemma set_ll_insert_tail: "set (ll_insert_tail h t L g) = (if g = h then insert t (set (L h)) else set (L g))"
  by (simp add: ll_insert_tail_def)

text \<open>A thread that is neither ready and parked, nor waiting, nor dead, is in no list.\<close>

lemma not_in_lists:
  assumes "queue_inv X k" "\<And>h. ready_head h \<Longrightarrow> t \<notin> set (lists k h)"
    "\<not> waits (threads k t)" "tstate t k \<noteq> RT_THREAD_CLOSE"
  shows "detached t (lists k)"
proof -
  have "t \<notin> set (lists k h)" for h
    using assms queue_invD(4-6) [OF assms(1)] by (cases h) auto
  then show ?thesis by (simp add: detached_def)
qed

lemma ready_in_home:
  assumes "queue_inv {} k" "is_ready (threads k t)" "oncpu (threads k t) = RT_CPU_DETACHED"
  shows "t \<in> set (lists k (home (threads k t)))"
  using assms queue_invD(3) [OF assms(1), of "home (threads k t)" t] by (simp add: home_inj)

lemma running_detached:
  assumes "queue_inv X k" "is_ready (threads k t)" "oncpu (threads k t) \<noteq> RT_CPU_DETACHED"
  shows "detached t (lists k)"
  using assms queue_invD(3) [OF assms(1)]
  by (intro not_in_lists [OF assms(1)]) (auto simp: state_excl tstate_def is_ready_def)

subsection \<open>Inserting and removing\<close>

lemma ipi_send_simps [simp, core_simps]:
  "threads (rt_hw_ipi_send m k) = threads k" "lists (rt_hw_ipi_send m k) = lists k"
  "ready_priority_group (rt_hw_ipi_send m k) = ready_priority_group k"
  "cpus (rt_hw_ipi_send m k) = cpus k" "objs (rt_hw_ipi_send m k) = objs k"
  "container (rt_hw_ipi_send m k) = container k" "timers (rt_hw_ipi_send m k) = timers k"
  "rt_timer_list (rt_hw_ipi_send m k) = rt_timer_list k"
  "rt_soft_timer_list (rt_hw_ipi_send m k) = rt_soft_timer_list k"
  "sems (rt_hw_ipi_send m k) = sems k" "mutexes (rt_hw_ipi_send m k) = mutexes k"
  "events (rt_hw_ipi_send m k) = events k" "mailboxes (rt_hw_ipi_send m k) = mailboxes k"
  "mqueues (rt_hw_ipi_send m k) = mqueues k" "mempools (rt_hw_ipi_send m k) = mempools k" "freed (rt_hw_ipi_send m k) = freed k"
  by (simp_all add: rt_hw_ipi_send_def)

lemma insert_body_fields [simp, core_simps]:
  "threads (sched_insert_body c t k) =
     (threads k)(t := (threads k t)\<lparr>stat := set_tstate RT_THREAD_READY (stat (threads k t))\<rparr>)"
  "objs (sched_insert_body c t k) = objs k" "container (sched_insert_body c t k) = container k"
  "timers (sched_insert_body c t k) = timers k"
  "rt_timer_list (sched_insert_body c t k) = rt_timer_list k"
  "rt_soft_timer_list (sched_insert_body c t k) = rt_soft_timer_list k"
  "sems (sched_insert_body c t k) = sems k" "mutexes (sched_insert_body c t k) = mutexes k"
  "events (sched_insert_body c t k) = events k" "mailboxes (sched_insert_body c t k) = mailboxes k"
  "mqueues (sched_insert_body c t k) = mqueues k" "mempools (sched_insert_body c t k) = mempools k" "freed (sched_insert_body c t k) = freed k"
  by (auto simp: sched_insert_body_def Let_def)

lemma insert_body_cpu_fields [simp, core_simps]:
  "current_thread (cpus (sched_insert_body c t k) d) = current_thread (cpus k d)"
  "irq_nest (cpus (sched_insert_body c t k) d) = irq_nest (cpus k d)"
  "irq_switch_flag (cpus (sched_insert_body c t k) d) = irq_switch_flag (cpus k d)"
  "cpu_tick (cpus (sched_insert_body c t k) d) = cpu_tick (cpus k d)"
  by (auto simp: sched_insert_body_def Let_def)

lemma remove_body_fields [simp, core_simps]:
  "threads (sched_remove_body t k) = threads k" "lists (sched_remove_body t k) = ll_remove t (lists k)"
  "ipi_pending (sched_remove_body t k) = ipi_pending k"
  "objs (sched_remove_body t k) = objs k" "container (sched_remove_body t k) = container k"
  "timers (sched_remove_body t k) = timers k"
  "rt_timer_list (sched_remove_body t k) = rt_timer_list k"
  "rt_soft_timer_list (sched_remove_body t k) = rt_soft_timer_list k"
  "sems (sched_remove_body t k) = sems k" "mutexes (sched_remove_body t k) = mutexes k"
  "events (sched_remove_body t k) = events k" "mailboxes (sched_remove_body t k) = mailboxes k"
  "mqueues (sched_remove_body t k) = mqueues k" "mempools (sched_remove_body t k) = mempools k" "freed (sched_remove_body t k) = freed k"
  by (auto simp: sched_remove_body_def Let_def)

lemma remove_body_cpu_fields [simp, core_simps]:
  "current_thread (cpus (sched_remove_body t k) d) = current_thread (cpus k d)"
  "irq_nest (cpus (sched_remove_body t k) d) = irq_nest (cpus k d)"
  "irq_switch_flag (cpus (sched_remove_body t k) d) = irq_switch_flag (cpus k d)"
  "cpu_tick (cpus (sched_remove_body t k) d) = cpu_tick (cpus k d)"
  by (auto simp: sched_remove_body_def Let_def)

lemma insert_thread_first [simp]:
  "lk_ok th L \<Longrightarrow> cur c k = th \<Longrightarrow>
     rt_schedule_insert_thread c t (mk L k) = Some (mk L (sched_insert_body c t k))"
  by (simp add: rt_schedule_insert_thread_def)

lemma insert_thread_again [simp]:
  "lk_ok th L \<Longrightarrow> cur c k = th \<Longrightarrow> n < 0xff \<Longrightarrow>
     rt_schedule_insert_thread c t (mk (lockn c th (Suc n) L) k) =
       Some (mk (lockn c th (Suc n) L) (sched_insert_body c t k))"
  by (simp add: rt_schedule_insert_thread_def)

lemma remove_thread_first [simp]:
  "lk_ok th L \<Longrightarrow> cur c k = th \<Longrightarrow>
     rt_schedule_remove_thread c t (mk L k) = Some (mk L (sched_remove_body t k))"
  by (simp add: rt_schedule_remove_thread_def)

lemma remove_thread_again [simp]:
  "lk_ok th L \<Longrightarrow> cur c k = th \<Longrightarrow> n < 0xff \<Longrightarrow>
     rt_schedule_remove_thread c t (mk (lockn c th (Suc n) L) k) =
       Some (mk (lockn c th (Suc n) L) (sched_remove_body t k))"
  by (simp add: rt_schedule_remove_thread_def)

lemma bit_or_push:
  fixes g :: u32
  assumes "p < 32"
  shows "bit (g OR 2 ^ p) q \<longleftrightarrow> bit g q \<or> q = p"
  using assms by (auto simp: bit_or_iff bit_exp_iff)

lemma bit_and_not_push:
  fixes g :: u32
  assumes "p < 32"
  shows "bit (g AND NOT (2 ^ p)) q \<longleftrightarrow> bit g q \<and> q \<noteq> p"
  using assms bit_imp_le_length [of g q] by (auto simp: bit_and_iff bit_not_iff bit_exp_iff)

text \<open>After the insertion the thread is in its list and the bitmaps follow.\<close>

lemma lists_insert_body:
  "lists (sched_insert_body c t k) =
     (if oncpu (threads k t) = RT_CPU_DETACHED then ll_insert_tail (home (threads k t)) t (lists k)
      else lists k)"
  by (auto simp: sched_insert_body_def Let_def home_def)

lemma groups_insert_body:
  "ready_priority_group (sched_insert_body c t k) =
     (if oncpu (threads k t) = RT_CPU_DETACHED \<and> bind_cpu (threads k t) = RT_CPUS_NR
      then ready_priority_group k OR number_mask (threads k t) else ready_priority_group k)"
  "cpu_priority_group (cpus (sched_insert_body c t k) d) =
     (if oncpu (threads k t) = RT_CPU_DETACHED \<and> bind_cpu (threads k t) \<noteq> RT_CPUS_NR \<and>
         d = bind_cpu (threads k t)
      then cpu_priority_group (cpus k d) OR number_mask (threads k t) else cpu_priority_group (cpus k d))"
  by (auto simp: sched_insert_body_def Let_def)

lemma insert_body_inv:
  assumes inv: "queue_inv X k" and det: "detached t (lists k)" and ok: "thread_ok (threads k t)"
  shows "queue_inv (X - {t}) (sched_insert_body c t k)"
proof -
  let ?k = "sched_insert_body c t k" and ?th = "threads k t"
  have p: "unat (current_priority ?th) < 32"
    and m: "number_mask ?th = push_bit (unat (current_priority ?th)) 1"
    using ok by (simp_all add: thread_ok_def RT_THREAD_PRIORITY_MAX_def)
  have same: "home (?th\<lparr>stat := x\<rparr>) = home ?th" "thread_ok (?th\<lparr>stat := x\<rparr>) = thread_ok ?th" for x
    by (simp_all add: home_def thread_ok_def)
  have nt: "t \<notin> set (lists k h)" for h using det by (simp add: detached_def)
  have "lists_wf (lists ?k)"
    using queue_invD(1) [OF inv] det by (simp add: lists_insert_body lists_wf_insert_tail)
  moreover have "\<forall>u \<in> X - {t}. detached u (lists ?k)"
    using queue_invD(2) [OF inv] by (auto simp: lists_insert_body detached_def set_ll_insert_tail)
  moreover have "u \<in> set (lists ?k h) \<longleftrightarrow>
      u \<notin> X - {t} \<and> is_ready (threads ?k u) \<and> oncpu (threads ?k u) = RT_CPU_DETACHED \<and>
      h = home (threads ?k u)" if "ready_head h" for u h
    using queue_invD(3) [OF inv that, of u] nt [of h]
    by (auto simp: lists_insert_body set_ll_insert_tail is_ready_def same)
  moreover have "waits (threads ?k u)"
    if "u \<in> set (lists ?k (SuspendQ q)) \<union> set (lists ?k (SenderQ q))" for u q
    using that queue_invD(4,5) [OF inv] nt [of "SuspendQ q"] nt [of "SenderQ q"]
    by (auto simp: lists_insert_body set_ll_insert_tail home_inj split: if_splits)
  moreover have "\<forall>u \<in> set (lists ?k Defunct). tstate u ?k = RT_THREAD_CLOSE"
    using queue_invD(6) [OF inv] nt [of Defunct]
    by (auto simp: lists_insert_body set_ll_insert_tail home_inj tstate_def split: if_splits)
  moreover have "\<forall>u. started (threads ?k u) \<longrightarrow> thread_ok (threads ?k u)"
    using queue_invD(7) [OF inv] ok by (auto simp: same)
  moreover have "bit (ready_priority_group ?k) q \<longleftrightarrow> lists ?k (Ready q) \<noteq> []" for q
    using queue_invD(8) [OF inv, of q] p
    by (auto simp: groups_insert_body lists_insert_body ll_insert_tail_def home_def m bit_or_push)
  moreover have "bit (cpu_priority_group (cpus ?k d)) q \<longleftrightarrow> lists ?k (CpuReady d q) \<noteq> []"
    if "d < RT_CPUS_NR" for d q
    using queue_invD(9) [OF inv that, of q] p
    by (auto simp: groups_insert_body lists_insert_body ll_insert_tail_def home_def m bit_or_push)
  ultimately show ?thesis unfolding queue_inv_def by blast
qed

lemma groups_remove_body:
  "ready_priority_group (sched_remove_body t k) =
     (if bind_cpu (threads k t) = RT_CPUS_NR \<and>
         ll_remove t (lists k) (Ready (unat (current_priority (threads k t)))) = []
      then ready_priority_group k AND NOT (number_mask (threads k t)) else ready_priority_group k)"
  "cpu_priority_group (cpus (sched_remove_body t k) d) =
     (if bind_cpu (threads k t) \<noteq> RT_CPUS_NR \<and> d = bind_cpu (threads k t) \<and>
         ll_remove t (lists k) (CpuReady (bind_cpu (threads k t)) (unat (current_priority (threads k t)))) = []
      then cpu_priority_group (cpus k d) AND NOT (number_mask (threads k t))
      else cpu_priority_group (cpus k d))"
  by (auto simp: sched_remove_body_def Let_def)

lemma ll_remove_Nil: "ll_remove t L h = [] \<longleftrightarrow> L h = [] \<or> set (L h) = {t}"
proof -
  have "ll_remove t L h = [] \<longleftrightarrow> set (L h) \<subseteq> {t}"
    using set_ll_remove [of t L h] by (metis Diff_eq_empty_iff set_empty)
  then show ?thesis by (cases "L h") auto
qed

lemma ll_remove_other: "t \<notin> set (L h) \<Longrightarrow> ll_remove t L h = L h"
  by (simp add: ll_remove_def removeAll_id)

lemma remove_body_inv:
  assumes inv: "queue_inv X k" and ok: "thread_ok (threads k t)"
  shows "queue_inv (insert t X) (sched_remove_body t k)"
proof -
  let ?k = "sched_remove_body t k" and ?th = "threads k t"
  have p: "unat (current_priority ?th) < 32"
    and m: "number_mask ?th = push_bit (unat (current_priority ?th)) 1"
    using ok by (simp_all add: thread_ok_def RT_THREAD_PRIORITY_MAX_def)
  have other: "h = home ?th" if "t \<in> set (lists k h)" "ready_head h" for h
    using queue_invD(3) [OF inv that(2)] that(1) by simp
  have "lists_wf (lists ?k)"
    using queue_invD(1) [OF inv] by (simp add: lists_wf_remove)
  moreover have "\<forall>u \<in> insert t X. detached u (lists ?k)"
    using queue_invD(2) [OF inv] by (auto simp: detached_def)
  moreover have "u \<in> set (lists ?k h) \<longleftrightarrow>
      u \<notin> insert t X \<and> is_ready (threads ?k u) \<and> oncpu (threads ?k u) = RT_CPU_DETACHED \<and>
      h = home (threads ?k u)" if "ready_head h" for u h
    using queue_invD(3) [OF inv that, of u] by auto
  moreover have "waits (threads ?k u)"
    if "u \<in> set (lists ?k (SuspendQ q)) \<union> set (lists ?k (SenderQ q))" for u q
    using that queue_invD(4,5) [OF inv] by auto
  moreover have "\<forall>u \<in> set (lists ?k Defunct). tstate u ?k = RT_THREAD_CLOSE"
    using queue_invD(6) [OF inv] by (auto simp: tstate_def)
  moreover have "\<forall>u. started (threads ?k u) \<longrightarrow> thread_ok (threads ?k u)"
    using queue_invD(7) [OF inv] by simp
  moreover have "bit (ready_priority_group ?k) q \<longleftrightarrow> lists ?k (Ready q) \<noteq> []" for q
    using queue_invD(8) [OF inv, of q] p other [of "Ready q"]
    by (cases "t \<in> set (lists k (Ready q))")
      (auto simp: groups_remove_body ll_remove_other home_def m bit_and_not_push split: if_splits)
  moreover have "bit (cpu_priority_group (cpus ?k d)) q \<longleftrightarrow> lists ?k (CpuReady d q) \<noteq> []"
    if "d < RT_CPUS_NR" for d q
    using queue_invD(9) [OF inv that, of q] p other [of "CpuReady d q"]
    by (cases "t \<in> set (lists k (CpuReady d q))")
      (auto simp: groups_remove_body ll_remove_other home_def m bit_and_not_push split: if_splits)
  ultimately show ?thesis unfolding queue_inv_def by blast
qed

subsection \<open>What the invariant does not look at\<close>

definition sview :: "rt_thread \<Rightarrow> u8 \<times> nat \<times> nat \<times> u8 \<times> u32" where
  "sview th = (stat th, bind_cpu th, oncpu th, current_priority th, number_mask th)"

lemma sview_preds:
  assumes "sview a = sview b"
  shows "is_ready a = is_ready b" "waits a = waits b" "started a = started b" "home a = home b"
    "thread_ok a = thread_ok b" "oncpu a = oncpu b" "stat a = stat b"
  using assms by (simp_all add: sview_def is_ready_def waits_def started_def home_def thread_ok_def)

lemma queue_inv_cong:
  assumes "\<And>t. sview (threads k t) = sview (threads k' t)" "lists k = lists k'"
    "ready_priority_group k = ready_priority_group k'"
    "\<And>c. cpu_priority_group (cpus k c) = cpu_priority_group (cpus k' c)"
  shows "queue_inv X k \<longleftrightarrow> queue_inv X k'"
  using sview_preds [OF assms(1)] assms(2-4) by (simp add: queue_inv_def tstate_def)

lemma cpu_inv_cong:
  assumes "\<And>t. oncpu (threads k t) = oncpu (threads k' t)" "\<And>c. cur c k = cur c k'"
  shows "cpu_inv k \<longleftrightarrow> cpu_inv k'"
  using assms by (simp add: cpu_inv_def)

lemma sched_inv_cong:
  assumes "\<And>t. sview (threads k t) = sview (threads k' t)" "lists k = lists k'"
    "ready_priority_group k = ready_priority_group k'"
    "\<And>c. cpu_priority_group (cpus k c) = cpu_priority_group (cpus k' c)" "\<And>c. cur c k = cur c k'"
  shows "sched_inv k \<longleftrightarrow> sched_inv k'"
  using queue_inv_cong [OF assms(1-4), of "{}"] cpu_inv_cong [OF _ assms(5)] sview_preds(6) [OF assms(1)]
  by (simp add: sched_inv_def)

text \<open>Writes to other fields of a thread or a CPU, and to the other components of the state.\<close>

lemma queue_inv_upd_thread [simp]:
  "(\<And>th. sview (f th) = sview th) \<Longrightarrow> queue_inv X (upd_thread t f k) = queue_inv X k"
  by (intro queue_inv_cong) auto

lemma sched_inv_upd_thread [simp]:
  "(\<And>th. sview (f th) = sview th) \<Longrightarrow> sched_inv (upd_thread t f k) = sched_inv k"
  by (intro sched_inv_cong) auto

lemma sched_inv_upd_cpu [simp]:
  "(\<And>p. cpu_priority_group (f p) = cpu_priority_group p) \<Longrightarrow>
   (\<And>p. current_thread (f p) = current_thread p) \<Longrightarrow> sched_inv (upd_cpu c f k) = sched_inv k"
  by (intro sched_inv_cong) auto

lemma queue_inv_upd_cpu [simp]:
  "(\<And>p. cpu_priority_group (f p) = cpu_priority_group p) \<Longrightarrow> queue_inv X (upd_cpu c f k) = queue_inv X k"
  by (intro queue_inv_cong) auto

lemma sched_inv_upd_obj_timer [simp]:
  "sched_inv (upd_obj r g k) = sched_inv k" "sched_inv (upd_timer r h k) = sched_inv k"
  by (intro sched_inv_cong; simp)+

lemma sched_inv_other_fields [simp]:
  "sched_inv (k\<lparr>ipi_pending := a1\<rparr>) = sched_inv k" "sched_inv (k\<lparr>objs := a2\<rparr>) = sched_inv k"
  "sched_inv (k\<lparr>container := a3\<rparr>) = sched_inv k" "sched_inv (k\<lparr>timers := a4\<rparr>) = sched_inv k"
  "sched_inv (k\<lparr>rt_timer_list := a5\<rparr>) = sched_inv k"
  "sched_inv (k\<lparr>rt_soft_timer_list := a6\<rparr>) = sched_inv k"
  "sched_inv (k\<lparr>sems := a7\<rparr>) = sched_inv k" "sched_inv (k\<lparr>mutexes := a8\<rparr>) = sched_inv k"
  "sched_inv (k\<lparr>events := a9\<rparr>) = sched_inv k" "sched_inv (k\<lparr>mailboxes := a10\<rparr>) = sched_inv k"
  "sched_inv (k\<lparr>mqueues := a11\<rparr>) = sched_inv k" "sched_inv (k\<lparr>mempools := a13\<rparr>) = sched_inv k" "sched_inv (k\<lparr>k_errno := a14\<rparr>) = sched_inv k" "sched_inv (k\<lparr>freed := a12\<rparr>) = sched_inv k"
  by (intro sched_inv_cong; simp)+

section \<open>The next thread\<close>

text \<open>The first thread of the most urgent non-empty list that the CPU may run, its own lists first.\<close>

lemma get_highest_spec:
  assumes inv: "queue_inv X k" and c: "c < RT_CPUS_NR"
    and nz: "ready_priority_group k \<noteq> 0 \<or> cpu_priority_group (cpus k c) \<noteq> 0"
  obtains to hp h where "get_highest_priority_thread c k = Some (to, hp)"
    "h = Ready (unat hp) \<or> h = CpuReady c (unat hp)" "first_thread (lists k h) = Some to"
    "unat hp < RT_THREAD_PRIORITY_MAX"
    "\<And>p. p < unat hp \<Longrightarrow> lists k (Ready p) = [] \<and> lists k (CpuReady c p) = []"
proof -
  let ?g = "ready_priority_group k" and ?l = "cpu_priority_group (cpus k c)"
  define h m where "h = (word_of_int (rt_ffs ?g - 1) :: u32)" and "m = (word_of_int (rt_ffs ?l - 1) :: u32)"
  note bits = queue_invD(8) [OF inv] queue_invD(9) [OF inv c]
  have g: "unat h < 32 \<and> lists k (Ready (unat h)) \<noteq> [] \<and> (\<forall>j<unat h. lists k (Ready j) = [])" if "?g \<noteq> 0"
    using ffs_index [OF that] bits(1) unfolding h_def by auto
  have l: "unat m < 32 \<and> lists k (CpuReady c (unat m)) \<noteq> [] \<and> (\<forall>j<unat m. lists k (CpuReady c j) = [])"
    if "?l \<noteq> 0"
    using ffs_index [OF that] bits(2) unfolding m_def by auto
  have g0: "unat h = 4294967295" "\<And>j. lists k (Ready j) = []" if "?g = 0"
    using that bits(1) by (simp_all add: h_def unsigned_minus_1_eq_mask mask_eq_exp_minus_1)
  have l0: "unat m = 4294967295" "\<And>j. lists k (CpuReady c j) = []" if "?l = 0"
    using that bits(2) by (simp_all add: m_def unsigned_minus_1_eq_mask mask_eq_exp_minus_1)
  have first: "\<exists>t. first_thread ts = Some t" if "ts \<noteq> []" for ts :: "tid list"
    using that by (cases ts) (simp_all add: first_thread_def)
  have get: "get_highest_priority_thread c k =
      (if h < m then do { t \<leftarrow> first_thread (lists k (Ready (unat h))); Some (t, h) }
       else if unat m < RT_THREAD_PRIORITY_MAX then
         do { t \<leftarrow> first_thread (lists k (CpuReady c (unat m))); Some (t, m) }
       else None)"
    by (simp only: get_highest_priority_thread_def Let_def h_def m_def)
  show thesis
  proof (cases "h < m")
    case True
    then have hm: "unat h < unat m" by (simp add: word_less_nat_alt)
    moreover have "unat m < 4294967296" using unsigned_less [of m, where ?'a = nat] by simp
    ultimately have "?g \<noteq> 0" using g0(1) by auto
    note g = g [OF this]
    then obtain t where t: "first_thread (lists k (Ready (unat h))) = Some t" using first by blast
    have "lists k (CpuReady c p) = []" if "p < unat h" for p
      using l l0(2) that hm by (cases "?l = 0") auto
    then show thesis
      using t g True by (intro that [of t h "Ready (unat h)"]) (auto simp: get RT_THREAD_PRIORITY_MAX_def)
  next
    case False
    then have hm: "unat m \<le> unat h" by (simp add: word_less_nat_alt)
    have "?l \<noteq> 0" using nz g l0(1) hm by fastforce
    note l = l [OF this]
    then obtain t where t: "first_thread (lists k (CpuReady c (unat m))) = Some t" using first by blast
    have "lists k (Ready p) = []" if "p < unat m" for p
      using g g0(2) that hm by (cases "?g = 0") auto
    then show thesis
      using t l False by (intro that [of t m "CpuReady c (unat m)"]) (auto simp: get RT_THREAD_PRIORITY_MAX_def)
  qed
qed

section \<open>Scheduling\<close>

text \<open>The part of a switch that happens under the lock: queues, \<^verbatim>\<open>oncpu\<close> and \<^verbatim>\<open>current_priority\<close>.\<close>

definition requeue_core :: "cpu_id \<Rightarrow> tid \<Rightarrow> kcore \<Rightarrow> kcore" where
  "requeue_core c t k =
     (let k1 = upd_thread t (\<lambda>th. th\<lparr>oncpu := RT_CPU_DETACHED\<rparr>) k
      in if is_ready (threads k t) then sched_insert_body c t k1 else k1)"

definition switch_core :: "cpu_id \<Rightarrow> tid \<Rightarrow> tid \<Rightarrow> u32 \<Rightarrow> kcore \<Rightarrow> kcore" where
  "switch_core c t to hp k =
     sched_remove_body to
       (upd_cpu c (\<lambda>p. p\<lparr>cpu_current_priority := ucast hp\<rparr>)
         (upd_thread to (\<lambda>th. th\<lparr>oncpu := c\<rparr>) (requeue_core c t k)))"

text \<open>The running thread keeps the CPU when it is ready and strictly more urgent.\<close>

definition keeps_cpu :: "tid \<Rightarrow> u32 \<Rightarrow> kcore \<Rightarrow> bool" where
  "keeps_cpu t hp k \<longleftrightarrow> is_ready (threads k t) \<and> ucast (current_priority (threads k t)) < hp"

text \<open>The scheduler is willing to switch: no interrupt, scheduler not locked, somebody is ready.\<close>

definition may_switch :: "cpu_id \<Rightarrow> tid \<Rightarrow> klock \<Rightarrow> kcore \<Rightarrow> bool" where
  "may_switch c t L k \<longleftrightarrow>
     irq_nest (cpus k c) = 0 \<and> scheduler_lock_nest (lockn c (Some t) (Suc 0) L) t = 1 \<and>
     (ready_priority_group k \<noteq> 0 \<or> cpu_priority_group (cpus k c) \<noteq> 0)"

lemma upd_thread_twice [simp]:
  "upd_thread t g (upd_thread t f k) = upd_thread t (\<lambda>x. g (f x)) k"
  by (simp add: upd_thread_def)

lemma upd_thread_noop: "f (threads k t) = threads k t \<Longrightarrow> upd_thread t f k = k"
  by (simp add: upd_thread_def)

lemma tstate_ready: "tstate t k = RT_THREAD_READY \<longleftrightarrow> is_ready (threads k t)"
  by (simp add: tstate_def is_ready_def)

lemma sched_inv_oncpu:
  assumes "sched_inv k" "cur c k = Some t" "c < RT_CPUS_NR"
  shows "oncpu (threads k t) = c" "oncpu (threads k t) \<noteq> RT_CPU_DETACHED"
proof -
  show "oncpu (threads k t) = c" using assms by (simp add: sched_inv_def cpu_inv_def)
  with assms(3) show "oncpu (threads k t) \<noteq> RT_CPU_DETACHED" by (simp add: RT_CPU_DETACHED_def)
qed

lemma schedule_select_locked:
  assumes "lk_ok (Some t) L" "cur c k = Some t" "n < 0xff"
    and "get_highest_priority_thread c k = Some (to, hp)"
  shows "schedule_select c t (mk (lockn c (Some t) (Suc n) L) k) =
     (if keeps_cpu t hp k
      then Some (t, hp, mk (lockn c (Some t) (Suc n) L) (upd_thread t (\<lambda>th. th\<lparr>oncpu := c\<rparr>) k))
      else Some (to, hp, mk (lockn c (Some t) (Suc n) L)
             (upd_thread to (\<lambda>th. th\<lparr>oncpu := c\<rparr>) (requeue_core c t k))))"
  using assms
  by (auto simp: schedule_select_def keeps_cpu_def requeue_core_def tstate_ready is_ready_def Let_def)

text \<open>\<^verbatim>\<open>rt_schedule\<close> on every branch, from a state in which the lock can be taken.\<close>

lemma rt_schedule_in_irq:
  assumes "lk_ok th L" "cur c k = th" "irq_nest (cpus k c) \<noteq> 0"
  shows "rt_schedule c (mk L k) = Some (mk L (upd_cpu c (\<lambda>p. p\<lparr>irq_switch_flag := True\<rparr>) k))"
  using assms by (simp add: rt_schedule_def)

lemma rt_schedule_stays:
  assumes "lk_ok (Some t) L" "cur c k = Some t" "irq_nest (cpus k c) = 0" "\<not> may_switch c t L k"
  shows "rt_schedule c (mk L k) = Some (mk L k)"
  using assms by (auto simp: rt_schedule_def may_switch_def)

lemma rt_schedule_keeps:
  assumes "lk_ok (Some t) L" "cur c k = Some t" "may_switch c t L k" "sched_inv k" "c < RT_CPUS_NR"
    and "get_highest_priority_thread c k = Some (to, hp)" "keeps_cpu t hp k"
  shows "rt_schedule c (mk L k) = Some (mk L k)"
proof -
  have "upd_thread t (\<lambda>th. th\<lparr>oncpu := c\<rparr>) k = k"
    using sched_inv_oncpu(1) [OF assms(4,2,5)] by (intro upd_thread_noop) (simp add: rt_thread.equality)
  with assms show ?thesis
    by (simp add: rt_schedule_def may_switch_def schedule_select_locked)
qed

lemma highest_is_other:
  assumes "sched_inv k" "cur c k = Some t" "c < RT_CPUS_NR"
    and "ready_priority_group k \<noteq> 0 \<or> cpu_priority_group (cpus k c) \<noteq> 0"
    and "get_highest_priority_thread c k = Some (to, hp)"
  shows "to \<noteq> t" "is_ready (threads k to)" "oncpu (threads k to) = RT_CPU_DETACHED"
    "unat (current_priority (threads k to)) = unat hp"
    "bind_cpu (threads k to) = RT_CPUS_NR \<or> bind_cpu (threads k to) = c"
    "first_thread (lists k (home (threads k to))) = Some to"
    "to \<in> set (lists k (home (threads k to)))"
proof -
  have inv: "queue_inv {} k" using assms(1) by (simp add: sched_inv_def)
  obtain h where h: "h = Ready (unat hp) \<or> h = CpuReady c (unat hp)" "first_thread (lists k h) = Some to"
    using get_highest_spec [OF inv assms(3,4)] assms(5) by (metis option.inject prod.inject)
  then have to: "to \<in> set (lists k h)" "ready_head h"
    by (auto simp: first_thread_def split: list.splits)
  note q = queue_invD(3) [OF inv to(2), of to, THEN iffD1, OF to(1)]
  then show "is_ready (threads k to)" "oncpu (threads k to) = RT_CPU_DETACHED" by simp_all
  then show "to \<noteq> t" using sched_inv_oncpu(2) [OF assms(1-3)] by auto
  show "unat (current_priority (threads k to)) = unat hp"
    "bind_cpu (threads k to) = RT_CPUS_NR \<or> bind_cpu (threads k to) = c"
    using q h(1) by (auto simp: home_def split: if_splits)
  show "first_thread (lists k (home (threads k to))) = Some to"
    "to \<in> set (lists k (home (threads k to)))" using q h(2) to(1) by auto
qed

lemma requeue_cur [simp]: "cur d (requeue_core c t k) = cur d k"
  by (simp add: requeue_core_def Let_def)

lemma switch_core_cur [simp]: "cur d (switch_core c t to hp k) = cur d k"
  by (simp add: switch_core_def)

lemma rt_schedule_switches:
  assumes "lk_ok (Some t) L" "cur c k = Some t" "may_switch c t L k" "to \<noteq> t"
    and "get_highest_priority_thread c k = Some (to, hp)" "\<not> keeps_cpu t hp k"
    and "rt_scheduler_stack_check to (switch_core c t to hp k) = Some u"
  shows "rt_schedule c (mk L k) =
     Some (rt_hw_context_switch c (irq_disabled L c) t to
            (mk (lockn c (Some t) (Suc 0) L) (switch_core c t to hp k)))"
proof -
  have "rt_schedule_remove_thread c to
      (mk (lockn c (Some t) (Suc 0) L)
        (upd_cpu c (\<lambda>p. p\<lparr>cpu_current_priority := ucast hp\<rparr>)
          (upd_thread to (\<lambda>th. th\<lparr>oncpu := c\<rparr>) (requeue_core c t k)))) =
      Some (mk (lockn c (Some t) (Suc 0) L) (switch_core c t to hp k))"
    using assms(1,2) by (subst remove_thread_again) (simp_all add: switch_core_def)
  with assms show ?thesis
    by (simp add: rt_schedule_def may_switch_def schedule_select_locked)
qed

subsection \<open>A switch keeps the queues consistent\<close>

lemma kc_lock_ops [simp]:
  "kc (spin_unlock_cpus s) = kc s" "kc (upd_cpus_nest t f s) = kc s" "kc (upd_sched_nest t f s) = kc s"
  "kc (rt_hw_local_irq_enable c level s) = kc s" "kc (rt_cpus_unlock c level s) = kc s"
  by (auto simp: lock_defs rt_cpus_unlock_def Let_def split: option.splits)

lemma kc_pop_context [simp]:
  "kc (pop_context c to s) = upd_cpu c (\<lambda>p. p\<lparr>current_thread := Some to\<rparr>) (kc s)"
  by (auto simp: pop_context_def rt_cpus_lock_status_restore_def Let_def split: option.splits)

lemma kc_context_switch [simp]:
  "kc (rt_hw_context_switch c level t to s) =
     upd_cpu c (\<lambda>p. p\<lparr>current_thread := Some to\<rparr>)
       (upd_thread t (\<lambda>th. th\<lparr>sp := sp_reg (lk s) c - 64\<rparr>) (kc s))"
  "kc (rt_hw_context_switch_interrupt c t to s) =
     upd_cpu c (\<lambda>p. p\<lparr>current_thread := Some to\<rparr>)
       (upd_thread t (\<lambda>th. th\<lparr>sp := sp_reg (lk s) c - 64\<rparr>) (kc s))"
  by (simp_all add: rt_hw_context_switch_def rt_hw_context_switch_interrupt_def save_context_def)

text \<open>Taking the CPU away from a thread that is in no list: it becomes a thread in transit.\<close>

lemma queue_inv_oncpu:
  assumes inv: "queue_inv X k" and "detached t (lists k) \<or> \<not> is_ready (threads k t)"
    and "t \<in> X \<Longrightarrow> detached t (lists k)"
    and Y: "Y - {t} = X - {t}" "t \<in> Y \<longrightarrow> detached t (lists k)"
      "t \<notin> Y \<longrightarrow> d \<noteq> RT_CPU_DETACHED \<or> \<not> is_ready (threads k t)"
  shows "queue_inv Y (upd_thread t (\<lambda>th. th\<lparr>oncpu := d\<rparr>) k)"
proof -
  let ?k = "upd_thread t (\<lambda>th. th\<lparr>oncpu := d\<rparr>) k"
  have same: "is_ready (th\<lparr>oncpu := d\<rparr>) = is_ready th" "waits (th\<lparr>oncpu := d\<rparr>) = waits th"
    "started (th\<lparr>oncpu := d\<rparr>) = started th" "thread_ok (th\<lparr>oncpu := d\<rparr>) = thread_ok th"
    "home (th\<lparr>oncpu := d\<rparr>) = home th" for th
    by (simp_all add: is_ready_def waits_def started_def thread_ok_def home_def)
  have "u \<in> set (lists ?k h) \<longleftrightarrow>
      u \<notin> Y \<and> is_ready (threads ?k u) \<and> oncpu (threads ?k u) = RT_CPU_DETACHED \<and>
      h = home (threads ?k u)" if "ready_head h" for u h
  proof (cases "u = t")
    case True
    then show ?thesis
      using queue_invD(3) [OF inv that, of t] assms(2) Y(3) by (auto simp: same detached_def)
  next
    case False
    then have "u \<in> Y \<longleftrightarrow> u \<in> X" using Y(1) by blast
    with False queue_invD(3) [OF inv that, of u] show ?thesis by simp
  qed
  moreover have "\<forall>u\<in>Y. detached u (lists ?k)"
  proof
    fix u assume "u \<in> Y"
    show "detached u (lists ?k)"
    proof (cases "u = t")
      case True
      with Y(2) \<open>u \<in> Y\<close> show ?thesis by simp
    next
      case False
      with Y(1) \<open>u \<in> Y\<close> have "u \<in> X" by blast
      with queue_invD(2) [OF inv] show ?thesis by simp
    qed
  qed
  moreover have "stat (threads ?k u) = stat (threads k u)" for u by simp
  ultimately show ?thesis
    using inv unfolding queue_inv_def by (simp add: same tstate_def waits_def started_def thread_ok_def)
qed

lemma requeue_core_inv:
  assumes "sched_inv k" "cur c k = Some t" "c < RT_CPUS_NR"
  shows "queue_inv {} (requeue_core c t k)"
proof -
  have inv: "queue_inv {} k" using assms(1) by (simp add: sched_inv_def)
  let ?k1 = "upd_thread t (\<lambda>th. th\<lparr>oncpu := RT_CPU_DETACHED\<rparr>) k"
  show ?thesis
  proof (cases "is_ready (threads k t)")
    case True
    have det: "detached t (lists k)"
      using running_detached [OF inv True sched_inv_oncpu(2) [OF assms]] .
    have "queue_inv {t} ?k1"
      by (rule queue_inv_oncpu [OF inv]) (use det in auto)
    moreover have "thread_ok (threads k t)"
      using queue_invD(7) [OF inv] True by (simp add: state_excl)
    ultimately show ?thesis
      using insert_body_inv [of "{t}" ?k1 t c] det True
      by (simp add: requeue_core_def thread_ok_def)
  next
    case False
    then show ?thesis
      unfolding requeue_core_def Let_def by (simp, intro queue_inv_oncpu [OF inv]) auto
  qed
qed

lemma requeue_core_threads:
  "threads (requeue_core c t k) =
     (threads k)(t := (threads k t)\<lparr>oncpu := RT_CPU_DETACHED,
        stat := (if is_ready (threads k t) then set_tstate RT_THREAD_READY (stat (threads k t))
                 else stat (threads k t))\<rparr>)"
  by (simp add: requeue_core_def Let_def)

lemma remove_body_oncpu:
  "sched_remove_body to (upd_cpu c (\<lambda>p. p\<lparr>cpu_current_priority := x\<rparr>) (upd_thread to (\<lambda>th. th\<lparr>oncpu := d\<rparr>) k)) =
   upd_cpu c (\<lambda>p. p\<lparr>cpu_current_priority := x\<rparr>) (upd_thread to (\<lambda>th. th\<lparr>oncpu := d\<rparr>) (sched_remove_body to k))"
  by (rule kcore.equality) (auto simp: sched_remove_body_def upd_thread_def upd_cpu_def Let_def)

text \<open>The state after the whole switch, the invariant included.\<close>

lemma switch_core_inv:
  assumes "sched_inv k" "cur c k = Some t" "c < RT_CPUS_NR"
    and "ready_priority_group k \<noteq> 0 \<or> cpu_priority_group (cpus k c) \<noteq> 0"
    and "get_highest_priority_thread c k = Some (to, hp)"
  shows "sched_inv (upd_cpu c (\<lambda>p. p\<lparr>current_thread := Some to\<rparr>)
           (upd_thread t (\<lambda>th. th\<lparr>sp := x\<rparr>) (switch_core c t to hp k)))"
    (is "sched_inv (upd_cpu c ?f (upd_thread t ?g ?k))")
proof -
  note to = highest_is_other [OF assms]
  let ?r = "requeue_core c t k" and ?s = "sched_remove_body to (requeue_core c t k)"
  have thto: "threads ?r to = threads k to" using to(1) by (simp add: requeue_core_threads)
  have ok: "thread_ok (threads k to)"
    using queue_invD(7) [of "{}" k to] assms(1) to(2) by (simp add: sched_inv_def state_excl)
  have "queue_inv {to} ?s"
    using remove_body_inv [OF requeue_core_inv [OF assms(1-3)], of to] thto ok by simp
  then have "queue_inv {} (upd_thread to (\<lambda>th. th\<lparr>oncpu := c\<rparr>) ?s)"
    using assms(3) by (intro queue_inv_oncpu) (auto simp: RT_CPU_DETACHED_def)
  then have "queue_inv {} ?k" by (simp add: switch_core_def remove_body_oncpu)
  then have "queue_inv {} (upd_cpu c ?f (upd_thread t ?g ?k))" by (simp add: sview_def)
  moreover have "cpu_inv (upd_cpu c ?f (upd_thread t ?g ?k))"
  proof -
    have on: "oncpu (threads ?k u) =
        (if u = to then c else if u = t then RT_CPU_DETACHED else oncpu (threads k u))" for u
      using to(1) by (simp add: switch_core_def remove_body_oncpu requeue_core_threads)
    have "cpu_inv k" using assms(1) by (simp add: sched_inv_def)
    then have le: "oncpu (threads k u) \<le> RT_CPUS_NR" and iff: "d < RT_CPUS_NR \<Longrightarrow>
        oncpu (threads k u) = d \<longleftrightarrow> cur d k = Some u" for u d
      by (simp_all add: cpu_inv_def RT_CPU_DETACHED_def)
    have t: "cur d k = Some t \<longleftrightarrow> d = c" if "d < RT_CPUS_NR" for d
      using iff [OF that, of t] iff [OF assms(3), of t] assms(2) by auto
    have nto: "cur d k \<noteq> Some to" if "d < RT_CPUS_NR" for d
      using iff [OF that, of to] to(3) that by (simp add: RT_CPU_DETACHED_def)
    have "oncpu (threads ?k u) \<le> RT_CPU_DETACHED" for u
      using le assms(3) by (simp add: on RT_CPU_DETACHED_def)
    moreover have "oncpu (threads ?k u) = d \<longleftrightarrow> (if d = c then u = to else cur d k = Some u)"
      if "d < RT_CPUS_NR" for u d
      using that iff [OF that, of u] t [OF that] nto [OF that] to(1)
      by (auto simp: on RT_CPU_DETACHED_def)
    ultimately show ?thesis by (auto simp: cpu_inv_def)
  qed
  ultimately show ?thesis by (simp add: sched_inv_def)
qed

text \<open>Hence \<^verbatim>\<open>rt_schedule\<close>, whatever it decides, leaves the queues consistent.\<close>

lemma rt_schedule_cases:
  assumes "lk_ok (Some t) L" "cur c k = Some t" "sched_inv k" "c < RT_CPUS_NR"
    and "rt_schedule c (mk L k) = Some s'"
  obtains (irq) "irq_nest (cpus k c) \<noteq> 0" "s' = mk L (upd_cpu c (\<lambda>p. p\<lparr>irq_switch_flag := True\<rparr>) k)"
  | (stay) "irq_nest (cpus k c) = 0" "\<not> may_switch c t L k" "s' = mk L k"
  | (keep) to hp where "may_switch c t L k" "get_highest_priority_thread c k = Some (to, hp)"
      "keeps_cpu t hp k" "s' = mk L k"
  | (switch) to hp where "may_switch c t L k" "get_highest_priority_thread c k = Some (to, hp)"
      "\<not> keeps_cpu t hp k" "to \<noteq> t" "rt_scheduler_stack_check to (switch_core c t to hp k) = Some ()"
      "s' = rt_hw_context_switch c (irq_disabled L c) t to
             (mk (lockn c (Some t) (Suc 0) L) (switch_core c t to hp k))"
proof (cases "irq_nest (cpus k c) = 0 \<and> may_switch c t L k")
  case False
  then show thesis
    using assms rt_schedule_in_irq [OF assms(1,2)] rt_schedule_stays [OF assms(1,2)] irq stay by fastforce
next
  case True
  have inv: "queue_inv {} k" using assms(3) by (simp add: sched_inv_def)
  obtain to hp where get: "get_highest_priority_thread c k = Some (to, hp)"
    using get_highest_spec [OF inv assms(4)] True unfolding may_switch_def by blast
  have ne: "to \<noteq> t"
    using highest_is_other(1) [OF assms(3,2,4) _ get] True by (simp add: may_switch_def)
  show thesis
  proof (cases "keeps_cpu t hp k")
    case True': True
    then show thesis
      using rt_schedule_keeps [OF assms(1,2) _ assms(3,4) get] True assms(5) keep get by simp
  next
    case False
    show thesis
    proof (cases "rt_scheduler_stack_check to (switch_core c t to hp k)")
      case None
      have "rt_schedule c (mk L k) = None"
        using assms(1,2) True get False ne None
        by (simp add: rt_schedule_def may_switch_def schedule_select_locked remove_thread_again
            switch_core_def)
      with assms(5) show thesis by simp
    next
      case (Some u)
      then show thesis
        using rt_schedule_switches [OF assms(1,2) _ ne get False Some] True assms(5) switch get False ne
        by simp
    qed
  qed
qed

lemma rt_schedule_inv:
  assumes "lk_ok (Some t) L" "cur c k = Some t" "sched_inv k" "c < RT_CPUS_NR"
    and "rt_schedule c (mk L k) = Some s'"
  shows "sched_inv (kc s')"
proof (cases rule: rt_schedule_cases [OF assms])
  case (4 to hp)
  then show ?thesis
    using switch_core_inv [OF assms(3,2,4) _ 4(2)] by (simp add: may_switch_def)
qed (use assms(3) in simp_all)

subsection \<open>The scheduler returns\<close>

text \<open>
  With the stacks of all started threads intact, the stack check never stops the system, so
  \<^verbatim>\<open>rt_schedule\<close> returns.
\<close>

definition stacks_ok :: "kcore \<Rightarrow> bool" where
  "stacks_ok k \<longleftrightarrow> (\<forall>t. started (threads k t) \<longrightarrow> rt_scheduler_stack_check t k = Some ())"

definition stack_view :: "rt_thread \<Rightarrow> u32 \<times> u32 \<times> u32 \<times> u8" where
  "stack_view th = (sp th, stack_addr th, stack_size th, stack_guard th)"

lemma stack_check_cong:
  "stack_view (threads k' t) = stack_view (threads k t) \<Longrightarrow>
   rt_scheduler_stack_check t k' = rt_scheduler_stack_check t k"
  by (simp add: rt_scheduler_stack_check_def stack_view_def)

lemma stacks_ok_mono:
  assumes "stacks_ok k" "\<And>t. started (threads k' t) \<Longrightarrow> started (threads k t)"
    "\<And>t. stack_view (threads k' t) = stack_view (threads k t)"
  shows "stacks_ok k'"
  using assms stack_check_cong unfolding stacks_ok_def by metis

lemma rt_schedule_returns:
  assumes "lk_ok (Some t) L" "cur c k = Some t" "sched_inv k" "c < RT_CPUS_NR" "stacks_ok k"
  shows "\<exists>s'. rt_schedule c (mk L k) = Some s'"
proof (cases "irq_nest (cpus k c) = 0 \<and> may_switch c t L k")
  case False
  then show ?thesis
    using rt_schedule_in_irq [OF assms(1,2)] rt_schedule_stays [OF assms(1,2)] by blast
next
  case True
  have gr: "ready_priority_group k \<noteq> 0 \<or> cpu_priority_group (cpus k c) \<noteq> 0"
    using True by (simp add: may_switch_def)
  obtain to hp where get: "get_highest_priority_thread c k = Some (to, hp)"
    using get_highest_spec [OF _ assms(4) gr] assms(3) unfolding sched_inv_def by blast
  note to = highest_is_other [OF assms(3,2,4) gr get]
  show ?thesis
  proof (cases "keeps_cpu t hp k")
    case True': True
    then show ?thesis using rt_schedule_keeps [OF assms(1,2) _ assms(3,4) get] True by blast
  next
    case False
    have "stack_view (threads (switch_core c t to hp k) to) = stack_view (threads k to)"
      using to(1) by (simp add: switch_core_def requeue_core_threads stack_view_def)
    then have "rt_scheduler_stack_check to (switch_core c t to hp k) = Some ()"
      using assms(5) to(2) state_excl stack_check_cong unfolding stacks_ok_def by metis
    then show ?thesis using rt_schedule_switches [OF assms(1,2) _ to(1) get False] True by blast
  qed
qed

end
