(* ===== verification/Rt_Locking.thy ===== *)
theory Rt_Locking
  imports Rt_Scheduler
begin

text \<open>
  The CPUs lock across context switches. The lock is taken by one thread and may be released by
  another: a thread that is switched out inside \<^verbatim>\<open>rt_schedule\<close> keeps its nest counter, and
  the thread that comes in releases the spin lock exactly when its own counter says that it does
  not hold it. The invariant below is what makes this sound; \<^verbatim>\<open>rt_schedule\<close>,
  \<^verbatim>\<open>rt_cpus_lock\<close> and \<^verbatim>\<open>rt_cpus_unlock\<close> keep it.
\<close>

section \<open>The invariant\<close>

text \<open>\<open>holds_lock c s\<close>: the thread running on \<open>c\<close> is inside \<^verbatim>\<open>rt_cpus_lock\<close>.\<close>

definition holds_lock :: "cpu_id \<Rightarrow> kstate \<Rightarrow> bool" where
  "holds_lock c s \<longleftrightarrow> (\<exists>t. cur c (kc s) = Some t \<and> cpus_lock_nest (lk s) t \<noteq> 0)"

definition running :: "tid \<Rightarrow> kcore \<Rightarrow> bool" where
  "running t k \<longleftrightarrow> (\<exists>c < RT_CPUS_NR. cur c k = Some t)"

definition lock_inv :: "kstate \<Rightarrow> bool" where
  "lock_inv s \<longleftrightarrow>
     (\<forall>t. running t (kc s) \<longrightarrow> switch_frame (lk s) t = None) \<and>
     (\<forall>t. \<not> running t (kc s) \<longrightarrow> (cpus_lock_nest (lk s) t \<noteq> 0 \<longleftrightarrow> switch_frame (lk s) t \<noteq> None)) \<and>
     (cpus_lock (lk s) \<longleftrightarrow> (\<exists>c < RT_CPUS_NR. holds_lock c s)) \<and>
     (\<forall>c < RT_CPUS_NR. \<forall>d < RT_CPUS_NR. holds_lock c s \<longrightarrow> holds_lock d s \<longrightarrow> c = d) \<and>
     (\<forall>t. unat (cpus_lock_nest (lk s) t) <
            0x8000 + (if switch_frame (lk s) t = None then 0 else 1))"

lemma lock_invD:
  assumes "lock_inv s"
  shows "running t (kc s) \<Longrightarrow> switch_frame (lk s) t = None"
    and "\<not> running t (kc s) \<Longrightarrow> cpus_lock_nest (lk s) t \<noteq> 0 \<longleftrightarrow> switch_frame (lk s) t \<noteq> None"
    and "cpus_lock (lk s) \<longleftrightarrow> (\<exists>c < RT_CPUS_NR. holds_lock c s)"
    and "c < RT_CPUS_NR \<Longrightarrow> d < RT_CPUS_NR \<Longrightarrow> holds_lock c s \<Longrightarrow> holds_lock d s \<Longrightarrow> c = d"
    and "unat (cpus_lock_nest (lk s) t) < 0x8000 + (if switch_frame (lk s) t = None then 0 else 1)"
  using assms unfolding lock_inv_def by blast+

text \<open>The lock can be taken on a CPU that holds it or while nobody does.\<close>

lemma lk_ok_of_inv:
  assumes "lock_inv s" "c < RT_CPUS_NR" "holds_lock c s \<or> \<not> cpus_lock (lk s)"
  shows "lk_ok (cur c (kc s)) (lk s)"
proof (cases "cur c (kc s)")
  case (Some t)
  then have "switch_frame (lk s) t = None"
    using lock_invD(1) [OF assms(1)] assms(2) by (auto simp: running_def)
  with lock_invD(5) [OF assms(1), of t] assms(3) Some show ?thesis
    by (auto simp: lk_ok_def holds_lock_def)
qed (simp add: lk_ok_def)

section \<open>The lock state after a switch\<close>

lemma pop_context_lk:
  "cpus_lock_nest (lk (pop_context c to s)) =
     (case switch_frame (lk s) to of None \<Rightarrow> cpus_lock_nest (lk s)
      | Some _ \<Rightarrow> (cpus_lock_nest (lk s))(to := cpus_lock_nest (lk s) to - 1))"
  "switch_frame (lk (pop_context c to s)) = (switch_frame (lk s))(to := None)"
  "cpus_lock (lk (pop_context c to s)) \<longleftrightarrow>
     cpus_lock (lk s) \<and> cpus_lock_nest (lk s) to \<noteq> 0 \<and>
     (switch_frame (lk s) to \<noteq> None \<longrightarrow> cpus_lock_nest (lk s) to \<noteq> 1)"
  by (auto simp: pop_context_def rt_cpus_lock_status_restore_def rt_cpus_unlock_def lock_defs
      Let_def fun_upd_idem split: option.splits)

lemma save_context_lk [simp]:
  "cpus_lock_nest (lk (save_context c t fr s)) = cpus_lock_nest (lk s)"
  "switch_frame (lk (save_context c t fr s)) = (switch_frame (lk s))(t := fr)"
  "cpus_lock (lk (save_context c t fr s)) = cpus_lock (lk s)"
  "cpus (kc (save_context c t fr s)) = cpus (kc s)"
  by (simp_all add: save_context_def)

lemma lockn_Suc0:
  "cpus_lock_nest (lockn c (Some t) (Suc 0) L) = (cpus_lock_nest L)(t := cpus_lock_nest L t + 1)"
  "cpus_lock (lockn c (Some t) (Suc 0) L) \<longleftrightarrow> cpus_lock L \<or> cpus_lock_nest L t = 0"
  by (auto simp: lockn_def Let_def)

text \<open>
  The general form: on CPU \<open>c\<close> the thread \<open>t\<close> leaves with nest counter \<open>m\<close> and frame \<open>fr\<close>,
  the lock being held, and \<open>to\<close>, which ran nowhere, comes in.
\<close>

lemma lock_inv_switch:
  assumes inv: "lock_inv s0" and c: "c < RT_CPUS_NR" and t: "cur c (kc s0) = Some t"
    and to: "\<not> running to (kc s0)"
    and others: "\<And>d. d < RT_CPUS_NR \<Longrightarrow> d \<noteq> c \<Longrightarrow> \<not> holds_lock d s0"
    and uniq: "\<And>d. d < RT_CPUS_NR \<Longrightarrow> cur d (kc s0) = Some t \<Longrightarrow> d = c"
    and s: "cpus_lock (lk s)" "cpus_lock_nest (lk s) = (cpus_lock_nest (lk s0))(t := m)"
      "switch_frame (lk s) = switch_frame (lk s0)" "\<And>d. cur d (kc s) = cur d (kc s0)"
    and m: "m \<noteq> 0 \<longleftrightarrow> fr \<noteq> None" "unat m < 0x8000 + (if fr = None then 0 else 1)"
  shows "lock_inv (pop_context c to (save_context c t fr s))"
proof -
  let ?s = "pop_context c to (save_context c t fr s)"
  have ne: "to \<noteq> t" using to t c by (auto simp: running_def)
  have fr_to: "cpus_lock_nest (lk s0) to \<noteq> 0 \<longleftrightarrow> switch_frame (lk s0) to \<noteq> None"
    using lock_invD(2) [OF inv to] .
  have cur': "cur d (kc ?s) = (if d = c then Some to else cur d (kc s0))" for d
    using s(4) [of d] by (simp add: save_context_def)
  define n where "n = (if switch_frame (lk s0) to = None then cpus_lock_nest (lk s0) to
    else cpus_lock_nest (lk s0) to - 1)"
  have nest': "cpus_lock_nest (lk ?s) = (cpus_lock_nest (lk s0))(t := m, to := n)"
    using ne s(2,3) by (auto simp: pop_context_lk n_def fun_eq_iff split: option.splits)
  have frame': "switch_frame (lk ?s) = (switch_frame (lk s0))(t := fr, to := None)"
    using s(3) by (simp add: pop_context_lk)
  have lock': "cpus_lock (lk ?s) \<longleftrightarrow> n \<noteq> 0"
    using ne s fr_to by (auto simp: pop_context_lk n_def)
  have run': "running u (kc ?s) \<longleftrightarrow> u = to \<or> (u \<noteq> t \<and> running u (kc s0))" for u
  proof -
    have "running u (kc ?s) \<longleftrightarrow> u = to \<or> (\<exists>d<RT_CPUS_NR. d \<noteq> c \<and> cur d (kc s0) = Some u)"
      unfolding running_def cur' using c by auto
    moreover have "(\<exists>d<RT_CPUS_NR. d \<noteq> c \<and> cur d (kc s0) = Some u) \<longleftrightarrow> u \<noteq> t \<and> running u (kc s0)"
      unfolding running_def using t uniq by (metis option.inject)
    ultimately show ?thesis by simp
  qed
  have hold': "holds_lock d ?s \<longleftrightarrow> d = c \<and> n \<noteq> 0" if "d < RT_CPUS_NR" for d
    using others [OF that] uniq [OF that] to that
    by (auto simp: holds_lock_def s(4) nest' running_def)
  have "unat n < 0x8000"
  proof (cases "switch_frame (lk s0) to = None")
    case False
    then have "unat n = unat (cpus_lock_nest (lk s0) to) - 1"
      using fr_to by (auto simp: n_def unat_minus_one)
    with lock_invD(5) [OF inv, of to] False show ?thesis by (simp split: if_splits)
  qed (use lock_invD(5) [OF inv, of to] in \<open>simp add: n_def\<close>)
  then have b: "unat (cpus_lock_nest (lk ?s) u) < 0x8000 + (if switch_frame (lk ?s) u = None then 0 else 1)" for u
    using lock_invD(5) [OF inv, of u] m(2) by (auto simp: nest' frame')
  have "switch_frame (lk ?s) u = None" if "running u (kc ?s)" for u
    using that lock_invD(1) [OF inv] by (auto simp: run' frame' simp del: kc_pop_context)
  moreover have "cpus_lock_nest (lk ?s) u \<noteq> 0 \<longleftrightarrow> switch_frame (lk ?s) u \<noteq> None"
    if "\<not> running u (kc ?s)" for u
    using that lock_invD(2) [OF inv, of u] m(1) by (auto simp: run' frame' nest' simp del: kc_pop_context)
  ultimately show ?thesis
    using b c lock' hold' unfolding lock_inv_def by blast
qed

lemma running_unique:
  assumes "sched_inv k" "c < RT_CPUS_NR" "d < RT_CPUS_NR" "cur c k = Some t" "cur d k = Some t"
  shows "d = c"
  using assms unfolding sched_inv_def cpu_inv_def by metis

lemma not_running_detached:
  "sched_inv k \<Longrightarrow> oncpu (threads k t) = RT_CPU_DETACHED \<Longrightarrow> \<not> running t k"
  by (auto simp: running_def dest: sched_inv_oncpu(2))

text \<open>\<^verbatim>\<open>rt_schedule\<close> keeps the lock discipline, whether it switches or not.\<close>

lemma lock_inv_cong:
  "lk s = lk s' \<Longrightarrow> (\<And>c. cur c (kc s) = cur c (kc s')) \<Longrightarrow> lock_inv s \<longleftrightarrow> lock_inv s'"
  by (simp add: lock_inv_def running_def holds_lock_def)

lemma rt_schedule_lock_inv:
  assumes inv: "lock_inv (mk L k)" "sched_inv k" and c: "c < RT_CPUS_NR" "cur c k = Some t"
    and ok: "lk_ok (Some t) L" and step: "rt_schedule c (mk L k) = Some s'"
  shows "lock_inv s'"
proof (cases rule: rt_schedule_cases [OF ok c(2) inv(2) c(1) step])
  case 1
  then show ?thesis using inv(1) by (subst lock_inv_cong [of _ "mk L k"]) auto
next
  case (4 to hp)
  have gr: "ready_priority_group k \<noteq> 0 \<or> cpu_priority_group (cpus k c) \<noteq> 0"
    using 4(1) by (simp add: may_switch_def)
  have to: "\<not> running to k"
    using not_running_detached highest_is_other(3) [OF inv(2) c(2,1) gr 4(2)] inv(2) by blast
  have bound: "unat (cpus_lock_nest L t) < 0x8000" using ok by (simp add: lk_ok_def)
  then have m: "cpus_lock_nest L t + 1 \<noteq> 0"
    using nest_room [of "cpus_lock_nest L t" 1] by simp
  then have "unat (cpus_lock_nest L t + 1) = unat (cpus_lock_nest L t) + 1"
    by (metis Suc_eq_plus1 add.commute unatSuc)
  have others: "\<not> holds_lock d (mk L k)" if "d < RT_CPUS_NR" "d \<noteq> c" for d
  proof
    assume h: "holds_lock d (mk L k)"
    then have "cpus_lock L" using lock_invD(3) [OF inv(1)] that(1) by auto
    then have "holds_lock c (mk L k)" using ok c(2) by (auto simp: lk_ok_def holds_lock_def)
    with lock_invD(4) [OF inv(1) c(1) that(1) _ h] that(2) show False by simp
  qed
  have "cpus_lock (lockn c (Some t) (Suc 0) L)"
    using lock_invD(3) [OF inv(1)] c by (auto simp: lockn_Suc0 holds_lock_def)
  then show ?thesis
    unfolding 4(6) rt_hw_context_switch_def
    using lock_inv_switch [OF inv(1) c(1) _ _ others, of t to
        "mk (lockn c (Some t) (Suc 0) L) (switch_core c t to hp k)"
        "cpus_lock_nest L t + 1" "Some (irq_disabled L c)"]
      c(2) to running_unique [OF inv(2) c(1)] m bound \<open>unat (cpus_lock_nest L t + 1) = _\<close>
    by (simp add: lockn_Suc0)
qed (use inv(1) in simp_all)

section \<open>Switching on the way out of an interrupt\<close>

text \<open>
  The interrupted thread does not hold the CPUs lock (interrupts are masked while it does), so its
  counter is 0 when \<^verbatim>\<open>rt_scheduler_do_irq_switch\<close> is called, and again when it leaves.
\<close>

lemma do_irq_switch_cases:
  assumes ok: "lk_ok (Some t) L" and c: "cur c k = Some t" "c < RT_CPUS_NR" and inv: "sched_inv k"
    and step: "rt_scheduler_do_irq_switch c (mk L k) = Some s'"
    and k1: "k1 = upd_cpu c (\<lambda>p. p\<lparr>irq_switch_flag := False\<rparr>) k"
  obtains (no_flag) "\<not> irq_switch_flag (cpus k c)" "s' = mk L k"
  | (locked) "irq_switch_flag (cpus k c)" "s' = mk L k"
      "scheduler_lock_nest (lockn c (Some t) (Suc 0) L) t \<noteq> 1 \<or> irq_nest (cpus k c) \<noteq> 0"
  | (none) "ready_priority_group k = 0" "cpu_priority_group (cpus k c) = 0" "s' = mk L k1"
  | (keep) to hp where "irq_switch_flag (cpus k c)" "may_switch c t L k"
      "get_highest_priority_thread c k1 = Some (to, hp)" "keeps_cpu t hp k1" "s' = mk L k1"
  | (switch) to hp where "irq_switch_flag (cpus k c)" "may_switch c t L k"
      "get_highest_priority_thread c k1 = Some (to, hp)"
      "\<not> keeps_cpu t hp k1" "to \<noteq> t"
      "s' = rt_hw_context_switch_interrupt c t to
             (upd_sched_nest t (\<lambda>n. n - 1) (upd_cpus_nest t (\<lambda>n. n - 1)
               (mk (lockn c (Some t) (Suc 0) L) (switch_core c t to hp k1))))"
proof -
  have inv1: "sched_inv k1" "cur c k1 = Some t" using inv c by (simp_all add: k1)
  then have q: "queue_inv {} k1" by (simp add: sched_inv_def)
  consider "\<not> irq_switch_flag (cpus k c)"
    | "irq_switch_flag (cpus k c)" "scheduler_lock_nest (lockn c (Some t) (Suc 0) L) t \<noteq> 1 \<or> irq_nest (cpus k c) \<noteq> 0"
    | "irq_switch_flag (cpus k c)" "scheduler_lock_nest (lockn c (Some t) (Suc 0) L) t = 1" "irq_nest (cpus k c) = 0"
      "ready_priority_group k = 0" "cpu_priority_group (cpus k c) = 0"
    | "irq_switch_flag (cpus k c)" "may_switch c t L k"
    by (auto simp: may_switch_def)
  then show thesis
  proof cases
    case 1
    then show thesis using step ok c no_flag by (simp add: rt_scheduler_do_irq_switch_def)
  next
    case 2
    then show thesis using step ok c locked by (auto simp: rt_scheduler_do_irq_switch_def)
  next
    case 3
    then show thesis using step ok c none by (simp add: rt_scheduler_do_irq_switch_def k1)
  next
    case 4
    then have gr: "ready_priority_group k1 \<noteq> 0 \<or> cpu_priority_group (cpus k1 c) \<noteq> 0"
      by (simp add: may_switch_def k1)
    obtain to hp where get: "get_highest_priority_thread c k1 = Some (to, hp)"
      using get_highest_spec [OF q c(2) gr] by blast
    have ne: "to \<noteq> t" using highest_is_other(1) [OF inv1 c(2) gr get] .
    have noop: "upd_thread t (\<lambda>th. th\<lparr>oncpu := c\<rparr>) k1 = k1"
      using sched_inv_oncpu(1) [OF inv1 c(2)] by (intro upd_thread_noop) (simp add: rt_thread.equality)
    have sel: "rt_scheduler_do_irq_switch c (mk L k) =
      (do { (to, highest, s) \<leftarrow> schedule_select c t (mk (lockn c (Some t) (Suc 0) L) k1);
            if to \<noteq> t then
              do { let s = s\<lparr>kc := upd_cpu c (\<lambda>p. p\<lparr>cpu_current_priority := ucast highest\<rparr>) (kc s)\<rparr>;
                   s \<leftarrow> rt_schedule_remove_thread c to s;
                   rt_scheduler_stack_check to (kc s);
                   let s = upd_sched_nest t (\<lambda>n. n - 1) (upd_cpus_nest t (\<lambda>n. n - 1) s);
                   Some (rt_hw_context_switch_interrupt c t to s) }
            else Some (rt_hw_interrupt_enable c (irq_disabled L c) s) })"
      using 4 gr ok c by (simp add: rt_scheduler_do_irq_switch_def may_switch_def k1)
    show thesis
    proof (cases "keeps_cpu t hp k1")
      case True
      with step ok inv1(2) get noop have "s' = mk L k1"
        by (simp add: sel schedule_select_locked)
      with 4 get True show thesis by (intro keep)
    next
      case False
      with step ok inv1(2) get ne show thesis
        using switch [OF 4 get False ne]
        by (auto simp: sel schedule_select_locked remove_thread_again switch_core_def bind_Some_iff)
    qed
  qed
qed

lemma lk_nest_ops [simp]:
  "cpus_lock (lk (upd_sched_nest t f (upd_cpus_nest t g s))) = cpus_lock (lk s)"
  "cpus_lock_nest (lk (upd_sched_nest t f (upd_cpus_nest t g s))) =
     (cpus_lock_nest (lk s))(t := g (cpus_lock_nest (lk s) t))"
  "switch_frame (lk (upd_sched_nest t f (upd_cpus_nest t g s))) = switch_frame (lk s)"
  by (simp_all add: lock_defs)

lemma do_irq_switch_inv:
  assumes ok: "lk_ok (Some t) L" and c: "cur c k = Some t" "c < RT_CPUS_NR"
    and inv: "sched_inv k" "lock_inv (mk L k)" and nest: "cpus_lock_nest L t = 0"
    and step: "rt_scheduler_do_irq_switch c (mk L k) = Some s'"
  shows "sched_inv (kc s')" "lock_inv s'"
proof -
  let ?k1 = "upd_cpu c (\<lambda>p. p\<lparr>irq_switch_flag := False\<rparr>) k"
  have inv1: "sched_inv ?k1" "cur c ?k1 = Some t" "lock_inv (mk L ?k1)"
    using inv c by (simp_all add: lock_inv_cong [of "mk L ?k1" "mk L k"])
  have "sched_inv (kc s') \<and> lock_inv s'"
  proof (cases rule: do_irq_switch_cases [OF ok c inv(1) step refl])
    case (5 to hp)
    have gr: "ready_priority_group ?k1 \<noteq> 0 \<or> cpu_priority_group (cpus ?k1 c) \<noteq> 0"
      using 5(2) by (simp add: may_switch_def)
    have to: "\<not> running to ?k1"
      using not_running_detached highest_is_other(3) [OF inv1(1,2) c(2) gr 5(3)] inv1(1) by blast
    have "\<not> cpus_lock L" using ok nest by (simp add: lk_ok_def)
    then have others: "\<not> holds_lock d (mk L ?k1)" if "d < RT_CPUS_NR" for d
      using lock_invD(3) [OF inv1(3)] that by auto
    have uniq: "d = c" if "d < RT_CPUS_NR" "cur d ?k1 = Some t" for d
      using running_unique [OF inv1(1) c(2) that(1) inv1(2) that(2)] .
    have "lock_inv s'"
      unfolding 5(6) rt_hw_context_switch_interrupt_def
    proof (rule lock_inv_switch [OF inv1(3) c(2), where m = 0])
      show "d = c" if "d < RT_CPUS_NR" "cur d (kc (mk L ?k1)) = Some t" for d
        using that by (intro uniq) simp_all
    qed (use inv1(2) to others nest in \<open>simp_all add: lockn_Suc0\<close>)
    moreover have "sched_inv (kc s')"
      using switch_core_inv [OF inv1(1,2) c(2) gr 5(3)] 5(6) by simp
    ultimately show ?thesis by simp
  qed (use inv inv1 in simp_all)
  then show "sched_inv (kc s')" "lock_inv s'" by simp_all
qed

section \<open>Starting\<close>

text \<open>\<^verbatim>\<open>rt_system_scheduler_init\<close> establishes the queue invariant when no thread has been started.\<close>

lemma scheduler_init_inv:
  assumes "\<And>t. \<not> started (threads k t) \<and> oncpu (threads k t) = RT_CPU_DETACHED"
    and "\<And>h. h \<noteq> Defunct \<Longrightarrow> \<not> (\<exists>p. h = Ready p \<and> p < RT_THREAD_PRIORITY_MAX) \<Longrightarrow>
           \<not> (\<exists>c p. h = CpuReady c p \<and> c < RT_CPUS_NR \<and> p < RT_THREAD_PRIORITY_MAX) \<Longrightarrow> lists k h = []"
  shows "sched_inv (rt_system_scheduler_init k)"
proof -
  have "lists (rt_system_scheduler_init k) h = []" for h
    using assms(2) [of h] by (cases h) (auto simp: rt_system_scheduler_init_def)
  moreover have "\<not> is_ready (threads k t)" for t
    using assms(1) [of t] by (auto simp: started_def is_ready_def)
  ultimately show ?thesis
    using assms(1)
    by (auto simp: sched_inv_def queue_inv_def cpu_inv_def rt_system_scheduler_init_def lists_wf_def
        detached_def RT_CPU_DETACHED_def)
qed

text \<open>The first thread of a CPU: the CPU runs nothing before, and holds the spin lock.\<close>

lemma scheduler_start_inv:
  assumes inv: "sched_inv k" and c: "c < RT_CPUS_NR" "cur c k = None"
    and step: "rt_system_scheduler_start c (mk L k) = Some s'"
    and gr: "ready_priority_group k \<noteq> 0 \<or> cpu_priority_group (cpus k c) \<noteq> 0"
  shows "sched_inv (kc s')"
proof -
  have q: "queue_inv {} k" using inv by (simp add: sched_inv_def)
  obtain to hp h where get: "get_highest_priority_thread c k = Some (to, hp)"
    and h: "h = Ready (unat hp) \<or> h = CpuReady c (unat hp)" "first_thread (lists k h) = Some to"
    using get_highest_spec [OF q c(1) gr] by metis
  then have "to \<in> set (lists k h)" "ready_head h"
    by (auto simp: first_thread_def split: list.splits)
  then have to: "is_ready (threads k to)" "oncpu (threads k to) = RT_CPU_DETACHED"
    using queue_invD(3) [OF q] by auto
  then have ok: "thread_ok (threads k to)" using queue_invD(7) [OF q] by (simp add: state_excl)
  let ?k = "sched_remove_body to (upd_thread to (\<lambda>th. th\<lparr>oncpu := c\<rparr>) k)"
  have s': "s' = pop_context c to (mk L ?k)"
    using step get c(2) remove_thread_first [of None L "upd_thread to (\<lambda>th. th\<lparr>oncpu := c\<rparr>) k" c to]
    by (simp add: rt_system_scheduler_start_def lk_ok_def)
  have comm: "?k = upd_thread to (\<lambda>th. th\<lparr>oncpu := c\<rparr>) (sched_remove_body to k)"
    by (rule kcore.equality) (auto simp: sched_remove_body_def upd_thread_def upd_cpu_def Let_def)
  have "queue_inv {} ?k"
    unfolding comm using remove_body_inv [OF q ok] c(1)
    by (intro queue_inv_oncpu) (auto simp: RT_CPU_DETACHED_def)
  then have "queue_inv {} (kc s')" by (simp add: s')
  moreover have "cpu_inv (kc s')"
  proof -
    have le: "oncpu (threads k u) \<le> RT_CPUS_NR" and iff: "d < RT_CPUS_NR \<Longrightarrow>
        oncpu (threads k u) = d \<longleftrightarrow> cur d k = Some u" for u d
      using inv by (simp_all add: sched_inv_def cpu_inv_def RT_CPU_DETACHED_def)
    have nto: "cur d k \<noteq> Some to" if "d < RT_CPUS_NR" for d
      using iff [OF that, of to] to(2) that by (simp add: RT_CPU_DETACHED_def)
    show ?thesis
      unfolding cpu_inv_def s' using le iff nto c by (auto simp: RT_CPU_DETACHED_def)
  qed
  ultimately show ?thesis by (simp add: sched_inv_def)
qed

section \<open>The scheduler lock\<close>

text \<open>\<^verbatim>\<open>rt_enter_critical\<close> and \<^verbatim>\<open>rt_exit_critical\<close> touch only the counter and its spin lock.\<close>

lemma rt_enter_critical_kc: "rt_enter_critical c s = Some s' \<Longrightarrow> kc s' = kc s"
  by (auto simp: rt_enter_critical_def lock_defs spin_lock_critical_def Let_def bind_Some_iff
      split: if_splits)

text \<open>Inside a critical section a call of \<^verbatim>\<open>rt_schedule\<close> never switches.\<close>

lemma critical_no_switch:
  assumes "lk_ok (Some t) L" "cur c k = Some t" "irq_nest (cpus k c) = 0"
    and "scheduler_lock_nest (lockn c (Some t) (Suc 0) L) t \<noteq> 1"
  shows "rt_schedule c (mk L k) = Some (mk L k)"
  using assms by (intro rt_schedule_stays) (auto simp: may_switch_def)

lemma enter_critical_first:
  assumes "cur c k = Some t" "cpus_lock_nest L t = 0" "scheduler_lock_nest L t = 0" "\<not> critical_lock L"
  shows "rt_enter_critical c (mk L k) =
     Some (mk (L\<lparr>critical_lock := True, scheduler_lock_nest := (scheduler_lock_nest L)(t := 1)\<rparr>) k)"
  using assms
  by (simp add: rt_enter_critical_def lock_defs spin_lock_critical_def cpus_nest_flag_def Let_def
      fun_upd_idem)

end
