(* ===== verification/Rt_Object.thy ===== *)
theory Rt_Object
  imports Rt_Locking
begin

text \<open>
  The object system, \<^verbatim>\<open>src/object.c\<close>: every kernel object carries a name, a type and a flag
  byte and sits in the list of its class. Hooks are not installed and modules are not used. Memory
  for a dynamic object comes from \<^verbatim>\<open>RT_KERNEL_MALLOC\<close>; its result is an argument of
  \<open>rt_object_allocate\<close> (\<open>None\<close> when there is no memory).
\<close>

section \<open>Classes\<close>

definition RT_Object_Class_Thread :: u8 where "RT_Object_Class_Thread = 0"
definition RT_Object_Class_Semaphore :: u8 where "RT_Object_Class_Semaphore = 1"
definition RT_Object_Class_Mutex :: u8 where "RT_Object_Class_Mutex = 2"
definition RT_Object_Class_Event :: u8 where "RT_Object_Class_Event = 3"
definition RT_Object_Class_MailBox :: u8 where "RT_Object_Class_MailBox = 4"
definition RT_Object_Class_MessageQueue :: u8 where "RT_Object_Class_MessageQueue = 5"
definition RT_Object_Class_MemHeap :: u8 where "RT_Object_Class_MemHeap = 6"
definition RT_Object_Class_MemPool :: u8 where "RT_Object_Class_MemPool = 7"
definition RT_Object_Class_Device :: u8 where "RT_Object_Class_Device = 8"
definition RT_Object_Class_Timer :: u8 where "RT_Object_Class_Timer = 9"
definition RT_Object_Class_Unknown :: u8 where "RT_Object_Class_Unknown = 11"
definition RT_Object_Class_Static :: u8 where "RT_Object_Class_Static = 0x80"

lemmas class_defs = RT_Object_Class_Thread_def RT_Object_Class_Semaphore_def
  RT_Object_Class_Mutex_def RT_Object_Class_Event_def RT_Object_Class_MailBox_def
  RT_Object_Class_MessageQueue_def RT_Object_Class_MemHeap_def RT_Object_Class_MemPool_def
  RT_Object_Class_Device_def RT_Object_Class_Timer_def RT_Object_Class_Unknown_def
  RT_Object_Class_Static_def

text \<open>The \<^verbatim>\<open>type\<close> column of \<^verbatim>\<open>rt_object_container\<close>.\<close>

definition rt_object_container :: "u8 list" where
  "rt_object_container =
     [RT_Object_Class_Thread, RT_Object_Class_Semaphore, RT_Object_Class_Mutex,
      RT_Object_Class_Event, RT_Object_Class_MailBox, RT_Object_Class_MessageQueue,
      RT_Object_Class_MemHeap, RT_Object_Class_MemPool, RT_Object_Class_Device,
      RT_Object_Class_Timer]"

fun find_index :: "u8 \<Rightarrow> nat \<Rightarrow> u8 list \<Rightarrow> nat option" where
  "find_index ty i [] = None"
| "find_index ty i (x # xs) = (if x = ty then Some i else find_index ty (Suc i) xs)"

definition rt_object_get_information :: "u8 \<Rightarrow> nat option" where
  "rt_object_get_information ty = find_index ty 0 rt_object_container"

section \<open>Operations\<close>

definition rt_object_init :: "cpu_id \<Rightarrow> objref \<Rightarrow> u8 \<Rightarrow> u8 list \<Rightarrow> kstate \<Rightarrow> kstate option" where
  "rt_object_init c r ty name s =
     do { let information = rt_object_get_information ty;
          RT_ASSERT (information \<noteq> None);
          let s = s\<lparr>kc := upd_obj r (\<lambda>ob. ob\<lparr>obj_type := ty OR RT_Object_Class_Static,
                                               obj_name := rt_strncpy name RT_NAME_MAX\<rparr>) (kc s)\<rparr>;
          (temp, s) \<leftarrow> rt_hw_interrupt_disable c s;
          let s = s\<lparr>kc := (kc s)\<lparr>container := ll_insert_head (the information) r (container (kc s))\<rparr>\<rparr>;
          Some (rt_hw_interrupt_enable c temp s) }"

definition rt_object_detach :: "cpu_id \<Rightarrow> objref \<Rightarrow> kstate \<Rightarrow> kstate option" where
  "rt_object_detach c r s =
     do { let s = s\<lparr>kc := upd_obj r (\<lambda>ob. ob\<lparr>obj_type := 0\<rparr>) (kc s)\<rparr>;
          (temp, s) \<leftarrow> rt_hw_interrupt_disable c s;
          let s = s\<lparr>kc := (kc s)\<lparr>container := ll_remove r (container (kc s))\<rparr>\<rparr>;
          Some (rt_hw_interrupt_enable c temp s) }"

text \<open>\<^verbatim>\<open>rt_memset(object, 0, size)\<close> on a new object, by kind.\<close>

definition zero_timer :: rt_timer where
  "zero_timer = \<lparr>timeout_func = UserTimeout 0, init_tick = 0, timeout_tick = 0\<rparr>"

definition zero_thread :: rt_thread where
  "zero_thread = \<lparr>sp = 0, stack_addr = 0, stack_size = 0, stack_guard = 0, th_error = 0, stat = 0,
     bind_cpu = 0, oncpu = 0, current_priority = 0, init_priority = 0, number_mask = 0,
     event_set = 0, event_info = 0, th_init_tick = 0, remaining_tick = 0, cleanup = None,
     user_data = 0\<rparr>"

definition clear_object :: "objref \<Rightarrow> kcore \<Rightarrow> kcore" where
  "clear_object r k =
     (case r of
        OThread t \<Rightarrow> upd_timer (OThreadTimer t) (\<lambda>_. zero_timer) (upd_thread t (\<lambda>_. zero_thread) k)
      | OThreadTimer t \<Rightarrow> k
      | OTimer _ \<Rightarrow> upd_timer r (\<lambda>_. zero_timer) k
      | OSem i \<Rightarrow> k\<lparr>sems := (sems k)(i := \<lparr>sem_value = 0\<rparr>)\<rparr>
      | OMutex i \<Rightarrow> k\<lparr>mutexes := (mutexes k)(i :=
            \<lparr>mtx_value = 0, original_priority = 0, hold = 0, owner = None\<rparr>)\<rparr>
      | OEvent i \<Rightarrow> k\<lparr>events := (events k)(i := \<lparr>ev_set = 0\<rparr>)\<rparr>
      | OMailBox i \<Rightarrow> k\<lparr>mailboxes := (mailboxes k)(i :=
            \<lparr>mb_pool = [], mb_size = 0, mb_entry = 0, in_offset = 0, out_offset = 0\<rparr>)\<rparr>
      | OMq i \<Rightarrow> k\<lparr>mqueues := (mqueues k)(i :=
            \<lparr>mq_next = (\<lambda>_. None), mq_data = (\<lambda>_. []), mq_msg_size = 0, mq_max_msgs = 0, mq_entry = 0,
             msg_queue_head = None, msg_queue_tail = None, msg_queue_free = None\<rparr>)\<rparr>
      | OMemPool i \<Rightarrow> k\<lparr>mempools := (mempools k)(i :=
            \<lparr>mp_header = (\<lambda>_. NextFree None), mp_size = 0, block_size = 0, block_list = None,
             block_total_count = 0, block_free_count = 0, suspend_thread_count = 0\<rparr>)\<rparr>
      | _ \<Rightarrow> k)"

definition rt_object_allocate ::
    "cpu_id \<Rightarrow> u8 \<Rightarrow> u8 list \<Rightarrow> objref option \<Rightarrow> kstate \<Rightarrow> (objref option \<times> kstate) option" where
  "rt_object_allocate c ty name mem s =
     do { s \<leftarrow> RT_DEBUG_NOT_IN_INTERRUPT c s;
          let information = rt_object_get_information ty;
          RT_ASSERT (information \<noteq> None);
          case mem of
            None \<Rightarrow> Some (None, s)
          | Some r \<Rightarrow>
              do { let s = s\<lparr>kc := upd_obj r (\<lambda>ob. ob\<lparr>obj_type := ty, obj_flag := 0,
                                       obj_name := rt_strncpy name RT_NAME_MAX\<rparr>) (clear_object r (kc s))\<rparr>;
                   (temp, s) \<leftarrow> rt_hw_interrupt_disable c s;
                   let s = s\<lparr>kc := (kc s)\<lparr>container := ll_insert_head (the information) r (container (kc s))\<rparr>\<rparr>;
                   Some (Some r, rt_hw_interrupt_enable c temp s) } }"

definition rt_object_is_systemobject :: "objref \<Rightarrow> kcore \<Rightarrow> bool" where
  "rt_object_is_systemobject r k \<longleftrightarrow> obj_type (objs k r) AND RT_Object_Class_Static \<noteq> 0"

definition rt_object_get_type :: "objref \<Rightarrow> kcore \<Rightarrow> u8" where
  "rt_object_get_type r k = obj_type (objs k r) AND NOT RT_Object_Class_Static"

definition rt_object_delete :: "cpu_id \<Rightarrow> objref \<Rightarrow> kstate \<Rightarrow> kstate option" where
  "rt_object_delete c r s =
     do { RT_ASSERT (obj_type (objs (kc s) r) AND RT_Object_Class_Static = 0);
          let s = s\<lparr>kc := upd_obj r (\<lambda>ob. ob\<lparr>obj_type := 0\<rparr>) (kc s)\<rparr>;
          (temp, s) \<leftarrow> rt_hw_interrupt_disable c s;
          let s = s\<lparr>kc := (kc s)\<lparr>container := ll_remove r (container (kc s))\<rparr>\<rparr>;
          let s = rt_hw_interrupt_enable c temp s;
          Some (s\<lparr>kc := (kc s)\<lparr>freed := r # freed (kc s)\<rparr>\<rparr>) }"

text \<open>The loop over the list of a class.\<close>

definition find_object :: "u8 list \<Rightarrow> nat \<Rightarrow> kcore \<Rightarrow> objref option" where
  "find_object name information k =
     List.find (\<lambda>r. rt_strncmp (obj_name (objs k r)) name RT_NAME_MAX = 0) (container k information)"

definition rt_object_find :: "cpu_id \<Rightarrow> u8 list option \<Rightarrow> u8 \<Rightarrow> kstate \<Rightarrow> (objref option \<times> kstate) option" where
  "rt_object_find c name ty s =
     (if name = None \<or> RT_Object_Class_Unknown < ty then Some (None, s)
      else
        do { s \<leftarrow> RT_DEBUG_NOT_IN_INTERRUPT c s;
             s \<leftarrow> rt_enter_critical c s;
             let information = rt_object_get_information ty;
             RT_ASSERT (information \<noteq> None);
             let object = find_object (the name) (the information) (kc s);
             s \<leftarrow> rt_exit_critical c s;
             Some (object, s) })"

section \<open>Effects on the protected state\<close>

definition object_init_core :: "objref \<Rightarrow> u8 \<Rightarrow> u8 list \<Rightarrow> nat \<Rightarrow> kcore \<Rightarrow> kcore" where
  "object_init_core r ty name i k =
     (upd_obj r (\<lambda>ob. ob\<lparr>obj_type := ty OR RT_Object_Class_Static,
                          obj_name := rt_strncpy name RT_NAME_MAX\<rparr>) k)\<lparr>
       container := ll_insert_head i r (container k)\<rparr>"

definition object_detach_core :: "objref \<Rightarrow> kcore \<Rightarrow> kcore" where
  "object_detach_core r k =
     (upd_obj r (\<lambda>ob. ob\<lparr>obj_type := 0\<rparr>) k)\<lparr>container := ll_remove r (container k)\<rparr>"

lemma rt_object_init_first [simp]:
  "lk_ok th L \<Longrightarrow> cur c k = th \<Longrightarrow> rt_object_get_information ty = Some i \<Longrightarrow>
     rt_object_init c r ty name (mk L k) = Some (mk L (object_init_core r ty name i k))"
  by (simp add: rt_object_init_def object_init_core_def)

lemma rt_object_detach_first [simp]:
  "lk_ok th L \<Longrightarrow> cur c k = th \<Longrightarrow>
     rt_object_detach c r (mk L k) = Some (mk L (object_detach_core r k))"
  by (simp add: rt_object_detach_def object_detach_core_def)

lemma rt_object_detach_again [simp]:
  "lk_ok th L \<Longrightarrow> cur c k = th \<Longrightarrow> n < 0xff \<Longrightarrow>
     rt_object_detach c r (mk (lockn c th (Suc n) L) k) =
       Some (mk (lockn c th (Suc n) L) (object_detach_core r k))"
  by (simp add: rt_object_detach_def object_detach_core_def)

lemma rt_object_delete_first [simp]:
  "lk_ok th L \<Longrightarrow> cur c k = th \<Longrightarrow> \<not> rt_object_is_systemobject r k \<Longrightarrow>
     rt_object_delete c r (mk L k) =
       Some (mk L ((object_detach_core r k)\<lparr>freed := r # freed k\<rparr>))"
  by (simp add: rt_object_delete_def object_detach_core_def rt_object_is_systemobject_def)

lemma sched_inv_object [simp]:
  "sched_inv (object_init_core r ty name i k) = sched_inv k"
  "sched_inv (object_detach_core r k) = sched_inv k"
  by (simp_all add: object_init_core_def object_detach_core_def)

lemma object_core_fields [simp]:
  "threads (object_detach_core r k) = threads k" "lists (object_detach_core r k) = lists k"
  "cpus (object_detach_core r k) = cpus k" "timers (object_detach_core r k) = timers k"
  "threads (object_init_core r ty name i k) = threads k" "lists (object_init_core r ty name i k) = lists k"
  "cpus (object_init_core r ty name i k) = cpus k" "timers (object_init_core r ty name i k) = timers k"
  "rt_timer_list (object_init_core r ty name i k) = rt_timer_list k"
  "rt_soft_timer_list (object_init_core r ty name i k) = rt_soft_timer_list k"
  by (simp_all add: object_init_core_def object_detach_core_def)

text \<open>A static object keeps its class below the static bit; a detached one loses it.\<close>

lemma object_init_type:
  assumes "rt_object_get_information ty = Some i"
  shows "rt_object_get_type r (object_init_core r ty name i k) = ty"
    and "rt_object_is_systemobject r (object_init_core r ty name i k)"
  using assms
  by (auto simp: rt_object_get_information_def rt_object_container_def rt_object_get_type_def
      rt_object_is_systemobject_def object_init_core_def class_defs split: if_splits)

text \<open>A name is found through the newest object that carries it.\<close>

lemma find_object_init:
  "take RT_NAME_MAX (cstr name') = take RT_NAME_MAX (cstr name) \<Longrightarrow>
     find_object name' i (object_init_core r ty name i k) = Some r"
  by (simp add: find_object_def object_init_core_def ll_insert_head_def rt_strncmp_eq_0 cstr_rt_strncpy)

lemma find_object_sound:
  assumes "find_object name i k = Some r"
  shows "r \<in> set (container k i)" "take RT_NAME_MAX (cstr (obj_name (objs k r))) = take RT_NAME_MAX (cstr name)"
  using assms by (auto simp: find_object_def find_Some_iff rt_strncmp_eq_0)

lemma find_object_complete:
  "find_object name i k = None \<longleftrightarrow>
     (\<forall>r \<in> set (container k i). take RT_NAME_MAX (cstr (obj_name (objs k r))) \<noteq> take RT_NAME_MAX (cstr name))"
  by (auto simp: find_object_def find_None_iff rt_strncmp_eq_0)

end
