(* ===== verification/Rt_Timer.thy ===== *)
theory Rt_Timer
  imports Rt_Object
begin

text \<open>
  Timers, \<^verbatim>\<open>src/timer.c\<close>, with \<^verbatim>\<open>rt_tick_get\<close> and \<^verbatim>\<open>rt_tick_set\<close> of
  \<^verbatim>\<open>src/clock.c\<close> and, because starting a soft timer wakes the timer thread,
  \<^verbatim>\<open>rt_thread_suspend\<close> and \<^verbatim>\<open>rt_thread_resume\<close> of \<^verbatim>\<open>src/thread.c\<close>. The skip list
  has one level (\<^verbatim>\<open>RT_TIMER_SKIP_LIST_LEVEL\<close> is 1), so a timer list is one sorted list. Ticks are
  32-bit words and compared modulo \<open>2 ^ 32\<close>.
\<close>

section \<open>Ticks\<close>

text \<open>\<^verbatim>\<open>rt_tick\<close> is the tick of CPU 0 in the SMP build.\<close>

definition rt_tick_get :: "kcore \<Rightarrow> u32" where
  "rt_tick_get k = cpu_tick (cpus k 0)"

definition rt_tick_set :: "cpu_id \<Rightarrow> u32 \<Rightarrow> kstate \<Rightarrow> kstate option" where
  "rt_tick_set c tick s =
     do { (level, s) \<leftarrow> rt_hw_interrupt_disable c s;
          let s = s\<lparr>kc := upd_cpu 0 (\<lambda>p. p\<lparr>cpu_tick := tick\<rparr>) (kc s)\<rparr>;
          Some (rt_hw_interrupt_enable c level s) }"

section \<open>Creating and stopping\<close>

definition RT_TIMER_FLAG_ACTIVATED :: u8 where "RT_TIMER_FLAG_ACTIVATED = 0x1"
definition RT_TIMER_FLAG_PERIODIC :: u8 where "RT_TIMER_FLAG_PERIODIC = 0x2"
definition RT_TIMER_FLAG_SOFT_TIMER :: u8 where "RT_TIMER_FLAG_SOFT_TIMER = 0x4"

lemmas timer_flag_defs = RT_TIMER_FLAG_ACTIVATED_def RT_TIMER_FLAG_PERIODIC_def RT_TIMER_FLAG_SOFT_TIMER_def

definition timer_flag :: "objref \<Rightarrow> u8 \<Rightarrow> kcore \<Rightarrow> bool" where
  "timer_flag r f k \<longleftrightarrow> obj_flag (objs k r) AND f \<noteq> 0"

definition set_timer_flag :: "objref \<Rightarrow> u8 \<Rightarrow> kcore \<Rightarrow> kcore" where
  "set_timer_flag r f k = upd_obj r (\<lambda>ob. ob\<lparr>obj_flag := obj_flag ob OR f\<rparr>) k"

definition clear_timer_flag :: "objref \<Rightarrow> u8 \<Rightarrow> kcore \<Rightarrow> kcore" where
  "clear_timer_flag r f k = upd_obj r (\<lambda>ob. ob\<lparr>obj_flag := obj_flag ob AND NOT f\<rparr>) k"

text \<open>\<^verbatim>\<open>_rt_timer_init\<close> and \<^verbatim>\<open>_rt_timer_remove\<close>; a timer is linked into at most one of the two lists.\<close>

definition rt_timer_init_fields :: "objref \<Rightarrow> timeout_fn \<Rightarrow> u32 \<Rightarrow> u8 \<Rightarrow> kcore \<Rightarrow> kcore" where
  "rt_timer_init_fields r timeout time flag k =
     upd_timer r (\<lambda>tm. tm\<lparr>timeout_func := timeout, timeout_tick := 0, init_tick := time\<rparr>)
       (clear_timer_flag r RT_TIMER_FLAG_ACTIVATED (upd_obj r (\<lambda>ob. ob\<lparr>obj_flag := flag\<rparr>) k))"

definition rt_timer_remove :: "objref \<Rightarrow> kcore \<Rightarrow> kcore" where
  "rt_timer_remove r k =
     k\<lparr>rt_timer_list := removeAll r (rt_timer_list k),
       rt_soft_timer_list := removeAll r (rt_soft_timer_list k)\<rparr>"

definition rt_timer_list_next_timeout :: "objref list \<Rightarrow> kcore \<Rightarrow> u32" where
  "rt_timer_list_next_timeout l k =
     (case l of [] \<Rightarrow> RT_TICK_MAX | r # _ \<Rightarrow> timeout_tick (timers k r))"

definition rt_timer_init ::
    "cpu_id \<Rightarrow> objref \<Rightarrow> u8 list \<Rightarrow> timeout_fn \<Rightarrow> u32 \<Rightarrow> u8 \<Rightarrow> kstate \<Rightarrow> kstate option" where
  "rt_timer_init c r name timeout time flag s =
     do { s \<leftarrow> rt_object_init c r RT_Object_Class_Timer name s;
          Some (s\<lparr>kc := rt_timer_init_fields r timeout time flag (kc s)\<rparr>) }"

definition rt_timer_detach :: "cpu_id \<Rightarrow> objref \<Rightarrow> kstate \<Rightarrow> (rt_err_t \<times> kstate) option" where
  "rt_timer_detach c r s =
     do { RT_ASSERT (rt_object_get_type r (kc s) = RT_Object_Class_Timer);
          RT_ASSERT (rt_object_is_systemobject r (kc s));
          (level, s) \<leftarrow> rt_hw_interrupt_disable c s;
          let s = s\<lparr>kc := rt_timer_remove r (kc s)\<rparr>;
          let s = rt_hw_interrupt_enable c level s;
          s \<leftarrow> rt_object_detach c r s;
          Some (RT_EOK, s) }"

definition rt_timer_create ::
    "cpu_id \<Rightarrow> u8 list \<Rightarrow> timeout_fn \<Rightarrow> u32 \<Rightarrow> u8 \<Rightarrow> objref option \<Rightarrow> kstate \<Rightarrow> (objref option \<times> kstate) option" where
  "rt_timer_create c name timeout time flag mem s =
     do { (timer, s) \<leftarrow> rt_object_allocate c RT_Object_Class_Timer name mem s;
          case timer of None \<Rightarrow> Some (None, s)
          | Some r \<Rightarrow> Some (Some r, s\<lparr>kc := rt_timer_init_fields r timeout time flag (kc s)\<rparr>) }"

definition rt_timer_delete :: "cpu_id \<Rightarrow> objref \<Rightarrow> kstate \<Rightarrow> (rt_err_t \<times> kstate) option" where
  "rt_timer_delete c r s =
     do { RT_ASSERT (rt_object_get_type r (kc s) = RT_Object_Class_Timer);
          RT_ASSERT (\<not> rt_object_is_systemobject r (kc s));
          (level, s) \<leftarrow> rt_hw_interrupt_disable c s;
          let s = s\<lparr>kc := rt_timer_remove r (kc s)\<rparr>;
          let s = rt_hw_interrupt_enable c level s;
          s \<leftarrow> rt_object_delete c r s;
          Some (RT_EOK, s) }"

definition rt_timer_stop :: "cpu_id \<Rightarrow> objref \<Rightarrow> kstate \<Rightarrow> (rt_err_t \<times> kstate) option" where
  "rt_timer_stop c r s =
     do { RT_ASSERT (rt_object_get_type r (kc s) = RT_Object_Class_Timer);
          if \<not> timer_flag r RT_TIMER_FLAG_ACTIVATED (kc s) then Some (- RT_ERROR, s)
          else
            do { (level, s) \<leftarrow> rt_hw_interrupt_disable c s;
                 let s = s\<lparr>kc := rt_timer_remove r (kc s)\<rparr>;
                 let s = rt_hw_interrupt_enable c level s;
                 let s = s\<lparr>kc := clear_timer_flag r RT_TIMER_FLAG_ACTIVATED (kc s)\<rparr>;
                 Some (RT_EOK, s) } }"

datatype timer_cmd = TIMER_SET_TIME u32 | TIMER_GET_TIME | TIMER_SET_ONESHOT | TIMER_SET_PERIODIC | TIMER_OTHER

text \<open>The value written through \<^verbatim>\<open>arg\<close> by \<^verbatim>\<open>RT_TIMER_CTRL_GET_TIME\<close> is the second result.\<close>

definition rt_timer_control :: "objref \<Rightarrow> timer_cmd \<Rightarrow> kstate \<Rightarrow> (rt_err_t \<times> u32 option \<times> kstate) option" where
  "rt_timer_control r cmd s =
     do { RT_ASSERT (rt_object_get_type r (kc s) = RT_Object_Class_Timer);
          Some (case cmd of
            TIMER_GET_TIME \<Rightarrow> (RT_EOK, Some (init_tick (timers (kc s) r)), s)
          | TIMER_SET_TIME t \<Rightarrow> (RT_EOK, None, s\<lparr>kc := upd_timer r (\<lambda>tm. tm\<lparr>init_tick := t\<rparr>) (kc s)\<rparr>)
          | TIMER_SET_ONESHOT \<Rightarrow> (RT_EOK, None, s\<lparr>kc := clear_timer_flag r RT_TIMER_FLAG_PERIODIC (kc s)\<rparr>)
          | TIMER_SET_PERIODIC \<Rightarrow> (RT_EOK, None, s\<lparr>kc := set_timer_flag r RT_TIMER_FLAG_PERIODIC (kc s)\<rparr>)
          | TIMER_OTHER \<Rightarrow> (RT_EOK, None, s)) }"

section \<open>Suspending and resuming a thread\<close>

definition rt_thread_suspend :: "cpu_id \<Rightarrow> tid \<Rightarrow> kstate \<Rightarrow> (rt_err_t \<times> kstate) option" where
  "rt_thread_suspend c t s =
     do { RT_ASSERT (rt_object_get_type (OThread t) (kc s) = RT_Object_Class_Thread);
          if tstate t (kc s) \<noteq> RT_THREAD_READY then Some (- RT_ERROR, s)
          else
            do { let (self, s) = rt_thread_self c s;
                 RT_ASSERT (self = Some t);
                 (temp, s) \<leftarrow> rt_hw_interrupt_disable c s;
                 let s = s\<lparr>kc := upd_thread t (\<lambda>th. th\<lparr>stat := set_tstate RT_THREAD_SUSPEND (stat th)\<rparr>) (kc s)\<rparr>;
                 s \<leftarrow> rt_schedule_remove_thread c t s;
                 (_, s) \<leftarrow> rt_timer_stop c (OThreadTimer t) s;
                 Some (RT_EOK, rt_hw_interrupt_enable c temp s) } }"

definition rt_thread_resume :: "cpu_id \<Rightarrow> tid \<Rightarrow> kstate \<Rightarrow> (rt_err_t \<times> kstate) option" where
  "rt_thread_resume c t s =
     do { RT_ASSERT (rt_object_get_type (OThread t) (kc s) = RT_Object_Class_Thread);
          if tstate t (kc s) \<noteq> RT_THREAD_SUSPEND then Some (- RT_ERROR, s)
          else
            do { (temp, s) \<leftarrow> rt_hw_interrupt_disable c s;
                 let s = s\<lparr>kc := (kc s)\<lparr>lists := ll_remove t (lists (kc s))\<rparr>\<rparr>;
                 (_, s) \<leftarrow> rt_timer_stop c (OThreadTimer t) s;
                 let s = rt_hw_interrupt_enable c temp s;
                 s \<leftarrow> rt_schedule_insert_thread c t s;
                 Some (RT_EOK, s) } }"

section \<open>Starting\<close>

text \<open>
  The insertion loop: \<^verbatim>\<open>row_head\<close> walks to the last timer that expires no later than the new one.
\<close>

fun timer_list_insert :: "(objref \<Rightarrow> u32) \<Rightarrow> objref \<Rightarrow> objref list \<Rightarrow> objref list" where
  "timer_list_insert tick r [] = [r]"
| "timer_list_insert tick r (t # ts) =
     (if tick t - tick r = 0 then t # timer_list_insert tick r ts
      else if tick t - tick r < RT_TICK_MAX div 2 then r # t # ts
      else t # timer_list_insert tick r ts)"

text \<open>The address of the static thread object \<^verbatim>\<open>timer_thread\<close>.\<close>

definition timer_thread :: tid where "timer_thread = 0"

definition timer_link :: "objref \<Rightarrow> kcore \<Rightarrow> kcore" where
  "timer_link r k =
     (if timer_flag r RT_TIMER_FLAG_SOFT_TIMER k then
        k\<lparr>rt_soft_timer_list := timer_list_insert (\<lambda>x. timeout_tick (timers k x)) r (rt_soft_timer_list k)\<rparr>
      else
        k\<lparr>rt_timer_list := timer_list_insert (\<lambda>x. timeout_tick (timers k x)) r (rt_timer_list k)\<rparr>)"

definition rt_timer_start :: "cpu_id \<Rightarrow> objref \<Rightarrow> kstate \<Rightarrow> (rt_err_t \<times> kstate) option" where
  "rt_timer_start c r s =
     do { RT_ASSERT (rt_object_get_type r (kc s) = RT_Object_Class_Timer);
          (level, s) \<leftarrow> rt_hw_interrupt_disable c s;
          let s = s\<lparr>kc := clear_timer_flag r RT_TIMER_FLAG_ACTIVATED (rt_timer_remove r (kc s))\<rparr>;
          let s = rt_hw_interrupt_enable c level s;
          RT_ASSERT (init_tick (timers (kc s) r) < RT_TICK_MAX div 2);
          let s = s\<lparr>kc := upd_timer r (\<lambda>tm. tm\<lparr>timeout_tick := rt_tick_get (kc s) + init_tick tm\<rparr>) (kc s)\<rparr>;
          (level, s) \<leftarrow> rt_hw_interrupt_disable c s;
          let s = s\<lparr>kc := set_timer_flag r RT_TIMER_FLAG_ACTIVATED (timer_link r (kc s))\<rparr>;
          let s = rt_hw_interrupt_enable c level s;
          if timer_flag r RT_TIMER_FLAG_SOFT_TIMER (kc s) \<and> tstate timer_thread (kc s) \<noteq> RT_THREAD_READY then
            do { (_, s) \<leftarrow> rt_thread_resume c timer_thread s;
                 s \<leftarrow> rt_schedule c s;
                 Some (RT_EOK, s) }
          else Some (RT_EOK, s) }"

section \<open>Expiry\<close>

text \<open>
  The loop of \<^verbatim>\<open>rt_timer_check\<close>. The timeout functions are the argument \<open>call\<close>. The loop need not
  end (a periodic timer with \<^verbatim>\<open>init_tick\<close> 0 expires again at once), hence a partial function.
\<close>

partial_function (option) rt_timer_check_loop ::
    "(timeout_fn \<Rightarrow> kstate \<Rightarrow> kstate option) \<Rightarrow> cpu_id \<Rightarrow> u32 \<Rightarrow> kstate \<Rightarrow> kstate option" where
  "rt_timer_check_loop call c current_tick s =
     (case rt_timer_list (kc s) of
        [] \<Rightarrow> Some s
      | r # _ \<Rightarrow>
          if current_tick - timeout_tick (timers (kc s) r) < RT_TICK_MAX div 2 then
            Option.bind (call (timeout_func (timers (kc s) r)) (s\<lparr>kc := rt_timer_remove r (kc s)\<rparr>))
              (\<lambda>s. if timer_flag r RT_TIMER_FLAG_PERIODIC (kc s) \<and> timer_flag r RT_TIMER_FLAG_ACTIVATED (kc s)
                   then Option.bind (rt_timer_start c r (s\<lparr>kc := clear_timer_flag r RT_TIMER_FLAG_ACTIVATED (kc s)\<rparr>))
                          (\<lambda>es. rt_timer_check_loop call c (rt_tick_get (kc s)) (snd es))
                   else rt_timer_check_loop call c (rt_tick_get (kc s))
                          (s\<lparr>kc := clear_timer_flag r RT_TIMER_FLAG_ACTIVATED (kc s)\<rparr>))
          else Some s)"

definition rt_timer_check :: "(timeout_fn \<Rightarrow> kstate \<Rightarrow> kstate option) \<Rightarrow> cpu_id \<Rightarrow> kstate \<Rightarrow> kstate option" where
  "rt_timer_check call c s =
     do { let current_tick = rt_tick_get (kc s);
          (level, s) \<leftarrow> rt_hw_interrupt_disable c s;
          s \<leftarrow> rt_timer_check_loop call c current_tick s;
          Some (rt_hw_interrupt_enable c level s) }"

definition rt_timer_next_timeout_tick :: "kcore \<Rightarrow> u32" where
  "rt_timer_next_timeout_tick k = rt_timer_list_next_timeout (rt_timer_list k) k"

definition rt_system_timer_init :: "kcore \<Rightarrow> kcore" where
  "rt_system_timer_init k = k\<lparr>rt_timer_list := []\<rparr>"

section \<open>Effects on the protected state\<close>

text \<open>Writing timers and timer lists leaves the scheduler's view alone.\<close>

lemma timer_ops_fields [simp, core_simps]:
  "threads (rt_timer_remove r k) = threads k" "lists (rt_timer_remove r k) = lists k"
  "cpus (rt_timer_remove r k) = cpus k" "objs (rt_timer_remove r k) = objs k"
  "timers (rt_timer_remove r k) = timers k" "ready_priority_group (rt_timer_remove r k) = ready_priority_group k"
  "sems (rt_timer_remove r k) = sems k" "mutexes (rt_timer_remove r k) = mutexes k"
  "events (rt_timer_remove r k) = events k" "mailboxes (rt_timer_remove r k) = mailboxes k"
  "mqueues (rt_timer_remove r k) = mqueues k" "mempools (rt_timer_remove r k) = mempools k" "container (rt_timer_remove r k) = container k"
  "rt_timer_list (rt_timer_remove r k) = removeAll r (rt_timer_list k)"
  "rt_soft_timer_list (rt_timer_remove r k) = removeAll r (rt_soft_timer_list k)"
  "threads (timer_link r k) = threads k" "lists (timer_link r k) = lists k"
  "cpus (timer_link r k) = cpus k" "objs (timer_link r k) = objs k" "timers (timer_link r k) = timers k"
  "ready_priority_group (timer_link r k) = ready_priority_group k"
  "sems (timer_link r k) = sems k" "mutexes (timer_link r k) = mutexes k"
  "events (timer_link r k) = events k" "mailboxes (timer_link r k) = mailboxes k"
  "mqueues (timer_link r k) = mqueues k" "mempools (timer_link r k) = mempools k" "container (timer_link r k) = container k"
  by (simp_all add: rt_timer_remove_def timer_link_def)

lemma sched_inv_timer_ops [simp]:
  "sched_inv (rt_timer_remove r k) = sched_inv k" "sched_inv (timer_link r k) = sched_inv k"
  "sched_inv (set_timer_flag r f k) = sched_inv k" "sched_inv (clear_timer_flag r f k) = sched_inv k"
  by (simp_all add: rt_timer_remove_def timer_link_def set_timer_flag_def clear_timer_flag_def)

lemma timer_flag_fields [simp, core_simps]:
  "threads (set_timer_flag r f k) = threads k" "lists (set_timer_flag r f k) = lists k"
  "cpus (set_timer_flag r f k) = cpus k" "timers (set_timer_flag r f k) = timers k"
  "ready_priority_group (set_timer_flag r f k) = ready_priority_group k"
  "rt_timer_list (set_timer_flag r f k) = rt_timer_list k"
  "rt_soft_timer_list (set_timer_flag r f k) = rt_soft_timer_list k"
  "sems (set_timer_flag r f k) = sems k" "mutexes (set_timer_flag r f k) = mutexes k"
  "events (set_timer_flag r f k) = events k" "mailboxes (set_timer_flag r f k) = mailboxes k"
  "mqueues (set_timer_flag r f k) = mqueues k" "mempools (set_timer_flag r f k) = mempools k" "container (set_timer_flag r f k) = container k"
  "threads (clear_timer_flag r f k) = threads k" "lists (clear_timer_flag r f k) = lists k"
  "cpus (clear_timer_flag r f k) = cpus k" "timers (clear_timer_flag r f k) = timers k"
  "ready_priority_group (clear_timer_flag r f k) = ready_priority_group k"
  "rt_timer_list (clear_timer_flag r f k) = rt_timer_list k"
  "rt_soft_timer_list (clear_timer_flag r f k) = rt_soft_timer_list k"
  "sems (clear_timer_flag r f k) = sems k" "mutexes (clear_timer_flag r f k) = mutexes k"
  "events (clear_timer_flag r f k) = events k" "mailboxes (clear_timer_flag r f k) = mailboxes k"
  "mqueues (clear_timer_flag r f k) = mqueues k" "mempools (clear_timer_flag r f k) = mempools k" "container (clear_timer_flag r f k) = container k"
  by (simp_all add: set_timer_flag_def clear_timer_flag_def)

lemma obj_type_ops [simp]:
  "rt_object_get_type q (set_timer_flag r f k) = rt_object_get_type q k"
  "rt_object_get_type q (clear_timer_flag r f k) = rt_object_get_type q k"
  "rt_object_get_type q (rt_timer_remove r k) = rt_object_get_type q k"
  "rt_object_get_type q (timer_link r k) = rt_object_get_type q k"
  "rt_object_get_type q (upd_timer r g k) = rt_object_get_type q k"
  "rt_object_get_type q (upd_thread t h k) = rt_object_get_type q k"
  "rt_object_get_type q (upd_cpu d i k) = rt_object_get_type q k"
  "rt_object_get_type q (k\<lparr>lists := l\<rparr>) = rt_object_get_type q k"
  "rt_object_get_type q (sched_insert_body d t k) = rt_object_get_type q k"
  "rt_object_get_type q (sched_remove_body t k) = rt_object_get_type q k"
  by (simp_all add: rt_object_get_type_def set_timer_flag_def clear_timer_flag_def)

lemma tstate_ops [simp]:
  "tstate t (set_timer_flag r f k) = tstate t k" "tstate t (clear_timer_flag r f k) = tstate t k"
  "tstate t (rt_timer_remove r k) = tstate t k" "tstate t (timer_link r k) = tstate t k"
  "tstate t (upd_timer r g k) = tstate t k"
  by (simp_all add: tstate_def)

text \<open>
  \<open>objs_ok\<close>: the type bytes the kernel's assertions read. Every thread that is neither initial nor
  closed is a thread object with a timer object inside.
\<close>

definition objs_ok :: "kcore \<Rightarrow> bool" where
  "objs_ok k \<longleftrightarrow>
     (\<forall>t. started (threads k t) \<longrightarrow>
        rt_object_get_type (OThread t) k = RT_Object_Class_Thread \<and>
        rt_object_get_type (OThreadTimer t) k = RT_Object_Class_Timer)"

lemma objs_okD:
  assumes "objs_ok k" "started (threads k t)"
  shows "rt_object_get_type (OThread t) k = RT_Object_Class_Thread"
    "rt_object_get_type (OThreadTimer t) k = RT_Object_Class_Timer"
  using assms by (auto simp: objs_ok_def)

definition timer_stop_core :: "objref \<Rightarrow> kcore \<Rightarrow> kcore" where
  "timer_stop_core r k =
     (if timer_flag r RT_TIMER_FLAG_ACTIVATED k
      then clear_timer_flag r RT_TIMER_FLAG_ACTIVATED (rt_timer_remove r k) else k)"

lemma timer_stop_core_fields [simp, core_simps]:
  "threads (timer_stop_core r k) = threads k" "lists (timer_stop_core r k) = lists k"
  "cpus (timer_stop_core r k) = cpus k" "timers (timer_stop_core r k) = timers k"
  "ready_priority_group (timer_stop_core r k) = ready_priority_group k"
  "sems (timer_stop_core r k) = sems k" "mutexes (timer_stop_core r k) = mutexes k"
  "events (timer_stop_core r k) = events k" "mailboxes (timer_stop_core r k) = mailboxes k"
  "mqueues (timer_stop_core r k) = mqueues k" "mempools (timer_stop_core r k) = mempools k" "container (timer_stop_core r k) = container k"
  "sched_inv (timer_stop_core r k) = sched_inv k"
  "rt_object_get_type q (timer_stop_core r k) = rt_object_get_type q k"
  by (simp_all add: timer_stop_core_def)

lemma timer_stop_n [simp]:
  assumes "lk_ok th L" "cur c k = th" "n < 0xfe" "rt_object_get_type r k = RT_Object_Class_Timer"
  shows "rt_timer_stop c r (mk (lockn c th n L) k) =
     Some (if timer_flag r RT_TIMER_FLAG_ACTIVATED k then RT_EOK else - RT_ERROR,
           mk (lockn c th n L) (timer_stop_core r k))"
  using assms by (cases n) (simp_all add: rt_timer_stop_def timer_stop_core_def)

lemmas timer_stop_first [simp] = timer_stop_n [where n = 0, simplified]

text \<open>Taking a waiting thread out of its queue.\<close>

lemma unlink_waiter_inv:
  assumes inv: "queue_inv X k" and w: "\<not> is_ready (threads k t)"
  shows "queue_inv X (k\<lparr>lists := ll_remove t (lists k)\<rparr>)"
proof -
  have nr: "t \<notin> set (lists k h)" if "ready_head h" for h
    using queue_invD(3) [OF inv that, of t] w by simp
  have "ll_remove t (lists k) h = lists k h" if "ready_head h" for h
    using nr [OF that] by (rule ll_remove_other)
  then have eq: "ll_remove t (lists k) (Ready p) = lists k (Ready p)"
    "ll_remove t (lists k) (CpuReady d p) = lists k (CpuReady d p)" for p d by simp_all
  let ?k = "k\<lparr>lists := ll_remove t (lists k)\<rparr>"
  have "u \<in> set (lists ?k h) \<longleftrightarrow>
      u \<notin> X \<and> is_ready (threads ?k u) \<and> oncpu (threads ?k u) = RT_CPU_DETACHED \<and>
      h = home (threads ?k u)" if "ready_head h" for u h
    using queue_invD(3) [OF inv that, of u] nr [OF that] by auto
  moreover have "lists_wf (lists ?k)" using queue_invD(1) [OF inv] by (simp add: lists_wf_remove)
  moreover have "\<forall>u\<in>X. detached u (lists ?k)" using queue_invD(2) [OF inv] by (auto simp: detached_def)
  moreover have "waits (threads ?k u)"
    if "u \<in> set (lists ?k (SuspendQ q)) \<union> set (lists ?k (SenderQ q))" for u q
    using that queue_invD(4,5) [OF inv] by auto
  moreover have "\<forall>u\<in>set (lists ?k Defunct). tstate u ?k = RT_THREAD_CLOSE"
    using queue_invD(6) [OF inv] by (auto simp: tstate_def)
  ultimately show ?thesis
    using queue_invD(7-9) [OF inv] unfolding queue_inv_def by (simp add: eq)
qed

definition resume_core :: "cpu_id \<Rightarrow> tid \<Rightarrow> kcore \<Rightarrow> kcore" where
  "resume_core c t k =
     sched_insert_body c t (timer_stop_core (OThreadTimer t) (k\<lparr>lists := ll_remove t (lists k)\<rparr>))"

lemma resume_n [simp]:
  assumes "lk_ok th L" "cur c k = th" "n < 0xf0" "objs_ok k" "waits (threads k t)"
  shows "rt_thread_resume c t (mk (lockn c th n L) k) =
     Some (RT_EOK, mk (lockn c th n L) (resume_core c t k))"
proof -
  have ty: "rt_object_get_type (OThread t) k = RT_Object_Class_Thread"
    "rt_object_get_type (OThreadTimer t) k = RT_Object_Class_Timer"
    using objs_okD assms(4,5) state_excl(3) by auto
  have "tstate t k = RT_THREAD_SUSPEND" using assms(5) by (simp add: waits_def tstate_def)
  with assms(1-3) ty show ?thesis
    by (cases n) (simp_all add: rt_thread_resume_def resume_core_def)
qed

lemmas resume_first [simp] = resume_n [where n = 0, simplified]

lemma resume_core_inv:
  assumes inv: "sched_inv k" and w: "waits (threads k t)"
  shows "sched_inv (resume_core c t k)"
proof -
  have q: "queue_inv {} k" and cp: "cpu_inv k" using inv by (simp_all add: sched_inv_def)
  let ?k = "timer_stop_core (OThreadTimer t) (k\<lparr>lists := ll_remove t (lists k)\<rparr>)"
  have nr: "\<not> is_ready (threads k t)" using w state_excl(1) by blast
  have ok: "thread_ok (threads k t)" using queue_invD(7) [OF q] w state_excl(3) by blast
  have "queue_inv {} ?k"
    using unlink_waiter_inv [OF q nr] queue_inv_cong [of ?k "k\<lparr>lists := ll_remove t (lists k)\<rparr>" "{}"] by simp
  then have "queue_inv {} (resume_core c t k)"
    using insert_body_inv [of "{}" ?k t c] ok by (simp add: resume_core_def)
  moreover have "cpu_inv (resume_core c t k)"
    using cp by (simp add: resume_core_def cpu_inv_def)
  ultimately show ?thesis by (simp add: sched_inv_def)
qed

definition suspend_core :: "tid \<Rightarrow> kcore \<Rightarrow> kcore" where
  "suspend_core t k =
     timer_stop_core (OThreadTimer t)
       (sched_remove_body t (upd_thread t (\<lambda>th. th\<lparr>stat := set_tstate RT_THREAD_SUSPEND (stat th)\<rparr>) k))"

lemma suspend_n [simp]:
  assumes "lk_ok (Some t) L" "cur c k = Some t" "n < 0xf0" "objs_ok k" "is_ready (threads k t)"
  shows "rt_thread_suspend c t (mk (lockn c (Some t) n L) k) =
     Some (RT_EOK, mk (lockn c (Some t) n L) (suspend_core t k))"
proof -
  have ty: "rt_object_get_type (OThread t) k = RT_Object_Class_Thread"
    "rt_object_get_type (OThreadTimer t) k = RT_Object_Class_Timer"
    using objs_okD assms(4,5) state_excl(2) by auto
  have "tstate t k = RT_THREAD_READY" using assms(5) by (simp add: is_ready_def tstate_def)
  with assms(1-3) ty show ?thesis
    by (cases n) (simp_all add: rt_thread_suspend_def suspend_core_def)
qed

lemmas suspend_first [simp] = suspend_n [where n = 0, simplified]

text \<open>Changing the state of a thread that is in no ready list.\<close>

lemma queue_inv_set_stat:
  assumes inv: "queue_inv X k" and nr: "detached t (lists k)"
    and new: "\<not> is_ready (f (threads k t))" "started (f (threads k t)) \<longrightarrow> thread_ok (f (threads k t))"
  shows "queue_inv X (upd_thread t f k)"
proof -
  have nt: "t \<notin> set (lists k h)" for h using nr by (simp add: detached_def)
  let ?k = "upd_thread t f k"
  have "u \<in> set (lists ?k h) \<longleftrightarrow>
      u \<notin> X \<and> is_ready (threads ?k u) \<and> oncpu (threads ?k u) = RT_CPU_DETACHED \<and>
      h = home (threads ?k u)" if "ready_head h" for u h
    using queue_invD(3) [OF inv that, of u] nt [of h] new(1) by auto
  moreover have "waits (threads ?k u)"
    if "u \<in> set (lists ?k (SuspendQ q)) \<union> set (lists ?k (SenderQ q))" for u q
    using that queue_invD(4,5) [OF inv] nt by auto
  moreover have "\<forall>u\<in>set (lists ?k Defunct). tstate u ?k = RT_THREAD_CLOSE"
    using queue_invD(6) [OF inv] nt by (auto simp: tstate_def)
  moreover have "started (threads ?k u) \<longrightarrow> thread_ok (threads ?k u)" for u
    using queue_invD(7) [OF inv] new(2) by simp
  ultimately show ?thesis
    using queue_invD(1,2,8,9) [OF inv] unfolding queue_inv_def by simp
qed

lemma remove_body_noop:
  assumes inv: "queue_inv X k" and det: "detached t (lists k)" and ok: "thread_ok (threads k t)"
  shows "sched_remove_body t k = k"
proof -
  have p: "unat (current_priority (threads k t)) < 32"
    and m: "number_mask (threads k t) = push_bit (unat (current_priority (threads k t))) 1"
    and b: "bind_cpu (threads k t) \<le> RT_CPUS_NR"
    using ok by (simp_all add: thread_ok_def RT_THREAD_PRIORITY_MAX_def)
  have same: "g AND NOT (2 ^ q) = g" if "\<not> bit g q" "q < 32" for g :: u32 and q
    by (rule bit_eqI) (use that in \<open>auto simp: bit_and_not_push\<close>)
  show ?thesis
  proof (cases "bind_cpu (threads k t) = RT_CPUS_NR")
    case True
    then show ?thesis
      using queue_invD(8) [OF inv] det p m
      by (auto simp: sched_remove_body_def Let_def ll_remove_detached same)
  next
    case False
    with b have "bind_cpu (threads k t) < RT_CPUS_NR" by simp
    with False show ?thesis
      using queue_invD(9) [OF inv] det p m
      by (auto simp: sched_remove_body_def Let_def ll_remove_detached same upd_cpu_def)
  qed
qed

lemma suspend_core_inv:
  assumes inv: "sched_inv k" and c: "cur c k = Some t" "c < RT_CPUS_NR" and r: "is_ready (threads k t)"
  shows "sched_inv (suspend_core t k)" "detached t (lists (suspend_core t k))"
    "waits (threads (suspend_core t k) t)"
proof -
  have q: "queue_inv {} k" and cp: "cpu_inv k" using inv by (simp_all add: sched_inv_def)
  have det: "detached t (lists k)" using running_detached [OF q r sched_inv_oncpu(2) [OF inv c]] .
  have ok: "thread_ok (threads k t)" using queue_invD(7) [OF q] r state_excl(2) by blast
  let ?f = "\<lambda>th. th\<lparr>stat := set_tstate RT_THREAD_SUSPEND (stat th)\<rparr>"
  have q1: "queue_inv {} (upd_thread t ?f k)"
    using ok by (intro queue_inv_set_stat [OF q det]) (simp_all add: is_ready_def thread_ok_def)
  then have eq: "sched_remove_body t (upd_thread t ?f k) = upd_thread t ?f k"
    using det ok by (intro remove_body_noop) (simp_all add: thread_ok_def)
  have "cpu_inv (upd_thread t ?f k)" using cp by (simp add: cpu_inv_def)
  with q1 show "sched_inv (suspend_core t k)"
    by (simp add: suspend_core_def eq) (simp add: sched_inv_def)
  show "detached t (lists (suspend_core t k))" "waits (threads (suspend_core t k) t)"
    using det by (simp_all add: suspend_core_def waits_def)
qed

text \<open>Starting a hard timer.\<close>

definition timer_arm_core :: "objref \<Rightarrow> kcore \<Rightarrow> kcore" where
  "timer_arm_core r k =
     (let k1 = clear_timer_flag r RT_TIMER_FLAG_ACTIVATED (rt_timer_remove r k);
          k2 = upd_timer r (\<lambda>tm. tm\<lparr>timeout_tick := rt_tick_get k1 + init_tick tm\<rparr>) k1
      in set_timer_flag r RT_TIMER_FLAG_ACTIVATED (timer_link r k2))"

lemma timer_arm_core_fields [simp, core_simps]:
  "threads (timer_arm_core r k) = threads k" "lists (timer_arm_core r k) = lists k"
  "cpus (timer_arm_core r k) = cpus k"
  "ready_priority_group (timer_arm_core r k) = ready_priority_group k"
  "sems (timer_arm_core r k) = sems k" "mutexes (timer_arm_core r k) = mutexes k"
  "events (timer_arm_core r k) = events k" "mailboxes (timer_arm_core r k) = mailboxes k"
  "mqueues (timer_arm_core r k) = mqueues k" "mempools (timer_arm_core r k) = mempools k" "container (timer_arm_core r k) = container k"
  "sched_inv (timer_arm_core r k) = sched_inv k"
  "rt_object_get_type q (timer_arm_core r k) = rt_object_get_type q k"
  by (simp_all add: timer_arm_core_def Let_def)

lemma timer_flag_set_clear [simp]:
  "timer_flag r g (set_timer_flag r f k) \<longleftrightarrow> (obj_flag (objs k r) OR f) AND g \<noteq> 0"
  "timer_flag r g (clear_timer_flag r f k) \<longleftrightarrow> (obj_flag (objs k r) AND NOT f) AND g \<noteq> 0"
  by (simp_all add: timer_flag_def set_timer_flag_def clear_timer_flag_def)

lemma soft_flag_kept:
  "timer_flag r RT_TIMER_FLAG_SOFT_TIMER (timer_arm_core r k) = timer_flag r RT_TIMER_FLAG_SOFT_TIMER k"
  by (simp add: timer_arm_core_def Let_def timer_flag_def set_timer_flag_def clear_timer_flag_def
      timer_flag_defs bit.conj_disj_distrib2 and.assoc)

lemma timer_start_n [simp]:
  assumes "lk_ok th L" "cur c k = th" "n < 0xfe" "rt_object_get_type r k = RT_Object_Class_Timer"
    and "init_tick (timers k r) < RT_TICK_MAX div 2"
    and "\<not> timer_flag r RT_TIMER_FLAG_SOFT_TIMER k"
  shows "rt_timer_start c r (mk (lockn c th n L) k) = Some (RT_EOK, mk (lockn c th n L) (timer_arm_core r k))"
  using assms soft_flag_kept [of r k]
  by (cases n) (simp_all add: rt_timer_start_def timer_arm_core_def Let_def)

lemmas timer_start_first [simp] = timer_start_n [where n = 0, simplified]

text \<open>An init tick of \<^verbatim>\<open>RT_TICK_MAX / 2\<close> or more does not pass the assertion.\<close>

lemma timer_start_too_long:
  assumes "lk_ok th L" "cur c k = th" "\<not> init_tick (timers k r) < RT_TICK_MAX div 2"
  shows "rt_timer_start c r (mk L k) = None"
  using assms by (simp add: rt_timer_start_def)

section \<open>The order of a timer list\<close>

text \<open>
  Ticks are compared modulo \<open>2 ^ 32\<close>. On timers whose ticks lie in one window of length
  \<open>RT_TICK_MAX / 2\<close> starting at \<open>base\<close>, the comparison is the order of the distances from \<open>base\<close>.
\<close>

definition ahead :: "u32 \<Rightarrow> u32 \<Rightarrow> nat" where
  "ahead base tick = unat (tick - base)"

definition in_window :: "u32 \<Rightarrow> u32 \<Rightarrow> bool" where
  "in_window base tick \<longleftrightarrow> ahead base tick < unat (RT_TICK_MAX div 2)"

lemma half_tick: "unat (RT_TICK_MAX div 2) = 0x7fffffff" "RT_TICK_MAX div 2 = 0x7fffffff"
  by (simp_all add: RT_TICK_MAX_def)

lemma tick_compare:
  assumes "in_window base a" "in_window base b"
  shows "a - b = 0 \<longleftrightarrow> ahead base a = ahead base b"
    and "a - b \<noteq> 0 \<Longrightarrow> a - b < RT_TICK_MAX div 2 \<longleftrightarrow> ahead base b < ahead base a"
proof -
  define x y where "x = a - base" and "y = b - base"
  have xy: "a - b = x - y" by (simp add: x_def y_def)
  have w: "unat x < 0x7fffffff" "unat y < 0x7fffffff"
    using assms by (simp_all add: in_window_def ahead_def x_def y_def half_tick)
  show "a - b = 0 \<longleftrightarrow> ahead base a = ahead base b"
    by (simp add: ahead_def word_unat_eq_iff [symmetric])
  show "a - b < RT_TICK_MAX div 2 \<longleftrightarrow> ahead base b < ahead base a" if "a - b \<noteq> 0"
  proof (cases "y \<le> x")
    case True
    then have "unat (x - y) = unat x - unat y" "unat y \<le> unat x"
      by (simp_all add: unat_sub word_le_nat_alt)
    moreover have "unat x \<noteq> unat y" using that xy by (metis right_minus_eq word_unat_eq_iff)
    ultimately show ?thesis
      using w by (simp add: xy ahead_def half_tick word_less_nat_alt flip: x_def y_def)
  next
    case False
    then have lt: "unat x < unat y" by (simp add: word_le_nat_alt)
    have "unat (x - y) = unat x + 2 ^ 32 - unat y"
      using lt by (simp add: unat_sub_if_size word_size)
    then have "\<not> unat (x - y) < 0x7fffffff" using w lt by simp
    with lt show ?thesis by (simp add: xy ahead_def half_tick word_less_nat_alt flip: x_def y_def)
  qed
qed

lemma set_timer_list_insert [simp]: "set (timer_list_insert tick r l) = insert r (set l)"
  by (induction l) auto

lemma distinct_timer_list_insert: "r \<notin> set l \<Longrightarrow> distinct l \<Longrightarrow> distinct (timer_list_insert tick r l)"
  by (induction l) auto

text \<open>
  The insertion keeps the list sorted, and puts the new timer behind those of the same tick: it is
  the stable insertion.
\<close>

lemma timer_arm_linked:
  "\<not> timer_flag r RT_TIMER_FLAG_SOFT_TIMER k \<Longrightarrow> r \<in> set (rt_timer_list (timer_arm_core r k))"
proof -
  have "(x AND NOT RT_TIMER_FLAG_ACTIVATED) AND RT_TIMER_FLAG_SOFT_TIMER = x AND RT_TIMER_FLAG_SOFT_TIMER" for x
    by (simp add: timer_flag_defs and.assoc)
  then show "\<not> timer_flag r RT_TIMER_FLAG_SOFT_TIMER k \<Longrightarrow> r \<in> set (rt_timer_list (timer_arm_core r k))"
    by (simp add: timer_arm_core_def Let_def timer_link_def)
      (simp add: timer_flag_def clear_timer_flag_def upd_timer_def upd_obj_def)
qed

lemma timer_list_insert_split:
  assumes "sorted (map (\<lambda>x. ahead base (tick x)) l)" "\<forall>x \<in> insert r (set l). in_window base (tick x)"
  shows "timer_list_insert tick r l =
     filter (\<lambda>x. ahead base (tick x) \<le> ahead base (tick r)) l @
     r # filter (\<lambda>x. \<not> ahead base (tick x) \<le> ahead base (tick r)) l"
  using assms
proof (induction l)
  case (Cons t ts)
  note cmp = tick_compare [of base "tick t" "tick r"]
  have IH: "timer_list_insert tick r ts =
     filter (\<lambda>x. ahead base (tick x) \<le> ahead base (tick r)) ts @
     r # filter (\<lambda>x. \<not> ahead base (tick x) \<le> ahead base (tick r)) ts"
    using Cons by simp
  show ?case
  proof (cases "ahead base (tick t) \<le> ahead base (tick r)")
    case True
    with Cons.prems IH cmp show ?thesis by auto
  next
    case False
    then have "\<forall>x\<in>set ts. \<not> ahead base (tick x) \<le> ahead base (tick r)"
      using Cons.prems(1) by fastforce
    then have "filter (\<lambda>x. ahead base (tick x) \<le> ahead base (tick r)) ts = []"
      "filter (\<lambda>x. \<not> ahead base (tick x) \<le> ahead base (tick r)) ts = ts"
      by (simp_all add: filter_empty_conv)
    with False Cons.prems cmp show ?thesis by auto
  qed
qed simp

lemma timer_list_insert_sorted:
  assumes "sorted (map (\<lambda>x. ahead base (tick x)) l)" "\<forall>x \<in> insert r (set l). in_window base (tick x)"
  shows "sorted (map (\<lambda>x. ahead base (tick x)) (timer_list_insert tick r l))"
  using assms
proof (induction l)
  case (Cons t ts)
  note cmp = tick_compare [of base "tick t" "tick r"]
  have "sorted (map (\<lambda>x. ahead base (tick x)) (timer_list_insert tick r ts))" using Cons by simp
  with Cons.prems cmp show ?case by fastforce
qed simp

section \<open>The kernel invariant\<close>

definition kinv :: "kcore \<Rightarrow> bool" where
  "kinv k \<longleftrightarrow> sched_inv k \<and> objs_ok k"

lemma objs_ok_mono:
  assumes "objs_ok k" "\<And>t. started (threads k' t) \<Longrightarrow> started (threads k t)"
    "\<And>r. rt_object_get_type r k' = rt_object_get_type r k"
  shows "objs_ok k'"
  using assms by (simp add: objs_ok_def)

lemma objs_ok_ops [simp]:
  "objs_ok (rt_timer_remove r k) = objs_ok k" "objs_ok (timer_link r k) = objs_ok k"
  "objs_ok (set_timer_flag r f k) = objs_ok k" "objs_ok (clear_timer_flag r f k) = objs_ok k"
  "objs_ok (upd_timer r g k) = objs_ok k" "objs_ok (upd_cpu d i k) = objs_ok k"
  "objs_ok (timer_stop_core r k) = objs_ok k" "objs_ok (timer_arm_core r k) = objs_ok k"
  "objs_ok (k\<lparr>lists := l\<rparr>) = objs_ok k" "objs_ok (sched_remove_body t k) = objs_ok k"
  by (simp_all add: objs_ok_def)

lemma objs_ok_other_fields [simp]:
  "objs_ok (k\<lparr>sems := a7\<rparr>) = objs_ok k" "objs_ok (k\<lparr>mutexes := a8\<rparr>) = objs_ok k"
  "objs_ok (k\<lparr>events := a9\<rparr>) = objs_ok k" "objs_ok (k\<lparr>mailboxes := a10\<rparr>) = objs_ok k"
  "objs_ok (k\<lparr>mqueues := a11\<rparr>) = objs_ok k" "objs_ok (k\<lparr>mempools := a13\<rparr>) = objs_ok k" "objs_ok (k\<lparr>k_errno := a14\<rparr>) = objs_ok k"
  by (simp_all add: objs_ok_def rt_object_get_type_def)

lemma objs_ok_upd_thread:
  "objs_ok k \<Longrightarrow> (started (f (threads k t)) \<Longrightarrow> started (threads k t)) \<Longrightarrow> objs_ok (upd_thread t f k)"
  by (rule objs_ok_mono) (auto split: if_splits)

lemma objs_ok_insert_body: "objs_ok k \<Longrightarrow> started (threads k t) \<Longrightarrow> objs_ok (sched_insert_body c t k)"
  by (rule objs_ok_mono) (auto split: if_splits)

lemma kinv_upd_thread [simp]:
  assumes "\<And>th. sview (f th) = sview th"
  shows "kinv (upd_thread t f k) = kinv k"
proof -
  have "started (f th) = started th" for th using sview_preds(3) [OF assms] .
  then have "objs_ok (upd_thread t f k) = objs_ok k" by (auto simp: objs_ok_def)
  with assms show ?thesis by (simp add: kinv_def)
qed

lemma kinv_upd_cpu [simp]:
  "(\<And>p. cpu_priority_group (f p) = cpu_priority_group p) \<Longrightarrow>
   (\<And>p. current_thread (f p) = current_thread p) \<Longrightarrow> kinv (upd_cpu c f k) = kinv k"
  by (simp add: kinv_def)

lemma kinv_ops [simp]:
  "kinv (rt_timer_remove r k) = kinv k" "kinv (timer_link r k) = kinv k"
  "kinv (set_timer_flag r f k) = kinv k" "kinv (clear_timer_flag r f k) = kinv k"
  "kinv (upd_timer r g k) = kinv k" "kinv (timer_stop_core r k) = kinv k"
  "kinv (timer_arm_core r k) = kinv k"
  "kinv (k\<lparr>sems := a7\<rparr>) = kinv k" "kinv (k\<lparr>mutexes := a8\<rparr>) = kinv k"
  "kinv (k\<lparr>events := a9\<rparr>) = kinv k" "kinv (k\<lparr>mailboxes := a10\<rparr>) = kinv k"
  "kinv (k\<lparr>mqueues := a11\<rparr>) = kinv k" "kinv (k\<lparr>mempools := a13\<rparr>) = kinv k" "kinv (k\<lparr>k_errno := a14\<rparr>) = kinv k"
  by (simp_all add: kinv_def)

lemma kinv_resume: "kinv k \<Longrightarrow> waits (threads k t) \<Longrightarrow> kinv (resume_core c t k)"
  by (simp add: kinv_def resume_core_inv) (simp add: resume_core_def objs_ok_insert_body state_excl)

lemma kinv_suspend:
  assumes "kinv k" "cur c k = Some t" "c < RT_CPUS_NR" "is_ready (threads k t)"
  shows "kinv (suspend_core t k)"
proof -
  have "objs_ok (suspend_core t k)"
    using assms(1,4) unfolding suspend_core_def
    by (simp add: kinv_def objs_ok_upd_thread state_excl)
  with suspend_core_inv(1) [OF _ assms(2-4)] assms(1) show ?thesis by (simp add: kinv_def)
qed

lemma resume_core_cur [simp]:
  "cur d (resume_core c t k) = cur d k" "irq_nest (cpus (resume_core c t k) d) = irq_nest (cpus k d)"
  by (simp_all add: resume_core_def)

lemma resume_core_threads [simp]:
  "threads (resume_core c t k) =
     (threads k)(t := (threads k t)\<lparr>stat := set_tstate RT_THREAD_READY (stat (threads k t))\<rparr>)"
  by (simp add: resume_core_def)

lemma resume_core_fields [simp, core_simps]:
  "sems (resume_core c t k) = sems k" "mutexes (resume_core c t k) = mutexes k"
  "events (resume_core c t k) = events k" "mailboxes (resume_core c t k) = mailboxes k"
  "mqueues (resume_core c t k) = mqueues k" "mempools (resume_core c t k) = mempools k" "timers (resume_core c t k) = timers k"
  by (simp_all add: resume_core_def)

lemma suspend_core_fields [simp, core_simps]:
  "cur d (suspend_core t k) = cur d k" "irq_nest (cpus (suspend_core t k) d) = irq_nest (cpus k d)"
  "threads (suspend_core t k) =
     (threads k)(t := (threads k t)\<lparr>stat := set_tstate RT_THREAD_SUSPEND (stat (threads k t))\<rparr>)"
  "sems (suspend_core t k) = sems k" "mutexes (suspend_core t k) = mutexes k"
  "events (suspend_core t k) = events k" "mailboxes (suspend_core t k) = mailboxes k"
  "mqueues (suspend_core t k) = mqueues k" "mempools (suspend_core t k) = mempools k" "timers (suspend_core t k) = timers k"
  "lists (suspend_core t k) = ll_remove t (lists k)"
  "rt_object_get_type r (suspend_core t k) = rt_object_get_type r k"
  by (simp_all add: suspend_core_def)

text \<open>A call of \<^verbatim>\<open>rt_schedule\<close> at the end of an operation.\<close>

lemma rt_schedule_kinv:
  assumes "lk_ok (Some t) L" "cur c k = Some t" "kinv k" "c < RT_CPUS_NR"
    and "rt_schedule c (mk L k) = Some s'"
  shows "kinv (kc s')"
proof -
  have sch: "sched_inv k" and ok: "objs_ok k" using assms(3) by (simp_all add: kinv_def)
  have "objs_ok (kc s')"
  proof (cases rule: rt_schedule_cases [OF assms(1,2) sch assms(4,5)])
    case (4 to hp)
    have "started (threads (switch_core c t to hp k) u) \<Longrightarrow> started (threads k u)" for u
      by (auto simp: switch_core_def requeue_core_threads started_def is_ready_def split: if_splits)
    moreover have "rt_object_get_type r (switch_core c t to hp k) = rt_object_get_type r k" for r
      by (simp add: switch_core_def requeue_core_def Let_def)
    ultimately have "objs_ok (switch_core c t to hp k)" by (rule objs_ok_mono [OF ok])
    then have "objs_ok (upd_thread t (\<lambda>th. th\<lparr>sp := x\<rparr>) (switch_core c t to hp k))" for x
      by (rule objs_ok_upd_thread) (simp add: started_def)
    then show ?thesis by (simp add: 4(6))
  qed (use ok in simp_all)
  with rt_schedule_inv [OF assms(1,2) sch assms(4,5)] show ?thesis by (simp add: kinv_def)
qed

section \<open>The timer list\<close>

text \<open>
  C29. Inserting a timer keeps the list sorted by distance from the current tick, across the
  wrap-around of the tick counter, and puts the new timer behind those that expire at the same tick.
\<close>

theorem timer_insert_sorted:
  assumes "sorted (map (\<lambda>x. ahead base (tick x)) l)" "\<forall>x \<in> insert r (set l). in_window base (tick x)"
  shows "sorted (map (\<lambda>x. ahead base (tick x)) (timer_list_insert tick r l)) \<and>
     timer_list_insert tick r l =
       filter (\<lambda>x. ahead base (tick x) \<le> ahead base (tick r)) l @
       r # filter (\<lambda>x. \<not> ahead base (tick x) \<le> ahead base (tick r)) l"
  using timer_list_insert_sorted [OF assms] timer_list_insert_split [OF assms] by blast

theorem timer_insert_sorted_witness:
  "timer_list_insert (\<lambda>x. if x = OTimer 0 then 0xfffffff0 else if x = OTimer 1 then 5 else 2) (OTimer 2)
     [OTimer 0, OTimer 1] = [OTimer 0, OTimer 2, OTimer 1]"
proof -
  let ?tick = "\<lambda>x. if x = OTimer 0 then 0xfffffff0 else if x = OTimer 1 then 5 else (2 :: u32)"
  have "sorted (map (\<lambda>x. ahead 0xffffff00 (?tick x)) [OTimer 0, OTimer 1])"
    "\<forall>x \<in> insert (OTimer 2) (set [OTimer 0, OTimer 1]). in_window 0xffffff00 (?tick x)"
    by (simp_all add: ahead_def in_window_def half_tick)
  from timer_insert_sorted [OF this] show ?thesis by (simp add: ahead_def)
qed

end
