(* ===== verification/Rt_Thread.thy ===== *)
theory Rt_Thread
  imports Rt_Timer
begin

text \<open>
  Threads, \<^verbatim>\<open>src/thread.c\<close>, and the tick handler of \<^verbatim>\<open>src/clock.c\<close>. A call that gives up the CPU
  in the middle (\<^verbatim>\<open>rt_thread_sleep\<close>) is two definitions: the part up to and including its
  \<^verbatim>\<open>rt_schedule\<close>, and what the thread does when it runs again (suffix \<open>_cont\<close>).
\<close>

section \<open>Creation\<close>

definition RT_TIMER_FLAG_ONE_SHOT :: u8 where "RT_TIMER_FLAG_ONE_SHOT = 0"

text \<open>
  \<^verbatim>\<open>_rt_thread_init\<close>. \<^verbatim>\<open>rt_hw_stack_init\<close> writes 16 words below the top of the stack and
  gives the address of the lowest. The entry function is not followed.
\<close>

definition thread_init_fields :: "tid \<Rightarrow> u32 \<Rightarrow> u32 \<Rightarrow> u8 \<Rightarrow> u32 \<Rightarrow> kcore \<Rightarrow> kcore" where
  "thread_init_fields t stack_start sz priority tick k =
     upd_thread t (\<lambda>th. th\<lparr>stack_addr := stack_start, stack_size := sz, stack_guard := 0x23,
         sp := stack_start + sz - 4 - 60,
         init_priority := priority, current_priority := priority, number_mask := 0,
         th_init_tick := tick, remaining_tick := tick, th_error := RT_EOK, stat := RT_THREAD_INIT,
         bind_cpu := RT_CPUS_NR, oncpu := RT_CPU_DETACHED, cleanup := None, user_data := 0\<rparr>) k"

definition rt_thread_init_internal ::
    "cpu_id \<Rightarrow> tid \<Rightarrow> u32 \<Rightarrow> u32 \<Rightarrow> u8 \<Rightarrow> u32 \<Rightarrow> kstate \<Rightarrow> (rt_err_t \<times> kstate) option" where
  "rt_thread_init_internal c t stack_start sz priority tick s =
     do { RT_ASSERT (unat priority < RT_THREAD_PRIORITY_MAX);
          let s = upd_cpus_nest t (\<lambda>_. 0) (upd_sched_nest t (\<lambda>_. 0)
                    (s\<lparr>kc := thread_init_fields t stack_start sz priority tick (kc s)\<rparr>));
          let s = s\<lparr>lk := (lk s)\<lparr>switch_frame := (switch_frame (lk s))(t := None)\<rparr>\<rparr>;
          s \<leftarrow> rt_timer_init c (OThreadTimer t) (obj_name (objs (kc s) (OThread t)))
                 (ThreadTimeout t) 0 RT_TIMER_FLAG_ONE_SHOT s;
          Some (RT_EOK, s) }"

definition rt_thread_init ::
    "cpu_id \<Rightarrow> tid \<Rightarrow> u8 list \<Rightarrow> u32 \<Rightarrow> u32 \<Rightarrow> u8 \<Rightarrow> u32 \<Rightarrow> kstate \<Rightarrow> (rt_err_t \<times> kstate) option" where
  "rt_thread_init c t name stack_start sz priority tick s =
     do { RT_ASSERT (stack_start \<noteq> 0);
          s \<leftarrow> rt_object_init c (OThread t) RT_Object_Class_Thread name s;
          rt_thread_init_internal c t stack_start sz priority tick s }"

text \<open>\<open>mem\<close> and \<open>stk\<close> are the results of the two allocations.\<close>

definition rt_thread_create ::
    "cpu_id \<Rightarrow> u8 list \<Rightarrow> u32 \<Rightarrow> u8 \<Rightarrow> u32 \<Rightarrow> tid option \<Rightarrow> u32 option \<Rightarrow> kstate \<Rightarrow>
     (tid option \<times> kstate) option" where
  "rt_thread_create c name sz priority tick mem stk s =
     do { (thread, s) \<leftarrow> rt_object_allocate c RT_Object_Class_Thread name (map_option OThread mem) s;
          case thread of
            Some (OThread t) \<Rightarrow>
              (case stk of
                 None \<Rightarrow> do { s \<leftarrow> rt_object_delete c (OThread t) s; Some (None, s) }
               | Some stack_start \<Rightarrow>
                   do { (_, s) \<leftarrow> rt_thread_init_internal c t stack_start sz priority tick s;
                        Some (Some t, s) })
          | _ \<Rightarrow> Some (None, s) }"

section \<open>Life of a thread\<close>

definition set_priority :: "u8 \<Rightarrow> rt_thread \<Rightarrow> rt_thread" where
  "set_priority p th = th\<lparr>current_priority := p, number_mask := push_bit (unat p) 1\<rparr>"

definition rt_thread_startup :: "cpu_id \<Rightarrow> tid \<Rightarrow> kstate \<Rightarrow> (rt_err_t \<times> kstate) option" where
  "rt_thread_startup c t s =
     do { RT_ASSERT (tstate t (kc s) = RT_THREAD_INIT);
          RT_ASSERT (rt_object_get_type (OThread t) (kc s) = RT_Object_Class_Thread);
          let s = s\<lparr>kc := upd_thread t (\<lambda>th. (set_priority (init_priority th) th)\<lparr>stat := RT_THREAD_SUSPEND\<rparr>) (kc s)\<rparr>;
          (_, s) \<leftarrow> rt_thread_resume c t s;
          let (self, s) = rt_thread_self c s;
          if self \<noteq> None then do { s \<leftarrow> rt_schedule c s; Some (RT_EOK, s) } else Some (RT_EOK, s) }"

definition defunct_insert :: "tid \<Rightarrow> kcore \<Rightarrow> kcore" where
  "defunct_insert t k = k\<lparr>lists := ll_insert_head Defunct t (lists k)\<rparr>"

definition rt_thread_exit :: "cpu_id \<Rightarrow> kstate \<Rightarrow> kstate option" where
  "rt_thread_exit c s =
     do { let (self, s) = rt_thread_self c s;
          (level, s) \<leftarrow> rt_hw_interrupt_disable c s;
          t \<leftarrow> self;
          s \<leftarrow> rt_schedule_remove_thread c t s;
          let s = s\<lparr>kc := upd_thread t (\<lambda>th. th\<lparr>stat := RT_THREAD_CLOSE\<rparr>) (kc s)\<rparr>;
          (_, s) \<leftarrow> rt_timer_detach c (OThreadTimer t) s;
          s \<leftarrow> (if rt_object_is_systemobject (OThread t) (kc s) \<and> cleanup (threads (kc s) t) = None
                 then rt_object_detach c (OThread t) s
                 else Some (s\<lparr>kc := defunct_insert t (kc s)\<rparr>));
          let s = rt_hw_interrupt_enable c level s;
          rt_schedule c s }"

definition rt_thread_detach :: "cpu_id \<Rightarrow> tid \<Rightarrow> kstate \<Rightarrow> (rt_err_t \<times> kstate) option" where
  "rt_thread_detach c t s =
     do { RT_ASSERT (rt_object_get_type (OThread t) (kc s) = RT_Object_Class_Thread);
          RT_ASSERT (rt_object_is_systemobject (OThread t) (kc s));
          s \<leftarrow> (if tstate t (kc s) \<noteq> RT_THREAD_INIT then rt_schedule_remove_thread c t s else Some s);
          (_, s) \<leftarrow> rt_timer_detach c (OThreadTimer t) s;
          let s = s\<lparr>kc := upd_thread t (\<lambda>th. th\<lparr>stat := RT_THREAD_CLOSE\<rparr>) (kc s)\<rparr>;
          s \<leftarrow> rt_object_detach c (OThread t) s;
          if cleanup (threads (kc s) t) \<noteq> None then
            do { (lock, s) \<leftarrow> rt_hw_interrupt_disable c s;
                 let s = s\<lparr>kc := defunct_insert t (kc s)\<rparr>;
                 Some (RT_EOK, rt_hw_interrupt_enable c lock s) }
          else Some (RT_EOK, s) }"

definition rt_thread_delete :: "cpu_id \<Rightarrow> tid \<Rightarrow> kstate \<Rightarrow> (rt_err_t \<times> kstate) option" where
  "rt_thread_delete c t s =
     do { RT_ASSERT (rt_object_get_type (OThread t) (kc s) = RT_Object_Class_Thread);
          RT_ASSERT (\<not> rt_object_is_systemobject (OThread t) (kc s));
          s \<leftarrow> (if tstate t (kc s) \<noteq> RT_THREAD_INIT then rt_schedule_remove_thread c t s else Some s);
          (_, s) \<leftarrow> rt_timer_detach c (OThreadTimer t) s;
          let s = s\<lparr>kc := upd_thread t (\<lambda>th. th\<lparr>stat := RT_THREAD_CLOSE\<rparr>) (kc s)\<rparr>;
          (lock, s) \<leftarrow> rt_hw_interrupt_disable c s;
          let s = s\<lparr>kc := defunct_insert t (kc s)\<rparr>;
          Some (RT_EOK, rt_hw_interrupt_enable c lock s) }"

definition rt_thread_yield :: "cpu_id \<Rightarrow> kstate \<Rightarrow> (rt_err_t \<times> kstate) option" where
  "rt_thread_yield c s = do { s \<leftarrow> rt_schedule c s; Some (RT_EOK, s) }"

definition rt_thread_sleep :: "cpu_id \<Rightarrow> u32 \<Rightarrow> kstate \<Rightarrow> kstate option" where
  "rt_thread_sleep c tick s =
     do { let (self, s) = rt_thread_self c s;
          RT_ASSERT (self \<noteq> None);
          t \<leftarrow> self;
          RT_ASSERT (rt_object_get_type (OThread t) (kc s) = RT_Object_Class_Thread);
          (temp, s) \<leftarrow> rt_hw_interrupt_disable c s;
          (_, s) \<leftarrow> rt_thread_suspend c t s;
          (_, _, s) \<leftarrow> rt_timer_control (OThreadTimer t) (TIMER_SET_TIME tick) s;
          (_, s) \<leftarrow> rt_timer_start c (OThreadTimer t) s;
          let s = rt_hw_interrupt_enable c temp s;
          rt_schedule c s }"

definition rt_thread_sleep_cont :: "tid \<Rightarrow> kstate \<Rightarrow> rt_err_t \<times> kstate" where
  "rt_thread_sleep_cont t s =
     (RT_EOK, s\<lparr>kc := upd_thread t (\<lambda>th. if th_error th = - RT_ETIMEOUT then th\<lparr>th_error := RT_EOK\<rparr> else th) (kc s)\<rparr>)"

definition rt_thread_delay :: "cpu_id \<Rightarrow> u32 \<Rightarrow> kstate \<Rightarrow> kstate option" where
  "rt_thread_delay c tick s = rt_thread_sleep c tick s"

text \<open>
  \<^verbatim>\<open>rt_tick_from_millisecond\<close>: \<^verbatim>\<open>RT_TICK_PER_SECOND * ms + 999\<close> is computed in \<^verbatim>\<open>int\<close>, which
  wraps at 32 bits here, and the division truncates toward zero.
\<close>

definition wrap32 :: "int \<Rightarrow> int" where
  "wrap32 i = sint (word_of_int i :: u32)"

lemma wrap32_id: "- 0x80000000 \<le> i \<Longrightarrow> i < 0x80000000 \<Longrightarrow> wrap32 i = i"
  by (simp add: wrap32_def signed_take_bit_int_eq_self sint_sbintrunc')

definition cdiv :: "int \<Rightarrow> int \<Rightarrow> int" where
  "cdiv a b = (if a < 0 then - ((- a) div b) else a div b)"

definition rt_tick_from_millisecond :: "int \<Rightarrow> int" where
  "rt_tick_from_millisecond ms =
     (if ms < 0 then - 1 else cdiv (wrap32 (wrap32 (RT_TICK_PER_SECOND * ms) + 999)) 1000)"

definition rt_thread_mdelay :: "cpu_id \<Rightarrow> int \<Rightarrow> kstate \<Rightarrow> kstate option" where
  "rt_thread_mdelay c ms s = rt_thread_sleep c (word_of_int (rt_tick_from_millisecond ms)) s"

datatype thread_cmd = CTRL_STARTUP | CTRL_CLOSE | CTRL_CHANGE_PRIORITY u8 | CTRL_BIND_CPU u8 | CTRL_OTHER

definition rt_thread_control :: "cpu_id \<Rightarrow> tid \<Rightarrow> thread_cmd \<Rightarrow> kstate \<Rightarrow> (rt_err_t \<times> kstate) option" where
  "rt_thread_control c t cmd s =
     do { RT_ASSERT (rt_object_get_type (OThread t) (kc s) = RT_Object_Class_Thread);
          case cmd of
            CTRL_CHANGE_PRIORITY p \<Rightarrow>
              do { (temp, s) \<leftarrow> rt_hw_interrupt_disable c s;
                   s \<leftarrow> (if tstate t (kc s) = RT_THREAD_READY then
                            do { s \<leftarrow> rt_schedule_remove_thread c t s;
                                 let s = s\<lparr>kc := upd_thread t (set_priority p) (kc s)\<rparr>;
                                 rt_schedule_insert_thread c t s }
                          else Some (s\<lparr>kc := upd_thread t (set_priority p) (kc s)\<rparr>));
                   Some (RT_EOK, rt_hw_interrupt_enable c temp s) }
          | CTRL_STARTUP \<Rightarrow> rt_thread_startup c t s
          | CTRL_CLOSE \<Rightarrow> rt_thread_delete c t s
          | CTRL_BIND_CPU cpu \<Rightarrow>
              if tstate t (kc s) \<noteq> RT_THREAD_INIT then Some (RT_ERROR, s)
              else Some (RT_EOK, s\<lparr>kc := upd_thread t (\<lambda>th. th\<lparr>bind_cpu :=
                     (if RT_CPUS_NR < unat cpu then RT_CPUS_NR else unat cpu)\<rparr>) (kc s)\<rparr>)
          | CTRL_OTHER \<Rightarrow> Some (RT_EOK, s) }"

definition rt_thread_timeout :: "cpu_id \<Rightarrow> tid \<Rightarrow> kstate \<Rightarrow> kstate option" where
  "rt_thread_timeout c t s =
     do { RT_ASSERT (tstate t (kc s) = RT_THREAD_SUSPEND);
          RT_ASSERT (rt_object_get_type (OThread t) (kc s) = RT_Object_Class_Thread);
          let s = s\<lparr>kc := upd_thread t (\<lambda>th. th\<lparr>th_error := - RT_ETIMEOUT\<rparr>) (kc s)\<rparr>;
          let s = s\<lparr>kc := (kc s)\<lparr>lists := ll_remove t (lists (kc s))\<rparr>\<rparr>;
          s \<leftarrow> rt_schedule_insert_thread c t s;
          rt_schedule c s }"

definition rt_thread_find :: "cpu_id \<Rightarrow> u8 list \<Rightarrow> kstate \<Rightarrow> (objref option \<times> kstate) option" where
  "rt_thread_find c name s =
     do { let (self, s) = rt_thread_self c s;
          s \<leftarrow> (if self \<noteq> None then rt_enter_critical c s else Some s);
          let information = rt_object_get_information RT_Object_Class_Thread;
          RT_ASSERT (information \<noteq> None);
          let object = find_object name (the information) (kc s);
          let (self, s) = rt_thread_self c s;
          s \<leftarrow> (if self \<noteq> None then rt_exit_critical c s else Some s);
          Some (object, s) }"

section \<open>The tick\<close>

text \<open>The timeout functions: the kernel's own for thread timers, \<open>user\<close> for the others.\<close>

definition call_timeout :: "(nat \<Rightarrow> kstate \<Rightarrow> kstate option) \<Rightarrow> cpu_id \<Rightarrow> timeout_fn \<Rightarrow> kstate \<Rightarrow> kstate option" where
  "call_timeout user c f s = (case f of ThreadTimeout t \<Rightarrow> rt_thread_timeout c t s | UserTimeout n \<Rightarrow> user n s)"

definition rt_tick_increase :: "(nat \<Rightarrow> kstate \<Rightarrow> kstate option) \<Rightarrow> cpu_id \<Rightarrow> kstate \<Rightarrow> kstate option" where
  "rt_tick_increase user c s =
     do { let s = s\<lparr>kc := upd_cpu c (\<lambda>p. p\<lparr>cpu_tick := cpu_tick p + 1\<rparr>) (kc s)\<rparr>;
          let (self, s) = rt_thread_self c s;
          t \<leftarrow> self;
          let s = s\<lparr>kc := upd_thread t (\<lambda>th. th\<lparr>remaining_tick := remaining_tick th - 1\<rparr>) (kc s)\<rparr>;
          s \<leftarrow> (if remaining_tick (threads (kc s) t) = 0 then
                  do { let s = s\<lparr>kc := upd_thread t (\<lambda>th. th\<lparr>remaining_tick := th_init_tick th\<rparr>) (kc s)\<rparr>;
                       (_, s) \<leftarrow> rt_thread_yield c s;
                       Some s }
                else Some s);
          rt_timer_check (call_timeout user c) c s }"

section \<open>Starting a thread\<close>

definition startup_core :: "cpu_id \<Rightarrow> tid \<Rightarrow> kcore \<Rightarrow> kcore" where
  "startup_core c t k =
     resume_core c t (upd_thread t (\<lambda>th. (set_priority (init_priority th) th)\<lparr>stat := RT_THREAD_SUSPEND\<rparr>) k)"

text \<open>A thread as \<^verbatim>\<open>rt_thread_init\<close> leaves it.\<close>

definition init_thread :: "tid \<Rightarrow> kcore \<Rightarrow> bool" where
  "init_thread t k \<longleftrightarrow>
     tstate t k = RT_THREAD_INIT \<and> unat (init_priority (threads k t)) < RT_THREAD_PRIORITY_MAX \<and>
     bind_cpu (threads k t) \<le> RT_CPUS_NR \<and>
     rt_object_get_type (OThread t) k = RT_Object_Class_Thread \<and>
     rt_object_get_type (OThreadTimer t) k = RT_Object_Class_Timer"

lemma init_detached:
  assumes "queue_inv {} k" "tstate t k = RT_THREAD_INIT"
  shows "detached t (lists k)"
  using assms queue_invD(3) [OF assms(1)]
  by (intro not_in_lists [OF assms(1)]) (auto simp: tstate_def is_ready_def waits_def)

lemma sched_inv_set_stat:
  assumes "sched_inv k" "detached t (lists k)" "\<not> is_ready (f (threads k t))"
    "started (f (threads k t)) \<longrightarrow> thread_ok (f (threads k t))" "oncpu (f (threads k t)) = oncpu (threads k t)"
  shows "sched_inv (upd_thread t f k)"
proof -
  have "cpu_inv (upd_thread t f k) = cpu_inv k"
    using assms(5) by (intro cpu_inv_cong) auto
  with assms queue_inv_set_stat [of "{}" k t f] show ?thesis by (simp add: sched_inv_def)
qed

lemma startup_pre:
  assumes "kinv k" "init_thread t k"
  defines "k1 \<equiv> upd_thread t (\<lambda>th. (set_priority (init_priority th) th)\<lparr>stat := RT_THREAD_SUSPEND\<rparr>) k"
  shows "kinv k1" "waits (threads k1 t)"
proof -
  have q: "queue_inv {} k" using assms(1) by (simp add: kinv_def sched_inv_def)
  have "detached t (lists k)" using init_detached [OF q] assms(2) by (simp add: init_thread_def)
  then have "sched_inv k1"
    using assms(1,2) unfolding k1_def
    by (intro sched_inv_set_stat)
      (auto simp: kinv_def init_thread_def is_ready_def thread_ok_def set_priority_def stat_defs)
  moreover have "objs_ok k1"
    using assms(1,2) unfolding k1_def kinv_def init_thread_def objs_ok_def by simp
  ultimately show "kinv k1" by (simp add: kinv_def)
  show "waits (threads k1 t)" by (simp add: k1_def waits_def stat_defs)
qed

lemma startup_first:
  assumes "lk_ok th L" "cur c k = th" "kinv k" "init_thread t k"
  shows "rt_thread_startup c t (mk L k) =
     (if th = None then Some (RT_EOK, mk L (startup_core c t k))
      else do { s \<leftarrow> rt_schedule c (mk L (startup_core c t k)); Some (RT_EOK, s) })"
proof -
  note pre = startup_pre [OF assms(3,4)]
  have "objs_ok (upd_thread t (\<lambda>th. (set_priority (init_priority th) th)\<lparr>stat := RT_THREAD_SUSPEND\<rparr>) k)"
    using pre(1) by (simp add: kinv_def)
  then show ?thesis
    using assms pre(2) by (simp add: rt_thread_startup_def startup_core_def init_thread_def)
qed

lemma startup_core_inv: "kinv k \<Longrightarrow> init_thread t k \<Longrightarrow> kinv (startup_core c t k)"
  unfolding startup_core_def by (intro kinv_resume startup_pre)

lemma startup_core_cur [simp]: "cur d (startup_core c t k) = cur d k"
  by (simp add: startup_core_def)

section \<open>Ending a thread\<close>

lemma queue_inv_drop:
  assumes "queue_inv X k" "\<not> is_ready (threads k t)"
  shows "queue_inv (X - {t}) k"
  using assms queue_invD(3) [OF assms(1), of _ t] unfolding queue_inv_def by blast

lemma queue_inv_neutral [simp]:
  "queue_inv X (object_detach_core r k) = queue_inv X k"
  "queue_inv X (rt_timer_remove r k) = queue_inv X k"
  by (intro queue_inv_cong; simp add: object_detach_core_def rt_timer_remove_def)+

lemma cpu_inv_neutral [simp]:
  "cpu_inv (object_detach_core r k) = cpu_inv k" "cpu_inv (rt_timer_remove r k) = cpu_inv k"
  "cpu_inv (sched_remove_body t k) = cpu_inv k" "cpu_inv (sched_insert_body c t k) = cpu_inv k"
  "cpu_inv (k\<lparr>lists := l\<rparr>) = cpu_inv k"
  by (intro cpu_inv_cong; simp)+

lemma cpu_inv_upd_thread [simp]:
  "(\<And>th. oncpu (f th) = oncpu th) \<Longrightarrow> cpu_inv (upd_thread t f k) = cpu_inv k"
  by (intro cpu_inv_cong) auto

lemma defunct_insert_fields [simp]:
  "threads (defunct_insert t k) = threads k" "cpus (defunct_insert t k) = cpus k"
  "objs (defunct_insert t k) = objs k"
  by (simp_all add: defunct_insert_def)

lemma queue_inv_defunct:
  assumes inv: "queue_inv X k" and "detached t (lists k)" "tstate t k = RT_THREAD_CLOSE" "t \<notin> X"
  shows "queue_inv X (defunct_insert t k)"
proof -
  let ?k = "defunct_insert t k"
  have l: "lists ?k h = (if h = Defunct then t # lists k h else lists k h)" for h
    by (simp add: defunct_insert_def ll_insert_head_def)
  have "lists_wf (lists ?k)"
    using queue_invD(1) [OF inv] assms(2) by (simp add: defunct_insert_def lists_wf_insert_head)
  moreover have th: "threads ?k = threads k" "cpus ?k = cpus k"
      "ready_priority_group ?k = ready_priority_group k" "tstate u ?k = tstate u k" for u
    by (simp_all add: defunct_insert_def tstate_def)
  moreover have "\<forall>u\<in>X. detached u (lists ?k)"
    using queue_invD(2) [OF inv] assms(4) by (auto simp: detached_def l)
  ultimately show ?thesis
    using inv assms(3) unfolding queue_inv_def by (auto simp: l)
qed

text \<open>The queue work of \<^verbatim>\<open>rt_thread_exit\<close>, \<^verbatim>\<open>_detach\<close> and \<^verbatim>\<open>_delete\<close>, with the timer released.\<close>

definition close_core :: "tid \<Rightarrow> kcore \<Rightarrow> kcore" where
  "close_core t k =
     upd_thread t (\<lambda>th. th\<lparr>stat := RT_THREAD_CLOSE\<rparr>)
       (object_detach_core (OThreadTimer t)
         (rt_timer_remove (OThreadTimer t)
           (if tstate t k \<noteq> RT_THREAD_INIT then sched_remove_body t k else k)))"

lemma close_core_cur [simp]: "cur d (close_core t k) = cur d k"
  by (simp add: close_core_def)

lemma close_core_inv:
  assumes inv: "sched_inv k" and t: "tstate t k \<noteq> RT_THREAD_CLOSE"
  shows "sched_inv (close_core t k)" "detached t (lists (close_core t k))"
    "tstate t (close_core t k) = RT_THREAD_CLOSE"
proof -
  have q: "queue_inv {} k" using inv by (simp add: sched_inv_def)
  let ?f = "\<lambda>th. th\<lparr>stat := RT_THREAD_CLOSE\<rparr>"
  let ?k0 = "if tstate t k \<noteq> RT_THREAD_INIT then sched_remove_body t k else k"
  let ?k1 = "object_detach_core (OThreadTimer t) (rt_timer_remove (OThreadTimer t) ?k0)"
  have det: "detached t (lists ?k0)" using init_detached [OF q] by simp
  have "queue_inv {t} ?k0"
  proof (cases "tstate t k = RT_THREAD_INIT")
    case True
    then have "\<not> is_ready (threads k t)" by (simp add: tstate_def is_ready_def)
    then show ?thesis
      using True q det queue_invD(3) [OF q, of _ t] unfolding queue_inv_def by auto
  next
    case False
    then have "thread_ok (threads k t)"
      using queue_invD(7) [OF q] t by (simp add: started_def tstate_def)
    with False show ?thesis using remove_body_inv [OF q] by simp
  qed
  then have "queue_inv {t} (upd_thread t ?f ?k1)"
    using det by (intro queue_inv_set_stat) (auto simp: is_ready_def started_def stat_defs)
  then have "queue_inv {} (upd_thread t ?f ?k1)"
    using queue_inv_drop [of "{t}" "upd_thread t ?f ?k1" t] by (simp add: is_ready_def stat_defs)
  moreover have "cpu_inv (upd_thread t ?f ?k1)"
  proof -
    have "cpu_inv (upd_thread t ?f ?k1) = cpu_inv ?k1" by (intro cpu_inv_cong) auto
    with inv show ?thesis by (simp add: sched_inv_def)
  qed
  ultimately show "sched_inv (close_core t k)" by (simp add: close_core_def sched_inv_def)
  show "detached t (lists (close_core t k))" using det by (simp add: close_core_def)
  show "tstate t (close_core t k) = RT_THREAD_CLOSE" by (simp add: close_core_def tstate_def stat_defs)
qed

lemma sched_inv_defunct:
  assumes "sched_inv k" "detached t (lists k)" "tstate t k = RT_THREAD_CLOSE"
  shows "sched_inv (defunct_insert t k)"
proof -
  have "cpu_inv (defunct_insert t k) = cpu_inv k"
    by (intro cpu_inv_cong) (simp_all add: defunct_insert_def)
  with queue_inv_defunct [of "{}"] assms show ?thesis by (simp add: sched_inv_def)
qed

lemma timer_detach_n [simp]:
  assumes "lk_ok th L" "cur c k = th" "n < 0xf0"
    "rt_object_get_type r k = RT_Object_Class_Timer" "rt_object_is_systemobject r k"
  shows "rt_timer_detach c r (mk (lockn c th n L) k) =
     Some (RT_EOK, mk (lockn c th n L) (object_detach_core r (rt_timer_remove r k)))"
  using assms by (cases n) (simp_all add: rt_timer_detach_def)

lemmas timer_detach_first [simp] = timer_detach_n [where n = 0, simplified]

lemma is_systemobject_ops [simp]:
  "rt_object_is_systemobject r (sched_remove_body t k) = rt_object_is_systemobject r k"
  "rt_object_is_systemobject r (upd_thread t f k) = rt_object_is_systemobject r k"
  "rt_object_is_systemobject r (rt_timer_remove q k) = rt_object_is_systemobject r k"
  "r \<noteq> q \<Longrightarrow> rt_object_is_systemobject r (object_detach_core q k) = rt_object_is_systemobject r k"
  by (simp_all add: rt_object_is_systemobject_def object_detach_core_def)

lemma detach_upd_commute:
  "upd_thread t f (object_detach_core r k) = object_detach_core r (upd_thread t f k)"
  "upd_thread t f (rt_timer_remove r k) = rt_timer_remove r (upd_thread t f k)"
  by (simp_all add: upd_thread_def object_detach_core_def rt_timer_remove_def upd_obj_def)

text \<open>\<^verbatim>\<open>rt_thread_delete\<close> and \<^verbatim>\<open>rt_thread_detach\<close> on a thread with its timer object.\<close>

lemma thread_delete_first:
  assumes "lk_ok th L" "cur c k = th"
    and "rt_object_get_type (OThread t) k = RT_Object_Class_Thread" "\<not> rt_object_is_systemobject (OThread t) k"
    and "rt_object_get_type (OThreadTimer t) k = RT_Object_Class_Timer" "rt_object_is_systemobject (OThreadTimer t) k"
  shows "rt_thread_delete c t (mk L k) = Some (RT_EOK, mk L (defunct_insert t (close_core t k)))"
  using assms by (auto simp: rt_thread_delete_def close_core_def)

lemma thread_detach_first:
  assumes "lk_ok th L" "cur c k = th"
    and "rt_object_get_type (OThread t) k = RT_Object_Class_Thread" "rt_object_is_systemobject (OThread t) k"
    and "rt_object_get_type (OThreadTimer t) k = RT_Object_Class_Timer" "rt_object_is_systemobject (OThreadTimer t) k"
  shows "rt_thread_detach c t (mk L k) =
     Some (RT_EOK, mk L (let k1 = object_detach_core (OThread t) (close_core t k)
                         in if cleanup (threads k t) \<noteq> None then defunct_insert t k1 else k1))"
  using assms by (auto simp: rt_thread_detach_def close_core_def Let_def)

lemma thread_exit_first:
  assumes "lk_ok (Some t) L" "cur c k = Some t" "tstate t k \<noteq> RT_THREAD_INIT"
    and "rt_object_get_type (OThreadTimer t) k = RT_Object_Class_Timer" "rt_object_is_systemobject (OThreadTimer t) k"
  shows "rt_thread_exit c (mk L k) =
     rt_schedule c (mk L (if rt_object_is_systemobject (OThread t) k \<and> cleanup (threads k t) = None
                          then object_detach_core (OThread t) (close_core t k)
                          else defunct_insert t (close_core t k)))"
  using assms
  by (auto simp: rt_thread_exit_def close_core_def detach_upd_commute)

section \<open>Sleeping\<close>

text \<open>Suspending the running thread with a timeout: what every blocking call does.\<close>

definition block_core :: "tid \<Rightarrow> u32 \<Rightarrow> kcore \<Rightarrow> kcore" where
  "block_core t tick k =
     timer_arm_core (OThreadTimer t) (upd_timer (OThreadTimer t) (\<lambda>tm. tm\<lparr>init_tick := tick\<rparr>) k)"

lemma timer_flag_ops [simp]:
  "timer_flag r f (upd_timer q g k) = timer_flag r f k"
  "timer_flag r f (upd_thread u h k) = timer_flag r f k"
  "timer_flag r f (k\<lparr>lists := l\<rparr>) = timer_flag r f k"
  "timer_flag r f (rt_timer_remove q k) = timer_flag r f k"
  "timer_flag r f (sched_remove_body u k) = timer_flag r f k"
  by (simp_all add: timer_flag_def)

lemma soft_flag_stop [simp]:
  "timer_flag r RT_TIMER_FLAG_SOFT_TIMER (timer_stop_core r k) = timer_flag r RT_TIMER_FLAG_SOFT_TIMER k"
  by (simp add: timer_stop_core_def timer_flag_def clear_timer_flag_def timer_flag_defs and.assoc)

lemma soft_flag_suspend [simp]:
  "timer_flag (OThreadTimer t) RT_TIMER_FLAG_SOFT_TIMER (suspend_core t k) =
     timer_flag (OThreadTimer t) RT_TIMER_FLAG_SOFT_TIMER k"
  by (simp add: suspend_core_def)

lemma block_core_fields [simp, core_simps]:
  "threads (block_core t tick k) = threads k" "lists (block_core t tick k) = lists k"
  "cpus (block_core t tick k) = cpus k" "kinv (block_core t tick k) = kinv k"
  "sched_inv (block_core t tick k) = sched_inv k" "objs_ok (block_core t tick k) = objs_ok k"
  "sems (block_core t tick k) = sems k" "mutexes (block_core t tick k) = mutexes k"
  "events (block_core t tick k) = events k" "mailboxes (block_core t tick k) = mailboxes k"
  "mqueues (block_core t tick k) = mqueues k" "mempools (block_core t tick k) = mempools k"
  by (simp_all add: block_core_def)

lemma timer_set_time [simp]:
  "rt_object_get_type r (kc s) = RT_Object_Class_Timer \<Longrightarrow>
     rt_timer_control r (TIMER_SET_TIME tick) s =
       Some (RT_EOK, None, s\<lparr>kc := upd_timer r (\<lambda>tm. tm\<lparr>init_tick := tick\<rparr>) (kc s)\<rparr>)"
  by (simp add: rt_timer_control_def)

lemma sleep_first:
  assumes "lk_ok (Some t) L" "cur c k = Some t" "objs_ok k" "is_ready (threads k t)"
    "tick < RT_TICK_MAX div 2" "\<not> timer_flag (OThreadTimer t) RT_TIMER_FLAG_SOFT_TIMER k"
  shows "rt_thread_sleep c tick (mk L k) = rt_schedule c (mk L (block_core t tick (suspend_core t k)))"
proof -
  have ty: "rt_object_get_type (OThread t) k = RT_Object_Class_Thread"
    "rt_object_get_type (OThreadTimer t) k = RT_Object_Class_Timer"
    using objs_okD [OF assms(3)] assms(4) by (simp_all add: state_excl)
  show ?thesis
    using assms ty by (simp add: rt_thread_sleep_def block_core_def)
qed

section \<open>Changing the priority\<close>

definition change_priority_core :: "cpu_id \<Rightarrow> tid \<Rightarrow> u8 \<Rightarrow> kcore \<Rightarrow> kcore" where
  "change_priority_core c t p k =
     (if is_ready (threads k t)
      then sched_insert_body c t (upd_thread t (set_priority p) (sched_remove_body t k))
      else upd_thread t (set_priority p) k)"

lemma change_priority_n [simp]:
  assumes "lk_ok th L" "cur c k = th" "n < 0xf0" "rt_object_get_type (OThread t) k = RT_Object_Class_Thread"
  shows "rt_thread_control c t (CTRL_CHANGE_PRIORITY p) (mk (lockn c th n L) k) =
     Some (RT_EOK, mk (lockn c th n L) (change_priority_core c t p k))"
  using assms
  by (cases n) (simp_all add: rt_thread_control_def change_priority_core_def tstate_ready)

lemmas change_priority_first [simp] = change_priority_n [where n = 0, simplified]

lemma set_priority_preds [simp]:
  "is_ready (set_priority p th) = is_ready th" "waits (set_priority p th) = waits th"
  "started (set_priority p th) = started th" "stat (set_priority p th) = stat th"
  "oncpu (set_priority p th) = oncpu th" "bind_cpu (set_priority p th) = bind_cpu th"
  "current_priority (set_priority p th) = p"
  by (simp_all add: set_priority_def is_ready_def waits_def started_def)

lemma set_priority_ok:
  "bind_cpu th \<le> RT_CPUS_NR \<Longrightarrow> unat p < RT_THREAD_PRIORITY_MAX \<Longrightarrow> thread_ok (set_priority p th)"
  by (simp add: thread_ok_def set_priority_def)

text \<open>A write to a thread that keeps its state and is not in a ready list.\<close>

lemma queue_inv_write:
  assumes inv: "queue_inv X k" and nr: "\<not> is_ready (threads k t) \<or> t \<in> X \<or> oncpu (threads k t) \<noteq> RT_CPU_DETACHED"
    and f: "stat (f (threads k t)) = stat (threads k t)" "oncpu (f (threads k t)) = oncpu (threads k t)"
    and ok: "started (threads k t) \<Longrightarrow> thread_ok (f (threads k t))"
  shows "queue_inv X (upd_thread t f k)"
proof -
  let ?k = "upd_thread t f k"
  have st: "is_ready (threads ?k u) = is_ready (threads k u)" "waits (threads ?k u) = waits (threads k u)"
    "started (threads ?k u) = started (threads k u)" "oncpu (threads ?k u) = oncpu (threads k u)"
    "tstate u ?k = tstate u k" for u
    using f by (auto simp: is_ready_def waits_def started_def tstate_def)
  have "u \<in> set (lists ?k h) \<longleftrightarrow>
      u \<notin> X \<and> is_ready (threads ?k u) \<and> oncpu (threads ?k u) = RT_CPU_DETACHED \<and>
      h = home (threads ?k u)" if "ready_head h" for u h
    using queue_invD(3) [OF inv that, of u] nr unfolding st by auto
  moreover have "thread_ok (threads ?k u)" if "started (threads ?k u)" for u
    using that queue_invD(7) [OF inv, of u] ok unfolding st by auto
  ultimately show ?thesis
    using queue_invD(1,2,4,5,6,8,9) [OF inv] unfolding queue_inv_def st
    by (simp only: upd_thread_simps) blast
qed

lemma change_priority_inv:
  assumes inv: "kinv k" and p: "unat p < RT_THREAD_PRIORITY_MAX" and st: "started (threads k t)"
  shows "kinv (change_priority_core c t p k)"
proof -
  have q: "queue_inv {} k" and cp: "cpu_inv k" and ob: "objs_ok k"
    using inv by (simp_all add: kinv_def sched_inv_def)
  have ok: "thread_ok (threads k t)" using queue_invD(7) [OF q st] .
  then have ok': "thread_ok (set_priority p (threads k t))"
    using p by (intro set_priority_ok) (simp_all add: thread_ok_def)
  have cpu: "cpu_inv (change_priority_core c t p k)"
    using cp by (simp add: change_priority_core_def)
  have "queue_inv {} (change_priority_core c t p k)"
  proof (cases "is_ready (threads k t)")
    case True
    let ?k1 = "upd_thread t (set_priority p) (sched_remove_body t k)"
    have "queue_inv {t} ?k1"
      using remove_body_inv [OF q ok] ok' by (intro queue_inv_write) auto
    then show ?thesis
      using True insert_body_inv [of "{t}" ?k1 t c] ok' by (simp add: change_priority_core_def)
  next
    case False
    then show ?thesis
      using queue_inv_write [OF q, of t "set_priority p"] ok' by (simp add: change_priority_core_def)
  qed
  moreover have "objs_ok (change_priority_core c t p k)"
    using ob st by (auto simp: change_priority_core_def intro!: objs_ok_insert_body objs_ok_upd_thread)
  ultimately show ?thesis using cpu by (simp add: kinv_def sched_inv_def)
qed

lemma change_priority_fields [simp]:
  "cur d (change_priority_core c t p k) = cur d k"
  "irq_nest (cpus (change_priority_core c t p k) d) = irq_nest (cpus k d)"
  "sems (change_priority_core c t p k) = sems k" "mutexes (change_priority_core c t p k) = mutexes k"
  "events (change_priority_core c t p k) = events k" "mailboxes (change_priority_core c t p k) = mailboxes k"
  "mqueues (change_priority_core c t p k) = mqueues k" "mempools (change_priority_core c t p k) = mempools k"
  by (simp_all add: change_priority_core_def)

lemma change_priority_threads:
  "threads (change_priority_core c t p k) =
     (threads k)(t := (set_priority p (threads k t))\<lparr>stat := (if is_ready (threads k t)
        then set_tstate RT_THREAD_READY (stat (threads k t)) else stat (threads k t))\<rparr>)"
  by (simp add: change_priority_core_def set_priority_def)

section \<open>Timeouts\<close>

definition timeout_core :: "cpu_id \<Rightarrow> tid \<Rightarrow> kcore \<Rightarrow> kcore" where
  "timeout_core c t k =
     upd_cpu c (\<lambda>p. p\<lparr>irq_switch_flag := True\<rparr>)
       (sched_insert_body c t
         ((upd_thread t (\<lambda>th. th\<lparr>th_error := - RT_ETIMEOUT\<rparr>) k)\<lparr>lists := ll_remove t (lists k)\<rparr>))"

text \<open>In the tick interrupt \<^verbatim>\<open>rt_schedule\<close> only leaves a note for \<^verbatim>\<open>rt_scheduler_do_irq_switch\<close>.\<close>

lemma schedule_in_irq_n [simp]:
  assumes "lk_ok th L" "cur c k = th" "n < 0xff" "irq_nest (cpus k c) \<noteq> 0"
  shows "rt_schedule c (mk (lockn c th n L) k) =
     Some (mk (lockn c th n L) (upd_cpu c (\<lambda>p. p\<lparr>irq_switch_flag := True\<rparr>) k))"
  using assms by (cases n) (simp_all add: rt_schedule_def)

lemma timeout_n:
  assumes "lk_ok th L" "cur c k = th" "n < 0xf0" "irq_nest (cpus k c) \<noteq> 0"
    and "objs_ok k" "waits (threads k t)"
  shows "rt_thread_timeout c t (mk (lockn c th n L) k) = Some (mk (lockn c th n L) (timeout_core c t k))"
proof -
  have ty: "rt_object_get_type (OThread t) k = RT_Object_Class_Thread"
    using objs_okD [OF assms(5)] assms(6) state_excl(3) by blast
  have "tstate t k = RT_THREAD_SUSPEND" using assms(6) by (simp add: waits_def tstate_def)
  with assms ty show ?thesis
    by (cases n) (simp_all add: rt_thread_timeout_def timeout_core_def rt_schedule_in_irq)
qed

lemma timeout_core_inv:
  assumes "kinv k" "waits (threads k t)"
  shows "kinv (timeout_core c t k)"
proof -
  let ?f = "\<lambda>th. th\<lparr>th_error := - RT_ETIMEOUT\<rparr>"
  let ?k1 = "upd_thread t ?f k"
  let ?k2 = "?k1\<lparr>lists := ll_remove t (lists k)\<rparr>"
  have k1: "kinv ?k1" using assms(1) by (simp add: sview_def)
  then have q: "queue_inv {} ?k1" and cp: "cpu_inv ?k1" and ob: "objs_ok ?k1"
    by (simp_all add: kinv_def sched_inv_def)
  have w: "waits (threads ?k1 t)" using assms(2) by (simp add: waits_def)
  then have ok: "thread_ok (threads ?k2 t)" using queue_invD(7) [OF q, of t] state_excl(3) by simp
  have "queue_inv {} ?k2"
    using unlink_waiter_inv [OF q, of t] w state_excl(1) by auto
  then have "queue_inv {} (sched_insert_body c t ?k2)"
    using insert_body_inv [of "{}" ?k2 t c] ok by simp
  moreover have "cpu_inv (sched_insert_body c t ?k2)" using cp by simp
  moreover have "objs_ok (sched_insert_body c t ?k2)"
    using ob w by (intro objs_ok_insert_body) (simp_all add: state_excl)
  ultimately have "kinv (sched_insert_body c t ?k2)" by (simp add: kinv_def sched_inv_def)
  then show ?thesis by (simp add: timeout_core_def)
qed

subsection \<open>What the tick handler asks of a timeout function\<close>

definition expired :: "kcore \<Rightarrow> objref \<Rightarrow> bool" where
  "expired k r \<longleftrightarrow> rt_tick_get k - timeout_tick (timers k r) < RT_TICK_MAX div 2"

text \<open>
  \<open>P\<close> is an invariant of the states in which the loop of \<^verbatim>\<open>rt_timer_check\<close> stands. The timers in the
  list are one-shot; a timeout function returns, leaves ticks and timers alone, and does its work:
  \<open>served\<close> holds of the timer from then on.
\<close>

locale timeout_calls =
  fixes call :: "timeout_fn \<Rightarrow> kstate \<Rightarrow> kstate option"
    and P :: "kstate \<Rightarrow> bool"
    and served :: "objref \<Rightarrow> kstate \<Rightarrow> bool"
  assumes one_shot: "P s \<Longrightarrow> r \<in> set (rt_timer_list (kc s)) \<Longrightarrow> \<not> timer_flag r RT_TIMER_FLAG_PERIODIC (kc s)"
    and call_ok: "P s \<Longrightarrow> rt_timer_list (kc s) = r # rs \<Longrightarrow>
      \<exists>s'. call (timeout_func (timers (kc s) r)) (s\<lparr>kc := rt_timer_remove r (kc s)\<rparr>) = Some s' \<and>
           rt_timer_list (kc s') = rs \<and> timers (kc s') = timers (kc s) \<and> objs (kc s') = objs (kc s) \<and>
           rt_tick_get (kc s') = rt_tick_get (kc s) \<and>
           P (s'\<lparr>kc := clear_timer_flag r RT_TIMER_FLAG_ACTIVATED (kc s')\<rparr>) \<and>
           served r (s'\<lparr>kc := clear_timer_flag r RT_TIMER_FLAG_ACTIVATED (kc s')\<rparr>) \<and>
           (\<forall>q. served q s \<longrightarrow> served q (s'\<lparr>kc := clear_timer_flag r RT_TIMER_FLAG_ACTIVATED (kc s')\<rparr>))"
begin

text \<open>The loop ends, serves exactly the expired timers at the front, and leaves the others linked.\<close>

lemma check_loop:
  assumes "P s"
  shows "\<exists>s'. rt_timer_check_loop call c (rt_tick_get (kc s)) s = Some s' \<and> P s' \<and>
     rt_timer_list (kc s') = dropWhile (expired (kc s)) (rt_timer_list (kc s)) \<and>
     timers (kc s') = timers (kc s) \<and>
     (\<forall>r \<in> set (takeWhile (expired (kc s)) (rt_timer_list (kc s))). served r s') \<and>
     (\<forall>q. served q s \<longrightarrow> served q s')"
  using assms
proof (induction "rt_timer_list (kc s)" arbitrary: s)
  case Nil
  then show ?case by (subst rt_timer_check_loop.simps) auto
next
  case (Cons r rs)
  note list = Cons.hyps(2) [symmetric]
  show ?case
  proof (cases "expired (kc s) r")
    case False
    with Cons.prems list show ?thesis
      by (subst rt_timer_check_loop.simps) (auto simp: expired_def)
  next
    case True
    obtain s1 where s1: "call (timeout_func (timers (kc s) r)) (s\<lparr>kc := rt_timer_remove r (kc s)\<rparr>) = Some s1"
      "rt_timer_list (kc s1) = rs" "timers (kc s1) = timers (kc s)" "objs (kc s1) = objs (kc s)"
      "rt_tick_get (kc s1) = rt_tick_get (kc s)"
      and P1: "P (s1\<lparr>kc := clear_timer_flag r RT_TIMER_FLAG_ACTIVATED (kc s1)\<rparr>)" (is "P ?s2")
      and sv: "served r (s1\<lparr>kc := clear_timer_flag r RT_TIMER_FLAG_ACTIVATED (kc s1)\<rparr>)"
        "\<forall>q. served q s \<longrightarrow> served q (s1\<lparr>kc := clear_timer_flag r RT_TIMER_FLAG_ACTIVATED (kc s1)\<rparr>)"
      using call_ok [OF Cons.prems list] by blast
    have per: "\<not> timer_flag r RT_TIMER_FLAG_PERIODIC (kc s1)"
      using one_shot [OF Cons.prems, of r] list s1(4) by (simp add: timer_flag_def)
    have s2: "rt_timer_list (kc ?s2) = rs" "timers (kc ?s2) = timers (kc s)" "rt_tick_get (kc ?s2) = rt_tick_get (kc s)"
      using s1 by (simp_all add: rt_tick_get_def)
    then have ex: "expired (kc ?s2) = expired (kc s)" by (simp add: expired_def fun_eq_iff)
    obtain s' where s': "rt_timer_check_loop call c (rt_tick_get (kc ?s2)) ?s2 = Some s'" "P s'"
      "rt_timer_list (kc s') = dropWhile (expired (kc s)) rs" "timers (kc s') = timers (kc s)"
      "\<forall>q \<in> set (takeWhile (expired (kc s)) rs). served q s'" "\<forall>q. served q ?s2 \<longrightarrow> served q s'"
      using Cons.hyps(1) [OF s2(1) [symmetric] P1] s2 ex by auto
    have "rt_timer_check_loop call c (rt_tick_get (kc s)) s =
        rt_timer_check_loop call c (rt_tick_get (kc ?s2)) ?s2"
      using list True s1 per s2(3)
      by (subst rt_timer_check_loop.simps) (simp add: expired_def)
    with s' True list sv show ?thesis by auto
  qed
qed

end

text \<open>
  The kernel's own timeouts: the loop runs in the tick interrupt, under the lock, and every timer in
  the list is the timer of a thread that waits.
\<close>

definition tick_state :: "cpu_id \<Rightarrow> tid option \<Rightarrow> klock \<Rightarrow> kstate \<Rightarrow> bool" where
  "tick_state c th L s \<longleftrightarrow>
     lk_ok th L \<and> lk s = lockn c th (Suc 0) L \<and> cur c (kc s) = th \<and> kinv (kc s) \<and>
     irq_nest (cpus (kc s) c) \<noteq> 0 \<and> distinct (rt_timer_list (kc s)) \<and>
     (\<forall>r \<in> set (rt_timer_list (kc s)).
        \<not> timer_flag r RT_TIMER_FLAG_PERIODIC (kc s) \<and>
        (\<exists>t. r = OThreadTimer t \<and> timeout_func (timers (kc s) r) = ThreadTimeout t \<and>
             waits (threads (kc s) t)))"

text \<open>The thread is ready again and finds \<^verbatim>\<open>-RT_ETIMEOUT\<close> in its error field.\<close>

definition timed_out :: "objref \<Rightarrow> kstate \<Rightarrow> bool" where
  "timed_out r s \<longleftrightarrow>
     (\<exists>t. r = OThreadTimer t \<and> is_ready (threads (kc s) t) \<and> th_error (threads (kc s) t) = - RT_ETIMEOUT)"

lemma timeout_core_fields [simp]:
  "threads (timeout_core c t k) =
     (threads k)(t := (threads k t)\<lparr>th_error := - RT_ETIMEOUT,
        stat := set_tstate RT_THREAD_READY (stat (threads k t))\<rparr>)"
  "timers (timeout_core c t k) = timers k" "objs (timeout_core c t k) = objs k"
  "rt_timer_list (timeout_core c t k) = rt_timer_list k"
  "cur d (timeout_core c t k) = cur d k" "irq_nest (cpus (timeout_core c t k) d) = irq_nest (cpus k d)"
  "rt_tick_get (timeout_core c t k) = rt_tick_get k" "rt_tick_get (rt_timer_remove r k) = rt_tick_get k"
  by (simp_all add: timeout_core_def rt_tick_get_def)

lemma tick_state_step:
  assumes P: "tick_state c th L s" and list: "rt_timer_list (kc s) = r # rs"
  defines "k1 \<equiv> rt_timer_remove r (kc s)"
  shows "\<exists>t. r = OThreadTimer t \<and> waits (threads (kc s) t) \<and>
     call_timeout user c (timeout_func (timers (kc s) r)) (s\<lparr>kc := k1\<rparr>) =
       Some (mk (lockn c th (Suc 0) L) (timeout_core c t k1)) \<and>
     rt_timer_list (timeout_core c t k1) = rs \<and>
     tick_state c th L (mk (lockn c th (Suc 0) L)
       (clear_timer_flag r RT_TIMER_FLAG_ACTIVATED (timeout_core c t k1)))"
proof -
  obtain t where t: "r = OThreadTimer t" "timeout_func (timers (kc s) r) = ThreadTimeout t"
    "waits (threads (kc s) t)" and d: "distinct (r # rs)"
    using P list by (auto simp: tick_state_def)
  have k1: "kinv k1" "cur c k1 = th" "irq_nest (cpus k1 c) \<noteq> 0" "waits (threads k1 t)"
    using P t(3) by (simp_all add: tick_state_def k1_def)
  have rest: "rt_timer_list (timeout_core c t k1) = rs"
    using list d by (simp add: k1_def removeAll_id)
  have s: "s\<lparr>kc := k1\<rparr> = mk (lockn c th (Suc 0) L) k1"
    using P by (cases s) (simp add: tick_state_def)
  have "rt_thread_timeout c t (mk (lockn c th (Suc 0) L) k1) =
      Some (mk (lockn c th (Suc 0) L) (timeout_core c t k1))"
    using timeout_n [of th L k1 c "Suc 0" t] P k1 by (simp add: tick_state_def kinv_def)
  then have "call_timeout user c (timeout_func (timers (kc s) r)) (s\<lparr>kc := k1\<rparr>) =
       Some (mk (lockn c th (Suc 0) L) (timeout_core c t k1))"
    by (simp add: call_timeout_def t(2) s)
  moreover have "tick_state c th L (mk (lockn c th (Suc 0) L)
       (clear_timer_flag r RT_TIMER_FLAG_ACTIVATED (timeout_core c t k1)))"
  proof -
    have "\<not> timer_flag q RT_TIMER_FLAG_PERIODIC (clear_timer_flag r RT_TIMER_FLAG_ACTIVATED (timeout_core c t k1))
        \<and> (\<exists>u. q = OThreadTimer u \<and> timeout_func (timers (kc s) q) = ThreadTimeout u \<and> u \<noteq> t \<and> waits (threads (kc s) u))"
      if "q \<in> set rs" for q
      using P list d that t(1)
      by (auto simp: tick_state_def timer_flag_def clear_timer_flag_def k1_def)
    then show ?thesis
      using P k1 rest d timeout_core_inv [OF k1(1,4)] by (fastforce simp: tick_state_def k1_def)
  qed
  ultimately show ?thesis using t rest by blast
qed

interpretation tick: timeout_calls "call_timeout user c" "tick_state c th L" timed_out
  for user c th L
proof unfold_locales
  fix s r assume "tick_state c th L s" "r \<in> set (rt_timer_list (kc s))"
  then show "\<not> timer_flag r RT_TIMER_FLAG_PERIODIC (kc s)" by (auto simp: tick_state_def)
next
  fix s r rs assume P: "tick_state c th L s" and list: "rt_timer_list (kc s) = r # rs"
  let ?k1 = "rt_timer_remove r (kc s)"
  obtain t where t: "r = OThreadTimer t" "waits (threads (kc s) t)"
    and call: "call_timeout user c (timeout_func (timers (kc s) r)) (s\<lparr>kc := ?k1\<rparr>) =
       Some (mk (lockn c th (Suc 0) L) (timeout_core c t ?k1))"
    and rest: "rt_timer_list (timeout_core c t ?k1) = rs"
    and P': "tick_state c th L (mk (lockn c th (Suc 0) L)
       (clear_timer_flag r RT_TIMER_FLAG_ACTIVATED (timeout_core c t ?k1)))"
    using tick_state_step [OF P list] by blast
  have "timed_out q (mk (lockn c th (Suc 0) L) (clear_timer_flag r RT_TIMER_FLAG_ACTIVATED (timeout_core c t ?k1)))"
    if "q = r \<or> timed_out q s" for q
    using that t by (auto simp: timed_out_def is_ready_def waits_def)
  with call rest P' show "\<exists>s'. call_timeout user c (timeout_func (timers (kc s) r))
        (s\<lparr>kc := rt_timer_remove r (kc s)\<rparr>) = Some s' \<and>
      rt_timer_list (kc s') = rs \<and> timers (kc s') = timers (kc s) \<and> objs (kc s') = objs (kc s) \<and>
      rt_tick_get (kc s') = rt_tick_get (kc s) \<and>
      tick_state c th L (s'\<lparr>kc := clear_timer_flag r RT_TIMER_FLAG_ACTIVATED (kc s')\<rparr>) \<and>
      timed_out r (s'\<lparr>kc := clear_timer_flag r RT_TIMER_FLAG_ACTIVATED (kc s')\<rparr>) \<and>
      (\<forall>q. timed_out q s \<longrightarrow> timed_out q (s'\<lparr>kc := clear_timer_flag r RT_TIMER_FLAG_ACTIVATED (kc s')\<rparr>))"
    by (intro exI [of _ "mk (lockn c th (Suc 0) L) (timeout_core c t ?k1)"])
      simp
qed

text \<open>Hence the check serves exactly the expired waits and gives the lock back.\<close>

lemma timer_check_spec:
  assumes "tick_state c th L (mk (lockn c th (Suc 0) L) k)"
  shows "\<exists>k'. rt_timer_check (call_timeout user c) c (mk L k) = Some (mk L k') \<and> kinv k' \<and>
     rt_timer_list k' = dropWhile (expired k) (rt_timer_list k) \<and>
     (\<forall>r \<in> set (takeWhile (expired k) (rt_timer_list k)). timed_out r (mk L k'))"
proof -
  obtain s' where s': "rt_timer_check_loop (call_timeout user c) c (rt_tick_get k) (mk (lockn c th (Suc 0) L) k) = Some s'"
    "tick_state c th L s'" "rt_timer_list (kc s') = dropWhile (expired k) (rt_timer_list k)"
    "\<forall>r \<in> set (takeWhile (expired k) (rt_timer_list k)). timed_out r s'"
    using tick.check_loop [OF assms, of user c] by auto
  have ok: "lk_ok th L" "cur c k = th" using assms by (simp_all add: tick_state_def)
  have "s' = mk (lockn c th (Suc 0) L) (kc s')" "cur c (kc s') = th"
    using s'(2) by (cases s'; simp add: tick_state_def)+
  then have "rt_hw_interrupt_enable c (irq_disabled L c) s' = mk L (kc s')"
    using rt_cpus_unlock_last [OF ok(1), of "kc s'" c] by metis
  then show ?thesis
    using s' ok by (intro exI [of _ "kc s'"]) (auto simp: rt_timer_check_def tick_state_def timed_out_def)
qed

section \<open>Milliseconds to ticks\<close>

lemma tick_from_millisecond_rounds_up:
  assumes "0 \<le> ms" "ms \<le> 21474826"
  shows "ms * RT_TICK_PER_SECOND \<le> rt_tick_from_millisecond ms * 1000 \<and>
     (rt_tick_from_millisecond ms - 1) * 1000 < ms * RT_TICK_PER_SECOND"
proof -
  have "rt_tick_from_millisecond ms = (100 * ms + 999) div 1000"
    using assms by (simp add: rt_tick_from_millisecond_def RT_TICK_PER_SECOND_def wrap32_id cdiv_def)
  moreover define q m where "q = (100 * ms + 999) div 1000" and "m = (100 * ms + 999) mod 1000"
  moreover have "1000 * q + m = 100 * ms + 999" unfolding q_def m_def by simp
  moreover have "0 \<le> m" "m < 1000" unfolding m_def by simp_all
  ultimately have "ms * 100 \<le> q * 1000" "(q - 1) * 1000 < ms * 100" "rt_tick_from_millisecond ms = q"
    by (simp_all add: left_diff_distrib)
  then show ?thesis by (simp add: RT_TICK_PER_SECOND_def)
qed

text \<open>
  For delays up to 21474826 ms \<^verbatim>\<open>rt_tick_from_millisecond\<close> gives the least number of ticks that lasts
  at least as long. The documented maximum 0x7fffffff is beyond: the product wraps and the result is 0 ticks.
\<close>

lemma tick_from_millisecond_range:
  "(0 \<le> ms \<and> ms \<le> 21474826 \<longrightarrow>
      ms * RT_TICK_PER_SECOND \<le> rt_tick_from_millisecond ms * 1000 \<and>
      (rt_tick_from_millisecond ms - 1) * 1000 < ms * RT_TICK_PER_SECOND) \<and>
   rt_tick_from_millisecond 0x7fffffff = 0"
  using tick_from_millisecond_rounds_up [of ms]
  by (simp add: rt_tick_from_millisecond_def RT_TICK_PER_SECOND_def wrap32_def cdiv_def)

lemma tick_from_millisecond_range_witness:
  "25 * RT_TICK_PER_SECOND \<le> rt_tick_from_millisecond 25 * 1000 \<and> rt_tick_from_millisecond 25 \<le> 3"
  using tick_from_millisecond_range [of 25] by (simp add: RT_TICK_PER_SECOND_def)

end
