(* ===== verification/Rt_Ipc.thy ===== *)
theory Rt_Ipc
  imports Rt_Thread
begin

text \<open>
  What all IPC objects share (\<^verbatim>\<open>src/ipc.c\<close>, lines 60 to 184): wait queues in FIFO or priority
  order, suspending the caller in one, resuming the first waiter and resuming all of them. A call
  that may block returns \<open>Some e\<close> with its result, or \<open>None\<close> when the caller has been
  suspended and \<^verbatim>\<open>rt_schedule\<close> was called; the definitions with suffix \<open>_cont\<close> are what the
  caller does when it runs again.
\<close>

section \<open>Wait queues\<close>

definition RT_IPC_FLAG_FIFO :: u8 where "RT_IPC_FLAG_FIFO = 0"
definition RT_IPC_FLAG_PRIO :: u8 where "RT_IPC_FLAG_PRIO = 1"

fun prio_insert :: "(tid \<Rightarrow> u8) \<Rightarrow> tid \<Rightarrow> tid list \<Rightarrow> tid list" where
  "prio_insert pr t [] = [t]"
| "prio_insert pr t (x # xs) = (if pr t < pr x then t # x # xs else x # prio_insert pr t xs)"

definition fifo_insert :: "(tid \<Rightarrow> u8) \<Rightarrow> tid \<Rightarrow> tid list \<Rightarrow> tid list" where
  "fifo_insert pr t xs = xs @ [t]"

text \<open>The \<^verbatim>\<open>switch (flag)\<close>; any other flag inserts nowhere.\<close>

definition queue_insert :: "u8 \<Rightarrow> (tid \<Rightarrow> u8) \<Rightarrow> tid \<Rightarrow> tid list \<Rightarrow> tid list" where
  "queue_insert flag pr t xs =
     (if flag = RT_IPC_FLAG_FIFO then fifo_insert pr t xs
      else if flag = RT_IPC_FLAG_PRIO then prio_insert pr t xs
      else xs)"

definition enqueue_waiter :: "lhead \<Rightarrow> tid \<Rightarrow> u8 \<Rightarrow> kcore \<Rightarrow> kcore" where
  "enqueue_waiter h t flag k =
     k\<lparr>lists := (lists k)(h := queue_insert flag (\<lambda>x. current_priority (threads k x)) t (lists k h))\<rparr>"

definition rt_ipc_object_init :: "objref \<Rightarrow> kcore \<Rightarrow> kcore" where
  "rt_ipc_object_init r k = k\<lparr>lists := (lists k)(SuspendQ r := [])\<rparr>"

definition rt_ipc_list_suspend :: "cpu_id \<Rightarrow> lhead \<Rightarrow> tid \<Rightarrow> u8 \<Rightarrow> kstate \<Rightarrow> (rt_err_t \<times> kstate) option" where
  "rt_ipc_list_suspend c h t flag s =
     do { (_, s) \<leftarrow> rt_thread_suspend c t s;
          Some (RT_EOK, s\<lparr>kc := enqueue_waiter h t flag (kc s)\<rparr>) }"

definition rt_ipc_list_resume :: "cpu_id \<Rightarrow> lhead \<Rightarrow> kstate \<Rightarrow> (rt_err_t \<times> kstate) option" where
  "rt_ipc_list_resume c h s =
     do { t \<leftarrow> first_thread (lists (kc s) h);
          (_, s) \<leftarrow> rt_thread_resume c t s;
          Some (RT_EOK, s) }"

partial_function (option) rt_ipc_list_resume_all ::
    "cpu_id \<Rightarrow> lhead \<Rightarrow> kstate \<Rightarrow> (rt_err_t \<times> kstate) option" where
  "rt_ipc_list_resume_all c h s =
     (case lists (kc s) h of
        [] \<Rightarrow> Some (RT_EOK, s)
      | t # _ \<Rightarrow>
          Option.bind (rt_hw_interrupt_disable c s) (\<lambda>ls.
            Option.bind (rt_thread_resume c t ((snd ls)\<lparr>kc :=
                upd_thread t (\<lambda>th. th\<lparr>th_error := - RT_ERROR\<rparr>) (kc (snd ls))\<rparr>)) (\<lambda>es.
              rt_ipc_list_resume_all c h (rt_hw_interrupt_enable c (fst ls) (snd es)))))"

section \<open>Order of a wait queue\<close>

text \<open>
  What the IPC objects rely on in a queueing discipline: inserting adds the thread and keeps the
  relative order of the others.
\<close>

locale wait_discipline =
  fixes ins :: "(tid \<Rightarrow> u8) \<Rightarrow> tid \<Rightarrow> tid list \<Rightarrow> tid list"
  assumes ins_split: "\<exists>us vs. xs = us @ vs \<and> ins pr t xs = us @ t # vs"
begin

lemma ins_set: "set (ins pr t xs) = insert t (set xs)"
  using ins_split [of xs pr t] by auto

lemma ins_distinct: "t \<notin> set xs \<Longrightarrow> distinct xs \<Longrightarrow> distinct (ins pr t xs)"
  using ins_split [of xs pr t] by auto

lemma ins_removeAll: "t \<notin> set xs \<Longrightarrow> removeAll t (ins pr t xs) = xs"
  using ins_split [of xs pr t] by (auto simp: removeAll_id)

lemma ins_nonempty: "ins pr t xs \<noteq> []"
  using ins_split [of xs pr t] by auto

end

lemma prio_insert_split: "\<exists>us vs. xs = us @ vs \<and> prio_insert pr t xs = us @ t # vs"
proof (induction xs)
  case (Cons x xs)
  then obtain us vs where "xs = us @ vs" "prio_insert pr t xs = us @ t # vs" by blast
  then have "x # xs = (x # us) @ vs \<and> x # prio_insert pr t xs = (x # us) @ t # vs" by simp
  then show ?case by (metis append_Nil prio_insert.simps(2))
qed simp

interpretation fifo: wait_discipline fifo_insert
  by unfold_locales (auto simp: fifo_insert_def)

interpretation prio: wait_discipline prio_insert
  by unfold_locales (rule prio_insert_split)

text \<open>Priority order: most urgent first, and among equals the one that has waited longest.\<close>

lemma prio_insert_sorted:
  "sorted (map pr xs) \<Longrightarrow> sorted (map pr (prio_insert pr t xs))"
proof (induction xs)
  case (Cons x xs)
  then show ?case by (auto simp: prio.ins_set not_less)
qed simp

lemma prio_insert_stable:
  assumes "sorted (map pr xs)"
  shows "prio_insert pr t xs = filter (\<lambda>x. pr x \<le> pr t) xs @ t # filter (\<lambda>x. \<not> pr x \<le> pr t) xs"
  using assms
proof (induction xs)
  case (Cons x xs)
  show ?case
  proof (cases "pr t < pr x")
    case True
    then have "\<forall>y\<in>set xs. \<not> pr y \<le> pr t" using Cons.prems by fastforce
    then have "filter (\<lambda>x. pr x \<le> pr t) xs = []" "filter (\<lambda>x. \<not> pr x \<le> pr t) xs = xs"
      by (simp_all add: filter_empty_conv)
    with True show ?thesis by (simp add: not_le)
  qed (use Cons in auto)
qed simp

text \<open>A flag the kernel knows.\<close>

definition ipc_flag :: "u8 \<Rightarrow> bool" where
  "ipc_flag flag \<longleftrightarrow> flag = RT_IPC_FLAG_FIFO \<or> flag = RT_IPC_FLAG_PRIO"

lemma queue_insert_set: "ipc_flag flag \<Longrightarrow> set (queue_insert flag pr t xs) = insert t (set xs)"
  by (auto simp: queue_insert_def ipc_flag_def fifo.ins_set prio.ins_set)

lemma queue_insert_distinct:
  "t \<notin> set xs \<Longrightarrow> distinct xs \<Longrightarrow> distinct (queue_insert flag pr t xs)"
  by (auto simp: queue_insert_def fifo.ins_distinct prio.ins_distinct)

section \<open>Suspending in a queue\<close>

fun wait_head :: "lhead \<Rightarrow> bool" where
  "wait_head (SuspendQ _) = True"
| "wait_head (SenderQ _) = True"
| "wait_head _ = False"

definition ipc_suspend_core :: "lhead \<Rightarrow> tid \<Rightarrow> u8 \<Rightarrow> kcore \<Rightarrow> kcore" where
  "ipc_suspend_core h t flag k = enqueue_waiter h t flag (suspend_core t k)"

lemma enqueue_waiter_fields [simp, core_simps]:
  "threads (enqueue_waiter h t flag k) = threads k" "cpus (enqueue_waiter h t flag k) = cpus k"
  "ready_priority_group (enqueue_waiter h t flag k) = ready_priority_group k"
  "objs (enqueue_waiter h t flag k) = objs k" "timers (enqueue_waiter h t flag k) = timers k"
  "sems (enqueue_waiter h t flag k) = sems k" "mutexes (enqueue_waiter h t flag k) = mutexes k"
  "events (enqueue_waiter h t flag k) = events k" "mailboxes (enqueue_waiter h t flag k) = mailboxes k"
  "mqueues (enqueue_waiter h t flag k) = mqueues k" "mempools (enqueue_waiter h t flag k) = mempools k"
  "rt_object_get_type r (enqueue_waiter h t flag k) = rt_object_get_type r k"
  "timer_flag r f (enqueue_waiter h t flag k) = timer_flag r f k"
  "objs_ok (enqueue_waiter h t flag k) = objs_ok k"
  by (simp_all add: enqueue_waiter_def)

lemma lists_enqueue_waiter:
  "lists (enqueue_waiter h t flag k) g =
     (if g = h then queue_insert flag (\<lambda>x. current_priority (threads k x)) t (lists k h) else lists k g)"
  by (simp add: enqueue_waiter_def)

lemma ipc_list_suspend_n [simp]:
  assumes "lk_ok (Some t) L" "cur c k = Some t" "n < 0xf0" "objs_ok k" "is_ready (threads k t)"
  shows "rt_ipc_list_suspend c h t flag (mk (lockn c (Some t) n L) k) =
     Some (RT_EOK, mk (lockn c (Some t) n L) (ipc_suspend_core h t flag k))"
  using assms by (simp add: rt_ipc_list_suspend_def ipc_suspend_core_def)

lemma ready_wait_heads [simp]: "wait_head h \<Longrightarrow> \<not> ready_head h" "wait_head h \<Longrightarrow> h \<noteq> Defunct"
  by (cases h; simp)+

text \<open>A waiting thread may be linked into a wait queue at any place.\<close>

lemma queue_inv_waiter:
  assumes inv: "queue_inv X k" and det: "detached t (lists k)" and w: "waits (threads k t)" and h: "wait_head h"
    and tX: "t \<notin> X" and ys: "set ys = insert t (set (lists k h))" "distinct ys"
  shows "queue_inv X (k\<lparr>lists := (lists k)(h := ys)\<rparr>)"
proof -
  let ?k = "k\<lparr>lists := (lists k)(h := ys)\<rparr>"
  have nt: "t \<notin> set (lists k g)" for g using det by (simp add: detached_def)
  have set: "set (lists ?k g) = (if g = h then insert t (set (lists k g)) else set (lists k g))" for g
    using ys(1) by simp
  have same: "lists ?k g = lists k g" if "g \<noteq> h" for g using that by simp
  have wf: "lists_wf (lists ?k)"
    using queue_invD(1) [OF inv] nt ys unfolding lists_wf_def by (auto simp: set)
  have rdy: "u \<in> set (lists ?k g) \<longleftrightarrow> u \<in> set (lists k g)" if "ready_head g" for u g
    using that h by (auto simp: set)
  have "waits (threads ?k u)"
    if "u \<in> set (lists ?k (SuspendQ q)) \<union> set (lists ?k (SenderQ q))" for u q
    using that queue_invD(4,5) [OF inv] w ys(1) by (auto split: if_splits)
  moreover have "\<forall>u\<in>X. detached u (lists ?k)"
    using queue_invD(2) [OF inv] tX ys(1) by (auto simp: detached_def)
  moreover have "\<forall>u \<in> set (lists ?k Defunct). tstate u ?k = RT_THREAD_CLOSE"
    using queue_invD(6) [OF inv] h by (auto simp: tstate_def)
  moreover have "lists ?k (Ready p) = lists k (Ready p)" "lists ?k (CpuReady d p) = lists k (CpuReady d p)" for p d
    using h by (auto intro: same)
  ultimately show ?thesis
    using wf rdy queue_invD(3,7,8,9) [OF inv] unfolding queue_inv_def by simp
qed

lemma kinv_waiter:
  assumes "kinv k" "detached t (lists k)" "waits (threads k t)" "wait_head h"
    and "set ys = insert t (set (lists k h))" "distinct ys"
  shows "kinv (k\<lparr>lists := (lists k)(h := ys)\<rparr>)"
proof -
  have "cpu_inv (k\<lparr>lists := (lists k)(h := ys)\<rparr>) = cpu_inv k" by (intro cpu_inv_cong) simp_all
  moreover have "objs_ok (k\<lparr>lists := (lists k)(h := ys)\<rparr>) = objs_ok k" by (simp add: objs_ok_def rt_object_get_type_def)
  ultimately show ?thesis using assms queue_inv_waiter [of "{}" k t h ys] by (simp add: kinv_def sched_inv_def)
qed

lemma kinv_enqueue:
  assumes "kinv k" "detached t (lists k)" "waits (threads k t)" "wait_head h" "ipc_flag flag"
  shows "kinv (enqueue_waiter h t flag k)"
proof -
  have "t \<notin> set (lists k h)" using assms(2) by (simp add: detached_def)
  moreover have "distinct (lists k h)" using assms(1) by (simp add: kinv_def sched_inv_def queue_inv_def lists_wf_def)
  ultimately show ?thesis
    unfolding enqueue_waiter_def using assms by (intro kinv_waiter) (simp_all add: queue_insert_set queue_insert_distinct)
qed

lemma ipc_suspend_inv:
  assumes "kinv k" "cur c k = Some t" "c < RT_CPUS_NR" "is_ready (threads k t)" "wait_head h" "ipc_flag flag"
  shows "kinv (ipc_suspend_core h t flag k)"
  using assms kinv_suspend [OF assms(1-4)] suspend_core_inv(2,3) [OF _ assms(2-4)]
  unfolding ipc_suspend_core_def by (intro kinv_enqueue) (auto simp: kinv_def)

lemma ipc_suspend_fields [simp]:
  "cur d (ipc_suspend_core h t flag k) = cur d k"
  "irq_nest (cpus (ipc_suspend_core h t flag k) d) = irq_nest (cpus k d)"
  "threads (ipc_suspend_core h t flag k) =
     (threads k)(t := (threads k t)\<lparr>stat := set_tstate RT_THREAD_SUSPEND (stat (threads k t))\<rparr>)"
  "sems (ipc_suspend_core h t flag k) = sems k" "mutexes (ipc_suspend_core h t flag k) = mutexes k"
  "events (ipc_suspend_core h t flag k) = events k" "mailboxes (ipc_suspend_core h t flag k) = mailboxes k"
  "mqueues (ipc_suspend_core h t flag k) = mqueues k" "mempools (ipc_suspend_core h t flag k) = mempools k" "timers (ipc_suspend_core h t flag k) = timers k"
  "rt_object_get_type r (ipc_suspend_core h t flag k) = rt_object_get_type r k"
  "timer_flag (OThreadTimer t) RT_TIMER_FLAG_SOFT_TIMER (ipc_suspend_core h t flag k) =
     timer_flag (OThreadTimer t) RT_TIMER_FLAG_SOFT_TIMER k"
  by (simp_all add: ipc_suspend_core_def)

text \<open>A suspended caller sits in the queue, in the place the discipline gives it.\<close>

lemma ipc_suspend_queue:
  assumes "kinv k" "cur c k = Some t" "c < RT_CPUS_NR" "is_ready (threads k t)"
  shows "lists (ipc_suspend_core h t flag k) g =
     (if g = h then queue_insert flag (\<lambda>x. current_priority (threads k x)) t (lists k h) else lists k g)"
proof -
  have "detached t (lists k)"
    using assms running_detached [of "{}" k t] sched_inv_oncpu(2) [of k c t]
    by (simp add: kinv_def sched_inv_def)
  then have "ll_remove t (lists k) = lists k" by (rule ll_remove_detached)
  moreover have "(\<lambda>x. current_priority (threads (suspend_core t k) x)) = (\<lambda>x. current_priority (threads k x))"
    by auto
  ultimately show ?thesis
    by (simp add: ipc_suspend_core_def lists_enqueue_waiter del: suspend_core_fields(3))
qed

section \<open>Resuming\<close>

lemma waiter_waits: "kinv k \<Longrightarrow> wait_head h \<Longrightarrow> t \<in> set (lists k h) \<Longrightarrow> waits (threads k t)"
  using queue_invD(4,5) [of "{}" k t] by (cases h) (auto simp: kinv_def sched_inv_def)

lemma ipc_list_resume_n [simp]:
  assumes "lk_ok th L" "cur c k = th" "n < 0xf0" "kinv k" "lists k h = t # ts" "wait_head h"
  shows "rt_ipc_list_resume c h (mk (lockn c th n L) k) =
     Some (RT_EOK, mk (lockn c th n L) (resume_core c t k))"
proof -
  have "waits (threads k t)"
    using assms(4-6) waiter_waits [of k h t] by simp
  with assms show ?thesis by (simp add: rt_ipc_list_resume_def first_thread_def kinv_def)
qed

lemma lists_resume_core:
  "\<not> ready_head h \<Longrightarrow> lists (resume_core c t k) h = removeAll t (lists k h)"
  using home_inj(1) [of "threads k t"]
  by (auto simp: resume_core_def lists_insert_body ll_insert_tail_def ll_remove_def)

lemma kinv_distinct: "kinv k \<Longrightarrow> distinct (lists k h)"
  by (simp add: kinv_def sched_inv_def queue_inv_def lists_wf_def)

lemma lists_resume_first:
  assumes "kinv k" "lists k h = t # ts" "wait_head h" "wait_head g"
  shows "lists (resume_core c t k) g = (if g = h then ts else lists k g)"
proof -
  have "t \<notin> set ts" using kinv_distinct [OF assms(1), of h] assms(2) by simp
  moreover have "t \<notin> set (lists k g)" if "g \<noteq> h"
    using assms(1,2) that lists_wfD(2) [of "lists k" t h g]
    by (auto simp: kinv_def sched_inv_def queue_inv_def)
  ultimately show ?thesis using assms by (auto simp: lists_resume_core removeAll_id)
qed

text \<open>Resuming all waiters of a queue, each with the error \<^verbatim>\<open>-RT_ERROR\<close>.\<close>

definition resume_err :: "cpu_id \<Rightarrow> tid \<Rightarrow> kcore \<Rightarrow> kcore" where
  "resume_err c t k = resume_core c t (upd_thread t (\<lambda>th. th\<lparr>th_error := - RT_ERROR\<rparr>) k)"

definition resume_all_core :: "cpu_id \<Rightarrow> lhead \<Rightarrow> kcore \<Rightarrow> kcore" where
  "resume_all_core c h k = fold (resume_err c) (lists k h) k"

lemma resume_err_fields [simp]:
  "cur d (resume_err c t k) = cur d k" "irq_nest (cpus (resume_err c t k) d) = irq_nest (cpus k d)"
  "sems (resume_err c t k) = sems k" "mutexes (resume_err c t k) = mutexes k"
  "events (resume_err c t k) = events k" "mailboxes (resume_err c t k) = mailboxes k"
  "mqueues (resume_err c t k) = mqueues k" "mempools (resume_err c t k) = mempools k"
  "rt_object_get_type r (resume_err c t k) = rt_object_get_type r k"
  "threads (resume_err c t k) =
     (threads k)(t := (threads k t)\<lparr>th_error := - RT_ERROR,
        stat := set_tstate RT_THREAD_READY (stat (threads k t))\<rparr>)"
  by (simp_all add: resume_err_def resume_core_def)

lemma resume_err_inv: "kinv k \<Longrightarrow> waits (threads k t) \<Longrightarrow> kinv (resume_err c t k)"
  unfolding resume_err_def by (rule kinv_resume) (simp_all add: sview_def waits_def)

lemma resume_err_lists:
  assumes "kinv k" "lists k h = t # ts" "wait_head h" "wait_head g"
  shows "lists (resume_err c t k) g = (if g = h then ts else lists k g)"
  using assms lists_resume_first [of "upd_thread t (\<lambda>th. th\<lparr>th_error := - RT_ERROR\<rparr>) k" h t ts g c]
  by (simp add: resume_err_def sview_def)

lemma resume_all_n:
  assumes "lk_ok th L" "cur c k = th" "n < 0xe0" "kinv k" "wait_head h"
  shows "rt_ipc_list_resume_all c h (mk (lockn c th n L) k) =
       Some (RT_EOK, mk (lockn c th n L) (resume_all_core c h k)) \<and>
     kinv (resume_all_core c h k) \<and> cur c (resume_all_core c h k) = th \<and>
     (\<forall>g. wait_head g \<longrightarrow> lists (resume_all_core c h k) g = (if g = h then [] else lists k g)) \<and>
     (\<forall>t \<in> set (lists k h). is_ready (threads (resume_all_core c h k) t) \<and>
                              th_error (threads (resume_all_core c h k) t) = - RT_ERROR) \<and>
     (\<forall>t. t \<notin> set (lists k h) \<longrightarrow> threads (resume_all_core c h k) t = threads k t)"
  using assms(2,4)
proof (induction "lists k h" arbitrary: k)
  case Nil
  then show ?case
    by (subst rt_ipc_list_resume_all.simps) (auto simp: resume_all_core_def)
next
  case (Cons t ts)
  note list = Cons.hyps(2) [symmetric]
  have w: "waits (threads k t)" using waiter_waits [OF Cons.prems(2) assms(5), of t] list by simp
  let ?k = "resume_err c t k"
  have k': "cur c ?k = th" "kinv ?k" "lists ?k h = ts"
    using Cons.prems resume_err_inv [OF Cons.prems(2) w] resume_err_lists [OF Cons.prems(2) list assms(5,5)]
    by simp_all
  note IH = Cons.hyps(1) [OF k'(3) [symmetric] k'(1,2)]
  have core: "resume_all_core c h k = resume_all_core c h ?k"
    using list k'(3) by (simp add: resume_all_core_def)
  have err: "kinv (upd_thread t (\<lambda>th. th\<lparr>th_error := - RT_ERROR\<rparr>) k)"
    "waits (threads (upd_thread t (\<lambda>th. th\<lparr>th_error := - RT_ERROR\<rparr>) k) t)"
    using Cons.prems(2) w by (simp_all add: sview_def waits_def)
  have "rt_ipc_list_resume_all c h (mk (lockn c th n L) k) =
      rt_ipc_list_resume_all c h (mk (lockn c th n L) ?k)"
    using assms(1,3) Cons.prems list err
    by (subst rt_ipc_list_resume_all.simps, cases n) (simp_all add: kinv_def resume_err_def)
  moreover have "t \<notin> set ts" using kinv_distinct [OF Cons.prems(2), of h] list by simp
  ultimately show ?case
    using IH list resume_err_lists [OF Cons.prems(2) list assms(5)] unfolding core
    by (auto simp: k'(3) is_ready_def)
qed

lemma resume_all_fields:
  "sems (resume_all_core c h k) = sems k" "mutexes (resume_all_core c h k) = mutexes k"
  "events (resume_all_core c h k) = events k" "mailboxes (resume_all_core c h k) = mailboxes k"
  "mqueues (resume_all_core c h k) = mqueues k" "irq_nest (cpus (resume_all_core c h k) d) = irq_nest (cpus k d)"
  "cur d (resume_all_core c h k) = cur d k" "mempools (resume_all_core c h k) = mempools k"
proof -
  have "sems (fold (resume_err c) xs k) = sems k \<and> mutexes (fold (resume_err c) xs k) = mutexes k \<and>
    events (fold (resume_err c) xs k) = events k \<and> mailboxes (fold (resume_err c) xs k) = mailboxes k \<and>
    mqueues (fold (resume_err c) xs k) = mqueues k \<and> mempools (fold (resume_err c) xs k) = mempools k \<and>
    irq_nest (cpus (fold (resume_err c) xs k) d) = irq_nest (cpus k d) \<and>
    cur d (fold (resume_err c) xs k) = cur d k" for xs
    by (induction xs arbitrary: k) simp_all
  then show "sems (resume_all_core c h k) = sems k" "mutexes (resume_all_core c h k) = mutexes k"
    "events (resume_all_core c h k) = events k" "mailboxes (resume_all_core c h k) = mailboxes k"
    "mqueues (resume_all_core c h k) = mqueues k" "irq_nest (cpus (resume_all_core c h k) d) = irq_nest (cpus k d)"
    "cur d (resume_all_core c h k) = cur d k" "mempools (resume_all_core c h k) = mempools k"
    by (simp_all add: resume_all_core_def)
qed

section \<open>Blocking calls\<close>

datatype ipc_cmd = IPC_CMD_RESET u32 | IPC_CMD_OTHER

text \<open>A call made by thread \<open>t\<close> on CPU \<open>c\<close>, outside interrupts, with the kernel consistent.\<close>

definition ipc_ctx :: "cpu_id \<Rightarrow> tid \<Rightarrow> klock \<Rightarrow> kcore \<Rightarrow> bool" where
  "ipc_ctx c t L k \<longleftrightarrow>
     lk_ok (Some t) L \<and> cur c k = Some t \<and> c < RT_CPUS_NR \<and> kinv k \<and>
     is_ready (threads k t) \<and> irq_nest (cpus k c) = 0 \<and>
     \<not> timer_flag (OThreadTimer t) RT_TIMER_FLAG_SOFT_TIMER k"

lemma ipc_ctxD:
  assumes "ipc_ctx c t L k"
  shows "lk_ok (Some t) L" "cur c k = Some t" "c < RT_CPUS_NR" "kinv k" "objs_ok k"
    "is_ready (threads k t)" "irq_nest (cpus k c) = 0"
    "\<not> timer_flag (OThreadTimer t) RT_TIMER_FLAG_SOFT_TIMER k"
    "rt_object_get_type (OThread t) k = RT_Object_Class_Thread"
    "rt_object_get_type (OThreadTimer t) k = RT_Object_Class_Timer"
  using assms objs_okD [of k t] state_excl(2) by (auto simp: ipc_ctx_def kinv_def)

text \<open>
  The blocking part every IPC call shares: reset the error, suspend in the queue, arm the timer when
  a positive time is given.
\<close>

definition wait_core :: "lhead \<Rightarrow> u8 \<Rightarrow> tid \<Rightarrow> int \<Rightarrow> kcore \<Rightarrow> kcore" where
  "wait_core h flag t time k =
     (let k1 = ipc_suspend_core h t flag (upd_thread t (\<lambda>th. th\<lparr>th_error := RT_EOK\<rparr>) k)
      in if time > 0 then block_core t (word_of_int time) k1 else k1)"

text \<open>A waiting time is negative (for ever) or short enough for the timer's assertion.\<close>

definition wait_time :: "int \<Rightarrow> bool" where
  "wait_time time \<longleftrightarrow> time \<noteq> 0 \<and> (time > 0 \<longrightarrow> time < 0x7fffffff)"

lemma wait_time_tick: "wait_time time \<Longrightarrow> time > 0 \<Longrightarrow> word_of_int time < (RT_TICK_MAX div 2 :: u32)"
  by (simp add: wait_time_def half_tick word_less_def uint_word_of_int take_bit_int_eq_self)

lemma wait_core_fields [simp]:
  "cur d (wait_core h flag t time k) = cur d k"
  "irq_nest (cpus (wait_core h flag t time k) d) = irq_nest (cpus k d)"
  "sems (wait_core h flag t time k) = sems k" "mutexes (wait_core h flag t time k) = mutexes k"
  "events (wait_core h flag t time k) = events k" "mailboxes (wait_core h flag t time k) = mailboxes k"
  "mqueues (wait_core h flag t time k) = mqueues k" "mempools (wait_core h flag t time k) = mempools k"
  "threads (wait_core h flag t time k) =
     (threads k)(t := (threads k t)\<lparr>th_error := RT_EOK,
        stat := set_tstate RT_THREAD_SUSPEND (stat (threads k t))\<rparr>)"
  by (simp_all add: wait_core_def Let_def)

lemma wait_core_inv:
  assumes "kinv k" "cur c k = Some t" "c < RT_CPUS_NR" "is_ready (threads k t)" "wait_head h" "ipc_flag flag"
  shows "kinv (wait_core h flag t time k)"
proof -
  have "kinv (ipc_suspend_core h t flag (upd_thread t (\<lambda>th. th\<lparr>th_error := RT_EOK\<rparr>) k))"
    using assms by (intro ipc_suspend_inv) (simp_all add: sview_def is_ready_def)
  then show ?thesis by (simp add: wait_core_def Let_def)
qed

lemma wait_core_queue:
  assumes "kinv k" "cur c k = Some t" "c < RT_CPUS_NR" "is_ready (threads k t)"
  shows "lists (wait_core h flag t time k) g =
     (if g = h then queue_insert flag (\<lambda>x. current_priority (threads k x)) t (lists k h) else lists k g)"
proof -
  let ?k = "upd_thread t (\<lambda>th. th\<lparr>th_error := RT_EOK\<rparr>) k"
  have pr: "(\<lambda>x. current_priority (threads ?k x)) = (\<lambda>x. current_priority (threads k x))" by auto
  have "lists (ipc_suspend_core h t flag ?k) g =
      (if g = h then queue_insert flag (\<lambda>x. current_priority (threads ?k x)) t (lists ?k h) else lists ?k g)"
    using assms by (intro ipc_suspend_queue [of ?k c]) (simp_all add: sview_def is_ready_def)
  then show ?thesis unfolding pr by (auto simp: wait_core_def Let_def)
qed

text \<open>\<^verbatim>\<open>rt_schedule\<close> does not touch the IPC objects, their wait queues, or the error of a thread.\<close>

lemma schedule_keeps_waiters:
  assumes "lk_ok (Some t) L" "cur c k = Some t" "sched_inv k" "c < RT_CPUS_NR"
    and "rt_schedule c (mk L k) = Some s'"
  shows "sems (kc s') = sems k" "mutexes (kc s') = mutexes k" "events (kc s') = events k"
    "mailboxes (kc s') = mailboxes k" "mqueues (kc s') = mqueues k"
    "wait_head h \<Longrightarrow> lists (kc s') h = lists k h"
    "th_error (threads (kc s') u) = th_error (threads k u)"
    "current_priority (threads (kc s') u) = current_priority (threads k u)"
    "waits (threads k u) \<Longrightarrow> waits (threads (kc s') u)" "mempools (kc s') = mempools k"
proof -
  have "sems (kc s') = sems k \<and> mutexes (kc s') = mutexes k \<and> events (kc s') = events k \<and>
    mailboxes (kc s') = mailboxes k \<and> mqueues (kc s') = mqueues k \<and> mempools (kc s') = mempools k \<and>
    (\<forall>h. wait_head h \<longrightarrow> lists (kc s') h = lists k h) \<and>
    (\<forall>u. th_error (threads (kc s') u) = th_error (threads k u) \<and>
         current_priority (threads (kc s') u) = current_priority (threads k u) \<and>
         (waits (threads k u) \<longrightarrow> waits (threads (kc s') u)))"
  proof (cases rule: rt_schedule_cases [OF assms])
    case (4 to hp)
    have gr: "ready_priority_group k \<noteq> 0 \<or> cpu_priority_group (cpus k c) \<noteq> 0"
      using 4(1) by (simp add: may_switch_def)
    note to = highest_is_other [OF assms(3,2,4) gr 4(2)]
    have inv: "queue_inv {} k" using assms(3) by (simp add: sched_inv_def)
    have "to \<notin> set (lists k h)" if "wait_head h" for h
      using queue_invD(4,5) [OF inv, of to] to(2) state_excl(1) that by (cases h) auto
    moreover have "home (threads k t) \<noteq> h" if "wait_head h" for h
      using that by (cases h) (simp_all add: home_inj)
    ultimately have l: "lists (kc s') h = lists k h" if "wait_head h" for h
    proof -
      have "home ((threads k t)\<lparr>oncpu := x\<rparr>) = home (threads k t)" for x by (simp add: home_def)
      then have "lists (requeue_core c t k) h = lists k h"
        using \<open>\<And>h. wait_head h \<Longrightarrow> home (threads k t) \<noteq> h\<close> [OF that]
        by (auto simp: requeue_core_def Let_def lists_insert_body ll_insert_tail_def)
      with \<open>\<And>h. wait_head h \<Longrightarrow> to \<notin> set (lists k h)\<close> [OF that] show ?thesis
        unfolding 4(6) by (simp add: switch_core_def ll_remove_other)
    qed
    have th: "th_error (threads (kc s') u) = th_error (threads k u) \<and>
         current_priority (threads (kc s') u) = current_priority (threads k u) \<and>
         (waits (threads k u) \<longrightarrow> waits (threads (kc s') u))" for u
      unfolding 4(6) by (auto simp: switch_core_def requeue_core_threads waits_def is_ready_def)
    have "sems (kc s') = sems k \<and> mutexes (kc s') = mutexes k \<and> events (kc s') = events k \<and>
        mailboxes (kc s') = mailboxes k \<and> mqueues (kc s') = mqueues k \<and> mempools (kc s') = mempools k"
      unfolding 4(6) by (simp add: switch_core_def requeue_core_def Let_def)
    with l th show ?thesis by blast
  qed simp_all
  then show "sems (kc s') = sems k" "mutexes (kc s') = mutexes k" "events (kc s') = events k"
    "mailboxes (kc s') = mailboxes k" "mqueues (kc s') = mqueues k"
    "wait_head h \<Longrightarrow> lists (kc s') h = lists k h"
    "th_error (threads (kc s') u) = th_error (threads k u)"
    "current_priority (threads (kc s') u) = current_priority (threads k u)"
    "waits (threads k u) \<Longrightarrow> waits (threads (kc s') u)" "mempools (kc s') = mempools k" by blast+
qed

lemma rt_schedule_ready:
  assumes "lk_ok (Some t) L" "cur c k = Some t" "sched_inv k" "c < RT_CPUS_NR"
    and "rt_schedule c (mk L k) = Some s'" "is_ready (threads k u)"
  shows "is_ready (threads (kc s') u)"
proof (cases rule: rt_schedule_cases [OF assms(1-5)])
  case (4 to hp)
  then show ?thesis
    using assms(6) unfolding 4(6) by (auto simp: switch_core_def requeue_core_threads is_ready_def)
qed (use assms(6) in simp_all)

lemma rt_schedule_started:
  assumes "lk_ok (Some t) L" "cur c k = Some t" "sched_inv k" "c < RT_CPUS_NR"
    and "rt_schedule c (mk L k) = Some s'" "started (threads k u)"
  shows "started (threads (kc s') u)"
proof (cases rule: rt_schedule_cases [OF assms(1-5)])
  case (4 to hp)
  then show ?thesis
    using assms(6) unfolding 4(6) by (auto simp: switch_core_def requeue_core_threads started_def)
qed (use assms(6) in simp_all)

section \<open>Blocking and waking return\<close>

lemma schedule_after:
  assumes ctx: "ipc_ctx c t L k" and st: "stacks_ok k" and k': "kinv k'" "cur c k' = Some t"
    and th: "\<And>u. stack_view (threads k' u) = stack_view (threads k u)"
      "\<And>u. started (threads k' u) \<Longrightarrow> started (threads k u)"
  shows "\<exists>s'. rt_schedule c (mk L k') = Some s'"
  using ipc_ctxD(1,3) [OF ctx] k' stacks_ok_mono [OF st th(2,1)]
  by (intro rt_schedule_returns) (simp_all add: kinv_def)

lemma wait_returns:
  assumes ctx: "ipc_ctx c t L k" and st: "stacks_ok k" and h: "wait_head h" and fl: "ipc_flag flag"
  shows "\<exists>s'. rt_schedule c (mk L (wait_core h flag t time k)) = Some s'"
proof -
  note d = ipc_ctxD [OF ctx]
  have "started (threads k t)" using d(6) state_excl(2) by simp
  then show ?thesis
    using wait_core_inv [OF d(4,2,3,6) h fl] d(2)
    by (intro schedule_after [OF ctx st]) (auto simp: stack_view_def started_def split: if_splits)
qed

lemma resume_returns:
  assumes ctx: "ipc_ctx c t L k" and st: "stacks_ok k" and k': "kinv k'" "cur c k' = Some t"
    and th: "\<And>v. stack_view (threads k' v) = stack_view (threads k v)"
      "\<And>v. started (threads k' v) \<Longrightarrow> started (threads k v)"
    and w: "waits (threads k' u)"
  shows "\<exists>s'. rt_schedule c (mk L (resume_core c u k')) = Some s'"
proof (rule schedule_after [OF ctx st])
  show "kinv (resume_core c u k')" using k'(1) w by (rule kinv_resume)
  show "cur c (resume_core c u k') = Some t" using k'(2) by simp
  show "stack_view (threads (resume_core c u k') v) = stack_view (threads k v)" for v
    using th(1) [of v] by (auto simp: stack_view_def)
  show "started (threads k v)" if "started (threads (resume_core c u k') v)" for v
    using th(2) [of v] that state_excl(3) [OF w] by (cases "v = u") auto
qed

lemma resume_all_stack:
  "stack_view (threads (resume_all_core c h k) v) = stack_view (threads k v)"
proof -
  have "stack_view (threads (fold (resume_err c) xs k) v) = stack_view (threads k v)" for xs
    by (induction xs arbitrary: k) (auto simp: stack_view_def)
  then show ?thesis by (simp add: resume_all_core_def)
qed

lemma resume_all_returns:
  assumes ctx: "ipc_ctx c t L k" and st: "stacks_ok k" and h: "wait_head h"
    and k': "kinv k'" "cur c k' = Some t" "threads k' = threads (resume_all_core c h k)"
  shows "\<exists>s'. rt_schedule c (mk L k') = Some s'"
proof (rule schedule_after [OF ctx st k'(1,2)])
  note d = ipc_ctxD [OF ctx]
  note all = resume_all_n [OF d(1,2) _ d(4) h, of 0, simplified]
  show "stack_view (threads k' v) = stack_view (threads k v)" for v
    unfolding k'(3) by (rule resume_all_stack)
  show "started (threads k v)" if "started (threads k' v)" for v
    using that all waiter_waits [OF d(4) h, of v] state_excl(3) unfolding k'(3) by metis
qed

section \<open>Order of waiting\<close>

text \<open>
  In a queue with the flag \<^verbatim>\<open>RT_IPC_FLAG_PRIO\<close> the most urgent thread is first and equally urgent
  threads are in order of arrival; with \<^verbatim>\<open>RT_IPC_FLAG_FIFO\<close> all are in order of arrival.
\<close>

lemma wait_queue_order:
  assumes "sorted (map pr xs)"
  shows "queue_insert RT_IPC_FLAG_PRIO pr t xs =
       filter (\<lambda>x. pr x \<le> pr t) xs @ t # filter (\<lambda>x. \<not> pr x \<le> pr t) xs \<and>
     sorted (map pr (queue_insert RT_IPC_FLAG_PRIO pr t xs)) \<and>
     queue_insert RT_IPC_FLAG_FIFO pr t xs = xs @ [t]"
  using prio_insert_stable [OF assms] prio_insert_sorted [OF assms]
  by (simp add: queue_insert_def RT_IPC_FLAG_PRIO_def RT_IPC_FLAG_FIFO_def fifo_insert_def)

lemma wait_queue_order_witness:
  "queue_insert RT_IPC_FLAG_PRIO (\<lambda>t. of_nat t) 5 [2, 5, 9] = [2, 5, 5, 9]"
  using wait_queue_order [of "\<lambda>t. of_nat t" "[2, 5, 9]" 5] by simp

end
