(* ===== verification/Rt_Sem.thy ===== *)
theory Rt_Sem
  imports Rt_Ipc
begin

text \<open>
  Semaphores, \<^verbatim>\<open>src/ipc.c\<close> lines 198 to 512. The value is a 16-bit counter. The properties: the
  result of every branch, the invariant that a positive value excludes waiters, the order in
  which waiters are served, and that every operation keeps the kernel invariant.
\<close>

section \<open>Operations\<close>

abbreviation sem_queue :: "objid \<Rightarrow> lhead" where
  "sem_queue i \<equiv> SuspendQ (OSem i)"

definition set_sem :: "objid \<Rightarrow> u16 \<Rightarrow> kcore \<Rightarrow> kcore" where
  "set_sem i v k = k\<lparr>sems := (sems k)(i := (sems k i)\<lparr>sem_value := v\<rparr>)\<rparr>"

definition sem_init_fields :: "objid \<Rightarrow> u32 \<Rightarrow> u8 \<Rightarrow> kcore \<Rightarrow> kcore" where
  "sem_init_fields i v flag k =
     upd_obj (OSem i) (\<lambda>ob. ob\<lparr>obj_flag := flag\<rparr>) (set_sem i (ucast v) (rt_ipc_object_init (OSem i) k))"

definition rt_sem_init :: "cpu_id \<Rightarrow> objid \<Rightarrow> u8 list \<Rightarrow> u32 \<Rightarrow> u8 \<Rightarrow> kstate \<Rightarrow> (rt_err_t \<times> kstate) option" where
  "rt_sem_init c i name v flag s =
     do { s \<leftarrow> rt_object_init c (OSem i) RT_Object_Class_Semaphore name s;
          Some (RT_EOK, s\<lparr>kc := sem_init_fields i v flag (kc s)\<rparr>) }"

definition rt_sem_detach :: "cpu_id \<Rightarrow> objid \<Rightarrow> kstate \<Rightarrow> (rt_err_t \<times> kstate) option" where
  "rt_sem_detach c i s =
     do { RT_ASSERT (rt_object_get_type (OSem i) (kc s) = RT_Object_Class_Semaphore);
          RT_ASSERT (rt_object_is_systemobject (OSem i) (kc s));
          (_, s) \<leftarrow> rt_ipc_list_resume_all c (sem_queue i) s;
          s \<leftarrow> rt_object_detach c (OSem i) s;
          Some (RT_EOK, s) }"

definition rt_sem_create ::
    "cpu_id \<Rightarrow> u8 list \<Rightarrow> u32 \<Rightarrow> u8 \<Rightarrow> objid option \<Rightarrow> kstate \<Rightarrow> (objid option \<times> kstate) option" where
  "rt_sem_create c name v flag mem s =
     do { s \<leftarrow> RT_DEBUG_NOT_IN_INTERRUPT c s;
          (sem, s) \<leftarrow> rt_object_allocate c RT_Object_Class_Semaphore name (map_option OSem mem) s;
          case sem of
            Some (OSem i) \<Rightarrow> Some (Some i, s\<lparr>kc := sem_init_fields i v flag (kc s)\<rparr>)
          | _ \<Rightarrow> Some (None, s) }"

definition rt_sem_delete :: "cpu_id \<Rightarrow> objid \<Rightarrow> kstate \<Rightarrow> (rt_err_t \<times> kstate) option" where
  "rt_sem_delete c i s =
     do { s \<leftarrow> RT_DEBUG_NOT_IN_INTERRUPT c s;
          RT_ASSERT (rt_object_get_type (OSem i) (kc s) = RT_Object_Class_Semaphore);
          RT_ASSERT (\<not> rt_object_is_systemobject (OSem i) (kc s));
          (_, s) \<leftarrow> rt_ipc_list_resume_all c (sem_queue i) s;
          s \<leftarrow> rt_object_delete c (OSem i) s;
          Some (RT_EOK, s) }"

definition rt_sem_take :: "cpu_id \<Rightarrow> objid \<Rightarrow> int \<Rightarrow> kstate \<Rightarrow> (rt_err_t option \<times> kstate) option" where
  "rt_sem_take c i time s =
     do { RT_ASSERT (rt_object_get_type (OSem i) (kc s) = RT_Object_Class_Semaphore);
          (temp, s) \<leftarrow> rt_hw_interrupt_disable c s;
          let v = sem_value (sems (kc s) i);
          if v > 0 then
            Some (Some RT_EOK, rt_hw_interrupt_enable c temp (s\<lparr>kc := set_sem i (v - 1) (kc s)\<rparr>))
          else if time = 0 then
            Some (Some (- RT_ETIMEOUT), rt_hw_interrupt_enable c temp s)
          else
            do { s \<leftarrow> RT_DEBUG_IN_THREAD_CONTEXT c s;
                 let (self, s) = rt_thread_self c s;
                 t \<leftarrow> self;
                 let s = s\<lparr>kc := upd_thread t (\<lambda>th. th\<lparr>th_error := RT_EOK\<rparr>) (kc s)\<rparr>;
                 (_, s) \<leftarrow> rt_ipc_list_suspend c (sem_queue i) t (obj_flag (objs (kc s) (OSem i))) s;
                 s \<leftarrow> (if time > 0 then
                          do { (_, _, s) \<leftarrow> rt_timer_control (OThreadTimer t) (TIMER_SET_TIME (word_of_int time)) s;
                               (_, s) \<leftarrow> rt_timer_start c (OThreadTimer t) s;
                               Some s }
                        else Some s);
                 let s = rt_hw_interrupt_enable c temp s;
                 s \<leftarrow> rt_schedule c s;
                 Some (None, s) } }"

text \<open>What the taker finds when it runs again.\<close>

definition rt_sem_take_cont :: "tid \<Rightarrow> kstate \<Rightarrow> rt_err_t" where
  "rt_sem_take_cont t s =
     (if th_error (threads (kc s) t) \<noteq> RT_EOK then th_error (threads (kc s) t) else RT_EOK)"

definition rt_sem_trytake :: "cpu_id \<Rightarrow> objid \<Rightarrow> kstate \<Rightarrow> (rt_err_t option \<times> kstate) option" where
  "rt_sem_trytake c i s = rt_sem_take c i 0 s"

definition rt_sem_release :: "cpu_id \<Rightarrow> objid \<Rightarrow> kstate \<Rightarrow> (rt_err_t \<times> kstate) option" where
  "rt_sem_release c i s =
     do { RT_ASSERT (rt_object_get_type (OSem i) (kc s) = RT_Object_Class_Semaphore);
          (temp, s) \<leftarrow> rt_hw_interrupt_disable c s;
          (need_schedule, s) \<leftarrow>
            (if lists (kc s) (sem_queue i) \<noteq> [] then
               do { (_, s) \<leftarrow> rt_ipc_list_resume c (sem_queue i) s; Some (True, s) }
             else Some (False, s\<lparr>kc := set_sem i (sem_value (sems (kc s) i) + 1) (kc s)\<rparr>));
          let s = rt_hw_interrupt_enable c temp s;
          s \<leftarrow> (if need_schedule then rt_schedule c s else Some s);
          Some (RT_EOK, s) }"

definition rt_sem_control :: "cpu_id \<Rightarrow> objid \<Rightarrow> ipc_cmd \<Rightarrow> kstate \<Rightarrow> (rt_err_t \<times> kstate) option" where
  "rt_sem_control c i cmd s =
     do { RT_ASSERT (rt_object_get_type (OSem i) (kc s) = RT_Object_Class_Semaphore);
          case cmd of
            IPC_CMD_RESET v \<Rightarrow>
              do { (level, s) \<leftarrow> rt_hw_interrupt_disable c s;
                   (_, s) \<leftarrow> rt_ipc_list_resume_all c (sem_queue i) s;
                   let s = s\<lparr>kc := set_sem i (ucast v) (kc s)\<rparr>;
                   let s = rt_hw_interrupt_enable c level s;
                   s \<leftarrow> rt_schedule c s;
                   Some (RT_EOK, s) }
          | IPC_CMD_OTHER \<Rightarrow> Some (- RT_ERROR, s) }"

section \<open>Every branch\<close>

lemma sem_fields [simp]:
  "threads (set_sem i v k) = threads k" "lists (set_sem i v k) = lists k" "cpus (set_sem i v k) = cpus k"
  "kinv (set_sem i v k) = kinv k" "sem_value (sems (set_sem i v k) j) = (if j = i then v else sem_value (sems k j))"
  by (simp_all add: set_sem_def)

lemma sem_take_available:
  assumes "lk_ok th L" "cur c k = th" "rt_object_get_type (OSem i) k = RT_Object_Class_Semaphore"
    and "sem_value (sems k i) > 0"
  shows "rt_sem_take c i time (mk L k) = Some (Some RT_EOK, mk L (set_sem i (sem_value (sems k i) - 1) k))"
  using assms by (simp add: rt_sem_take_def)

lemma sem_take_timeout0:
  assumes "lk_ok th L" "cur c k = th" "rt_object_get_type (OSem i) k = RT_Object_Class_Semaphore"
    and "sem_value (sems k i) = 0"
  shows "rt_sem_take c i 0 (mk L k) = Some (Some (- RT_ETIMEOUT), mk L k)"
  using assms by (simp add: rt_sem_take_def)

lemma sem_take_blocks:
  assumes ctx: "ipc_ctx c t L k" and ty: "rt_object_get_type (OSem i) k = RT_Object_Class_Semaphore"
    and v: "sem_value (sems k i) = 0" and time: "wait_time time"
  shows "rt_sem_take c i time (mk L k) =
     do { s \<leftarrow> rt_schedule c (mk L (wait_core (sem_queue i) (obj_flag (objs k (OSem i))) t time k));
          Some (None, s) }"
proof -
  note d = ipc_ctxD [OF ctx]
  have ob: "objs_ok (upd_thread t (\<lambda>th. th\<lparr>th_error := RT_EOK\<rparr>) k)"
    using d(5) by (rule objs_ok_upd_thread) (simp add: started_def)
  show ?thesis
    using d v ty time wait_time_tick [OF time] ob
    by (simp add: rt_sem_take_def wait_core_def Let_def wait_time_def block_core_def is_ready_def)
qed

lemma sem_release_none:
  assumes "lk_ok th L" "cur c k = th" "rt_object_get_type (OSem i) k = RT_Object_Class_Semaphore"
    and "lists k (sem_queue i) = []"
  shows "rt_sem_release c i (mk L k) = Some (RT_EOK, mk L (set_sem i (sem_value (sems k i) + 1) k))"
  using assms by (simp add: rt_sem_release_def)

lemma sem_release_wakes:
  assumes "lk_ok th L" "cur c k = th" "rt_object_get_type (OSem i) k = RT_Object_Class_Semaphore"
    and "kinv k" "lists k (sem_queue i) = t # ts"
  shows "rt_sem_release c i (mk L k) =
     do { s \<leftarrow> rt_schedule c (mk L (resume_core c t k)); Some (RT_EOK, s) }"
  using assms by (simp add: rt_sem_release_def)

lemma sem_reset:
  assumes "lk_ok th L" "cur c k = th" "rt_object_get_type (OSem i) k = RT_Object_Class_Semaphore" "kinv k"
  shows "rt_sem_control c i (IPC_CMD_RESET v) (mk L k) =
     do { s \<leftarrow> rt_schedule c (mk L (set_sem i (ucast v) (resume_all_core c (sem_queue i) k))); Some (RT_EOK, s) }"
  using assms resume_all_n [of th L k c "Suc 0" "sem_queue i"] by (simp add: rt_sem_control_def)

section \<open>Semaphore invariant\<close>

text \<open>Nobody waits while the value is positive.\<close>

definition sem_inv :: "objid \<Rightarrow> kcore \<Rightarrow> bool" where
  "sem_inv i k \<longleftrightarrow> (sem_value (sems k i) > 0 \<longrightarrow> lists k (sem_queue i) = [])"

text \<open>Every call that returns keeps both invariants.\<close>

lemma sem_take_inv:
  assumes ctx: "ipc_ctx c t L k" and ty: "rt_object_get_type (OSem i) k = RT_Object_Class_Semaphore"
    and fl: "ipc_flag (obj_flag (objs k (OSem i)))" and time: "time = 0 \<or> wait_time time"
    and inv: "sem_inv i k" and step: "rt_sem_take c i time (mk L k) = Some (r, s')"
  shows "kinv (kc s')" "sem_inv i (kc s')"
proof -
  note d = ipc_ctxD [OF ctx]
  have "kinv (kc s') \<and> sem_inv i (kc s')"
  proof (cases "sem_value (sems k i) > 0")
    case True
    then show ?thesis
      using step sem_take_available [OF d(1,2) ty True, of time] d(4) inv by (auto simp: sem_inv_def)
  next
    case False
    then have v: "sem_value (sems k i) = 0" by (simp add: word_neq_0_conv [symmetric])
    show ?thesis
    proof (cases "time = 0")
      case True
      then show ?thesis using step sem_take_timeout0 [OF d(1,2) ty v] d(4) inv by auto
    next
      case False
      let ?k = "wait_core (sem_queue i) (obj_flag (objs k (OSem i))) t time k"
      have sch: "rt_schedule c (mk L ?k) = Some s'"
        using step sem_take_blocks [OF ctx ty v] time False by (auto simp: bind_Some_iff)
      have kv: "kinv ?k" using wait_core_inv [OF d(4,2,3,6) _ fl] by simp
      have "kinv (kc s')" using rt_schedule_kinv [OF d(1) _ kv d(3) sch] d(2) by simp
      moreover have "sems (kc s') = sems k"
        using schedule_keeps_waiters(1) [OF d(1) _ _ d(3) sch] kv d(2) by (simp add: kinv_def)
      ultimately show ?thesis using v by (simp add: sem_inv_def)
    qed
  qed
  then show "kinv (kc s')" "sem_inv i (kc s')" by simp_all
qed

lemma sem_release_inv:
  assumes ctx: "ipc_ctx c t L k" and ty: "rt_object_get_type (OSem i) k = RT_Object_Class_Semaphore"
    and inv: "sem_inv i k" and step: "rt_sem_release c i (mk L k) = Some (r, s')"
  shows "kinv (kc s')" "sem_inv i (kc s')"
proof -
  note d = ipc_ctxD [OF ctx]
  have "kinv (kc s') \<and> sem_inv i (kc s')"
  proof (cases "lists k (sem_queue i)")
    case Nil
    then show ?thesis using step sem_release_none [OF d(1,2) ty Nil] d(4) by (auto simp: sem_inv_def)
  next
    case (Cons u us)
    have sch: "rt_schedule c (mk L (resume_core c u k)) = Some s'"
      using step sem_release_wakes [OF d(1,2) ty d(4) Cons] by (auto simp: bind_Some_iff)
    have kv: "kinv (resume_core c u k)"
      using kinv_resume [OF d(4)] waiter_waits [OF d(4), of "sem_queue i" u] Cons by simp
    have "sem_value (sems k i) = 0" using inv Cons by (auto simp: sem_inv_def word_neq_0_conv [symmetric])
    moreover have "sems (kc s') = sems k"
      using schedule_keeps_waiters(1) [OF d(1) _ _ d(3) sch] kv d(2) by (simp add: kinv_def)
    ultimately show ?thesis
      using rt_schedule_kinv [OF d(1) _ kv d(3) sch] d(2) by (simp add: sem_inv_def)
  qed
  then show "kinv (kc s')" "sem_inv i (kc s')" by simp_all
qed

lemma sem_reset_inv:
  assumes ctx: "ipc_ctx c t L k" and ty: "rt_object_get_type (OSem i) k = RT_Object_Class_Semaphore"
    and step: "rt_sem_control c i (IPC_CMD_RESET v) (mk L k) = Some (r, s')"
  shows "kinv (kc s')" "sem_inv i (kc s')"
    "u \<in> set (lists k (sem_queue i)) \<Longrightarrow> th_error (threads (kc s') u) = - RT_ERROR"
proof -
  note d = ipc_ctxD [OF ctx]
  let ?k = "resume_all_core c (sem_queue i) k"
  note all = resume_all_n [OF d(1,2) _ d(4), of 0 "sem_queue i", simplified]
  have sch: "rt_schedule c (mk L (set_sem i (ucast v) ?k)) = Some s'"
    using step sem_reset [OF d(1,2) ty d(4)] by (auto simp: bind_Some_iff)
  have kv: "kinv (set_sem i (ucast v) ?k)" "cur c (set_sem i (ucast v) ?k) = Some t" using all d(2) by simp_all
  then have sv: "sched_inv (set_sem i (ucast v) ?k)" by (simp add: kinv_def)
  note keep = schedule_keeps_waiters [OF d(1) kv(2) sv d(3) sch]
  show "kinv (kc s')" using rt_schedule_kinv [OF d(1) kv(2,1) d(3) sch] .
  show "sem_inv i (kc s')" using keep(6) [of "sem_queue i"] all by (simp add: sem_inv_def)
  show "th_error (threads (kc s') u) = - RT_ERROR" if "u \<in> set (lists k (sem_queue i))"
    using keep(7) [of u] all that by simp
qed

section \<open>The calls return\<close>

lemma sem_take_returns:
  assumes ctx: "ipc_ctx c t L k" and ty: "rt_object_get_type (OSem i) k = RT_Object_Class_Semaphore"
    and fl: "ipc_flag (obj_flag (objs k (OSem i)))" and time: "time = 0 \<or> wait_time time" and st: "stacks_ok k"
  shows "\<exists>r s'. rt_sem_take c i time (mk L k) = Some (r, s')"
proof (cases "sem_value (sems k i) > 0")
  case True
  then show ?thesis using sem_take_available [OF ipc_ctxD(1,2) [OF ctx] ty] by blast
next
  case False
  then have v: "sem_value (sems k i) = 0" by (simp add: word_neq_0_conv [symmetric])
  show ?thesis
    using sem_take_timeout0 [OF ipc_ctxD(1,2) [OF ctx] ty v] sem_take_blocks [OF ctx ty v, of time] time
      wait_returns [OF ctx st _ fl, of "sem_queue i" time]
    by (cases "time = 0") auto
qed

lemma sem_release_returns:
  assumes ctx: "ipc_ctx c t L k" and ty: "rt_object_get_type (OSem i) k = RT_Object_Class_Semaphore" and st: "stacks_ok k"
  shows "\<exists>s'. rt_sem_release c i (mk L k) = Some (RT_EOK, s')"
proof (cases "lists k (sem_queue i)")
  case Nil
  then show ?thesis using sem_release_none [OF ipc_ctxD(1,2) [OF ctx] ty] by blast
next
  case (Cons u us)
  note d = ipc_ctxD [OF ctx]
  have "waits (threads k u)" using waiter_waits [OF d(4), of "sem_queue i" u] Cons by simp
  then show ?thesis
    using sem_release_wakes [OF d(1,2) ty d(4) Cons] resume_returns [OF ctx st d(4,2), of u] by auto
qed

lemma sem_reset_returns:
  assumes ctx: "ipc_ctx c t L k" and ty: "rt_object_get_type (OSem i) k = RT_Object_Class_Semaphore" and st: "stacks_ok k"
  shows "\<exists>s'. rt_sem_control c i (IPC_CMD_RESET v) (mk L k) = Some (RT_EOK, s')"
proof -
  note d = ipc_ctxD [OF ctx]
  note all = resume_all_n [OF d(1,2) _ d(4), of 0 "sem_queue i", simplified]
  show ?thesis
    using sem_reset [OF d(1,2) ty d(4), of v] all d(2)
      resume_all_returns [OF ctx st, of "sem_queue i" "set_sem i (ucast v) (resume_all_core c (sem_queue i) k)"]
    by auto
qed

end
