(* ===== verification/Rt_Mutex.thy ===== *)
theory Rt_Mutex
  imports Rt_Ipc
begin

text \<open>
  Mutexes with priority inheritance, \<^verbatim>\<open>src/ipc.c\<close> lines 527 to 897. \<^verbatim>\<open>rt_mutex_take\<close> keeps its
  local \<^verbatim>\<open>temp\<close> across the blocking, so a blocked call returns it (\<open>Inr temp\<close>) for the
  continuation; \<open>mutex_again\<close> is the code at the label \<^verbatim>\<open>__again\<close>.
\<close>

section \<open>Operations\<close>

abbreviation mutex_queue :: "objid \<Rightarrow> lhead" where
  "mutex_queue i \<equiv> SuspendQ (OMutex i)"

definition upd_mutex :: "objid \<Rightarrow> (rt_mutex \<Rightarrow> rt_mutex) \<Rightarrow> kcore \<Rightarrow> kcore" where
  "upd_mutex i f k = k\<lparr>mutexes := (mutexes k)(i := f (mutexes k i))\<rparr>"

definition mutex_init_fields :: "objid \<Rightarrow> u8 \<Rightarrow> kcore \<Rightarrow> kcore" where
  "mutex_init_fields i flag k =
     upd_obj (OMutex i) (\<lambda>ob. ob\<lparr>obj_flag := flag\<rparr>)
       (upd_mutex i (\<lambda>m. m\<lparr>mtx_value := 1, owner := None, original_priority := 0xff, hold := 0\<rparr>)
         (rt_ipc_object_init (OMutex i) k))"

definition rt_mutex_init :: "cpu_id \<Rightarrow> objid \<Rightarrow> u8 list \<Rightarrow> u8 \<Rightarrow> kstate \<Rightarrow> (rt_err_t \<times> kstate) option" where
  "rt_mutex_init c i name flag s =
     do { s \<leftarrow> rt_object_init c (OMutex i) RT_Object_Class_Mutex name s;
          Some (RT_EOK, s\<lparr>kc := mutex_init_fields i flag (kc s)\<rparr>) }"

definition rt_mutex_detach :: "cpu_id \<Rightarrow> objid \<Rightarrow> kstate \<Rightarrow> (rt_err_t \<times> kstate) option" where
  "rt_mutex_detach c i s =
     do { RT_ASSERT (rt_object_get_type (OMutex i) (kc s) = RT_Object_Class_Mutex);
          RT_ASSERT (rt_object_is_systemobject (OMutex i) (kc s));
          (_, s) \<leftarrow> rt_ipc_list_resume_all c (mutex_queue i) s;
          s \<leftarrow> rt_object_detach c (OMutex i) s;
          Some (RT_EOK, s) }"

definition rt_mutex_create ::
    "cpu_id \<Rightarrow> u8 list \<Rightarrow> u8 \<Rightarrow> objid option \<Rightarrow> kstate \<Rightarrow> (objid option \<times> kstate) option" where
  "rt_mutex_create c name flag mem s =
     do { s \<leftarrow> RT_DEBUG_NOT_IN_INTERRUPT c s;
          (mutex, s) \<leftarrow> rt_object_allocate c RT_Object_Class_Mutex name (map_option OMutex mem) s;
          case mutex of
            Some (OMutex i) \<Rightarrow> Some (Some i, s\<lparr>kc := mutex_init_fields i flag (kc s)\<rparr>)
          | _ \<Rightarrow> Some (None, s) }"

definition rt_mutex_delete :: "cpu_id \<Rightarrow> objid \<Rightarrow> kstate \<Rightarrow> (rt_err_t \<times> kstate) option" where
  "rt_mutex_delete c i s =
     do { s \<leftarrow> RT_DEBUG_NOT_IN_INTERRUPT c s;
          RT_ASSERT (rt_object_get_type (OMutex i) (kc s) = RT_Object_Class_Mutex);
          RT_ASSERT (\<not> rt_object_is_systemobject (OMutex i) (kc s));
          (_, s) \<leftarrow> rt_ipc_list_resume_all c (mutex_queue i) s;
          s \<leftarrow> rt_object_delete c (OMutex i) s;
          Some (RT_EOK, s) }"

definition mutex_again :: "cpu_id \<Rightarrow> objid \<Rightarrow> int \<Rightarrow> tid \<Rightarrow> bool \<Rightarrow> kstate \<Rightarrow> ((rt_err_t + bool) \<times> kstate) option" where
  "mutex_again c i time t temp s =
     (if mtx_value (mutexes (kc s) i) > 0 then
        let s = s\<lparr>kc := upd_mutex i (\<lambda>m. m\<lparr>mtx_value := mtx_value m - 1, owner := Some t,
                    original_priority := current_priority (threads (kc s) t), hold := hold m + 1\<rparr>) (kc s)\<rparr>
        in Some (Inl RT_EOK, rt_hw_interrupt_enable c temp s)
      else if time = 0 then
        let s = s\<lparr>kc := upd_thread t (\<lambda>th. th\<lparr>th_error := - RT_ETIMEOUT\<rparr>) (kc s)\<rparr>
        in Some (Inl (- RT_ETIMEOUT), rt_hw_interrupt_enable c temp s)
      else
        do { ow \<leftarrow> owner (mutexes (kc s) i);
             s \<leftarrow> (if current_priority (threads (kc s) t) < current_priority (threads (kc s) ow) then
                      do { (_, s) \<leftarrow> rt_thread_control c ow
                             (CTRL_CHANGE_PRIORITY (current_priority (threads (kc s) t))) s;
                           Some s }
                    else Some s);
             (_, s) \<leftarrow> rt_ipc_list_suspend c (mutex_queue i) t (obj_flag (objs (kc s) (OMutex i))) s;
             s \<leftarrow> (if time > 0 then
                      do { (_, _, s) \<leftarrow> rt_timer_control (OThreadTimer t) (TIMER_SET_TIME (word_of_int time)) s;
                           (_, s) \<leftarrow> rt_timer_start c (OThreadTimer t) s;
                           Some s }
                    else Some s);
             let s = rt_hw_interrupt_enable c temp s;
             s \<leftarrow> rt_schedule c s;
             Some (Inr temp, s) })"

definition rt_mutex_take :: "cpu_id \<Rightarrow> objid \<Rightarrow> int \<Rightarrow> kstate \<Rightarrow> ((rt_err_t + bool) \<times> kstate) option" where
  "rt_mutex_take c i time s =
     do { s \<leftarrow> RT_DEBUG_IN_THREAD_CONTEXT c s;
          RT_ASSERT (rt_object_get_type (OMutex i) (kc s) = RT_Object_Class_Mutex);
          let (self, s) = rt_thread_self c s;
          (temp, s) \<leftarrow> rt_hw_interrupt_disable c s;
          t \<leftarrow> self;
          let s = s\<lparr>kc := upd_thread t (\<lambda>th. th\<lparr>th_error := RT_EOK\<rparr>) (kc s)\<rparr>;
          if owner (mutexes (kc s) i) = Some t then
            let s = s\<lparr>kc := upd_mutex i (\<lambda>m. m\<lparr>hold := hold m + 1\<rparr>) (kc s)\<rparr>
            in Some (Inl RT_EOK, rt_hw_interrupt_enable c temp s)
          else mutex_again c i time t temp s }"

definition rt_mutex_take_cont ::
    "cpu_id \<Rightarrow> objid \<Rightarrow> int \<Rightarrow> tid \<Rightarrow> bool \<Rightarrow> kstate \<Rightarrow> ((rt_err_t + bool) \<times> kstate) option" where
  "rt_mutex_take_cont c i time t temp s =
     (let e = th_error (threads (kc s) t) in
      if e \<noteq> RT_EOK then
        if e = - RT_EINTR then mutex_again c i time t temp s else Some (Inl e, s)
      else
        do { (temp, s) \<leftarrow> rt_hw_interrupt_disable c s;
             Some (Inl RT_EOK, rt_hw_interrupt_enable c temp s) })"

definition rt_mutex_release :: "cpu_id \<Rightarrow> objid \<Rightarrow> kstate \<Rightarrow> (rt_err_t \<times> kstate) option" where
  "rt_mutex_release c i s =
     do { RT_ASSERT (rt_object_get_type (OMutex i) (kc s) = RT_Object_Class_Mutex);
          s \<leftarrow> RT_DEBUG_IN_THREAD_CONTEXT c s;
          let (self, s) = rt_thread_self c s;
          (temp, s) \<leftarrow> rt_hw_interrupt_disable c s;
          t \<leftarrow> self;
          if owner (mutexes (kc s) i) \<noteq> Some t then
            let s = s\<lparr>kc := upd_thread t (\<lambda>th. th\<lparr>th_error := - RT_ERROR\<rparr>) (kc s)\<rparr>
            in Some (- RT_ERROR, rt_hw_interrupt_enable c temp s)
          else
            do { let s = s\<lparr>kc := upd_mutex i (\<lambda>m. m\<lparr>hold := hold m - 1\<rparr>) (kc s)\<rparr>;
                 (need_schedule, s) \<leftarrow>
                   (if hold (mutexes (kc s) i) = 0 then
                      do { s \<leftarrow> (if original_priority (mutexes (kc s) i) \<noteq> current_priority (threads (kc s) t) then
                                   do { (_, s) \<leftarrow> rt_thread_control c t
                                          (CTRL_CHANGE_PRIORITY (original_priority (mutexes (kc s) i))) s;
                                        Some s }
                                 else Some s);
                           case lists (kc s) (mutex_queue i) of
                             u # _ \<Rightarrow>
                               do { let s = s\<lparr>kc := upd_mutex i (\<lambda>m. m\<lparr>owner := Some u,
                                        original_priority := current_priority (threads (kc s) u),
                                        hold := hold m + 1\<rparr>) (kc s)\<rparr>;
                                    (_, s) \<leftarrow> rt_ipc_list_resume c (mutex_queue i) s;
                                    Some (True, s) }
                           | [] \<Rightarrow>
                               Some (False, s\<lparr>kc := upd_mutex i (\<lambda>m. m\<lparr>mtx_value := mtx_value m + 1,
                                        owner := None, original_priority := 0xff\<rparr>) (kc s)\<rparr>) }
                    else Some (False, s));
                 let s = rt_hw_interrupt_enable c temp s;
                 s \<leftarrow> (if need_schedule then rt_schedule c s else Some s);
                 Some (RT_EOK, s) } }"

definition rt_mutex_control :: "objid \<Rightarrow> ipc_cmd \<Rightarrow> kstate \<Rightarrow> (rt_err_t \<times> kstate) option" where
  "rt_mutex_control i cmd s =
     do { RT_ASSERT (rt_object_get_type (OMutex i) (kc s) = RT_Object_Class_Mutex);
          Some (- RT_ERROR, s) }"

section \<open>Invariant\<close>

text \<open>
  Free with no waiter, or held by one live thread that has its priority to go back to.
\<close>

definition mutex_inv :: "objid \<Rightarrow> kcore \<Rightarrow> bool" where
  "mutex_inv i k \<longleftrightarrow>
     (case owner (mutexes k i) of
        None \<Rightarrow> mtx_value (mutexes k i) = 1 \<and> hold (mutexes k i) = 0 \<and> lists k (mutex_queue i) = []
      | Some t \<Rightarrow> mtx_value (mutexes k i) = 0 \<and> hold (mutexes k i) \<noteq> 0 \<and> started (threads k t) \<and>
                  unat (original_priority (mutexes k i)) < RT_THREAD_PRIORITY_MAX \<and>
                  t \<notin> set (lists k (mutex_queue i)))"

lemma upd_mutex_fields [simp]:
  "threads (upd_mutex i f k) = threads k" "lists (upd_mutex i f k) = lists k" "cpus (upd_mutex i f k) = cpus k"
  "objs (upd_mutex i f k) = objs k" "mutexes (upd_mutex i f k) = (mutexes k)(i := f (mutexes k i))"
  "kinv (upd_mutex i f k) = kinv k" "rt_object_get_type r (upd_mutex i f k) = rt_object_get_type r k"
  "timer_flag r g (upd_mutex i f k) = timer_flag r g k" "is_ready (threads (upd_mutex i f k) t) = is_ready (threads k t)"
  by (simp_all add: upd_mutex_def rt_object_get_type_def timer_flag_def)

section \<open>Every branch of take and release\<close>

lemma mutex_take_recursive:
  assumes "ipc_ctx c t L k" "rt_object_get_type (OMutex i) k = RT_Object_Class_Mutex"
    and "owner (mutexes k i) = Some t"
  shows "rt_mutex_take c i time (mk L k) =
     Some (Inl RT_EOK, mk L (upd_mutex i (\<lambda>m. m\<lparr>hold := hold m + 1\<rparr>)
                               (upd_thread t (\<lambda>th. th\<lparr>th_error := RT_EOK\<rparr>) k)))"
  using ipc_ctxD [OF assms(1)] assms(2,3) by (simp add: rt_mutex_take_def)

lemma mutex_take_free:
  assumes "ipc_ctx c t L k" "rt_object_get_type (OMutex i) k = RT_Object_Class_Mutex"
    and "owner (mutexes k i) = None" "mtx_value (mutexes k i) > 0"
  shows "rt_mutex_take c i time (mk L k) =
     Some (Inl RT_EOK, mk L (upd_mutex i (\<lambda>m. m\<lparr>mtx_value := mtx_value m - 1, owner := Some t,
             original_priority := current_priority (threads k t), hold := hold m + 1\<rparr>)
                               (upd_thread t (\<lambda>th. th\<lparr>th_error := RT_EOK\<rparr>) k)))"
  using ipc_ctxD [OF assms(1)] assms(2-4) by (simp add: rt_mutex_take_def mutex_again_def)

lemma mutex_take_nowait:
  assumes "ipc_ctx c t L k" "rt_object_get_type (OMutex i) k = RT_Object_Class_Mutex"
    and "owner (mutexes k i) \<noteq> Some t" "mtx_value (mutexes k i) = 0"
  shows "rt_mutex_take c i 0 (mk L k) =
     Some (Inl (- RT_ETIMEOUT), mk L (upd_thread t (\<lambda>th. th\<lparr>th_error := - RT_ETIMEOUT\<rparr>) k))"
  using ipc_ctxD [OF assms(1)] assms(2-4) by (simp add: rt_mutex_take_def mutex_again_def)

text \<open>Lending the priority of a waiter to the owner.\<close>

definition boost_core :: "cpu_id \<Rightarrow> tid \<Rightarrow> tid \<Rightarrow> kcore \<Rightarrow> kcore" where
  "boost_core c t ow k =
     (if current_priority (threads k t) < current_priority (threads k ow)
      then change_priority_core c ow (current_priority (threads k t)) k else k)"

definition mutex_wait_core :: "cpu_id \<Rightarrow> objid \<Rightarrow> u8 \<Rightarrow> tid \<Rightarrow> tid \<Rightarrow> int \<Rightarrow> kcore \<Rightarrow> kcore" where
  "mutex_wait_core c i flag t ow time k =
     (let k1 = boost_core c t ow (upd_thread t (\<lambda>th. th\<lparr>th_error := RT_EOK\<rparr>) k);
          k2 = ipc_suspend_core (mutex_queue i) t flag k1
      in if time > 0 then block_core t (word_of_int time) k2 else k2)"

lemma change_priority_objs [simp]:
  "objs (change_priority_core c t p k) = objs k" "rt_object_get_type r (change_priority_core c t p k) = rt_object_get_type r k"
  "timer_flag r f (change_priority_core c t p k) = timer_flag r f k"
  by (simp_all add: change_priority_core_def timer_flag_def)

lemma boost_fields [simp]:
  "cur d (boost_core c t ow k) = cur d k" "irq_nest (cpus (boost_core c t ow k) d) = irq_nest (cpus k d)"
  "objs (boost_core c t ow k) = objs k" "mutexes (boost_core c t ow k) = mutexes k"
  "rt_object_get_type r (boost_core c t ow k) = rt_object_get_type r k"
  "timer_flag r f (boost_core c t ow k) = timer_flag r f k"
  by (simp_all add: boost_core_def)

lemma boost_inv:
  assumes "kinv k" "started (threads k t)" "started (threads k ow)"
  shows "kinv (boost_core c t ow k)"
proof -
  have "unat (current_priority (threads k t)) < RT_THREAD_PRIORITY_MAX"
    using assms(1,2) queue_invD(7) [of "{}" k t] by (simp add: kinv_def sched_inv_def thread_ok_def)
  then show ?thesis using assms by (simp add: boost_core_def change_priority_inv)
qed

lemma boost_other: "u \<noteq> ow \<Longrightarrow> threads (boost_core c t ow k) u = threads k u"
  by (simp add: boost_core_def change_priority_threads)

lemma boost_owner:
  "current_priority (threads (boost_core c t ow k) ow) \<le> current_priority (threads k t)"
  "is_ready (threads (boost_core c t ow k) ow) = is_ready (threads k ow)"
  "started (threads (boost_core c t ow k) ow) = started (threads k ow)"
  by (auto simp: boost_core_def change_priority_threads is_ready_def started_def not_less)

lemma mutex_take_blocks:
  assumes ctx: "ipc_ctx c t L k" and ty: "rt_object_get_type (OMutex i) k = RT_Object_Class_Mutex"
    and ow: "owner (mutexes k i) = Some ow" "ow \<noteq> t" "started (threads k ow)"
    and v: "mtx_value (mutexes k i) = 0" and time: "wait_time time"
  shows "rt_mutex_take c i time (mk L k) =
     do { s \<leftarrow> rt_schedule c (mk L (mutex_wait_core c i (obj_flag (objs k (OMutex i))) t ow time k));
          Some (Inr (irq_disabled L c), s) }"
proof -
  note d = ipc_ctxD [OF ctx]
  let ?k1 = "upd_thread t (\<lambda>th. th\<lparr>th_error := RT_EOK\<rparr>) k"
  have k1: "kinv ?k1" using d(4) by (simp add: sview_def)
  have th: "started (threads ?k1 t)" "started (threads ?k1 ow)"
    using d(6) ow(2,3) by (simp_all add: state_excl(2) started_def is_ready_def)
  note kb = boost_inv [OF k1 th, of c]
  have ready: "is_ready (threads (boost_core c t ow ?k1) t)"
    using ow(2) d(6) by (simp add: boost_other is_ready_def)
  have ty_ow: "rt_object_get_type (OThread ow) k = RT_Object_Class_Thread"
    using objs_okD(1) [OF d(5) ow(3)] .
  show ?thesis
    using d v ty ow time wait_time_tick [OF time] kb ready ty_ow
    by (simp add: rt_mutex_take_def mutex_again_def mutex_wait_core_def Let_def wait_time_def
        block_core_def kinv_def boost_core_def split: if_splits)
qed

lemma mutex_release_not_owner:
  assumes "ipc_ctx c t L k" "rt_object_get_type (OMutex i) k = RT_Object_Class_Mutex"
    and "owner (mutexes k i) \<noteq> Some t"
  shows "rt_mutex_release c i (mk L k) =
     Some (- RT_ERROR, mk L (upd_thread t (\<lambda>th. th\<lparr>th_error := - RT_ERROR\<rparr>) k))"
  using ipc_ctxD [OF assms(1)] assms(2,3) by (simp add: rt_mutex_release_def)

lemma mutex_release_nested:
  assumes "ipc_ctx c t L k" "rt_object_get_type (OMutex i) k = RT_Object_Class_Mutex"
    and "owner (mutexes k i) = Some t" "hold (mutexes k i) - 1 \<noteq> 0"
  shows "rt_mutex_release c i (mk L k) = Some (RT_EOK, mk L (upd_mutex i (\<lambda>m. m\<lparr>hold := hold m - 1\<rparr>) k))"
  using ipc_ctxD [OF assms(1)] assms(2-4) by (simp add: rt_mutex_release_def)

text \<open>The owner's priority goes back before the mutex is handed on or freed.\<close>

definition restore_core :: "cpu_id \<Rightarrow> objid \<Rightarrow> tid \<Rightarrow> kcore \<Rightarrow> kcore" where
  "restore_core c i t k =
     (if original_priority (mutexes k i) \<noteq> current_priority (threads k t)
      then change_priority_core c t (original_priority (mutexes k i)) k else k)"

definition release_core :: "cpu_id \<Rightarrow> objid \<Rightarrow> tid \<Rightarrow> kcore \<Rightarrow> kcore" where
  "release_core c i t k = restore_core c i t (upd_mutex i (\<lambda>m. m\<lparr>hold := hold m - 1\<rparr>) k)"

definition handover_core :: "cpu_id \<Rightarrow> objid \<Rightarrow> tid \<Rightarrow> kcore \<Rightarrow> kcore" where
  "handover_core c i u k =
     resume_core c u (upd_mutex i (\<lambda>m. m\<lparr>owner := Some u,
       original_priority := current_priority (threads k u), hold := hold m + 1\<rparr>) k)"

definition free_core :: "objid \<Rightarrow> kcore \<Rightarrow> kcore" where
  "free_core i k =
     upd_mutex i (\<lambda>m. m\<lparr>mtx_value := mtx_value m + 1, owner := None, original_priority := 0xff\<rparr>) k"

lemma lists_insert_wait [simp]:
  "wait_head h \<Longrightarrow> lists (sched_insert_body c t k) h = lists k h"
proof -
  assume "wait_head h"
  then have "home (threads k t) \<noteq> h" by (cases h) (simp_all add: home_inj)
  then show ?thesis by (auto simp: lists_insert_body ll_insert_tail_def)
qed

lemma lists_change_priority:
  assumes "kinv k" "wait_head h" "is_ready (threads k t) \<or> t \<notin> set (lists k h)"
  shows "lists (change_priority_core c t p k) h = lists k h"
proof -
  have "t \<notin> set (lists k h)"
    using assms waiter_waits [OF assms(1,2), of t] state_excl(1) by blast
  with assms(2) show ?thesis by (simp add: change_priority_core_def ll_remove_other)
qed

lemma release_core_fields:
  assumes "kinv k" "is_ready (threads k t)" "wait_head h"
  shows "lists (release_core c i t k) h = lists k h" "cur d (release_core c i t k) = cur d k"
    "irq_nest (cpus (release_core c i t k) d) = irq_nest (cpus k d)"
    "mutexes (release_core c i t k) = (mutexes k)(i := (mutexes k i)\<lparr>hold := hold (mutexes k i) - 1\<rparr>)"
    "u \<noteq> t \<Longrightarrow> threads (release_core c i t k) u = threads k u"
    "is_ready (threads (release_core c i t k) t)"
    "current_priority (threads (release_core c i t k) t) = original_priority (mutexes k i)"
  using assms lists_change_priority [of "upd_mutex i (\<lambda>m. m\<lparr>hold := hold m - 1\<rparr>) k" h t]
  by (auto simp: release_core_def restore_core_def change_priority_threads is_ready_def)

lemma release_core_inv:
  assumes "kinv k" "started (threads k t)" "unat (original_priority (mutexes k i)) < RT_THREAD_PRIORITY_MAX"
  shows "kinv (release_core c i t k)"
  using assms by (auto simp: release_core_def restore_core_def intro!: change_priority_inv)

lemma mutex_release_last:
  assumes ctx: "ipc_ctx c t L k" and ty: "rt_object_get_type (OMutex i) k = RT_Object_Class_Mutex"
    and ow: "owner (mutexes k i) = Some t" and h: "hold (mutexes k i) = 1"
    and op: "unat (original_priority (mutexes k i)) < RT_THREAD_PRIORITY_MAX"
  shows "rt_mutex_release c i (mk L k) =
     (case lists k (mutex_queue i) of
        [] \<Rightarrow> Some (RT_EOK, mk L (free_core i (release_core c i t k)))
      | u # _ \<Rightarrow> do { s \<leftarrow> rt_schedule c (mk L (handover_core c i u (release_core c i t k)));
                       Some (RT_EOK, s) })"
proof -
  note d = ipc_ctxD [OF ctx]
  have st: "started (threads k t)" using d(6) by (simp add: state_excl)
  note kr = release_core_inv [OF d(4) st op, of c]
  note fr = release_core_fields [OF d(4,6), where c = c and i = i]
  note fq = fr(1) [of "mutex_queue i"] fr(2) [of "mutex_queue i" c]
  show ?thesis
  proof (cases "lists k (mutex_queue i)")
    case Nil
    with d ty ow h fq show ?thesis
      by (cases "original_priority (mutexes k i) = current_priority (threads k t)")
        (simp_all add: rt_mutex_release_def free_core_def release_core_def restore_core_def Let_def)
  next
    case (Cons u us)
    with d ty ow h fq kr show ?thesis
      by (cases "original_priority (mutexes k i) = current_priority (threads k t)")
        (simp_all add: rt_mutex_release_def handover_core_def release_core_def restore_core_def Let_def)
  qed
qed

section \<open>Ownership\<close>

lemma mutex_waiter_other:
  assumes "kinv k" "is_ready (threads k t)"
  shows "t \<notin> set (lists k (mutex_queue i))"
  using waiter_waits [OF assms(1), of "mutex_queue i" t] assms(2) state_excl(1) by auto

lemma handover_fields:
  assumes "kinv k" "lists k (mutex_queue i) = u # us"
  shows "kinv (handover_core c i u k)"
    "lists (handover_core c i u k) (mutex_queue i) = us"
    "mutexes (handover_core c i u k) = (mutexes k)(i := (mutexes k i)\<lparr>owner := Some u,
        original_priority := current_priority (threads k u), hold := hold (mutexes k i) + 1\<rparr>)"
    "is_ready (threads (handover_core c i u k) u)" "cur d (handover_core c i u k) = cur d k"
proof -
  let ?f = "\<lambda>m. m\<lparr>owner := Some u, original_priority := current_priority (threads k u), hold := hold m + 1\<rparr>"
  have w: "waits (threads k u)" using waiter_waits [OF assms(1), of "mutex_queue i" u] assms(2) by simp
  show "kinv (handover_core c i u k)"
    using kinv_resume [of "upd_mutex i ?f k" u c] assms(1) w by (simp add: handover_core_def)
  show "lists (handover_core c i u k) (mutex_queue i) = us"
    using lists_resume_first [of "upd_mutex i ?f k" "mutex_queue i" u us "mutex_queue i" c] assms
    by (simp add: handover_core_def)
  show "mutexes (handover_core c i u k) = (mutexes k)(i := (mutexes k i)\<lparr>owner := Some u,
        original_priority := current_priority (threads k u), hold := hold (mutexes k i) + 1\<rparr>)"
    "is_ready (threads (handover_core c i u k) u)" "cur d (handover_core c i u k) = cur d k"
    by (simp_all add: handover_core_def is_ready_def)
qed

text \<open>Releasing the last hold keeps the invariants and hands the mutex to the first waiter.\<close>

lemma mutex_release_inv:
  assumes ctx: "ipc_ctx c t L k" and ty: "rt_object_get_type (OMutex i) k = RT_Object_Class_Mutex"
    and inv: "mutex_inv i k" and ow: "owner (mutexes k i) = Some t"
    and step: "rt_mutex_release c i (mk L k) = Some (r, s')"
  shows "kinv (kc s')" "mutex_inv i (kc s')"
    "hold (mutexes k i) = 1 \<Longrightarrow> owner (mutexes (kc s') i) =
       (case lists k (mutex_queue i) of [] \<Rightarrow> None | u # _ \<Rightarrow> Some u)"
proof -
  note d = ipc_ctxD [OF ctx]
  have m: "mtx_value (mutexes k i) = 0" "hold (mutexes k i) \<noteq> 0" "started (threads k t)"
    "unat (original_priority (mutexes k i)) < RT_THREAD_PRIORITY_MAX" "t \<notin> set (lists k (mutex_queue i))"
    using inv ow by (simp_all add: mutex_inv_def)
  have "kinv (kc s') \<and> mutex_inv i (kc s') \<and> (hold (mutexes k i) = 1 \<longrightarrow> owner (mutexes (kc s') i) =
       (case lists k (mutex_queue i) of [] \<Rightarrow> None | u # _ \<Rightarrow> Some u))"
  proof (cases "hold (mutexes k i) = 1")
    case False
    then have "hold (mutexes k i) - 1 \<noteq> 0" by simp
    then show ?thesis
      using step mutex_release_nested [OF ctx ty ow] m ow d(4) False by (auto simp: mutex_inv_def)
  next
    case True
    let ?k = "release_core c i t k"
    note fr = release_core_fields [OF d(4,6), where c = c and i = i and h = "mutex_queue i", simplified]
    have kr: "kinv ?k" using release_core_inv [OF d(4) m(3,4)] .
    note last = mutex_release_last [OF ctx ty ow True m(4)]
    show ?thesis
    proof (cases "lists k (mutex_queue i)")
      case Nil
      with step last True m(1) kr fr(1) show ?thesis
        by (auto simp: mutex_inv_def free_core_def fr(4))
    next
      case (Cons u us)
      then have ne: "u \<noteq> t" using m(5) by auto
      note ho = handover_fields [OF kr, of i u us c, unfolded fr(1), OF Cons]
      have sch: "rt_schedule c (mk L (handover_core c i u ?k)) = Some s'"
        using step last Cons by (auto simp: bind_Some_iff)
      have cu: "cur c (handover_core c i u ?k) = Some t" using ho(5) fr(2) d(2) by simp
      have si: "sched_inv (handover_core c i u ?k)" using ho(1) by (simp add: kinv_def)
      note keep = schedule_keeps_waiters [OF d(1) cu si d(3) sch]
      have ki: "kinv (kc s')" using rt_schedule_kinv [OF d(1) cu ho(1) d(3) sch] .
      have "started (threads k u)" using waiter_waits [OF d(4), of "mutex_queue i" u] Cons state_excl(3) by auto
      then have pr: "unat (current_priority (threads k u)) < RT_THREAD_PRIORITY_MAX"
        using queue_invD(7) [of "{}" k u] d(4) by (simp add: kinv_def sched_inv_def thread_ok_def)
      have "u \<notin> set us" using kinv_distinct [OF d(4), of "mutex_queue i"] Cons by simp
      moreover have "started (threads (kc s') u)"
      proof (rule ccontr)
        assume n: "\<not> started (threads (kc s') u)"
        have "stat (threads (kc s') u) AND RT_THREAD_STAT_MASK = RT_THREAD_READY"
          using rt_schedule_ready [OF d(1) cu si d(3) sch, of u] ho(4) by (simp add: is_ready_def)
        with n show False by (simp add: started_def)
      qed
      ultimately have "mutex_inv i (kc s')"
        using keep(2) keep(6) [of "mutex_queue i"] ho m(1) True pr fr(5) [OF ne]
        by (simp add: mutex_inv_def fr(4))
      with ki keep(2) ho(3) Cons show ?thesis by (simp add: fr(4))
    qed
  qed
  then show "kinv (kc s')" "mutex_inv i (kc s')"
    "hold (mutexes k i) = 1 \<Longrightarrow> owner (mutexes (kc s') i) =
       (case lists k (mutex_queue i) of [] \<Rightarrow> None | u # _ \<Rightarrow> Some u)" by simp_all
qed

lemma mutex_wait_inv:
  assumes ctx: "ipc_ctx c t L k" and ow: "ow \<noteq> t" "started (threads k ow)" and fl: "ipc_flag flag"
  shows "kinv (mutex_wait_core c i flag t ow time k)"
    "cur d (mutex_wait_core c i flag t ow time k) = cur d k"
    "mutexes (mutex_wait_core c i flag t ow time k) = mutexes k"
    "current_priority (threads (mutex_wait_core c i flag t ow time k) ow) \<le> current_priority (threads k t)"
    "started (threads (mutex_wait_core c i flag t ow time k) ow)"
    "ow \<notin> set (lists k (mutex_queue i)) \<Longrightarrow>
       ow \<notin> set (lists (mutex_wait_core c i flag t ow time k) (mutex_queue i))"
proof -
  note d = ipc_ctxD [OF ctx]
  let ?k1 = "upd_thread t (\<lambda>th. th\<lparr>th_error := RT_EOK\<rparr>) k"
  let ?kb = "boost_core c t ow ?k1"
  have k1: "kinv ?k1" using d(4) by (simp add: sview_def)
  have th: "started (threads ?k1 t)" "started (threads ?k1 ow)"
    using d(6) ow by (simp_all add: state_excl(2) started_def is_ready_def)
  note kb = boost_inv [OF k1 th, of c]
  have ready: "is_ready (threads ?kb t)" using ow(1) d(6) by (simp add: boost_other is_ready_def)
  have curb: "cur c ?kb = Some t" using d(2) by simp
  show "kinv (mutex_wait_core c i flag t ow time k)"
    using ipc_suspend_inv [OF kb curb d(3) ready _ fl, of "mutex_queue i"]
    by (simp add: mutex_wait_core_def Let_def)
  show "cur d (mutex_wait_core c i flag t ow time k) = cur d k"
    "mutexes (mutex_wait_core c i flag t ow time k) = mutexes k"
    by (simp_all add: mutex_wait_core_def Let_def)
  show "current_priority (threads (mutex_wait_core c i flag t ow time k) ow) \<le> current_priority (threads k t)"
    "started (threads (mutex_wait_core c i flag t ow time k) ow)"
    using boost_owner(1,3) [of c t ow ?k1] th(2) ow(1) by (simp_all add: mutex_wait_core_def Let_def)
  have "lists ?kb (mutex_queue i) = lists k (mutex_queue i)" if "ow \<notin> set (lists k (mutex_queue i))"
    using lists_change_priority [OF k1, of "mutex_queue i" ow] that by (simp add: boost_core_def)
  then show "ow \<notin> set (lists (mutex_wait_core c i flag t ow time k) (mutex_queue i))"
    if "ow \<notin> set (lists k (mutex_queue i))"
    using that ow(1) fl ipc_suspend_queue [OF kb curb d(3) ready, of "mutex_queue i" flag "mutex_queue i"]
    by (auto simp: mutex_wait_core_def Let_def queue_insert_set)
qed

text \<open>
  \<^verbatim>\<open>rt_mutex_take\<close> keeps the invariants; when it blocks, the owner runs at least at the priority of the
  caller.
\<close>

lemma mutex_take_inv:
  assumes ctx: "ipc_ctx c t L k" and ty: "rt_object_get_type (OMutex i) k = RT_Object_Class_Mutex"
    and fl: "ipc_flag (obj_flag (objs k (OMutex i)))" and time: "time = 0 \<or> wait_time time"
    and inv: "mutex_inv i k" and hold: "hold (mutexes k i) \<noteq> 0xff"
    and step: "rt_mutex_take c i time (mk L k) = Some (r, s')"
  shows "kinv (kc s')" "mutex_inv i (kc s')"
    "r = Inl RT_EOK \<Longrightarrow> owner (mutexes (kc s') i) = Some t"
    "r = Inr b \<Longrightarrow> \<exists>ow. owner (mutexes (kc s') i) = Some ow \<and> ow \<noteq> t \<and>
       current_priority (threads (kc s') ow) \<le> current_priority (threads k t)"
proof -
  note d = ipc_ctxD [OF ctx]
  have st: "started (threads k t)" using d(6) by (simp add: state_excl)
  have pr: "unat (current_priority (threads k t)) < RT_THREAD_PRIORITY_MAX"
    using st queue_invD(7) [of "{}" k t] d(4) by (simp add: kinv_def sched_inv_def thread_ok_def)
  have nq: "t \<notin> set (lists k (mutex_queue i))" using mutex_waiter_other [OF d(4,6)] .
  have h1: "hold (mutexes k i) + 1 \<noteq> 0"
  proof
    assume "hold (mutexes k i) + 1 = 0"
    then have "hold (mutexes k i) = - 1" by (simp add: eq_neg_iff_add_eq_0)
    with hold show False by simp
  qed
  have "kinv (kc s') \<and> mutex_inv i (kc s') \<and> (r = Inl RT_EOK \<longrightarrow> owner (mutexes (kc s') i) = Some t) \<and>
    (\<forall>b. r = Inr b \<longrightarrow> (\<exists>ow. owner (mutexes (kc s') i) = Some ow \<and> ow \<noteq> t \<and>
       current_priority (threads (kc s') ow) \<le> current_priority (threads k t)))"
  proof (cases "owner (mutexes k i)")
    case None
    then have "mtx_value (mutexes k i) = 1" "hold (mutexes k i) = 0" "lists k (mutex_queue i) = []"
      using inv by (simp_all add: mutex_inv_def)
    then show ?thesis
      using step mutex_take_free [OF ctx ty None, of time] d(4) st pr
      by (auto simp: mutex_inv_def sview_def started_def)
  next
    case (Some ow)
    show ?thesis
    proof (cases "ow = t")
      case True
      then show ?thesis
        using step mutex_take_recursive [OF ctx ty, of time] Some inv d(4) h1
        by (auto simp: mutex_inv_def sview_def started_def)
    next
      case False
      have m: "mtx_value (mutexes k i) = 0" "started (threads k ow)" "ow \<notin> set (lists k (mutex_queue i))"
        using inv Some by (simp_all add: mutex_inv_def)
      show ?thesis
      proof (cases "time = 0")
        case True
        then show ?thesis
          using step mutex_take_nowait [OF ctx ty _ m(1)] Some False d(4) inv
          by (auto simp: mutex_inv_def sview_def started_def)
      next
        case False': False
        let ?k = "mutex_wait_core c i (obj_flag (objs k (OMutex i))) t ow time k"
        have sch: "rt_schedule c (mk L ?k) = Some s'" "r = Inr (irq_disabled L c)"
          using step mutex_take_blocks [OF ctx ty Some False m(2,1)] time False'
          by (auto simp: bind_Some_iff)
        note w = mutex_wait_inv [OF ctx False m(2) fl, where i = i and time = time]
        have cu: "cur c ?k = Some t" using w(2) d(2) by simp
        have si: "sched_inv ?k" using w(1) by (simp add: kinv_def)
        note keep = schedule_keeps_waiters [OF d(1) cu si d(3) sch(1)]
        have "kinv (kc s')" using rt_schedule_kinv [OF d(1) cu w(1) d(3) sch(1)] .
        moreover have "started (threads (kc s') ow)"
          using rt_schedule_started [OF d(1) cu si d(3) sch(1)] w(5) by blast
        ultimately show ?thesis
          using keep(2,8) keep(6) [of "mutex_queue i"] w(3,4) w(6) [OF m(3)] sch(2) Some inv False
          by (simp add: mutex_inv_def)
      qed
    qed
  qed
  then show "kinv (kc s')" "mutex_inv i (kc s')"
    "r = Inl RT_EOK \<Longrightarrow> owner (mutexes (kc s') i) = Some t"
    "r = Inr b \<Longrightarrow> \<exists>ow. owner (mutexes (kc s') i) = Some ow \<and> ow \<noteq> t \<and>
       current_priority (threads (kc s') ow) \<le> current_priority (threads k t)" by blast+
qed

text \<open>
  The retry after \<^verbatim>\<open>-RT_EINTR\<close> jumps to \<^verbatim>\<open>__again\<close> with the lock released: taking a free
  mutex there ends with an unlock that has no lock, and the nest counter underflows.
\<close>

lemma mutex_retry_underflow:
  assumes "cur c k = Some t" "cpus_lock_nest L t = 0" "th_error (threads k t) = - RT_EINTR"
    and "mtx_value (mutexes k i) > 0"
  shows "\<exists>s'. rt_mutex_take_cont c i time t temp (mk L k) = Some (Inl RT_EOK, s') \<and>
     cpus_lock_nest (lk s') t = 0xffff"
proof -
  have "(- 1 :: u16) = 0xffff" by simp
  with assms show ?thesis
    by (auto simp: rt_mutex_take_cont_def mutex_again_def rt_cpus_unlock_def lock_defs Let_def)
qed

section \<open>The calls return\<close>

lemma change_priority_stack:
  "stack_view (threads (change_priority_core c t p k) u) = stack_view (threads k u)"
  "started (threads (change_priority_core c t p k) u) = started (threads k u)"
  using state_excl(2) [of "threads k t"]
  by (auto simp: change_priority_threads set_priority_def stack_view_def started_def)

lemma boost_stack:
  "stack_view (threads (boost_core c t ow k) u) = stack_view (threads k u)"
  "started (threads (boost_core c t ow k) u) = started (threads k u)"
  by (simp_all add: boost_core_def change_priority_stack)

lemma mutex_wait_stack:
  assumes "started (threads k t)"
  shows "stack_view (threads (mutex_wait_core c i flag t ow time k) u) = stack_view (threads k u)"
    "started (threads (mutex_wait_core c i flag t ow time k) u) \<Longrightarrow> started (threads k u)"
proof -
  let ?k1 = "upd_thread t (\<lambda>th. th\<lparr>th_error := RT_EOK\<rparr>) k"
  have 1: "stack_view (threads ?k1 u) = stack_view (threads k u)" "started (threads ?k1 u) = started (threads k u)"
    by (simp_all add: stack_view_def started_def)
  have 2: "stack_view (threads (ipc_suspend_core h t flag k') u) = stack_view (threads k' u)"
    "u \<noteq> t \<Longrightarrow> started (threads (ipc_suspend_core h t flag k') u) = started (threads k' u)" for h k'
    by (simp_all add: stack_view_def)
  show "stack_view (threads (mutex_wait_core c i flag t ow time k) u) = stack_view (threads k u)"
    using 1(1) 2(1) boost_stack(1) [of c t ow ?k1 u] by (simp add: mutex_wait_core_def Let_def)
  show "started (threads k u)" if "started (threads (mutex_wait_core c i flag t ow time k) u)"
  proof (cases "u = t")
    case False
    then show ?thesis
      using that 1(2) 2(2) boost_stack(2) [of c t ow ?k1 u]
      by (auto simp: mutex_wait_core_def Let_def split: if_splits)
  qed (use assms in simp)
qed

lemma mutex_take_returns:
  assumes ctx: "ipc_ctx c t L k" and ty: "rt_object_get_type (OMutex i) k = RT_Object_Class_Mutex"
    and fl: "ipc_flag (obj_flag (objs k (OMutex i)))" and time: "time = 0 \<or> wait_time time"
    and inv: "mutex_inv i k" and hold: "hold (mutexes k i) \<noteq> 0xff" and st: "stacks_ok k"
  shows "\<exists>r s'. rt_mutex_take c i time (mk L k) = Some (r, s')"
proof (cases "owner (mutexes k i)")
  case None
  then show ?thesis using mutex_take_free [OF ctx ty None, of time] inv by (auto simp: mutex_inv_def)
next
  case (Some ow)
  note d = ipc_ctxD [OF ctx]
  have m: "mtx_value (mutexes k i) = 0" "started (threads k ow)" using inv Some by (simp_all add: mutex_inv_def)
  show ?thesis
  proof (cases "ow = t \<or> time = 0")
    case True
    then show ?thesis
      using mutex_take_recursive [OF ctx ty, of time] mutex_take_nowait [OF ctx ty _ m(1)] Some
      by (cases "ow = t") auto
  next
    case False
    then have ow: "ow \<noteq> t" "wait_time time" using time by auto
    note w = mutex_wait_inv [OF ctx ow(1) m(2) fl, where i = i and time = time]
    have "started (threads k t)" using d(6) by (simp add: state_excl)
    then obtain s' where "rt_schedule c (mk L (mutex_wait_core c i (obj_flag (objs k (OMutex i))) t ow time k)) = Some s'"
      using schedule_after [OF ctx st w(1)] w(2) [of c] d(2) mutex_wait_stack [of k t] by metis
    then show ?thesis using mutex_take_blocks [OF ctx ty Some ow(1) m(2,1) ow(2)] by simp
  qed
qed

lemma mutex_release_returns:
  assumes ctx: "ipc_ctx c t L k" and ty: "rt_object_get_type (OMutex i) k = RT_Object_Class_Mutex"
    and inv: "mutex_inv i k" and ow: "owner (mutexes k i) = Some t" and st: "stacks_ok k"
  shows "\<exists>s'. rt_mutex_release c i (mk L k) = Some (RT_EOK, s')"
proof (cases "hold (mutexes k i) = 1")
  case False
  then have "hold (mutexes k i) - 1 \<noteq> 0" by simp
  then show ?thesis using mutex_release_nested [OF ctx ty ow] by blast
next
  case True
  note d = ipc_ctxD [OF ctx]
  have m: "started (threads k t)" "unat (original_priority (mutexes k i)) < RT_THREAD_PRIORITY_MAX"
    using inv ow by (simp_all add: mutex_inv_def)
  note last = mutex_release_last [OF ctx ty ow True m(2)]
  let ?k = "release_core c i t k"
  let ?f = "\<lambda>u m. m\<lparr>owner := Some u, original_priority := current_priority (threads ?k u), hold := hold m + 1\<rparr>"
  note fr = release_core_fields [OF d(4,6), where c = c and i = i and h = "mutex_queue i", simplified]
  have kr: "kinv ?k" using release_core_inv [OF d(4) m] .
  have sv: "stack_view (threads ?k v) = stack_view (threads k v)" "started (threads ?k v) \<Longrightarrow> started (threads k v)" for v
    by (auto simp: release_core_def restore_core_def change_priority_stack split: if_splits)
  show ?thesis
  proof (cases "lists k (mutex_queue i)")
    case Nil
    then show ?thesis using last by simp
  next
    case (Cons u us)
    have "waits (threads ?k u)" using waiter_waits [OF kr, of "mutex_queue i" u] fr(1) Cons by simp
    then have "\<exists>s'. rt_schedule c (mk L (resume_core c u (upd_mutex i (?f u) ?k))) = Some s'"
      using resume_returns [OF ctx st, of "upd_mutex i (?f u) ?k" u] kr fr(2) d(2) sv by simp
    then show ?thesis using last Cons by (auto simp: handover_core_def)
  qed
qed

end
