(* ===== verification/Rt_Event.thy ===== *)
theory Rt_Event
  imports Rt_Ipc
begin

text \<open>
  Event sets, \<^verbatim>\<open>src/ipc.c\<close> lines 912 to 1274. The main property is that no wake-up is lost: after
  every operation no waiter is left whose condition the current set satisfies.
\<close>

section \<open>Operations\<close>

abbreviation event_queue :: "objid \<Rightarrow> lhead" where
  "event_queue i \<equiv> SuspendQ (OEvent i)"

definition RT_EVENT_FLAG_AND :: u8 where "RT_EVENT_FLAG_AND = 0x01"
definition RT_EVENT_FLAG_OR :: u8 where "RT_EVENT_FLAG_OR = 0x02"
definition RT_EVENT_FLAG_CLEAR :: u8 where "RT_EVENT_FLAG_CLEAR = 0x04"

definition set_event :: "objid \<Rightarrow> u32 \<Rightarrow> kcore \<Rightarrow> kcore" where
  "set_event i v k = k\<lparr>events := (events k)(i := (events k i)\<lparr>ev_set := v\<rparr>)\<rparr>"

definition event_init_fields :: "objid \<Rightarrow> u8 \<Rightarrow> kcore \<Rightarrow> kcore" where
  "event_init_fields i flag k =
     set_event i 0 (rt_ipc_object_init (OEvent i) (upd_obj (OEvent i) (\<lambda>ob. ob\<lparr>obj_flag := flag\<rparr>) k))"

definition rt_event_init :: "cpu_id \<Rightarrow> objid \<Rightarrow> u8 list \<Rightarrow> u8 \<Rightarrow> kstate \<Rightarrow> (rt_err_t \<times> kstate) option" where
  "rt_event_init c i name flag s =
     do { s \<leftarrow> rt_object_init c (OEvent i) RT_Object_Class_Event name s;
          Some (RT_EOK, s\<lparr>kc := event_init_fields i flag (kc s)\<rparr>) }"

definition rt_event_detach :: "cpu_id \<Rightarrow> objid \<Rightarrow> kstate \<Rightarrow> (rt_err_t \<times> kstate) option" where
  "rt_event_detach c i s =
     do { RT_ASSERT (rt_object_get_type (OEvent i) (kc s) = RT_Object_Class_Event);
          RT_ASSERT (rt_object_is_systemobject (OEvent i) (kc s));
          (_, s) \<leftarrow> rt_ipc_list_resume_all c (event_queue i) s;
          s \<leftarrow> rt_object_detach c (OEvent i) s;
          Some (RT_EOK, s) }"

definition rt_event_create ::
    "cpu_id \<Rightarrow> u8 list \<Rightarrow> u8 \<Rightarrow> objid option \<Rightarrow> kstate \<Rightarrow> (objid option \<times> kstate) option" where
  "rt_event_create c name flag mem s =
     do { s \<leftarrow> RT_DEBUG_NOT_IN_INTERRUPT c s;
          (event, s) \<leftarrow> rt_object_allocate c RT_Object_Class_Event name (map_option OEvent mem) s;
          case event of
            Some (OEvent i) \<Rightarrow> Some (Some i, s\<lparr>kc := event_init_fields i flag (kc s)\<rparr>)
          | _ \<Rightarrow> Some (None, s) }"

definition rt_event_delete :: "cpu_id \<Rightarrow> objid \<Rightarrow> kstate \<Rightarrow> (rt_err_t \<times> kstate) option" where
  "rt_event_delete c i s =
     do { RT_ASSERT (rt_object_get_type (OEvent i) (kc s) = RT_Object_Class_Event);
          RT_ASSERT (\<not> rt_object_is_systemobject (OEvent i) (kc s));
          s \<leftarrow> RT_DEBUG_NOT_IN_INTERRUPT c s;
          (_, s) \<leftarrow> rt_ipc_list_resume_all c (event_queue i) s;
          s \<leftarrow> rt_object_delete c (OEvent i) s;
          Some (RT_EOK, s) }"

text \<open>
  The search loop of \<^verbatim>\<open>rt_event_send\<close>. The next node is read before the thread is resumed, and
  resuming unlinks only that thread, so the loop visits the waiters of the initial list in order.
\<close>

definition event_check :: "rt_thread \<Rightarrow> u32 \<Rightarrow> bool \<times> u32" where
  "event_check th bits =
     (if event_info th AND RT_EVENT_FLAG_AND \<noteq> 0 then (event_set th AND bits = event_set th, event_set th)
      else if event_info th AND RT_EVENT_FLAG_OR \<noteq> 0 then
        if event_set th AND bits \<noteq> 0 then (True, event_set th AND bits) else (False, event_set th)
      else (False, event_set th))"

fun event_wake :: "cpu_id \<Rightarrow> objid \<Rightarrow> tid list \<Rightarrow> bool \<Rightarrow> kstate \<Rightarrow> (bool \<times> kstate) option" where
  "event_wake c i [] need_schedule s = Some (need_schedule, s)"
| "event_wake c i (t # ts) need_schedule s =
     (let (status, es) = event_check (threads (kc s) t) (ev_set (events (kc s) i));
          s = s\<lparr>kc := upd_thread t (\<lambda>th. th\<lparr>event_set := es\<rparr>) (kc s)\<rparr>
      in
      if status then
        do { let s = (if event_info (threads (kc s) t) AND RT_EVENT_FLAG_CLEAR \<noteq> 0
                      then s\<lparr>kc := set_event i (ev_set (events (kc s) i) AND NOT es) (kc s)\<rparr> else s);
             (_, s) \<leftarrow> rt_thread_resume c t s;
             event_wake c i ts True s }
      else event_wake c i ts need_schedule s)"

definition rt_event_send :: "cpu_id \<Rightarrow> objid \<Rightarrow> u32 \<Rightarrow> kstate \<Rightarrow> (rt_err_t \<times> kstate) option" where
  "rt_event_send c i bits s =
     do { RT_ASSERT (rt_object_get_type (OEvent i) (kc s) = RT_Object_Class_Event);
          if bits = 0 then Some (- RT_ERROR, s)
          else
            do { (level, s) \<leftarrow> rt_hw_interrupt_disable c s;
                 let s = s\<lparr>kc := set_event i (ev_set (events (kc s) i) OR bits) (kc s)\<rparr>;
                 (need_schedule, s) \<leftarrow> event_wake c i (lists (kc s) (event_queue i)) False s;
                 let s = rt_hw_interrupt_enable c level s;
                 s \<leftarrow> (if need_schedule then rt_schedule c s else Some s);
                 Some (RT_EOK, s) } }"

text \<open>The value written through \<^verbatim>\<open>recved\<close> is the second component of the result.\<close>

definition rt_event_recv ::
    "cpu_id \<Rightarrow> objid \<Rightarrow> u32 \<Rightarrow> u8 \<Rightarrow> int \<Rightarrow> kstate \<Rightarrow> ((rt_err_t \<times> u32 option) option \<times> kstate) option" where
  "rt_event_recv c i bits option timeout s =
     do { s \<leftarrow> RT_DEBUG_IN_THREAD_CONTEXT c s;
          RT_ASSERT (rt_object_get_type (OEvent i) (kc s) = RT_Object_Class_Event);
          if bits = 0 then Some (Some (- RT_ERROR, None), s)
          else
            do { let (self, s) = rt_thread_self c s;
                 t \<leftarrow> self;
                 let s = s\<lparr>kc := upd_thread t (\<lambda>th. th\<lparr>th_error := RT_EOK\<rparr>) (kc s)\<rparr>;
                 (level, s) \<leftarrow> rt_hw_interrupt_disable c s;
                 RT_ASSERT (option AND RT_EVENT_FLAG_AND \<noteq> 0 \<or> option AND RT_EVENT_FLAG_OR \<noteq> 0);
                 let ev = ev_set (events (kc s) i);
                 let status = (if option AND RT_EVENT_FLAG_AND \<noteq> 0 then ev AND bits = bits else ev AND bits \<noteq> 0);
                 if status then
                   let s = (if option AND RT_EVENT_FLAG_CLEAR \<noteq> 0
                            then s\<lparr>kc := set_event i (ev AND NOT bits) (kc s)\<rparr> else s)
                   in Some (Some (th_error (threads (kc s) t), Some (ev AND bits)), rt_hw_interrupt_enable c level s)
                 else if timeout = 0 then
                   let s = s\<lparr>kc := upd_thread t (\<lambda>th. th\<lparr>th_error := - RT_ETIMEOUT\<rparr>) (kc s)\<rparr>
                   in Some (Some (th_error (threads (kc s) t), None), rt_hw_interrupt_enable c level s)
                 else
                   do { let s = s\<lparr>kc := upd_thread t (\<lambda>th. th\<lparr>event_set := bits, event_info := option\<rparr>) (kc s)\<rparr>;
                        (_, s) \<leftarrow> rt_ipc_list_suspend c (event_queue i) t (obj_flag (objs (kc s) (OEvent i))) s;
                        s \<leftarrow> (if timeout > 0 then
                                 do { (_, _, s) \<leftarrow> rt_timer_control (OThreadTimer t) (TIMER_SET_TIME (word_of_int timeout)) s;
                                      (_, s) \<leftarrow> rt_timer_start c (OThreadTimer t) s;
                                      Some s }
                               else Some s);
                        let s = rt_hw_interrupt_enable c level s;
                        s \<leftarrow> rt_schedule c s;
                        Some (None, s) } } }"

definition rt_event_recv_cont :: "cpu_id \<Rightarrow> tid \<Rightarrow> kstate \<Rightarrow> ((rt_err_t \<times> u32 option) \<times> kstate) option" where
  "rt_event_recv_cont c t s =
     (if th_error (threads (kc s) t) \<noteq> RT_EOK then Some ((th_error (threads (kc s) t), None), s)
      else
        do { (level, s) \<leftarrow> rt_hw_interrupt_disable c s;
             let recved = event_set (threads (kc s) t);
             let s = rt_hw_interrupt_enable c level s;
             Some ((th_error (threads (kc s) t), Some recved), s) })"

definition rt_event_control :: "cpu_id \<Rightarrow> objid \<Rightarrow> ipc_cmd \<Rightarrow> kstate \<Rightarrow> (rt_err_t \<times> kstate) option" where
  "rt_event_control c i cmd s =
     do { RT_ASSERT (rt_object_get_type (OEvent i) (kc s) = RT_Object_Class_Event);
          case cmd of
            IPC_CMD_RESET _ \<Rightarrow>
              do { (level, s) \<leftarrow> rt_hw_interrupt_disable c s;
                   (_, s) \<leftarrow> rt_ipc_list_resume_all c (event_queue i) s;
                   let s = s\<lparr>kc := set_event i 0 (kc s)\<rparr>;
                   let s = rt_hw_interrupt_enable c level s;
                   s \<leftarrow> rt_schedule c s;
                   Some (RT_EOK, s) }
          | IPC_CMD_OTHER \<Rightarrow> Some (- RT_ERROR, s) }"

section \<open>No lost wake-up\<close>

definition event_sat :: "rt_thread \<Rightarrow> u32 \<Rightarrow> bool" where
  "event_sat th bits = fst (event_check th bits)"

definition event_inv :: "objid \<Rightarrow> kcore \<Rightarrow> bool" where
  "event_inv i k \<longleftrightarrow> (\<forall>t \<in> set (lists k (event_queue i)). \<not> event_sat (threads k t) (ev_set (events k i)))"

lemma event_sat_mono:
  assumes "event_sat th (ev AND m)"
  shows "event_sat th ev"
proof -
  have "es AND ev = es" if "es AND (ev AND m) = es" for es :: u32
    by (metis that and.assoc and.commute and.left_idem)
  moreover have "es AND ev \<noteq> 0" if "es AND (ev AND m) \<noteq> 0" for es :: u32
    using that by (auto simp: and.assoc [symmetric])
  ultimately show ?thesis
    using assms by (auto simp: event_sat_def event_check_def split: if_splits)
qed

lemma set_event_fields [simp]:
  "threads (set_event i v k) = threads k" "lists (set_event i v k) = lists k" "cpus (set_event i v k) = cpus k"
  "objs (set_event i v k) = objs k" "kinv (set_event i v k) = kinv k"
  "ev_set (events (set_event i v k) j) = (if j = i then v else ev_set (events k j))"
  "rt_object_get_type r (set_event i v k) = rt_object_get_type r k"
  by (simp_all add: set_event_def rt_object_get_type_def)

lemma kinv_event_set [simp]: "kinv (upd_thread t (\<lambda>th. th\<lparr>event_set := x\<rparr>) k) = kinv k"
  by (simp add: sview_def)

text \<open>One waiter whose condition holds.\<close>

definition event_wake_one :: "cpu_id \<Rightarrow> objid \<Rightarrow> tid \<Rightarrow> u32 \<Rightarrow> kcore \<Rightarrow> kcore" where
  "event_wake_one c i t es k =
     (let k1 = upd_thread t (\<lambda>th. th\<lparr>event_set := es\<rparr>) k
      in resume_core c t (if event_info (threads k t) AND RT_EVENT_FLAG_CLEAR \<noteq> 0
                          then set_event i (ev_set (events k i) AND NOT es) k1 else k1))"

lemma event_wake_step:
  assumes "lk_ok th L" "cur c k = th" "n < 0xe0" "kinv k" "waits (threads k t)"
    and "event_check (threads k t) (ev_set (events k i)) = (status, es)"
  shows "event_wake c i (t # ts) need (mk (lockn c th n L) k) =
     (if status then event_wake c i ts True (mk (lockn c th n L) (event_wake_one c i t es k))
      else event_wake c i ts need (mk (lockn c th n L) k))"
proof -
  have "es = event_set (threads k t)" if "\<not> status"
    using assms(6) that by (auto simp: event_check_def split: if_splits)
  then have "upd_thread t (\<lambda>th. th\<lparr>event_set := es\<rparr>) k = k" if "\<not> status"
    using that by (intro upd_thread_noop) (simp add: rt_thread.equality)
  moreover have "objs_ok (upd_thread t (\<lambda>th. th\<lparr>event_set := es\<rparr>) k)"
    using assms(4) kinv_event_set [of t es k] by (simp add: kinv_def)
  moreover have "objs_ok (set_event i v (upd_thread t (\<lambda>th. th\<lparr>event_set := es\<rparr>) k))" for v
    using \<open>objs_ok (upd_thread t (\<lambda>th. th\<lparr>event_set := es\<rparr>) k)\<close> by (simp add: set_event_def)
  ultimately show ?thesis
    using assms by (simp add: event_wake_one_def Let_def waits_def)
qed

lemma and_refl_ex: "\<exists>m. (v :: u32) = v AND m"
  by (rule exI [of _ v]) simp

lemma event_wake_one_fields:
  assumes "kinv k" "lists k (event_queue i) = us @ t # ts" "waits (threads k t)"
  shows "kinv (event_wake_one c i t es k)" "cur d (event_wake_one c i t es k) = cur d k"
    "irq_nest (cpus (event_wake_one c i t es k) d) = irq_nest (cpus k d)"
    "lists (event_wake_one c i t es k) (event_queue i) = us @ ts"
    "\<exists>m. ev_set (events (event_wake_one c i t es k) i) = ev_set (events k i) AND m"
    "u \<noteq> t \<Longrightarrow> threads (event_wake_one c i t es k) u = threads k u"
    "is_ready (threads (event_wake_one c i t es k) t)"
proof -
  let ?k1 = "upd_thread t (\<lambda>th. th\<lparr>event_set := es\<rparr>) k"
  show "kinv (event_wake_one c i t es k)"
    unfolding event_wake_one_def Let_def using assms(1,3) by (intro kinv_resume) (simp_all add: waits_def)
  show "cur d (event_wake_one c i t es k) = cur d k" "u \<noteq> t \<Longrightarrow> threads (event_wake_one c i t es k) u = threads k u"
    "irq_nest (cpus (event_wake_one c i t es k) d) = irq_nest (cpus k d)"
    "is_ready (threads (event_wake_one c i t es k) t)"
    by (simp_all add: event_wake_one_def Let_def is_ready_def)
  have "distinct (us @ t # ts)" using kinv_distinct [OF assms(1), of "event_queue i"] assms(2) by simp
  then show "lists (event_wake_one c i t es k) (event_queue i) = us @ ts"
    using assms(2) by (auto simp: event_wake_one_def Let_def lists_resume_core removeAll_id)
  show "\<exists>m. ev_set (events (event_wake_one c i t es k) i) = ev_set (events k i) AND m"
    using and_refl_ex [of "ev_set (events k i)"] by (auto simp: event_wake_one_def Let_def)
qed

text \<open>What the search loop leaves: the visited waiters \<open>us\<close>, and of the others those not satisfied.\<close>

definition wake_post :: "cpu_id \<Rightarrow> objid \<Rightarrow> tid list \<Rightarrow> tid list \<Rightarrow> kcore \<Rightarrow> kcore \<Rightarrow> bool" where
  "wake_post c i us ts k k' \<longleftrightarrow>
     kinv k' \<and> cur c k' = cur c k \<and> irq_nest (cpus k' c) = irq_nest (cpus k c) \<and>
     (\<exists>m. ev_set (events k' i) = ev_set (events k i) AND m) \<and>
     (\<forall>t. t \<notin> set ts \<longrightarrow> threads k' t = threads k t) \<and>
     (\<exists>vs. lists k' (event_queue i) = us @ vs \<and> set vs \<subseteq> set ts \<and>
        (\<forall>t \<in> set vs. threads k' t = threads k t \<and> \<not> event_sat (threads k t) (ev_set (events k' i))) \<and>
        (\<forall>t \<in> set ts - set vs. is_ready (threads k' t)))"

lemma event_wake_spec:
  assumes "lk_ok th L" "cur c k = th" "n < 0xe0" "kinv k" "lists k (event_queue i) = us @ ts"
  shows "\<exists>k' need'. event_wake c i ts need (mk (lockn c th n L) k) = Some (need', mk (lockn c th n L) k') \<and>
     wake_post c i us ts k k'"
  using assms(2,4,5)
proof (induction ts arbitrary: k us need)
  case Nil
  then show ?case using and_refl_ex by (auto simp: wake_post_def)
next
  case (Cons t ts)
  have w: "waits (threads k t)" using waiter_waits [OF Cons.prems(2), of "event_queue i" t] Cons.prems(3) by simp
  have dist: "t \<notin> set us" "t \<notin> set ts"
    using kinv_distinct [OF Cons.prems(2), of "event_queue i"] Cons.prems(3) by auto
  obtain status es where ch: "event_check (threads k t) (ev_set (events k i)) = (status, es)" by force
  note step = event_wake_step [OF assms(1) Cons.prems(1) assms(3) Cons.prems(2) w ch, of ts need]
  show ?case
  proof (cases status)
    case True
    let ?k = "event_wake_one c i t es k"
    note f = event_wake_one_fields [OF Cons.prems(2,3) w, where c = c and es = es]
    obtain k' need' where k': "event_wake c i ts True (mk (lockn c th n L) ?k) = Some (need', mk (lockn c th n L) k')"
      "wake_post c i us ts ?k k'"
      using Cons.IH [OF _ f(1,4), of True] f(2) Cons.prems(1) by auto
    have "wake_post c i us (t # ts) k k'"
      using k'(2) f(2,3,5,7) dist f(6) unfolding wake_post_def
      by (auto simp: and.assoc) (metis subset_iff)+
    with k'(1) step True show ?thesis by auto
  next
    case False
    then have ns: "\<not> event_sat (threads k t) (ev_set (events k i))" using ch by (simp add: event_sat_def)
    obtain k' need' where k': "event_wake c i ts need (mk (lockn c th n L) k) = Some (need', mk (lockn c th n L) k')"
      "wake_post c i (us @ [t]) ts k k'"
      using Cons.IH [OF Cons.prems(1,2), of "us @ [t]" need] Cons.prems(3) by auto
    then obtain m vs where m: "ev_set (events k' i) = ev_set (events k i) AND m"
      and vs: "lists k' (event_queue i) = (us @ [t]) @ vs" "set vs \<subseteq> set ts"
        "\<forall>t \<in> set vs. threads k' t = threads k t \<and> \<not> event_sat (threads k t) (ev_set (events k' i))"
        "\<forall>t \<in> set ts - set vs. is_ready (threads k' t)"
      by (auto simp: wake_post_def)
    have "\<not> event_sat (threads k t) (ev_set (events k' i))" using ns event_sat_mono unfolding m by blast
    moreover have "threads k' t = threads k t" using k'(2) dist(2) by (simp add: wake_post_def)
    ultimately have "wake_post c i us (t # ts) k k'"
      using k'(2) m vs unfolding wake_post_def
      by (intro conjI exI [of _ "t # vs"]) auto
    with k'(1) step False show ?thesis by auto
  qed
qed

text \<open>
  \<^verbatim>\<open>rt_event_send\<close> returns, and afterwards no waiter is left that the set satisfies; those that left the
  queue are ready.
\<close>

lemma event_send_step:
  assumes ctx: "ipc_ctx c t L k" and ty: "rt_object_get_type (OEvent i) k = RT_Object_Class_Event"
    and nz: "bits \<noteq> 0"
  obtains k' need where "wake_post c i [] (lists k (event_queue i)) (set_event i (ev_set (events k i) OR bits) k) k'"
    "rt_event_send c i bits (mk L k) =
       (if need then do { s \<leftarrow> rt_schedule c (mk L k'); Some (RT_EOK, s) } else Some (RT_EOK, mk L k'))"
proof -
  note d = ipc_ctxD [OF ctx]
  let ?k = "set_event i (ev_set (events k i) OR bits) k"
  have pre: "cur c ?k = Some t" "kinv ?k" "lists ?k (event_queue i) = [] @ lists k (event_queue i)"
    using d by simp_all
  obtain k' need where w: "event_wake c i (lists k (event_queue i)) False (mk (lockn c (Some t) (Suc 0) L) ?k) =
      Some (need, mk (lockn c (Some t) (Suc 0) L) k')"
    "wake_post c i [] (lists k (event_queue i)) ?k k'"
    using event_wake_spec [OF d(1) pre(1) _ pre(2,3), of "Suc 0" False] by auto
  have "cur c k' = Some t" using w(2) d(2) by (simp add: wake_post_def)
  then have "rt_event_send c i bits (mk L k) =
       (if need then do { s \<leftarrow> rt_schedule c (mk L k'); Some (RT_EOK, s) } else Some (RT_EOK, mk L k'))"
    using d ty nz w(1) by (simp add: rt_event_send_def)
  with w(2) show thesis by (rule that)
qed

lemma rt_schedule_event_fields:
  assumes "lk_ok (Some t) L" "cur c k = Some t" "sched_inv k" "c < RT_CPUS_NR"
    and "rt_schedule c (mk L k) = Some s'"
  shows "event_sat (threads (kc s') u) v = event_sat (threads k u) v"
proof -
  have "event_set (threads (kc s') u) = event_set (threads k u) \<and> event_info (threads (kc s') u) = event_info (threads k u)"
  proof (cases rule: rt_schedule_cases [OF assms])
    case (4 to hp)
    then show ?thesis unfolding 4(6) by (auto simp: switch_core_def requeue_core_threads)
  qed simp_all
  then show ?thesis by (simp add: event_sat_def event_check_def)
qed

lemma event_inv_schedule:
  assumes "lk_ok (Some t) L" "cur c k = Some t" "sched_inv k" "c < RT_CPUS_NR"
    and "rt_schedule c (mk L k) = Some s'" "event_inv i k"
  shows "event_inv i (kc s')"
  using assms(6) schedule_keeps_waiters(3) [OF assms(1-5)] schedule_keeps_waiters(6) [OF assms(1-5), of "event_queue i"]
    rt_schedule_event_fields [OF assms(1-5)]
  by (simp add: event_inv_def)

lemma event_send_inv:
  assumes ctx: "ipc_ctx c t L k" and ty: "rt_object_get_type (OEvent i) k = RT_Object_Class_Event"
    and nz: "bits \<noteq> 0" and step: "rt_event_send c i bits (mk L k) = Some (r, s')"
  shows "kinv (kc s')" "event_inv i (kc s')" "r = RT_EOK"
    "u \<in> set (lists k (event_queue i)) \<Longrightarrow> u \<in> set (lists (kc s') (event_queue i)) \<or> is_ready (threads (kc s') u)"
proof -
  note d = ipc_ctxD [OF ctx]
  obtain k' need where w: "wake_post c i [] (lists k (event_queue i)) (set_event i (ev_set (events k i) OR bits) k) k'"
    and snd: "rt_event_send c i bits (mk L k) =
       (if need then do { s \<leftarrow> rt_schedule c (mk L k'); Some (RT_EOK, s) } else Some (RT_EOK, mk L k'))"
    using event_send_step [OF ctx ty nz] .
  have k': "kinv k'" "cur c k' = Some t" "event_inv i k'"
    "\<forall>u \<in> set (lists k (event_queue i)). u \<in> set (lists k' (event_queue i)) \<or> is_ready (threads k' u)"
    using w d(2) by (auto simp: wake_post_def event_inv_def)
  then have si: "sched_inv k'" by (simp add: kinv_def)
  have "kinv (kc s') \<and> event_inv i (kc s') \<and> r = RT_EOK \<and>
    (\<forall>u \<in> set (lists k (event_queue i)). u \<in> set (lists (kc s') (event_queue i)) \<or> is_ready (threads (kc s') u))"
  proof (cases need)
    case True
    then have sch: "rt_schedule c (mk L k') = Some s'" "r = RT_EOK" using step snd by (auto simp: bind_Some_iff)
    show ?thesis
      using rt_schedule_kinv [OF d(1) k'(2,1) d(3) sch(1)] event_inv_schedule [OF d(1) k'(2) si d(3) sch(1) k'(3)]
        schedule_keeps_waiters(6) [OF d(1) k'(2) si d(3) sch(1), of "event_queue i"]
        rt_schedule_ready [OF d(1) k'(2) si d(3) sch(1)] k'(4) sch(2)
      by auto
  next
    case False
    then show ?thesis using step snd k' by auto
  qed
  then show "kinv (kc s')" "event_inv i (kc s')" "r = RT_EOK"
    "u \<in> set (lists k (event_queue i)) \<Longrightarrow> u \<in> set (lists (kc s') (event_queue i)) \<or> is_ready (threads (kc s') u)"
    by auto
qed

section \<open>Receiving\<close>

definition event_match :: "u8 \<Rightarrow> u32 \<Rightarrow> u32 \<Rightarrow> bool" where
  "event_match option bits ev \<longleftrightarrow>
     (if option AND RT_EVENT_FLAG_AND \<noteq> 0 then ev AND bits = bits else ev AND bits \<noteq> 0)"

definition event_option :: "u8 \<Rightarrow> bool" where
  "event_option option \<longleftrightarrow> option AND RT_EVENT_FLAG_AND \<noteq> 0 \<or> option AND RT_EVENT_FLAG_OR \<noteq> 0"

lemma kinv_error [simp]: "kinv (upd_thread t (\<lambda>th. th\<lparr>th_error := e\<rparr>) k) = kinv k"
  by (simp add: sview_def)

lemma event_sat_error [simp]: "event_sat (th\<lparr>th_error := e\<rparr>) v = event_sat th v"
  by (simp add: event_sat_def event_check_def)

lemma event_inv_error [simp]: "event_inv i (upd_thread t (\<lambda>th. th\<lparr>th_error := e\<rparr>) k) = event_inv i k"
  by (auto simp: event_inv_def)

lemma event_inv_clear: "event_inv i k \<Longrightarrow> event_inv i (set_event i (ev_set (events k i) AND m) k)"
  using event_sat_mono by (auto simp: event_inv_def)

lemma event_recv_match:
  assumes ctx: "ipc_ctx c t L k" and ty: "rt_object_get_type (OEvent i) k = RT_Object_Class_Event"
    and nz: "bits \<noteq> 0" and opt: "event_option option" and m: "event_match option bits (ev_set (events k i))"
  shows "rt_event_recv c i bits option timeout (mk L k) =
     Some (Some (RT_EOK, Some (ev_set (events k i) AND bits)),
           mk L (let k1 = upd_thread t (\<lambda>th. th\<lparr>th_error := RT_EOK\<rparr>) k in
                 if option AND RT_EVENT_FLAG_CLEAR \<noteq> 0
                 then set_event i (ev_set (events k i) AND NOT bits) k1 else k1))"
  using ipc_ctxD [OF ctx] ty nz opt m
  by (auto simp: rt_event_recv_def event_option_def event_match_def Let_def)

lemma event_recv_nowait:
  assumes ctx: "ipc_ctx c t L k" and ty: "rt_object_get_type (OEvent i) k = RT_Object_Class_Event"
    and nz: "bits \<noteq> 0" and opt: "event_option option" and m: "\<not> event_match option bits (ev_set (events k i))"
  shows "rt_event_recv c i bits option 0 (mk L k) =
     Some (Some (- RT_ETIMEOUT, None), mk L (upd_thread t (\<lambda>th. th\<lparr>th_error := - RT_ETIMEOUT\<rparr>) k))"
  using ipc_ctxD [OF ctx] ty nz opt m
  by (auto simp: rt_event_recv_def event_option_def event_match_def Let_def)

definition event_wait_core :: "objid \<Rightarrow> u8 \<Rightarrow> tid \<Rightarrow> u32 \<Rightarrow> u8 \<Rightarrow> int \<Rightarrow> kcore \<Rightarrow> kcore" where
  "event_wait_core i flag t bits option timeout k =
     wait_core (event_queue i) flag t timeout (upd_thread t (\<lambda>th. th\<lparr>event_set := bits, event_info := option\<rparr>) k)"

lemma event_recv_blocks:
  assumes ctx: "ipc_ctx c t L k" and ty: "rt_object_get_type (OEvent i) k = RT_Object_Class_Event"
    and nz: "bits \<noteq> 0" and opt: "event_option option" and m: "\<not> event_match option bits (ev_set (events k i))"
    and time: "wait_time timeout"
  shows "rt_event_recv c i bits option timeout (mk L k) =
     do { s \<leftarrow> rt_schedule c (mk L (event_wait_core i (obj_flag (objs k (OEvent i))) t bits option timeout k));
          Some (None, s) }"
proof -
  note d = ipc_ctxD [OF ctx]
  let ?f = "\<lambda>th. th\<lparr>th_error := RT_EOK, event_set := bits, event_info := option\<rparr>"
  have ob: "objs_ok (upd_thread t ?f k)"
    using d(5) by (rule objs_ok_upd_thread) (simp add: started_def)
  have eq: "upd_thread t (\<lambda>th. th\<lparr>event_set := bits, event_info := option, th_error := RT_EOK\<rparr>) k = upd_thread t ?f k"
    by (rule arg_cong [of _ _ "\<lambda>f. upd_thread t f k"]) (intro ext rt_thread.equality; simp)
  show ?thesis
    using d nz ty opt time wait_time_tick [OF time] ob m
    by (cases "option AND RT_EVENT_FLAG_AND = 0")
      (simp_all add: rt_event_recv_def event_wait_core_def wait_core_def wait_time_def
        block_core_def is_ready_def event_option_def event_match_def Let_def eq)
qed

lemma event_recv_inv:
  assumes ctx: "ipc_ctx c t L k" and ty: "rt_object_get_type (OEvent i) k = RT_Object_Class_Event"
    and nz: "bits \<noteq> 0" and opt: "event_option option" and time: "timeout = 0 \<or> wait_time timeout"
    and fl: "ipc_flag (obj_flag (objs k (OEvent i)))"
    and inv: "event_inv i k" and step: "rt_event_recv c i bits option timeout (mk L k) = Some (r, s')"
  shows "kinv (kc s')" "event_inv i (kc s')"
proof -
  note d = ipc_ctxD [OF ctx]
  have nq: "t \<notin> set (lists k (event_queue i))"
    using waiter_waits [OF d(4), of "event_queue i" t] d(6) state_excl(1) by auto
  have "kinv (kc s') \<and> event_inv i (kc s')"
  proof (cases "event_match option bits (ev_set (events k i))")
    case True
    let ?k1 = "upd_thread t (\<lambda>th. th\<lparr>th_error := RT_EOK\<rparr>) k"
    have "event_inv i (set_event i (ev_set (events k i) AND NOT bits) ?k1)"
      using inv event_inv_clear [of i ?k1 "NOT bits"] by simp
    then show ?thesis
      using step event_recv_match [OF ctx ty nz opt True, of timeout] inv d(4)
      by (cases "option AND RT_EVENT_FLAG_CLEAR = 0") (auto simp: Let_def)
  next
    case False
    show ?thesis
    proof (cases "timeout = 0")
      case True
      then show ?thesis
        using step event_recv_nowait [OF ctx ty nz opt False] inv d(4) by auto
    next
      case False': False
      let ?kz = "upd_thread t (\<lambda>th. th\<lparr>event_set := bits, event_info := option\<rparr>) k"
      let ?k = "event_wait_core i (obj_flag (objs k (OEvent i))) t bits option timeout k"
      have sch: "rt_schedule c (mk L ?k) = Some s'"
        using step event_recv_blocks [OF ctx ty nz opt False] time False' by (auto simp: bind_Some_iff)
      have k0: "kinv ?kz" "cur c ?kz = Some t" "is_ready (threads ?kz t)"
        using d by (simp_all add: sview_def is_ready_def)
      have kv: "kinv ?k" "cur c ?k = Some t"
        using wait_core_inv [OF k0(1,2) d(3) k0(3) _ fl, of "event_queue i"] k0(2)
        by (simp_all add: event_wait_core_def)
      have ev: "ev_set (events ?k i) = ev_set (events k i)" by (simp add: event_wait_core_def)
      have "\<not> event_sat (threads ?k t) (ev_set (events k i))"
        using False opt
        by (auto simp: event_wait_core_def event_sat_def event_check_def event_match_def event_option_def and.commute)
      moreover have "event_sat (threads ?k u) v = event_sat (threads k u) v" if "u \<noteq> t" for u v
        using that by (simp add: event_wait_core_def)
      moreover have "set (lists ?k (event_queue i)) = insert t (set (lists k (event_queue i)))"
        using wait_core_queue [OF k0(1,2) d(3) k0(3), of "event_queue i"] fl
        by (simp add: event_wait_core_def queue_insert_set)
      ultimately have "event_inv i ?k" using inv nq unfolding event_inv_def ev by (metis insert_iff)
      then show ?thesis
        using rt_schedule_kinv [OF d(1) kv(2,1) d(3) sch] event_inv_schedule [OF d(1) kv(2) _ d(3) sch] kv(1)
        by (simp add: kinv_def)
    qed
  qed
  then show "kinv (kc s')" "event_inv i (kc s')" by simp_all
qed

section \<open>The calls return\<close>

text \<open>The search loop changes only the wanted bits and the state of threads.\<close>

lemma event_wake_stack:
  assumes "event_wake c i ts need (mk (lockn c th n L) k) = Some (need', mk L' k')" "lk_ok th L" "cur c k = th"
    "n < 0xe0" "kinv k" "lists k (event_queue i) = us @ ts"
  shows "stack_view (threads k' u) = stack_view (threads k u) \<and> (started (threads k' u) \<longrightarrow> started (threads k u))"
  using assms(1,3,5,6)
proof (induction ts arbitrary: k us need)
  case (Cons t ts)
  have w: "waits (threads k t)" using waiter_waits [OF Cons.prems(3), of "event_queue i" t] Cons.prems(4) by simp
  obtain status es where ch: "event_check (threads k t) (ev_set (events k i)) = (status, es)" by force
  note step = event_wake_step [OF assms(2) Cons.prems(2) assms(4) Cons.prems(3) w ch, of ts need]
  show ?case
  proof (cases status)
    case True
    let ?k = "event_wake_one c i t es k"
    note f = event_wake_one_fields [OF Cons.prems(3,4) w, where c = c and es = es]
    have "stack_view (threads k' u) = stack_view (threads ?k u) \<and> (started (threads k' u) \<longrightarrow> started (threads ?k u))"
      using Cons.IH [of True ?k us] Cons.prems(1) step True f(1,2,4) Cons.prems(2) by simp
    moreover have "stack_view (threads ?k u) = stack_view (threads k u)"
      by (simp add: event_wake_one_def Let_def stack_view_def)
    moreover have "started (threads ?k u) \<Longrightarrow> started (threads k u)"
      using f(6) [of u] state_excl(3) [OF w] by (cases "u = t") auto
    ultimately show ?thesis by simp
  next
    case False
    then show ?thesis using Cons.IH [of need k "us @ [t]"] Cons.prems step by simp
  qed
qed simp

lemma event_send_returns:
  assumes ctx: "ipc_ctx c t L k" and ty: "rt_object_get_type (OEvent i) k = RT_Object_Class_Event" and st: "stacks_ok k"
  shows "\<exists>r s'. rt_event_send c i bits (mk L k) = Some (r, s')"
proof (cases "bits = 0")
  case False
  note d = ipc_ctxD [OF ctx]
  let ?k = "set_event i (ev_set (events k i) OR bits) k"
  have pre: "cur c ?k = Some t" "kinv ?k" "lists ?k (event_queue i) = [] @ lists k (event_queue i)"
    using d by simp_all
  obtain k' need where w: "event_wake c i (lists k (event_queue i)) False (mk (lockn c (Some t) (Suc 0) L) ?k) =
      Some (need, mk (lockn c (Some t) (Suc 0) L) k')"
    "wake_post c i [] (lists k (event_queue i)) ?k k'"
    using event_wake_spec [OF d(1) pre(1) _ pre(2,3), of "Suc 0" False] by auto
  have k': "kinv k'" "cur c k' = Some t" using w(2) d(2) by (simp_all add: wake_post_def)
  have "\<exists>s'. rt_schedule c (mk L k') = Some s'"
    using event_wake_stack [OF w(1) d(1) pre(1) _ pre(2,3)] by (intro schedule_after [OF ctx st k']) simp_all
  moreover have "rt_event_send c i bits (mk L k) =
       (if need then do { s \<leftarrow> rt_schedule c (mk L k'); Some (RT_EOK, s) } else Some (RT_EOK, mk L k'))"
    using d ty False w(1) k'(2) by (simp add: rt_event_send_def)
  ultimately show ?thesis by (cases need) auto
qed (use ty in \<open>simp add: rt_event_send_def\<close>)

lemma event_recv_returns:
  assumes ctx: "ipc_ctx c t L k" and ty: "rt_object_get_type (OEvent i) k = RT_Object_Class_Event"
    and nz: "bits \<noteq> 0" and opt: "event_option option" and time: "timeout = 0 \<or> wait_time timeout"
    and fl: "ipc_flag (obj_flag (objs k (OEvent i)))" and st: "stacks_ok k"
  shows "\<exists>r s'. rt_event_recv c i bits option timeout (mk L k) = Some (r, s')"
proof (cases "event_match option bits (ev_set (events k i)) \<or> timeout = 0")
  case True
  then show ?thesis
    using event_recv_match [OF ctx ty nz opt, of timeout] event_recv_nowait [OF ctx ty nz opt] by metis
next
  case False
  note d = ipc_ctxD [OF ctx]
  let ?kz = "upd_thread t (\<lambda>th. th\<lparr>event_set := bits, event_info := option\<rparr>) k"
  let ?k = "event_wait_core i (obj_flag (objs k (OEvent i))) t bits option timeout k"
  have k0: "kinv ?kz" "cur c ?kz = Some t" "is_ready (threads ?kz t)"
    using d by (simp_all add: sview_def is_ready_def)
  have kv: "kinv ?k" "cur c ?k = Some t"
    using wait_core_inv [OF k0(1,2) d(3) k0(3) _ fl, of "event_queue i"] k0(2) by (simp_all add: event_wait_core_def)
  have "started (threads k t)" using d(6) by (simp add: state_excl)
  then have "\<exists>s'. rt_schedule c (mk L ?k) = Some s'"
    by (intro schedule_after [OF ctx st kv])
      (auto simp: event_wait_core_def stack_view_def started_def split: if_splits)
  then show ?thesis using event_recv_blocks [OF ctx ty nz opt] False time by auto
qed

end
