(* ===== verification/Rt_Fifo.thy ===== *)
theory Rt_Fifo
  imports Rt_Prelude
begin

text \<open>
  The contract of a bounded first-in first-out buffer, which the mailbox and the byte ring buffer
  both implement with a circular array. An operation that would touch memory outside its array is
  \<open>None\<close>, so the laws include memory safety. From the laws follows that any interleaving of puts
  and gets that a bounded list accepts behaves as on that list.
\<close>

datatype 'a fifo_op = Put 'a | Get

text \<open>The reference: a list bounded by \<open>n\<close>.\<close>

fun queue_run :: "nat \<Rightarrow> 'a fifo_op list \<Rightarrow> 'a list \<Rightarrow> ('a list \<times> 'a list) option" where
  "queue_run n [] q = Some ([], q)"
| "queue_run n (Put v # ops) q = (if length q < n then queue_run n ops (q @ [v]) else None)"
| "queue_run n (Get # ops) q =
     (case q of [] \<Rightarrow> None
      | v # q \<Rightarrow> do { (out, q) \<leftarrow> queue_run n ops q; Some (v # out, q) })"

fun fifo_run :: "('a \<Rightarrow> 'b \<Rightarrow> 'b option) \<Rightarrow> ('b \<Rightarrow> ('a \<times> 'b) option) \<Rightarrow> 'a fifo_op list \<Rightarrow> 'b \<Rightarrow> ('a list \<times> 'b) option" where
  "fifo_run enq deq [] b = Some ([], b)"
| "fifo_run enq deq (Put v # ops) b = do { b \<leftarrow> enq v b; fifo_run enq deq ops b }"
| "fifo_run enq deq (Get # ops) b =
     do { (v, b) \<leftarrow> deq b; (out, b) \<leftarrow> fifo_run enq deq ops b; Some (v # out, b) }"

lemma puts_gets_run:
  assumes "length q + length vs \<le> n"
  shows "queue_run n (map Put vs @ replicate (length q + length vs) Get) q = Some (q @ vs, [])"
proof -
  have gets: "queue_run n (replicate (length p) Get) p = Some (p, [])" for p
    by (induction p) simp_all
  show ?thesis using assms
  proof (induction vs arbitrary: q)
    case (Cons v vs)
    then show ?case using Cons.IH [of "q @ [v]"] by simp
  qed (simp add: gets)
qed

locale bounded_fifo =
  fixes wf :: "'b \<Rightarrow> bool" and contents :: "'b \<Rightarrow> 'a list" and capacity :: "'b \<Rightarrow> nat"
    and enq :: "'a \<Rightarrow> 'b \<Rightarrow> 'b option" and deq :: "'b \<Rightarrow> ('a \<times> 'b) option"
  assumes within: "wf b \<Longrightarrow> length (contents b) \<le> capacity b"
    and enq_ok: "wf b \<Longrightarrow> length (contents b) < capacity b \<Longrightarrow>
      \<exists>b'. enq v b = Some b' \<and> wf b' \<and> contents b' = contents b @ [v] \<and> capacity b' = capacity b"
    and deq_ok: "wf b \<Longrightarrow> contents b = v # vs \<Longrightarrow>
      \<exists>b'. deq b = Some (v, b') \<and> wf b' \<and> contents b' = vs \<and> capacity b' = capacity b"
begin

lemma run_refines:
  assumes "wf b" "queue_run (capacity b) ops (contents b) = Some (out, q)"
  shows "\<exists>b'. fifo_run enq deq ops b = Some (out, b') \<and> wf b' \<and> contents b' = q \<and> capacity b' = capacity b"
  using assms
proof (induction ops arbitrary: b out)
  case (Cons op ops)
  show ?case
  proof (cases op)
    case (Put v)
    then have room: "length (contents b) < capacity b" using Cons.prems(2) by (auto split: if_splits)
    obtain b' where b': "enq v b = Some b'" "wf b'" "contents b' = contents b @ [v]" "capacity b' = capacity b"
      using enq_ok [OF Cons.prems(1) room] by blast
    then show ?thesis using Cons.IH [OF b'(2)] Cons.prems(2) Put room by simp
  next
    case Get
    then obtain v vs where c: "contents b = v # vs" using Cons.prems(2) by (auto split: list.splits)
    obtain b' where b': "deq b = Some (v, b')" "wf b'" "contents b' = vs" "capacity b' = capacity b"
      using deq_ok [OF Cons.prems(1) c] by blast
    obtain out' where "queue_run (capacity b') ops (contents b') = Some (out', q)" "out = v # out'"
      using Cons.prems(2) Get c b'(3,4) by (auto simp: bind_eq_Some_conv)
    then show ?thesis using Cons.IH [OF b'(2)] Get b'(1,4) by auto
  qed
qed simp

text \<open>What is put into an empty buffer comes out again, in the same order.\<close>

lemma round_trip:
  assumes "wf b" "contents b = []" "length vs \<le> capacity b"
  shows "\<exists>b'. fifo_run enq deq (map Put vs @ replicate (length vs) Get) b = Some (vs, b') \<and> wf b' \<and> contents b' = []"
  using run_refines [OF assms(1)] puts_gets_run [of "[]" vs "capacity b"] assms(2,3) by fastforce

end

text \<open>
  A circular array: \<open>n\<close> elements of \<open>xs\<close> from position \<open>r\<close> on, going round at the end.
\<close>

definition ring_contents :: "'a list \<Rightarrow> nat \<Rightarrow> nat \<Rightarrow> 'a list" where
  "ring_contents xs r n = map (\<lambda>j. xs ! ((r + j) mod length xs)) [0..<n]"

lemma ring_contents_length [simp]: "length (ring_contents xs r n) = n"
  by (simp add: ring_contents_def)

lemma ring_contents_0 [simp]: "ring_contents xs r 0 = []"
  by (simp add: ring_contents_def)

lemma ring_write_other:
  assumes "w = (r + n) mod length xs" "n < length xs" "j < n"
  shows "(r + j) mod length xs \<noteq> w"
proof
  assume "(r + j) mod length xs = w"
  then have "(r + n) mod length xs = (r + j) mod length xs" using assms(1) by simp
  then have "length xs dvd (r + n) - (r + j)" by (rule mod_eq_dvd_iff_nat [THEN iffD1, rotated]) (use assms in simp)
  then have "length xs dvd n - j" by simp
  then show False using assms(2,3) by (auto dest: dvd_imp_le)
qed

lemma ring_contents_write:
  assumes "w = (r + n) mod length xs" "n < length xs"
  shows "ring_contents (xs[w := v]) r (Suc n) = ring_contents xs r n @ [v]"
proof -
  have "w < length xs" using assms by (cases "length xs") auto
  then have "ring_contents (xs[w := v]) r (Suc n) = map (\<lambda>j. xs[w := v] ! ((r + j) mod length xs)) [0..<n] @ [v]"
    using assms(1) by (simp add: ring_contents_def)
  also have "map (\<lambda>j. xs[w := v] ! ((r + j) mod length xs)) [0..<n] = ring_contents xs r n"
    unfolding ring_contents_def
  proof (rule map_cong)
    fix j assume "j \<in> set [0..<n]"
    then have "(r + j) mod length xs \<noteq> w" using ring_write_other [OF assms] by simp
    then show "xs[w := v] ! ((r + j) mod length xs) = xs ! ((r + j) mod length xs)" by simp
  qed simp
  finally show ?thesis .
qed

lemma ring_contents_read:
  assumes "r < length xs"
  shows "ring_contents xs r (Suc n) = xs ! r # ring_contents xs (Suc r mod length xs) n"
proof -
  have "map (\<lambda>j. xs ! ((r + j) mod length xs)) [0..<Suc n] =
      xs ! r # map (\<lambda>j. xs ! ((r + Suc j) mod length xs)) [0..<n]"
    using assms by (simp add: upt_conv_Cons map_Suc_upt [symmetric] comp_def del: upt_Suc)
  moreover have "(r + Suc j) mod length xs = (Suc r mod length xs + j) mod length xs" for j
    by (simp add: mod_simps)
  ultimately show ?thesis by (simp add: ring_contents_def)
qed

lemma ring_next: "r < n \<Longrightarrow> Suc r mod n = (if Suc r \<ge> n then 0 else Suc r)"
  by (cases "Suc r = n") auto

text \<open>Writing and reading a block at once, as one or two contiguous pieces.\<close>

fun ring_put :: "'a list \<Rightarrow> nat \<Rightarrow> 'a list \<Rightarrow> 'a list" where
  "ring_put xs w [] = xs"
| "ring_put xs w (v # vs) = ring_put (xs[w := v]) (Suc w mod length xs) vs"

lemma ring_put_length [simp]: "length (ring_put xs w vs) = length xs"
  by (induction vs arbitrary: xs w) simp_all

lemma ring_put_append:
  "w < length xs \<Longrightarrow> ring_put xs w (us @ vs) = ring_put (ring_put xs w us) ((w + length us) mod length xs) vs"
proof (induction us arbitrary: xs w)
  case (Cons u us)
  have "Suc w mod length xs < length xs" using Cons.prems by (simp add: mod_less_divisor [OF le_less_trans [OF le0]])
  then have "ring_put (xs[w := u]) (Suc w mod length xs) (us @ vs) =
      ring_put (ring_put (xs[w := u]) (Suc w mod length xs) us) ((Suc w mod length xs + length us) mod length xs) vs"
    using Cons.IH [of "Suc w mod length xs" "xs[w := u]"] by simp
  then show ?case by (simp add: mod_simps)
qed simp

lemma ring_put_contents:
  assumes "w = (r + n) mod length xs" "n + length vs \<le> length xs"
  shows "ring_contents (ring_put xs w vs) r (n + length vs) = ring_contents xs r n @ vs"
  using assms
proof (induction vs arbitrary: xs w n)
  case (Cons v vs)
  have "Suc w mod length xs = (r + Suc n) mod length (xs[w := v])" using Cons.prems(1) by (simp add: mod_simps)
  from Cons.IH [OF this] Cons.prems ring_contents_write [of w r n xs v]
  show ?case by simp
qed simp

lemma ring_put_straight:
  "w + length vs \<le> length xs \<Longrightarrow> w < length xs \<Longrightarrow>
     ring_put xs w vs = take w xs @ vs @ drop (w + length vs) xs"
proof (induction vs arbitrary: xs w)
  case (Cons v vs)
  show ?case
  proof (cases vs)
    case Nil
    then show ?thesis using Cons.prems by (simp add: upd_conv_take_nth_drop)
  next
    case (Cons a list)
    with Cons.prems Cons.IH [of "Suc w" "xs[w := v]"] show ?thesis
      by (simp add: take_Suc_conv_app_nth take_update_cancel drop_update_cancel)
  qed
qed simp

lemma ring_put_wrap:
  assumes "w < length xs" "length vs \<le> length xs" "length xs - w \<le> length vs"
  shows "ring_put xs w vs =
     drop (length xs - w) vs @ drop (length vs - (length xs - w)) (take w xs @ take (length xs - w) vs)"
proof -
  let ?f = "length xs - w"
  have "ring_put xs w (take ?f vs @ drop ?f vs) = ring_put (ring_put xs w (take ?f vs)) 0 (drop ?f vs)"
    using assms by (subst ring_put_append) simp_all
  moreover have "ring_put xs w (take ?f vs) = take w xs @ take ?f vs" using assms by (subst ring_put_straight) simp_all
  moreover have "ring_put (take w xs @ take ?f vs) 0 (drop ?f vs) =
      drop ?f vs @ drop (length vs - ?f) (take w xs @ take ?f vs)"
    using assms ring_put_straight [of 0 "drop ?f vs" "take w xs @ take ?f vs"] by force
  ultimately show ?thesis by simp
qed

lemma ring_contents_add:
  "ring_contents xs r (m + n) = ring_contents xs r m @ ring_contents xs ((r + m) mod length xs) n"
proof -
  have "map (\<lambda>j. xs ! ((r + j) mod length xs)) [m..<m + n] = map (\<lambda>j. xs ! ((r + m + j) mod length xs)) [0..<n]"
    by (rule nth_equalityI) (simp_all add: add.assoc)
  then show ?thesis by (simp add: ring_contents_def upt_add_eq_append [of 0 m n, simplified] mod_simps)
qed

lemma ring_contents_straight:
  "r + m \<le> length xs \<Longrightarrow> ring_contents xs r m = take m (drop r xs)"
  by (rule nth_equalityI) (simp_all add: ring_contents_def)

lemma ring_contents_wrap:
  assumes "r < length xs" "length xs - r \<le> m" "m \<le> length xs"
  shows "ring_contents xs r m = drop r xs @ take (m - (length xs - r)) xs"
proof -
  have "ring_contents xs r ((length xs - r) + (m - (length xs - r))) =
      take (length xs - r) (drop r xs) @ ring_contents xs 0 (m - (length xs - r))"
    unfolding ring_contents_add using assms by (simp add: ring_contents_straight)
  then show ?thesis using assms by (simp add: ring_contents_straight)
qed

end
