(* ===== verification/Rt_Mailbox.thy ===== *)
theory Rt_Mailbox
  imports Rt_Ipc Rt_Fifo
begin

text \<open>
  Mailboxes, \<^verbatim>\<open>src/ipc.c\<close> lines 1291 to 1755: a circular array of words with a wait queue of
  receivers and one of senders. The array operations are a bounded FIFO; the calls add blocking. A
  call that blocks returns \<open>Inr (tick_delta, timeout)\<close>, the two local variables that its
  continuation needs.
\<close>

section \<open>Blocking in a loop\<close>

text \<open>
  The body of the waiting loop that \<^verbatim>\<open>rt_mb_send_wait\<close>, \<^verbatim>\<open>rt_mb_recv\<close> and
  \<^verbatim>\<open>rt_mq_recv\<close> share, from suspending the caller to \<^verbatim>\<open>rt_schedule\<close>, and the time that
  is left when the caller runs again.
\<close>

definition ipc_wait ::
    "cpu_id \<Rightarrow> lhead \<Rightarrow> tid \<Rightarrow> u8 \<Rightarrow> bool \<Rightarrow> u32 \<Rightarrow> int \<Rightarrow> kstate \<Rightarrow> ((u32 \<times> int) \<times> kstate) option" where
  "ipc_wait c h t flag temp tick_delta timeout s =
     do { (_, s) \<leftarrow> rt_ipc_list_suspend c h t flag s;
          (tick_delta, s) \<leftarrow>
            (if timeout > 0 then
               do { let tick_delta = rt_tick_get (kc s);
                    (_, _, s) \<leftarrow> rt_timer_control (OThreadTimer t) (TIMER_SET_TIME (word_of_int timeout)) s;
                    (_, s) \<leftarrow> rt_timer_start c (OThreadTimer t) s;
                    Some (tick_delta, s) }
             else Some (tick_delta, s));
          let s = rt_hw_interrupt_enable c temp s;
          s \<leftarrow> rt_schedule c s;
          Some ((tick_delta, timeout), s) }"

definition time_left :: "u32 \<Rightarrow> u32 \<Rightarrow> int \<Rightarrow> int" where
  "time_left now tick_delta timeout =
     (if timeout > 0 then
        let timeout = wrap32 (timeout - uint (now - tick_delta)) in if timeout < 0 then 0 else timeout
      else timeout)"

section \<open>The array\<close>

definition mb_put :: "u32 \<Rightarrow> rt_mailbox \<Rightarrow> rt_mailbox option" where
  "mb_put v mb =
     (if unat (in_offset mb) < length (mb_pool mb) then
        let off = in_offset mb + 1 in
        Some (mb\<lparr>mb_pool := (mb_pool mb)[unat (in_offset mb) := v],
                 in_offset := (if off \<ge> mb_size mb then 0 else off),
                 mb_entry := mb_entry mb + 1\<rparr>)
      else None)"

definition mb_get :: "rt_mailbox \<Rightarrow> (u32 \<times> rt_mailbox) option" where
  "mb_get mb =
     (if unat (out_offset mb) < length (mb_pool mb) then
        let off = out_offset mb + 1 in
        Some (mb_pool mb ! unat (out_offset mb),
              mb\<lparr>out_offset := (if off \<ge> mb_size mb then 0 else off), mb_entry := mb_entry mb - 1\<rparr>)
      else None)"

section \<open>Operations\<close>

abbreviation mb_queue :: "objid \<Rightarrow> lhead" where
  "mb_queue i \<equiv> SuspendQ (OMailBox i)"

abbreviation mb_senders :: "objid \<Rightarrow> lhead" where
  "mb_senders i \<equiv> SenderQ (OMailBox i)"

definition set_mb :: "objid \<Rightarrow> rt_mailbox \<Rightarrow> kcore \<Rightarrow> kcore" where
  "set_mb i mb k = k\<lparr>mailboxes := (mailboxes k)(i := mb)\<rparr>"

definition mb_init_fields :: "objid \<Rightarrow> u8 \<Rightarrow> u32 list \<Rightarrow> u32 \<Rightarrow> kcore \<Rightarrow> kcore" where
  "mb_init_fields i flag pool sz k =
     (let k = rt_ipc_object_init (OMailBox i) (upd_obj (OMailBox i) (\<lambda>ob. ob\<lparr>obj_flag := flag\<rparr>) k);
          k = set_mb i \<lparr>mb_pool = pool, mb_size = ucast sz, mb_entry = 0, in_offset = 0, out_offset = 0\<rparr> k
      in k\<lparr>lists := (lists k)(mb_senders i := [])\<rparr>)"

text \<open>\<open>pool\<close> is the array of words the caller hands over, with its present contents.\<close>

definition rt_mb_init ::
    "cpu_id \<Rightarrow> objid \<Rightarrow> u8 list \<Rightarrow> u32 list \<Rightarrow> u32 \<Rightarrow> u8 \<Rightarrow> kstate \<Rightarrow> (rt_err_t \<times> kstate) option" where
  "rt_mb_init c i name pool sz flag s =
     do { s \<leftarrow> rt_object_init c (OMailBox i) RT_Object_Class_MailBox name s;
          Some (RT_EOK, s\<lparr>kc := mb_init_fields i flag pool sz (kc s)\<rparr>) }"

definition rt_mb_detach :: "cpu_id \<Rightarrow> objid \<Rightarrow> kstate \<Rightarrow> (rt_err_t \<times> kstate) option" where
  "rt_mb_detach c i s =
     do { RT_ASSERT (rt_object_get_type (OMailBox i) (kc s) = RT_Object_Class_MailBox);
          RT_ASSERT (rt_object_is_systemobject (OMailBox i) (kc s));
          (_, s) \<leftarrow> rt_ipc_list_resume_all c (mb_queue i) s;
          (_, s) \<leftarrow> rt_ipc_list_resume_all c (mb_senders i) s;
          s \<leftarrow> rt_object_detach c (OMailBox i) s;
          Some (RT_EOK, s) }"

text \<open>
  \<open>mem\<close> and \<open>malloc\<close> are the results of the two allocations; the second is asked for the
  truncated size.
\<close>

definition rt_mb_create ::
    "cpu_id \<Rightarrow> u8 list \<Rightarrow> u32 \<Rightarrow> u8 \<Rightarrow> objid option \<Rightarrow> (u16 \<Rightarrow> u32 list option) \<Rightarrow> kstate \<Rightarrow>
      (objid option \<times> kstate) option" where
  "rt_mb_create c name sz flag mem malloc s =
     do { s \<leftarrow> RT_DEBUG_NOT_IN_INTERRUPT c s;
          (mb, s) \<leftarrow> rt_object_allocate c RT_Object_Class_MailBox name (map_option OMailBox mem) s;
          case mb of
            Some (OMailBox i) \<Rightarrow>
              do { let s = s\<lparr>kc := rt_ipc_object_init (OMailBox i)
                               (upd_obj (OMailBox i) (\<lambda>ob. ob\<lparr>obj_flag := flag\<rparr>) (kc s))\<rparr>;
                   let s = s\<lparr>kc := set_mb i ((mailboxes (kc s) i)\<lparr>mb_size := ucast sz\<rparr>) (kc s)\<rparr>;
                   case malloc (mb_size (mailboxes (kc s) i)) of
                     None \<Rightarrow> do { s \<leftarrow> rt_object_delete c (OMailBox i) s; Some (None, s) }
                   | Some pool \<Rightarrow>
                       do { let s = s\<lparr>kc := set_mb i ((mailboxes (kc s) i)\<lparr>mb_pool := pool, mb_entry := 0,
                                                        in_offset := 0, out_offset := 0\<rparr>) (kc s)\<rparr>;
                            let s = s\<lparr>kc := (kc s)\<lparr>lists := (lists (kc s))(mb_senders i := [])\<rparr>\<rparr>;
                            Some (Some i, s) } }
          | _ \<Rightarrow> Some (None, s) }"

text \<open>Freeing the pool leaves no words in it.\<close>

definition rt_mb_delete :: "cpu_id \<Rightarrow> objid \<Rightarrow> kstate \<Rightarrow> (rt_err_t \<times> kstate) option" where
  "rt_mb_delete c i s =
     do { s \<leftarrow> RT_DEBUG_NOT_IN_INTERRUPT c s;
          RT_ASSERT (rt_object_get_type (OMailBox i) (kc s) = RT_Object_Class_MailBox);
          RT_ASSERT (\<not> rt_object_is_systemobject (OMailBox i) (kc s));
          (_, s) \<leftarrow> rt_ipc_list_resume_all c (mb_queue i) s;
          (_, s) \<leftarrow> rt_ipc_list_resume_all c (mb_senders i) s;
          let s = s\<lparr>kc := set_mb i ((mailboxes (kc s) i)\<lparr>mb_pool := []\<rparr>) (kc s)\<rparr>;
          s \<leftarrow> rt_object_delete c (OMailBox i) s;
          Some (RT_EOK, s) }"

text \<open>Waking one waiter of the other side, or none, and leaving the critical section.\<close>

definition wake_one :: "cpu_id \<Rightarrow> lhead \<Rightarrow> bool \<Rightarrow> kstate \<Rightarrow> kstate option" where
  "wake_one c h temp s =
     (if lists (kc s) h \<noteq> [] then
        do { (_, s) \<leftarrow> rt_ipc_list_resume c h s;
             rt_schedule c (rt_hw_interrupt_enable c temp s) }
      else Some (rt_hw_interrupt_enable c temp s))"

text \<open>The loop of \<^verbatim>\<open>rt_mb_send_wait\<close> up to its first suspension, and what follows it.\<close>

definition mb_send_loop ::
    "cpu_id \<Rightarrow> objid \<Rightarrow> u32 \<Rightarrow> tid option \<Rightarrow> bool \<Rightarrow> u32 \<Rightarrow> int \<Rightarrow> kstate \<Rightarrow> ((rt_err_t + (u32 \<times> int)) \<times> kstate) option" where
  "mb_send_loop c i v thread temp tick_delta timeout s =
     (let mb = mailboxes (kc s) i in
      if mb_entry mb = mb_size mb then
        do { t \<leftarrow> thread;
             let s = s\<lparr>kc := upd_thread t (\<lambda>th. th\<lparr>th_error := RT_EOK\<rparr>) (kc s)\<rparr>;
             if timeout = 0 then Some (Inl (- RT_EFULL), rt_hw_interrupt_enable c temp s)
             else
               do { s \<leftarrow> RT_DEBUG_IN_THREAD_CONTEXT c s;
                    (w, s) \<leftarrow> ipc_wait c (mb_senders i) t (obj_flag (objs (kc s) (OMailBox i))) temp tick_delta timeout s;
                    Some (Inr w, s) } }
      else
        do { mb \<leftarrow> mb_put v mb;
             s \<leftarrow> wake_one c (mb_queue i) temp (s\<lparr>kc := set_mb i mb (kc s)\<rparr>);
             Some (Inl RT_EOK, s) })"

definition rt_mb_send_wait ::
    "cpu_id \<Rightarrow> objid \<Rightarrow> u32 \<Rightarrow> int \<Rightarrow> kstate \<Rightarrow> ((rt_err_t + (u32 \<times> int)) \<times> kstate) option" where
  "rt_mb_send_wait c i v timeout s =
     do { RT_ASSERT (rt_object_get_type (OMailBox i) (kc s) = RT_Object_Class_MailBox);
          let (thread, s) = rt_thread_self c s;
          (temp, s) \<leftarrow> rt_hw_interrupt_disable c s;
          if mb_entry (mailboxes (kc s) i) = mb_size (mailboxes (kc s) i) \<and> timeout = 0
          then Some (Inl (- RT_EFULL), rt_hw_interrupt_enable c temp s)
          else mb_send_loop c i v thread temp 0 timeout s }"

text \<open>When the sender runs again.\<close>

definition rt_mb_send_cont ::
    "cpu_id \<Rightarrow> objid \<Rightarrow> u32 \<Rightarrow> tid \<Rightarrow> u32 \<times> int \<Rightarrow> kstate \<Rightarrow> ((rt_err_t + (u32 \<times> int)) \<times> kstate) option" where
  "rt_mb_send_cont c i v t w s =
     (if th_error (threads (kc s) t) \<noteq> RT_EOK then Some (Inl (th_error (threads (kc s) t)), s)
      else
        do { (temp, s) \<leftarrow> rt_hw_interrupt_disable c s;
             mb_send_loop c i v (Some t) temp (fst w) (time_left (rt_tick_get (kc s)) (fst w) (snd w)) s })"

definition rt_mb_send :: "cpu_id \<Rightarrow> objid \<Rightarrow> u32 \<Rightarrow> kstate \<Rightarrow> ((rt_err_t + (u32 \<times> int)) \<times> kstate) option" where
  "rt_mb_send c i v s = rt_mb_send_wait c i v 0 s"

text \<open>The received word is the second component of an \<open>Inl\<close> result.\<close>

definition mb_recv_loop ::
    "cpu_id \<Rightarrow> objid \<Rightarrow> tid option \<Rightarrow> bool \<Rightarrow> u32 \<Rightarrow> int \<Rightarrow> kstate \<Rightarrow>
      (((rt_err_t \<times> u32 option) + (u32 \<times> int)) \<times> kstate) option" where
  "mb_recv_loop c i thread temp tick_delta timeout s =
     (let mb = mailboxes (kc s) i in
      if mb_entry mb = 0 then
        do { t \<leftarrow> thread;
             let s = s\<lparr>kc := upd_thread t (\<lambda>th. th\<lparr>th_error := RT_EOK\<rparr>) (kc s)\<rparr>;
             if timeout = 0 then
               let s = rt_hw_interrupt_enable c temp s in
               Some (Inl (- RT_ETIMEOUT, None), s\<lparr>kc := upd_thread t (\<lambda>th. th\<lparr>th_error := - RT_ETIMEOUT\<rparr>) (kc s)\<rparr>)
             else
               do { s \<leftarrow> RT_DEBUG_IN_THREAD_CONTEXT c s;
                    (w, s) \<leftarrow> ipc_wait c (mb_queue i) t (obj_flag (objs (kc s) (OMailBox i))) temp tick_delta timeout s;
                    Some (Inr w, s) } }
      else
        do { (v, mb) \<leftarrow> mb_get mb;
             s \<leftarrow> wake_one c (mb_senders i) temp (s\<lparr>kc := set_mb i mb (kc s)\<rparr>);
             Some (Inl (RT_EOK, Some v), s) })"

definition rt_mb_recv ::
    "cpu_id \<Rightarrow> objid \<Rightarrow> int \<Rightarrow> kstate \<Rightarrow> (((rt_err_t \<times> u32 option) + (u32 \<times> int)) \<times> kstate) option" where
  "rt_mb_recv c i timeout s =
     do { RT_ASSERT (rt_object_get_type (OMailBox i) (kc s) = RT_Object_Class_MailBox);
          let (thread, s) = rt_thread_self c s;
          (temp, s) \<leftarrow> rt_hw_interrupt_disable c s;
          if mb_entry (mailboxes (kc s) i) = 0 \<and> timeout = 0
          then Some (Inl (- RT_ETIMEOUT, None), rt_hw_interrupt_enable c temp s)
          else mb_recv_loop c i thread temp 0 timeout s }"

definition rt_mb_recv_cont ::
    "cpu_id \<Rightarrow> objid \<Rightarrow> tid \<Rightarrow> u32 \<times> int \<Rightarrow> kstate \<Rightarrow>
      (((rt_err_t \<times> u32 option) + (u32 \<times> int)) \<times> kstate) option" where
  "rt_mb_recv_cont c i t w s =
     (if th_error (threads (kc s) t) \<noteq> RT_EOK then Some (Inl (th_error (threads (kc s) t), None), s)
      else
        do { (temp, s) \<leftarrow> rt_hw_interrupt_disable c s;
             mb_recv_loop c i (Some t) temp (fst w) (time_left (rt_tick_get (kc s)) (fst w) (snd w)) s })"

definition rt_mb_control :: "cpu_id \<Rightarrow> objid \<Rightarrow> ipc_cmd \<Rightarrow> kstate \<Rightarrow> (rt_err_t \<times> kstate) option" where
  "rt_mb_control c i cmd s =
     do { RT_ASSERT (rt_object_get_type (OMailBox i) (kc s) = RT_Object_Class_MailBox);
          case cmd of
            IPC_CMD_RESET _ \<Rightarrow>
              do { (level, s) \<leftarrow> rt_hw_interrupt_disable c s;
                   (_, s) \<leftarrow> rt_ipc_list_resume_all c (mb_queue i) s;
                   (_, s) \<leftarrow> rt_ipc_list_resume_all c (mb_senders i) s;
                   let s = s\<lparr>kc := set_mb i ((mailboxes (kc s) i)\<lparr>mb_entry := 0, in_offset := 0, out_offset := 0\<rparr>) (kc s)\<rparr>;
                   let s = rt_hw_interrupt_enable c level s;
                   s \<leftarrow> rt_schedule c s;
                   Some (RT_EOK, s) }
          | IPC_CMD_OTHER \<Rightarrow> Some (- RT_ERROR, s) }"

section \<open>The array is a bounded FIFO\<close>

definition mb_contents :: "rt_mailbox \<Rightarrow> u32 list" where
  "mb_contents mb = ring_contents (mb_pool mb) (unat (out_offset mb)) (unat (mb_entry mb))"

definition mb_capacity :: "rt_mailbox \<Rightarrow> nat" where
  "mb_capacity mb = unat (mb_size mb)"

definition mb_wf :: "rt_mailbox \<Rightarrow> bool" where
  "mb_wf mb \<longleftrightarrow>
     length (mb_pool mb) = unat (mb_size mb) \<and> mb_entry mb \<le> mb_size mb \<and>
     (mb_size mb > 0 \<longrightarrow> out_offset mb < mb_size mb \<and>
        unat (in_offset mb) = (unat (out_offset mb) + unat (mb_entry mb)) mod unat (mb_size mb))"

lemma offset_next:
  assumes "(off :: u16) < sz"
  shows "unat (if off + 1 \<ge> sz then 0 else off + 1) = Suc (unat off) mod unat sz"
proof -
  have "unat (off + 1) = Suc (unat off)"
    using assms by (rule unat_Suc_less)
  moreover have "Suc (unat off) mod unat sz = (if Suc (unat off) \<ge> unat sz then 0 else Suc (unat off))"
    using assms by (intro ring_next) (simp add: word_less_nat_alt)
  ultimately show ?thesis by (simp add: word_le_nat_alt)
qed

lemma mb_put_ok:
  assumes wf: "mb_wf mb" and room: "length (mb_contents mb) < mb_capacity mb"
  shows "\<exists>mb'. mb_put v mb = Some mb' \<and> mb_wf mb' \<and> mb_contents mb' = mb_contents mb @ [v] \<and>
     mb_capacity mb' = mb_capacity mb"
proof -
  have e: "unat (mb_entry mb) < unat (mb_size mb)" using room by (simp add: mb_contents_def mb_capacity_def word_unat_eq_iff)
  then have pos: "mb_size mb > 0" by (simp add: word_less_nat_alt)
  have w: "unat (in_offset mb) = (unat (out_offset mb) + unat (mb_entry mb)) mod length (mb_pool mb)"
    and len: "length (mb_pool mb) = unat (mb_size mb)" and out: "out_offset mb < mb_size mb"
    using wf pos by (simp_all add: mb_wf_def)
  have inl: "in_offset mb < mb_size mb" using w len e by (simp add: word_less_nat_alt)
  have e1: "unat (mb_entry mb + 1) = Suc (unat (mb_entry mb))"
    using e by (intro unat_Suc_less [of _ "mb_size mb"]) (simp add: word_less_nat_alt)
  define mb' where "mb' = mb\<lparr>mb_pool := (mb_pool mb)[unat (in_offset mb) := v],
     in_offset := (if in_offset mb + 1 \<ge> mb_size mb then 0 else in_offset mb + 1), mb_entry := mb_entry mb + 1\<rparr>"
  have "mb_put v mb = Some mb'"
    using inl len by (simp add: mb_put_def mb'_def Let_def word_less_nat_alt)
  moreover have "unat (in_offset mb') = (unat (out_offset mb') + unat (mb_entry mb')) mod unat (mb_size mb')"
    using offset_next [OF inl] w len e1 by (simp add: mb'_def mod_simps del: if_split)
  then have "mb_wf mb'"
    using len out e e1 by (simp add: mb_wf_def mb'_def word_le_nat_alt)
  moreover have "mb_contents mb' = mb_contents mb @ [v]"
    using ring_contents_write [OF w, of v] e len e1 by (simp add: mb_contents_def mb'_def)
  ultimately show ?thesis by (simp add: mb_capacity_def mb'_def)
qed

lemma mb_get_ok:
  assumes wf: "mb_wf mb" and c: "mb_contents mb = v # vs"
  shows "\<exists>mb'. mb_get mb = Some (v, mb') \<and> mb_wf mb' \<and> mb_contents mb' = vs \<and> mb_capacity mb' = mb_capacity mb"
proof -
  have e: "0 < unat (mb_entry mb)" using arg_cong [OF c, of length] by (simp add: mb_contents_def)
  then have pos: "mb_size mb > 0" using wf by (auto simp: mb_wf_def word_less_nat_alt word_le_nat_alt)
  have w: "unat (in_offset mb) = (unat (out_offset mb) + unat (mb_entry mb)) mod unat (mb_size mb)"
    and len: "length (mb_pool mb) = unat (mb_size mb)" and out: "out_offset mb < mb_size mb"
    and le: "mb_entry mb \<le> mb_size mb"
    using wf pos by (simp_all add: mb_wf_def)
  have e1: "unat (mb_entry mb) = Suc (unat (mb_entry mb - 1))"
    using e by (simp add: unat_sub word_le_nat_alt)
  define mb' where "mb' = mb\<lparr>out_offset := (if out_offset mb + 1 \<ge> mb_size mb then 0 else out_offset mb + 1),
     mb_entry := mb_entry mb - 1\<rparr>"
  have ring: "mb_contents mb = mb_pool mb ! unat (out_offset mb) # mb_contents mb'"
    using ring_contents_read [of "unat (out_offset mb)" "mb_pool mb" "unat (mb_entry mb - 1)"] out len e1
      offset_next [OF out]
    by (simp add: mb_contents_def mb'_def word_less_nat_alt del: if_split)
  have "mb_get mb = Some (v, mb')"
    using ring c out len by (simp add: mb_get_def mb'_def Let_def word_less_nat_alt)
  moreover have "unat (in_offset mb') = (unat (out_offset mb') + unat (mb_entry mb')) mod unat (mb_size mb')"
    using offset_next [OF out] w e1 by (simp add: mb'_def mod_simps del: if_split)
  then have "mb_wf mb'"
    using len le e1 offset_next [OF out] pos
    by (simp add: mb_wf_def mb'_def word_le_nat_alt word_less_nat_alt del: if_split)
  ultimately show ?thesis using ring c by (simp add: mb_capacity_def mb'_def)
qed

interpretation mb: bounded_fifo mb_wf mb_contents mb_capacity mb_put mb_get
  by unfold_locales
    (fact mb_put_ok mb_get_ok | simp add: mb_wf_def mb_contents_def mb_capacity_def word_le_nat_alt)+

section \<open>Every branch\<close>

lemma set_mb_fields [simp]:
  "threads (set_mb i m k) = threads k" "lists (set_mb i m k) = lists k" "cpus (set_mb i m k) = cpus k"
  "objs (set_mb i m k) = objs k" "kinv (set_mb i m k) = kinv k" "mailboxes (set_mb i m k) = (mailboxes k)(i := m)"
  "rt_object_get_type r (set_mb i m k) = rt_object_get_type r k"
  by (simp_all add: set_mb_def rt_object_get_type_def)

lemma ipc_wait_first:
  assumes ctx: "ipc_ctx c t L k" and time: "wait_time timeout"
  shows "ipc_wait c h t flag (irq_disabled L c) td timeout
       (mk (lockn c (Some t) (Suc 0) L) (upd_thread t (\<lambda>th. th\<lparr>th_error := RT_EOK\<rparr>) k)) =
     do { s \<leftarrow> rt_schedule c (mk L (wait_core h flag t timeout k));
          Some ((if timeout > 0 then rt_tick_get k else td, timeout), s) }"
proof -
  note d = ipc_ctxD [OF ctx]
  have ob: "objs_ok (upd_thread t (\<lambda>th. th\<lparr>th_error := RT_EOK\<rparr>) k)"
    using d(5) by (rule objs_ok_upd_thread) (simp add: started_def)
  have "rt_tick_get (ipc_suspend_core h t flag (upd_thread t (\<lambda>th. th\<lparr>th_error := RT_EOK\<rparr>) k)) = rt_tick_get k"
    by (simp add: rt_tick_get_def ipc_suspend_core_def suspend_core_def)
  then show ?thesis
    using d time wait_time_tick [OF time] ob
    by (simp add: ipc_wait_def wait_core_def Let_def wait_time_def block_core_def is_ready_def)
qed

lemma wake_one_first:
  assumes "lk_ok th L" "cur c k = th" "kinv k" "wait_head h"
  shows "wake_one c h (irq_disabled L c) (mk (lockn c th (Suc 0) L) k) =
     (case lists k h of [] \<Rightarrow> Some (mk L k) | t # ts \<Rightarrow> rt_schedule c (mk L (resume_core c t k)))"
  using assms by (auto simp: wake_one_def split: list.split)

lemma mb_send_full:
  assumes "lk_ok th L" "cur c k = th" "rt_object_get_type (OMailBox i) k = RT_Object_Class_MailBox"
    and "mb_entry (mailboxes k i) = mb_size (mailboxes k i)"
  shows "rt_mb_send c i v (mk L k) = Some (Inl (- RT_EFULL), mk L k)"
  using assms by (simp add: rt_mb_send_def rt_mb_send_wait_def)

lemma mb_send_room:
  assumes "lk_ok th L" "cur c k = th" "rt_object_get_type (OMailBox i) k = RT_Object_Class_MailBox" "kinv k"
    and "mb_entry (mailboxes k i) \<noteq> mb_size (mailboxes k i)" "mb_put v (mailboxes k i) = Some m"
  shows "rt_mb_send_wait c i v timeout (mk L k) =
     do { s \<leftarrow> (case lists k (mb_queue i) of [] \<Rightarrow> Some (mk L (set_mb i m k))
               | t # ts \<Rightarrow> rt_schedule c (mk L (resume_core c t (set_mb i m k))));
          Some (Inl RT_EOK, s) }"
  using assms by (simp add: rt_mb_send_wait_def mb_send_loop_def wake_one_first)

lemma mb_send_blocks:
  assumes ctx: "ipc_ctx c t L k" and ty: "rt_object_get_type (OMailBox i) k = RT_Object_Class_MailBox"
    and full: "mb_entry (mailboxes k i) = mb_size (mailboxes k i)" and time: "wait_time timeout"
  shows "rt_mb_send_wait c i v timeout (mk L k) =
     do { s \<leftarrow> rt_schedule c (mk L (wait_core (mb_senders i) (obj_flag (objs k (OMailBox i))) t timeout k));
          Some (Inr (if timeout > 0 then rt_tick_get k else 0, timeout), s) }"
  using ipc_ctxD [OF ctx] ty full time ipc_wait_first [OF ctx time]
  by (simp add: rt_mb_send_wait_def mb_send_loop_def wait_time_def Let_def is_ready_def)

lemma mb_recv_empty:
  assumes "lk_ok th L" "cur c k = th" "rt_object_get_type (OMailBox i) k = RT_Object_Class_MailBox"
    and "mb_entry (mailboxes k i) = 0"
  shows "rt_mb_recv c i 0 (mk L k) = Some (Inl (- RT_ETIMEOUT, None), mk L k)"
  using assms by (simp add: rt_mb_recv_def)

lemma mb_recv_some:
  assumes "lk_ok th L" "cur c k = th" "rt_object_get_type (OMailBox i) k = RT_Object_Class_MailBox" "kinv k"
    and "mb_entry (mailboxes k i) \<noteq> 0" "mb_get (mailboxes k i) = Some (v, m)"
  shows "rt_mb_recv c i timeout (mk L k) =
     do { s \<leftarrow> (case lists k (mb_senders i) of [] \<Rightarrow> Some (mk L (set_mb i m k))
               | t # ts \<Rightarrow> rt_schedule c (mk L (resume_core c t (set_mb i m k))));
          Some (Inl (RT_EOK, Some v), s) }"
  using assms by (simp add: rt_mb_recv_def mb_recv_loop_def wake_one_first)

lemma mb_recv_blocks:
  assumes ctx: "ipc_ctx c t L k" and ty: "rt_object_get_type (OMailBox i) k = RT_Object_Class_MailBox"
    and empty: "mb_entry (mailboxes k i) = 0" and time: "wait_time timeout"
  shows "rt_mb_recv c i timeout (mk L k) =
     do { s \<leftarrow> rt_schedule c (mk L (wait_core (mb_queue i) (obj_flag (objs k (OMailBox i))) t timeout k));
          Some (Inr (if timeout > 0 then rt_tick_get k else 0, timeout), s) }"
  using ipc_ctxD [OF ctx] ty empty time ipc_wait_first [OF ctx time]
  by (simp add: rt_mb_recv_def mb_recv_loop_def wait_time_def Let_def is_ready_def)

text \<open>Time left never grows and is not negative for a caller with a deadline.\<close>

lemma time_left_bounds:
  assumes "0 < timeout" "timeout < 0x80000000" "uint (now - td) < 0x80000000"
  shows "time_left now td timeout = max 0 (timeout - uint (now - td))"
proof -
  have "wrap32 (timeout - uint (now - td)) = timeout - uint (now - td)"
    using assms uint_nonnegative [of "now - td"] by (intro wrap32_id) linarith+
  then show ?thesis using assms(1) by (simp add: time_left_def Let_def)
qed

section \<open>The calls refine the queue\<close>

text \<open>After the other side has been woken, or nobody was, the mailbox is the one just written.\<close>

lemma mb_wake_post:
  assumes ctx: "ipc_ctx c t L k" and h: "wait_head h"
    and step: "(case lists k h of [] \<Rightarrow> Some (mk L (set_mb i m k))
       | u # us \<Rightarrow> rt_schedule c (mk L (resume_core c u (set_mb i m k)))) = Some s'"
  shows "kinv (kc s')" "mailboxes (kc s') i = m"
proof -
  note d = ipc_ctxD [OF ctx]
  have "kinv (kc s') \<and> mailboxes (kc s') i = m"
  proof (cases "lists k h")
    case Nil
    then show ?thesis using step d(4) by auto
  next
    case (Cons u us)
    let ?k = "resume_core c u (set_mb i m k)"
    have sch: "rt_schedule c (mk L ?k) = Some s'" using step Cons by simp
    have kv: "kinv ?k"
      using d(4) waiter_waits [OF d(4) h, of u] Cons by (intro kinv_resume) simp_all
    have "mailboxes (kc s') = mailboxes ?k"
      using schedule_keeps_waiters(4) [OF d(1) _ _ d(3) sch] kv d(2) by (simp add: kinv_def)
    then show ?thesis using rt_schedule_kinv [OF d(1) _ kv d(3) sch] d(2) by simp
  qed
  then show "kinv (kc s')" "mailboxes (kc s') i = m" by simp_all
qed

lemma mb_block_post:
  assumes ctx: "ipc_ctx c t L k" and h: "wait_head h" and fl: "ipc_flag flag"
    and sch: "rt_schedule c (mk L (wait_core h flag t timeout k)) = Some s'"
  shows "kinv (kc s')" "mailboxes (kc s') = mailboxes k" "mqueues (kc s') = mqueues k"
    "g = h \<Longrightarrow> t \<in> set (lists (kc s') g)"
proof -
  note d = ipc_ctxD [OF ctx]
  let ?k = "wait_core h flag t timeout k"
  have kv: "kinv ?k" "cur c ?k = Some t" using wait_core_inv [OF d(4,2,3,6) h fl] d(2) by simp_all
  then have sv: "sched_inv ?k" by (simp add: kinv_def)
  note keep = schedule_keeps_waiters [OF d(1) kv(2) sv d(3) sch]
  show "kinv (kc s')" using rt_schedule_kinv [OF d(1) kv(2,1) d(3) sch] .
  show "mailboxes (kc s') = mailboxes k" "mqueues (kc s') = mqueues k" using keep(4,5) by simp_all
  show "t \<in> set (lists (kc s') g)" if "g = h"
    using keep(6) [OF h] that wait_core_queue [OF d(4,2,3,6), of h flag timeout h] fl
    by (simp add: queue_insert_set)
qed

lemma mb_full_iff: "mb_wf mb \<Longrightarrow> mb_entry mb = mb_size mb \<longleftrightarrow> length (mb_contents mb) = mb_capacity mb"
  by (simp add: mb_contents_def mb_capacity_def word_unat_eq_iff)

lemma mb_empty_iff: "mb_entry mb = 0 \<longleftrightarrow> mb_contents mb = []"
  by (simp add: mb_contents_def ring_contents_def unat_eq_0)

lemma mb_send_refines:
  assumes ctx: "ipc_ctx c t L k" and ty: "rt_object_get_type (OMailBox i) k = RT_Object_Class_MailBox"
    and fl: "ipc_flag (obj_flag (objs k (OMailBox i)))" and time: "timeout = 0 \<or> wait_time timeout"
    and wf: "mb_wf (mailboxes k i)" and step: "rt_mb_send_wait c i v timeout (mk L k) = Some (r, s')"
  shows "kinv (kc s') \<and> mb_wf (mailboxes (kc s') i) \<and>
     (if length (mb_contents (mailboxes k i)) < mb_capacity (mailboxes k i)
      then r = Inl RT_EOK \<and> mb_contents (mailboxes (kc s') i) = mb_contents (mailboxes k i) @ [v]
      else (if timeout = 0 then r = Inl (- RT_EFULL) \<and> kc s' = k else t \<in> set (lists (kc s') (mb_senders i))) \<and>
           mailboxes (kc s') i = mailboxes k i)"
proof -
  note d = ipc_ctxD [OF ctx]
  let ?mb = "mailboxes k i"
  show ?thesis
  proof (cases "length (mb_contents ?mb) < mb_capacity ?mb")
    case True
    then have ne: "mb_entry ?mb \<noteq> mb_size ?mb" using mb_full_iff [OF wf] by simp
    obtain m where m: "mb_put v ?mb = Some m" "mb_wf m" "mb_contents m = mb_contents ?mb @ [v]"
      using mb.enq_ok [OF wf True] by blast
    obtain s where s: "(case lists k (mb_queue i) of [] \<Rightarrow> Some (mk L (set_mb i m k))
         | u # us \<Rightarrow> rt_schedule c (mk L (resume_core c u (set_mb i m k)))) = Some s" "r = Inl RT_EOK" "s = s'"
      using step mb_send_room [OF d(1,2) ty d(4) ne m(1), of timeout] by (auto simp: bind_eq_Some_conv)
    show ?thesis using mb_wake_post [OF ctx _ s(1)] s(2,3) m True by simp
  next
    case False
    then have full: "mb_entry ?mb = mb_size ?mb" using mb_full_iff [OF wf] mb.within [OF wf] by simp
    show ?thesis
    proof (cases "timeout = 0")
      case True
      then show ?thesis
        using step mb_send_full [OF d(1,2) ty full, of v] False d(4) wf by (auto simp: rt_mb_send_def)
    next
      case False': False
      have "rt_schedule c (mk L (wait_core (mb_senders i) (obj_flag (objs k (OMailBox i))) t timeout k)) = Some s'"
        using step mb_send_blocks [OF ctx ty full, of timeout v] time False' by (auto simp: Some_bind_iff)
      from mb_block_post [OF ctx _ fl this] show ?thesis using False False' wf by simp
    qed
  qed
qed

lemma mb_recv_refines:
  assumes ctx: "ipc_ctx c t L k" and ty: "rt_object_get_type (OMailBox i) k = RT_Object_Class_MailBox"
    and fl: "ipc_flag (obj_flag (objs k (OMailBox i)))" and time: "timeout = 0 \<or> wait_time timeout"
    and wf: "mb_wf (mailboxes k i)" and step: "rt_mb_recv c i timeout (mk L k) = Some (r, s')"
  shows "kinv (kc s') \<and> mb_wf (mailboxes (kc s') i) \<and>
     (case mb_contents (mailboxes k i) of
        v # vs \<Rightarrow> r = Inl (RT_EOK, Some v) \<and> mb_contents (mailboxes (kc s') i) = vs
      | [] \<Rightarrow> (if timeout = 0 then r = Inl (- RT_ETIMEOUT, None) \<and> kc s' = k
               else t \<in> set (lists (kc s') (mb_queue i))) \<and>
             mailboxes (kc s') i = mailboxes k i)"
proof -
  note d = ipc_ctxD [OF ctx]
  let ?mb = "mailboxes k i"
  show ?thesis
  proof (cases "mb_contents ?mb")
    case (Cons v vs)
    then have ne: "mb_entry ?mb \<noteq> 0" using mb_empty_iff by simp
    obtain m where m: "mb_get ?mb = Some (v, m)" "mb_wf m" "mb_contents m = vs"
      using mb.deq_ok [OF wf Cons] by blast
    obtain s where s: "(case lists k (mb_senders i) of [] \<Rightarrow> Some (mk L (set_mb i m k))
         | u # us \<Rightarrow> rt_schedule c (mk L (resume_core c u (set_mb i m k)))) = Some s" "r = Inl (RT_EOK, Some v)" "s = s'"
      using step mb_recv_some [OF d(1,2) ty d(4) ne m(1), of timeout] by (auto simp: bind_eq_Some_conv)
    show ?thesis using mb_wake_post [OF ctx _ s(1)] s(2,3) m Cons by simp
  next
    case Nil
    then have empty: "mb_entry ?mb = 0" using mb_empty_iff by simp
    show ?thesis
    proof (cases "timeout = 0")
      case True
      then show ?thesis
        using step mb_recv_empty [OF d(1,2) ty empty] Nil d(4) wf by auto
    next
      case False
      have "rt_schedule c (mk L (wait_core (mb_queue i) (obj_flag (objs k (OMailBox i))) t timeout k)) = Some s'"
        using step mb_recv_blocks [OF ctx ty empty, of timeout] time False by (auto simp: Some_bind_iff)
      from mb_block_post [OF ctx _ fl this] show ?thesis using Nil False wf by simp
    qed
  qed
qed

section \<open>The calls return\<close>

lemma mb_wake_returns:
  assumes ctx: "ipc_ctx c t L k" and h: "wait_head h" and st: "stacks_ok k"
  shows "\<exists>s'. (case lists k h of [] \<Rightarrow> Some (mk L (set_mb i m k))
       | u # us \<Rightarrow> rt_schedule c (mk L (resume_core c u (set_mb i m k)))) = Some s'"
proof (cases "lists k h")
  case (Cons u us)
  note d = ipc_ctxD [OF ctx]
  have "waits (threads k u)" using waiter_waits [OF d(4) h, of u] Cons by simp
  then show ?thesis using resume_returns [OF ctx st, of "set_mb i m k" u] d(4,2) Cons by simp
qed simp

lemma mb_send_returns:
  assumes ctx: "ipc_ctx c t L k" and ty: "rt_object_get_type (OMailBox i) k = RT_Object_Class_MailBox"
    and fl: "ipc_flag (obj_flag (objs k (OMailBox i)))" and time: "timeout = 0 \<or> wait_time timeout"
    and wf: "mb_wf (mailboxes k i)" and st: "stacks_ok k"
  shows "\<exists>r s'. rt_mb_send_wait c i v timeout (mk L k) = Some (r, s')"
proof -
  note d = ipc_ctxD [OF ctx]
  let ?mb = "mailboxes k i"
  show ?thesis
  proof (cases "mb_entry ?mb = mb_size ?mb")
    case True
    then show ?thesis
      using mb_send_full [OF d(1,2) ty True, of v] mb_send_blocks [OF ctx ty True, of timeout v] time
        wait_returns [OF ctx st _ fl, of "mb_senders i" timeout]
      by (cases "timeout = 0") (auto simp: rt_mb_send_def)
  next
    case False
    then have "length (mb_contents ?mb) < mb_capacity ?mb" using mb_full_iff [OF wf] mb.within [OF wf] by simp
    then obtain m where m: "mb_put v ?mb = Some m" using mb.enq_ok [OF wf] by blast
    show ?thesis
      using mb_send_room [OF d(1,2) ty d(4) False m, of timeout] mb_wake_returns [OF ctx _ st, of "mb_queue i" i m]
      by auto
  qed
qed

lemma mb_recv_returns:
  assumes ctx: "ipc_ctx c t L k" and ty: "rt_object_get_type (OMailBox i) k = RT_Object_Class_MailBox"
    and fl: "ipc_flag (obj_flag (objs k (OMailBox i)))" and time: "timeout = 0 \<or> wait_time timeout"
    and wf: "mb_wf (mailboxes k i)" and st: "stacks_ok k"
  shows "\<exists>r s'. rt_mb_recv c i timeout (mk L k) = Some (r, s')"
proof -
  note d = ipc_ctxD [OF ctx]
  let ?mb = "mailboxes k i"
  show ?thesis
  proof (cases "mb_entry ?mb = 0")
    case True
    then show ?thesis
      using mb_recv_empty [OF d(1,2) ty True] mb_recv_blocks [OF ctx ty True, of timeout] time
        wait_returns [OF ctx st _ fl, of "mb_queue i" timeout]
      by (cases "timeout = 0") auto
  next
    case False
    then obtain v vs where "mb_contents ?mb = v # vs" using mb_empty_iff by (cases "mb_contents ?mb") auto
    then obtain m where m: "mb_get ?mb = Some (v, m)" using mb.deq_ok [OF wf] by blast
    show ?thesis
      using mb_recv_some [OF d(1,2) ty d(4) False m, of timeout] mb_wake_returns [OF ctx _ st, of "mb_senders i" i m]
      by auto
  qed
qed

section \<open>Sequences of operations\<close>

text \<open>
  Any sequence of puts and gets that a list bounded by the size of the mailbox accepts runs on the
  circular array without an access outside it, delivers the same words and leaves the same contents.
\<close>

lemma mb_run_refines:
  assumes "mb_wf mb" "queue_run (mb_capacity mb) ops (mb_contents mb) = Some (out, q)"
  shows "\<exists>mb'. fifo_run mb_put mb_get ops mb = Some (out, mb') \<and> mb_wf mb' \<and> mb_contents mb' = q"
  using mb.run_refines [OF assms] by blast

lemma mb_run_refines_witness:
  "\<exists>mb'. fifo_run mb_put mb_get [Put 1, Put 2, Get, Put 3, Get, Get]
     \<lparr>mb_pool = [0, 0], mb_size = 2, mb_entry = 0, in_offset = 1, out_offset = 1\<rparr> = Some ([1, 2, 3], mb') \<and>
     mb_contents mb' = []"
proof -
  let ?mb = "\<lparr>mb_pool = [0, 0], mb_size = 2, mb_entry = 0, in_offset = 1, out_offset = 1\<rparr> :: rt_mailbox"
  have "mb_wf ?mb" "queue_run (mb_capacity ?mb) [Put 1, Put 2, Get, Put 3, Get, Get] (mb_contents ?mb) = Some ([1, 2, 3], [])"
    by (simp_all add: mb_wf_def mb_capacity_def mb_contents_def)
  from mb_run_refines [OF this] show ?thesis by blast
qed

end
