(* ===== verification/Rt_Mq.thy ===== *)
theory Rt_Mq
  imports Rt_Mailbox
begin

text \<open>
  Message queues, \<^verbatim>\<open>src/ipc.c\<close> lines 1778 to 2323: a pool of slots, linked into a queue of
  messages and a list of free slots. A sender takes a free slot in one critical section, fills it
  with the lock released and links it in a second one; a receiver unlinks, copies and releases in
  the same way. Each critical section is a definition of its own, so that the interleavings of
  several calls can be stated as sequences of these steps.
\<close>

section \<open>The slots\<close>

text \<open>Critical sections: taking a free slot, linking it, unlinking the first, releasing a slot.\<close>

definition mq_alloc :: "rt_messagequeue \<Rightarrow> (nat \<times> rt_messagequeue) option" where
  "mq_alloc q =
     (case msg_queue_free q of
        None \<Rightarrow> None
      | Some p \<Rightarrow> Some (p, q\<lparr>msg_queue_free := mq_next q p\<rparr>))"

definition mq_copy_in :: "nat \<Rightarrow> u8 list \<Rightarrow> rt_messagequeue \<Rightarrow> rt_messagequeue" where
  "mq_copy_in p buf q = q\<lparr>mq_data := (mq_data q)(p := buf @ drop (length buf) (mq_data q p))\<rparr>"

definition mq_clear_next :: "nat \<Rightarrow> rt_messagequeue \<Rightarrow> rt_messagequeue" where
  "mq_clear_next p q = q\<lparr>mq_next := (mq_next q)(p := None)\<rparr>"

definition mq_link_tail :: "nat \<Rightarrow> rt_messagequeue \<Rightarrow> rt_messagequeue" where
  "mq_link_tail p q =
     (let q = (case msg_queue_tail q of None \<Rightarrow> q | Some l \<Rightarrow> q\<lparr>mq_next := (mq_next q)(l := Some p)\<rparr>);
          q = q\<lparr>msg_queue_tail := Some p\<rparr>;
          q = (if msg_queue_head q = None then q\<lparr>msg_queue_head := Some p\<rparr> else q)
      in q\<lparr>mq_entry := mq_entry q + 1\<rparr>)"

definition mq_link_head :: "nat \<Rightarrow> rt_messagequeue \<Rightarrow> rt_messagequeue" where
  "mq_link_head p q =
     (let q = q\<lparr>mq_next := (mq_next q)(p := msg_queue_head q)\<rparr>;
          q = q\<lparr>msg_queue_head := Some p\<rparr>;
          q = (if msg_queue_tail q = None then q\<lparr>msg_queue_tail := Some p\<rparr> else q)
      in q\<lparr>mq_entry := mq_entry q + 1\<rparr>)"

text \<open>\<open>None\<close> here is following a null head.\<close>

definition mq_unlink_head :: "rt_messagequeue \<Rightarrow> (nat \<times> rt_messagequeue) option" where
  "mq_unlink_head q =
     (case msg_queue_head q of
        None \<Rightarrow> None
      | Some p \<Rightarrow>
          (let q = q\<lparr>msg_queue_head := mq_next q p\<rparr>
           in Some (p, if msg_queue_tail q = Some p then q\<lparr>msg_queue_tail := None\<rparr> else q)))"

definition mq_take_entry :: "rt_messagequeue \<Rightarrow> (nat \<times> rt_messagequeue) option" where
  "mq_take_entry q = do { (p, q) \<leftarrow> mq_unlink_head q; Some (p, q\<lparr>mq_entry := mq_entry q - 1\<rparr>) }"

definition mq_release :: "nat \<Rightarrow> rt_messagequeue \<Rightarrow> rt_messagequeue" where
  "mq_release p q = q\<lparr>mq_next := (mq_next q)(p := msg_queue_free q), msg_queue_free := Some p\<rparr>"

text \<open>The loop that chains all slots into the free list, and the one that empties the queue.\<close>

fun mq_free_init :: "nat \<Rightarrow> rt_messagequeue \<Rightarrow> rt_messagequeue" where
  "mq_free_init 0 q = q\<lparr>msg_queue_free := None\<rparr>"
| "mq_free_init (Suc n) q = mq_release n (mq_free_init n q)"

partial_function (option) mq_flush :: "rt_messagequeue \<Rightarrow> rt_messagequeue option" where
  "mq_flush q =
     (if msg_queue_head q = None then Some q
      else Option.bind (mq_unlink_head q) (\<lambda>pq. mq_flush (mq_release (fst pq) (snd pq))))"

section \<open>Operations\<close>

abbreviation mq_queue :: "objid \<Rightarrow> lhead" where
  "mq_queue i \<equiv> SuspendQ (OMq i)"

definition set_mq :: "objid \<Rightarrow> rt_messagequeue \<Rightarrow> kcore \<Rightarrow> kcore" where
  "set_mq i q k = k\<lparr>mqueues := (mqueues k)(i := q)\<rparr>"

definition upd_mq :: "objid \<Rightarrow> (rt_messagequeue \<Rightarrow> rt_messagequeue) \<Rightarrow> kstate \<Rightarrow> kstate" where
  "upd_mq i f s = s\<lparr>kc := set_mq i (f (mqueues (kc s) i)) (kc s)\<rparr>"

definition mq_init_lists :: "rt_messagequeue \<Rightarrow> rt_messagequeue" where
  "mq_init_lists q =
     (mq_free_init (unat (mq_max_msgs q)) (q\<lparr>msg_queue_head := None, msg_queue_tail := None\<rparr>))\<lparr>mq_entry := 0\<rparr>"

text \<open>\<open>pool\<close> gives the bytes of each slot of the buffer the caller hands over.\<close>

definition rt_mq_init ::
    "cpu_id \<Rightarrow> objid \<Rightarrow> u8 list \<Rightarrow> (nat \<Rightarrow> u8 list) \<Rightarrow> u32 \<Rightarrow> u32 \<Rightarrow> u8 \<Rightarrow> kstate \<Rightarrow> (rt_err_t \<times> kstate) option" where
  "rt_mq_init c i name pool msg_sz pool_sz flag s =
     do { s \<leftarrow> rt_object_init c (OMq i) RT_Object_Class_MessageQueue name s;
          let s = s\<lparr>kc := rt_ipc_object_init (OMq i)
                      (upd_obj (OMq i) (\<lambda>ob. ob\<lparr>obj_flag := flag\<rparr>) (kc s))\<rparr>;
          let s = upd_mq i (\<lambda>q. q\<lparr>mq_data := pool, mq_msg_size := ucast (RT_ALIGN msg_sz (of_nat RT_ALIGN_SIZE))\<rparr>) s;
          let s = upd_mq i (\<lambda>q. q\<lparr>mq_max_msgs := ucast (pool_sz div (ucast (mq_msg_size q) + 4))\<rparr>) s;
          Some (RT_EOK, upd_mq i mq_init_lists s) }"

definition rt_mq_detach :: "cpu_id \<Rightarrow> objid \<Rightarrow> kstate \<Rightarrow> (rt_err_t \<times> kstate) option" where
  "rt_mq_detach c i s =
     do { RT_ASSERT (rt_object_get_type (OMq i) (kc s) = RT_Object_Class_MessageQueue);
          RT_ASSERT (rt_object_is_systemobject (OMq i) (kc s));
          (_, s) \<leftarrow> rt_ipc_list_resume_all c (mq_queue i) s;
          s \<leftarrow> rt_object_detach c (OMq i) s;
          Some (RT_EOK, s) }"

definition rt_mq_delete :: "cpu_id \<Rightarrow> objid \<Rightarrow> kstate \<Rightarrow> (rt_err_t \<times> kstate) option" where
  "rt_mq_delete c i s =
     do { s \<leftarrow> RT_DEBUG_NOT_IN_INTERRUPT c s;
          RT_ASSERT (rt_object_get_type (OMq i) (kc s) = RT_Object_Class_MessageQueue);
          RT_ASSERT (\<not> rt_object_is_systemobject (OMq i) (kc s));
          (_, s) \<leftarrow> rt_ipc_list_resume_all c (mq_queue i) s;
          let s = upd_mq i (\<lambda>q. q\<lparr>mq_data := \<lambda>_. []\<rparr>) s;
          s \<leftarrow> rt_object_delete c (OMq i) s;
          Some (RT_EOK, s) }"

text \<open>\<open>mem\<close> and \<open>malloc\<close> are the results of the two allocations, the second for so many bytes.\<close>

definition rt_mq_create ::
    "cpu_id \<Rightarrow> u8 list \<Rightarrow> u32 \<Rightarrow> u32 \<Rightarrow> u8 \<Rightarrow> objid option \<Rightarrow> (u32 \<Rightarrow> (nat \<Rightarrow> u8 list) option) \<Rightarrow> kstate \<Rightarrow>
      (objid option \<times> kstate) option" where
  "rt_mq_create c name msg_sz max_msgs flag mem malloc s =
     do { s \<leftarrow> RT_DEBUG_NOT_IN_INTERRUPT c s;
          (mq, s) \<leftarrow> rt_object_allocate c RT_Object_Class_MessageQueue name (map_option OMq mem) s;
          case mq of
            Some (OMq i) \<Rightarrow>
              do { let s = s\<lparr>kc := rt_ipc_object_init (OMq i)
                               (upd_obj (OMq i) (\<lambda>ob. ob\<lparr>obj_flag := flag\<rparr>) (kc s))\<rparr>;
                   let s = upd_mq i (\<lambda>q. q\<lparr>mq_msg_size := ucast (RT_ALIGN msg_sz (of_nat RT_ALIGN_SIZE)),
                                           mq_max_msgs := ucast max_msgs\<rparr>) s;
                   case malloc ((ucast (mq_msg_size (mqueues (kc s) i)) + 4) * ucast (mq_max_msgs (mqueues (kc s) i))) of
                     None \<Rightarrow> do { (_, s) \<leftarrow> rt_mq_delete c i s; Some (None, s) }
                   | Some pool \<Rightarrow> Some (Some i, upd_mq i mq_init_lists (upd_mq i (\<lambda>q. q\<lparr>mq_data := pool\<rparr>) s)) }
          | _ \<Rightarrow> Some (None, s) }"

definition rt_mq_send :: "cpu_id \<Rightarrow> objid \<Rightarrow> u8 list \<Rightarrow> kstate \<Rightarrow> (rt_err_t \<times> kstate) option" where
  "rt_mq_send c i buf s =
     do { RT_ASSERT (rt_object_get_type (OMq i) (kc s) = RT_Object_Class_MessageQueue);
          RT_ASSERT (length buf \<noteq> 0);
          if length buf > unat (mq_msg_size (mqueues (kc s) i)) then Some (- RT_ERROR, s)
          else
            do { (temp, s) \<leftarrow> rt_hw_interrupt_disable c s;
                 case mq_alloc (mqueues (kc s) i) of
                   None \<Rightarrow> Some (- RT_EFULL, rt_hw_interrupt_enable c temp s)
                 | Some (msg, q) \<Rightarrow>
                     do { let s = rt_hw_interrupt_enable c temp (upd_mq i (\<lambda>_. q) s);
                          let s = upd_mq i (mq_copy_in msg buf) (upd_mq i (mq_clear_next msg) s);
                          (temp, s) \<leftarrow> rt_hw_interrupt_disable c s;
                          s \<leftarrow> wake_one c (mq_queue i) temp (upd_mq i (mq_link_tail msg) s);
                          Some (RT_EOK, s) } } }"

definition rt_mq_urgent :: "cpu_id \<Rightarrow> objid \<Rightarrow> u8 list \<Rightarrow> kstate \<Rightarrow> (rt_err_t \<times> kstate) option" where
  "rt_mq_urgent c i buf s =
     do { RT_ASSERT (rt_object_get_type (OMq i) (kc s) = RT_Object_Class_MessageQueue);
          RT_ASSERT (length buf \<noteq> 0);
          if length buf > unat (mq_msg_size (mqueues (kc s) i)) then Some (- RT_ERROR, s)
          else
            do { (temp, s) \<leftarrow> rt_hw_interrupt_disable c s;
                 case mq_alloc (mqueues (kc s) i) of
                   None \<Rightarrow> Some (- RT_EFULL, rt_hw_interrupt_enable c temp s)
                 | Some (msg, q) \<Rightarrow>
                     do { let s = rt_hw_interrupt_enable c temp (upd_mq i (\<lambda>_. q) s);
                          let s = upd_mq i (mq_copy_in msg buf) s;
                          (temp, s) \<leftarrow> rt_hw_interrupt_disable c s;
                          s \<leftarrow> wake_one c (mq_queue i) temp (upd_mq i (mq_link_head msg) s);
                          Some (RT_EOK, s) } } }"

text \<open>The bytes written into the caller's buffer are the second component of an \<open>Inl\<close> result.\<close>

definition mq_recv_loop ::
    "cpu_id \<Rightarrow> objid \<Rightarrow> nat \<Rightarrow> tid option \<Rightarrow> bool \<Rightarrow> u32 \<Rightarrow> int \<Rightarrow> kstate \<Rightarrow>
      (((rt_err_t \<times> u8 list option) + (u32 \<times> int)) \<times> kstate) option" where
  "mq_recv_loop c i sz thread temp tick_delta timeout s =
     (if mq_entry (mqueues (kc s) i) = 0 then
        do { s \<leftarrow> RT_DEBUG_IN_THREAD_CONTEXT c s;
             t \<leftarrow> thread;
             let s = s\<lparr>kc := upd_thread t (\<lambda>th. th\<lparr>th_error := RT_EOK\<rparr>) (kc s)\<rparr>;
             if timeout = 0 then
               let s = rt_hw_interrupt_enable c temp s in
               Some (Inl (- RT_ETIMEOUT, None), s\<lparr>kc := upd_thread t (\<lambda>th. th\<lparr>th_error := - RT_ETIMEOUT\<rparr>) (kc s)\<rparr>)
             else
               do { (w, s) \<leftarrow> ipc_wait c (mq_queue i) t (obj_flag (objs (kc s) (OMq i))) temp tick_delta timeout s;
                    Some (Inr w, s) } }
      else
        do { (msg, q) \<leftarrow> mq_take_entry (mqueues (kc s) i);
             let s = rt_hw_interrupt_enable c temp (upd_mq i (\<lambda>_. q) s);
             let n = unat (mq_msg_size (mqueues (kc s) i));
             let buf = take (if sz > n then n else sz) (mq_data (mqueues (kc s) i) msg);
             (temp, s) \<leftarrow> rt_hw_interrupt_disable c s;
             let s = rt_hw_interrupt_enable c temp (upd_mq i (mq_release msg) s);
             Some (Inl (RT_EOK, Some buf), s) })"

definition rt_mq_recv ::
    "cpu_id \<Rightarrow> objid \<Rightarrow> nat \<Rightarrow> int \<Rightarrow> kstate \<Rightarrow> (((rt_err_t \<times> u8 list option) + (u32 \<times> int)) \<times> kstate) option" where
  "rt_mq_recv c i sz timeout s =
     do { RT_ASSERT (rt_object_get_type (OMq i) (kc s) = RT_Object_Class_MessageQueue);
          RT_ASSERT (sz \<noteq> 0);
          let (thread, s) = rt_thread_self c s;
          (temp, s) \<leftarrow> rt_hw_interrupt_disable c s;
          if mq_entry (mqueues (kc s) i) = 0 \<and> timeout = 0
          then Some (Inl (- RT_ETIMEOUT, None), rt_hw_interrupt_enable c temp s)
          else mq_recv_loop c i sz thread temp 0 timeout s }"

definition rt_mq_recv_cont ::
    "cpu_id \<Rightarrow> objid \<Rightarrow> nat \<Rightarrow> tid \<Rightarrow> u32 \<times> int \<Rightarrow> kstate \<Rightarrow>
      (((rt_err_t \<times> u8 list option) + (u32 \<times> int)) \<times> kstate) option" where
  "rt_mq_recv_cont c i sz t w s =
     (if th_error (threads (kc s) t) \<noteq> RT_EOK then Some (Inl (th_error (threads (kc s) t), None), s)
      else
        do { (temp, s) \<leftarrow> rt_hw_interrupt_disable c s;
             mq_recv_loop c i sz (Some t) temp (fst w) (time_left (rt_tick_get (kc s)) (fst w) (snd w)) s })"

definition rt_mq_control :: "cpu_id \<Rightarrow> objid \<Rightarrow> ipc_cmd \<Rightarrow> kstate \<Rightarrow> (rt_err_t \<times> kstate) option" where
  "rt_mq_control c i cmd s =
     do { RT_ASSERT (rt_object_get_type (OMq i) (kc s) = RT_Object_Class_MessageQueue);
          case cmd of
            IPC_CMD_RESET _ \<Rightarrow>
              do { (level, s) \<leftarrow> rt_hw_interrupt_disable c s;
                   (_, s) \<leftarrow> rt_ipc_list_resume_all c (mq_queue i) s;
                   q \<leftarrow> mq_flush (mqueues (kc s) i);
                   let s = upd_mq i (\<lambda>_. q\<lparr>mq_entry := 0\<rparr>) s;
                   let s = rt_hw_interrupt_enable c level s;
                   s \<leftarrow> rt_schedule c s;
                   Some (RT_EOK, s) }
          | IPC_CMD_OTHER \<Rightarrow> Some (- RT_ERROR, s) }"

section \<open>Slot chains\<close>

text \<open>\<open>mq_chain nx p xs\<close>: following \<open>nx\<close> from \<open>p\<close> visits the slots \<open>xs\<close> and ends at null.\<close>

fun mq_chain :: "(nat \<Rightarrow> nat option) \<Rightarrow> nat option \<Rightarrow> nat list \<Rightarrow> bool" where
  "mq_chain nx p [] \<longleftrightarrow> p = None"
| "mq_chain nx p (x # xs) \<longleftrightarrow> p = Some x \<and> mq_chain nx (nx x) xs"

fun mq_walk :: "nat \<Rightarrow> (nat \<Rightarrow> nat option) \<Rightarrow> nat option \<Rightarrow> nat list" where
  "mq_walk 0 nx p = []"
| "mq_walk (Suc n) nx p = (case p of None \<Rightarrow> [] | Some x \<Rightarrow> x # mq_walk n nx (nx x))"

text \<open>The messages in the queue, each as the bytes of its slot.\<close>

definition mq_contents :: "rt_messagequeue \<Rightarrow> u8 list list" where
  "mq_contents q = map (mq_data q) (mq_walk (unat (mq_entry q)) (mq_next q) (msg_queue_head q))"

text \<open>
  \<open>mq_shape ms fs X q\<close>: the queue holds the slots \<open>ms\<close>, the free list \<open>fs\<close>, and \<open>X\<close> are the
  slots in the hands of senders and receivers; together they are all slots, each once.
\<close>

definition mq_shape :: "nat list \<Rightarrow> nat list \<Rightarrow> nat set \<Rightarrow> rt_messagequeue \<Rightarrow> bool" where
  "mq_shape ms fs X q \<longleftrightarrow>
     mq_chain (mq_next q) (msg_queue_head q) ms \<and> mq_chain (mq_next q) (msg_queue_free q) fs \<and>
     msg_queue_tail q = (if ms = [] then None else Some (last ms)) \<and>
     distinct (ms @ fs) \<and> (set ms \<union> set fs) \<inter> X = {} \<and> set ms \<union> set fs \<union> X = {0..<unat (mq_max_msgs q)} \<and>
     unat (mq_entry q) = length ms \<and> (\<forall>p < unat (mq_max_msgs q). length (mq_data q p) = unat (mq_msg_size q))"

lemma mq_chain_upd [simp]: "x \<notin> set xs \<Longrightarrow> mq_chain (nx(x := v)) p xs = mq_chain nx p xs"
  by (induction xs arbitrary: p) auto

lemma mq_chain_snoc:
  assumes "mq_chain nx p ms" "ms \<noteq> []" "distinct ms" "x \<notin> set ms" "nx x = None"
  shows "mq_chain (nx(last ms := Some x)) p (ms @ [x])"
  using assms
proof (induction ms arbitrary: p)
  case (Cons m ms)
  show ?case
  proof (cases "ms = []")
    case False
    then have "m \<noteq> last ms" using Cons.prems(3) by auto
    with Cons False show ?thesis by auto
  qed (use Cons.prems in auto)
qed simp

lemma mq_chain_walk: "mq_chain nx p ms \<Longrightarrow> mq_walk (length ms) nx p = ms"
  by (induction ms arbitrary: p) auto

lemma mq_contents_shape: "mq_shape ms fs X q \<Longrightarrow> mq_contents q = map (mq_data q) ms"
  by (simp add: mq_contents_def mq_shape_def mq_chain_walk)

text \<open>A slot in somebody's hands leaves room in the entry counter.\<close>

lemma mq_shape_room:
  assumes "mq_shape ms fs X q" "p \<in> X"
  shows "unat (mq_entry q + 1) = Suc (length ms)" "p < unat (mq_max_msgs q)" "p \<notin> set ms" "p \<notin> set fs"
proof -
  have sh: "set ms \<union> set fs \<union> X = {0..<unat (mq_max_msgs q)}" "(set ms \<union> set fs) \<inter> X = {}" "distinct ms"
    "unat (mq_entry q) = length ms" using assms(1) by (simp_all add: mq_shape_def)
  show p: "p < unat (mq_max_msgs q)" "p \<notin> set ms" "p \<notin> set fs" using sh(1,2) assms(2) by auto
  have "insert p (set ms) \<subseteq> {0..<unat (mq_max_msgs q)}" using sh(1) p(1) by auto
  then have "card (insert p (set ms)) \<le> unat (mq_max_msgs q)" by (metis card_atLeastLessThan card_mono diff_zero finite_atLeastLessThan)
  then have "mq_entry q < mq_max_msgs q" using sh(3,4) p(2) by (simp add: distinct_card word_less_nat_alt)
  then show "unat (mq_entry q + 1) = Suc (length ms)" using unat_Suc_less [of "mq_entry q"] sh(4) by simp
qed

section \<open>What each critical section does\<close>

lemma mq_alloc_shape:
  "mq_shape ms [] X q \<Longrightarrow> mq_alloc q = None"
  "mq_shape ms (p # fs) X q \<Longrightarrow>
     mq_alloc q = Some (p, q\<lparr>msg_queue_free := mq_next q p\<rparr>) \<and>
     mq_shape ms fs (insert p X) (q\<lparr>msg_queue_free := mq_next q p\<rparr>)"
  by (auto simp: mq_alloc_def mq_shape_def)

lemma mq_copy_shape:
  assumes "mq_shape ms fs X q" "p \<in> X" "length buf \<le> unat (mq_msg_size q)"
  shows "mq_shape ms fs X (mq_copy_in p buf q)"
  using assms mq_shape_room [OF assms(1,2)] by (auto simp: mq_copy_in_def mq_shape_def)

lemma mq_clear_shape:
  assumes "mq_shape ms fs X q" "p \<in> X"
  shows "mq_shape ms fs X (mq_clear_next p q)"
  using assms mq_shape_room(3,4) [OF assms] by (simp add: mq_clear_next_def mq_shape_def)

lemma mq_link_tail_shape:
  assumes sh: "mq_shape ms fs X q" and p: "p \<in> X" and nx: "mq_next q p = None"
  shows "mq_shape (ms @ [p]) fs (X - {p}) (mq_link_tail p q)"
proof -
  note room = mq_shape_room [OF sh p]
  show ?thesis
  proof (cases "ms = []")
    case True
    then show ?thesis using sh p nx room by (auto simp: mq_link_tail_def mq_shape_def Let_def)
  next
    case False
    have "last ms \<notin> set fs" using sh last_in_set [OF False] by (auto simp: mq_shape_def simp del: last_in_set)
    moreover have "mq_chain ((mq_next q)(last ms := Some p)) (msg_queue_head q) (ms @ [p])"
      using sh False room(3) nx by (intro mq_chain_snoc) (auto simp: mq_shape_def)
    moreover have "msg_queue_head q \<noteq> None" using sh False by (cases ms) (auto simp: mq_shape_def)
    ultimately show ?thesis using sh p nx room False by (auto simp: mq_link_tail_def mq_shape_def Let_def)
  qed
qed

lemma mq_link_head_shape:
  assumes sh: "mq_shape ms fs X q" and p: "p \<in> X"
  shows "mq_shape (p # ms) fs (X - {p}) (mq_link_head p q)"
  using sh p mq_shape_room [OF sh p] by (auto simp: mq_link_head_def mq_shape_def Let_def)

lemma mq_unlink_shape:
  assumes sh: "mq_shape (p # ms) fs X q"
  obtains q' where "mq_take_entry q = Some (p, q')" "mq_shape ms fs (insert p X) q'"
    "mq_data q' = mq_data q" "mq_msg_size q' = mq_msg_size q" "mq_max_msgs q' = mq_max_msgs q" "mq_next q' = mq_next q"
    "mq_unlink_head q = Some (p, q'\<lparr>mq_entry := mq_entry q\<rparr>)"
proof -
  have e: "unat (mq_entry q - 1) = length ms"
    using sh by (simp add: mq_shape_def unat_sub word_le_nat_alt)
  have last: "last ms \<noteq> p" if "ms \<noteq> []" using sh that last_in_set [OF that] by (auto simp: mq_shape_def)
  define q1 where "q1 = (let q = q\<lparr>msg_queue_head := mq_next q p\<rparr>
     in if msg_queue_tail q = Some p then q\<lparr>msg_queue_tail := None\<rparr> else q)"
  have u: "mq_unlink_head q = Some (p, q1)" using sh by (simp add: mq_unlink_head_def mq_shape_def q1_def Let_def)
  have f: "mq_data q1 = mq_data q" "mq_msg_size q1 = mq_msg_size q" "mq_max_msgs q1 = mq_max_msgs q"
    "mq_next q1 = mq_next q" "mq_entry q1 = mq_entry q" "msg_queue_free q1 = msg_queue_free q"
    "msg_queue_head q1 = mq_next q p" "msg_queue_tail q1 = (if ms = [] then None else Some (last ms))"
    using sh last by (auto simp: q1_def Let_def mq_shape_def)
  have "mq_shape ms fs (insert p X) (q1\<lparr>mq_entry := mq_entry q - 1\<rparr>)"
    using sh e f by (auto simp: mq_shape_def)
  then show thesis
    using that [of "q1\<lparr>mq_entry := mq_entry q - 1\<rparr>"] u f by (simp add: mq_take_entry_def)
qed

lemma mq_release_shape:
  assumes "mq_shape ms fs X q" "p \<in> X"
  shows "mq_shape ms (p # fs) (X - {p}) (mq_release p q)"
  using assms mq_shape_room(3,4) [OF assms] by (auto simp: mq_release_def mq_shape_def)

text \<open>The initial free list holds every slot, the last one first.\<close>

lemma mq_free_init_chain:
  "mq_chain (mq_next (mq_free_init n q)) (msg_queue_free (mq_free_init n q)) (rev [0..<n]) \<and>
   msg_queue_head (mq_free_init n q) = msg_queue_head q \<and> msg_queue_tail (mq_free_init n q) = msg_queue_tail q \<and>
   mq_max_msgs (mq_free_init n q) = mq_max_msgs q \<and> mq_msg_size (mq_free_init n q) = mq_msg_size q \<and>
   mq_data (mq_free_init n q) = mq_data q"
proof (induction n)
  case (Suc n)
  let ?q = "mq_free_init n q"
  have "mq_chain ((mq_next ?q)(n := msg_queue_free ?q)) (msg_queue_free ?q) (rev [0..<n])" using Suc by simp
  then show ?case using Suc by (simp add: mq_release_def fun_upd_same del: fun_upd_apply)
qed simp

lemma mq_init_shape:
  assumes "\<forall>p < unat (mq_max_msgs q). length (mq_data q p) = unat (mq_msg_size q)"
  shows "mq_shape [] (rev [0..<unat (mq_max_msgs q)]) {} (mq_init_lists q)"
  using assms mq_free_init_chain [of "unat (mq_max_msgs q)" "q\<lparr>msg_queue_head := None, msg_queue_tail := None\<rparr>"]
  by (auto simp: mq_init_lists_def mq_shape_def)

text \<open>Emptying the queue ends and moves every message to the free list.\<close>

lemma mq_flush_shape:
  assumes "mq_shape ms fs X (q\<lparr>mq_entry := e\<rparr>)"
  shows "\<exists>q'. mq_flush q = Some q' \<and> mq_shape [] (rev ms @ fs) X (q'\<lparr>mq_entry := 0\<rparr>) \<and> mq_msg_size q' = mq_msg_size q"
  using assms
proof (induction ms arbitrary: q e fs)
  case Nil
  then show ?case by (subst mq_flush.simps) (simp add: mq_shape_def)
next
  case (Cons p ms)
  obtain q1 where "mq_take_entry (q\<lparr>mq_entry := e\<rparr>) = Some (p, q1)" and sh1: "mq_shape ms fs (insert p X) q1"
    and "mq_data q1 = mq_data (q\<lparr>mq_entry := e\<rparr>)" and sz: "mq_msg_size q1 = mq_msg_size (q\<lparr>mq_entry := e\<rparr>)"
    and "mq_max_msgs q1 = mq_max_msgs (q\<lparr>mq_entry := e\<rparr>)" "mq_next q1 = mq_next (q\<lparr>mq_entry := e\<rparr>)"
    and un: "mq_unlink_head (q\<lparr>mq_entry := e\<rparr>) = Some (p, q1\<lparr>mq_entry := mq_entry (q\<lparr>mq_entry := e\<rparr>)\<rparr>)"
    by (rule mq_unlink_shape [OF Cons.prems])
  have "mq_unlink_head (r\<lparr>mq_entry := x\<rparr>) = map_option (\<lambda>(p, r). (p, r\<lparr>mq_entry := x\<rparr>)) (mq_unlink_head r)" for r x
    by (auto simp: mq_unlink_head_def Let_def split: option.splits)
  from this [of "mq_entry q" "q\<lparr>mq_entry := e\<rparr>"] un
  have u: "mq_unlink_head q = Some (p, q1\<lparr>mq_entry := mq_entry q\<rparr>)" by simp
  have pX: "p \<notin> X" using Cons.prems by (auto simp: mq_shape_def)
  have "mq_shape ms (p # fs) X (mq_release p q1)"
    using mq_release_shape [OF sh1, of p] pX by simp
  then have "mq_shape ms (p # fs) X ((mq_release p (q1\<lparr>mq_entry := mq_entry q\<rparr>))\<lparr>mq_entry := mq_entry q1\<rparr>)"
    by (simp add: mq_release_def)
  from Cons.IH [OF this] obtain q' where "mq_flush (mq_release p (q1\<lparr>mq_entry := mq_entry q\<rparr>)) = Some q'"
    "mq_shape [] (rev ms @ p # fs) X (q'\<lparr>mq_entry := 0\<rparr>)" "mq_msg_size q' = mq_msg_size q1" by (auto simp: mq_release_def)
  moreover have "msg_queue_head q \<noteq> None" using Cons.prems by (simp add: mq_shape_def)
  ultimately show ?case using u sz by (subst mq_flush.simps) auto
qed

section \<open>Interleaved calls\<close>

text \<open>
  Between its critical sections a call holds one slot. \<open>f p\<close> says what the call that holds the
  slot \<open>p\<close> will do with it; which call moves next is not determined.
\<close>

datatype slot_phase = Taken | FilledTail | FilledHead | Unlinked

inductive mq_step :: "(nat \<Rightarrow> slot_phase option) \<times> rt_messagequeue \<Rightarrow> (nat \<Rightarrow> slot_phase option) \<times> rt_messagequeue \<Rightarrow> bool" where
  take_slot: "mq_alloc q = Some (p, q') \<Longrightarrow> mq_step (f, q) (f(p \<mapsto> Taken), q')"
| fill_send: "f p = Some Taken \<Longrightarrow> length buf \<le> unat (mq_msg_size q) \<Longrightarrow>
     mq_step (f, q) (f(p \<mapsto> FilledTail), mq_copy_in p buf (mq_clear_next p q))"
| fill_urgent: "f p = Some Taken \<Longrightarrow> length buf \<le> unat (mq_msg_size q) \<Longrightarrow>
     mq_step (f, q) (f(p \<mapsto> FilledHead), mq_copy_in p buf q)"
| link_send: "f p = Some FilledTail \<Longrightarrow> mq_step (f, q) (f(p := None), mq_link_tail p q)"
| link_urgent: "f p = Some FilledHead \<Longrightarrow> mq_step (f, q) (f(p := None), mq_link_head p q)"
| unlink: "mq_entry q \<noteq> 0 \<Longrightarrow> mq_take_entry q = Some (p, q') \<Longrightarrow> mq_step (f, q) (f(p \<mapsto> Unlinked), q')"
| release: "f p = Some Unlinked \<Longrightarrow> mq_step (f, q) (f(p := None), mq_release p q)"

inductive mq_reachable :: "rt_messagequeue \<Rightarrow> (nat \<Rightarrow> slot_phase option) \<times> rt_messagequeue \<Rightarrow> bool" for q0 where
  start: "mq_reachable q0 (\<lambda>_. None, mq_init_lists q0)"
| step: "mq_reachable q0 s \<Longrightarrow> mq_step s s' \<Longrightarrow> mq_reachable q0 s'"

definition mq_sys_inv :: "(nat \<Rightarrow> slot_phase option) \<times> rt_messagequeue \<Rightarrow> bool" where
  "mq_sys_inv s \<longleftrightarrow>
     (\<exists>ms fs. mq_shape ms fs (dom (fst s)) (snd s)) \<and> (\<forall>p. fst s p = Some FilledTail \<longrightarrow> mq_next (snd s) p = None)"

lemma mq_sys_invI:
  "mq_shape ms fs (dom f) q \<Longrightarrow> (\<And>p. f p = Some FilledTail \<Longrightarrow> mq_next q p = None) \<Longrightarrow> mq_sys_inv (f, q)"
  unfolding mq_sys_inv_def by auto

lemma mq_entry_chain: "mq_shape ms fs X q \<Longrightarrow> mq_entry q \<noteq> 0 \<longleftrightarrow> ms \<noteq> []"
  by (auto simp: mq_shape_def unat_eq_0 [symmetric])

lemma mq_step_inv: "mq_step s s' \<Longrightarrow> mq_sys_inv s \<Longrightarrow> mq_sys_inv s'"
proof (induction rule: mq_step.induct)
  case (take_slot q p q' f)
  then obtain ms fs where sh: "mq_shape ms fs (dom f) q" and nx: "\<And>p. f p = Some FilledTail \<Longrightarrow> mq_next q p = None"
    by (auto simp: mq_sys_inv_def)
  obtain r rs where fs: "fs = r # rs" using sh take_slot.hyps mq_alloc_shape(1) by (cases fs) auto
  with mq_alloc_shape(2) [OF sh [unfolded fs]] take_slot.hyps
  have "q' = q\<lparr>msg_queue_free := mq_next q p\<rparr>" "mq_shape ms rs (dom (f(p \<mapsto> Taken))) q'" by auto
  with nx show ?case by (intro mq_sys_invI) (auto split: if_splits)
next
  case (fill_send f p buf q)
  then obtain ms fs where sh: "mq_shape ms fs (dom f) q" and nx: "\<And>p. f p = Some FilledTail \<Longrightarrow> mq_next q p = None"
    by (auto simp: mq_sys_inv_def)
  have "mq_shape ms fs (dom f) (mq_copy_in p buf (mq_clear_next p q))"
    using fill_send.hyps sh by (intro mq_copy_shape mq_clear_shape) (auto simp: mq_clear_next_def)
  moreover have "dom (f(p \<mapsto> FilledTail)) = dom f" using fill_send.hyps(1) by auto
  ultimately show ?case using nx by (intro mq_sys_invI) (auto simp: mq_copy_in_def mq_clear_next_def split: if_splits)
next
  case (fill_urgent f p buf q)
  then obtain ms fs where sh: "mq_shape ms fs (dom f) q" and nx: "\<And>p. f p = Some FilledTail \<Longrightarrow> mq_next q p = None"
    by (auto simp: mq_sys_inv_def)
  have "mq_shape ms fs (dom f) (mq_copy_in p buf q)"
    using fill_urgent.hyps sh by (intro mq_copy_shape) auto
  moreover have "dom (f(p \<mapsto> FilledHead)) = dom f" using fill_urgent.hyps(1) by auto
  ultimately show ?case using nx by (intro mq_sys_invI) (auto simp: mq_copy_in_def split: if_splits)
next
  case (link_send f p q)
  then obtain ms fs where sh: "mq_shape ms fs (dom f) q" and nx: "\<And>p. f p = Some FilledTail \<Longrightarrow> mq_next q p = None"
    by (auto simp: mq_sys_inv_def)
  have p: "p \<in> dom f" "mq_next q p = None" using link_send.hyps nx by auto
  have "last ms \<notin> dom f" if "ms \<noteq> []" using sh last_in_set [OF that] by (auto simp: mq_shape_def simp del: last_in_set)
  then have "mq_next (mq_link_tail p q) r = mq_next q r" if "r \<in> dom f" for r
    using sh that by (auto simp: mq_link_tail_def Let_def mq_shape_def split: option.splits if_splits)
  with mq_link_tail_shape [OF sh p] nx show ?case
    by (intro mq_sys_invI [of "ms @ [p]" fs]) (auto simp: domI split: if_splits)
next
  case (link_urgent f p q)
  then obtain ms fs where sh: "mq_shape ms fs (dom f) q" and nx: "\<And>p. f p = Some FilledTail \<Longrightarrow> mq_next q p = None"
    by (auto simp: mq_sys_inv_def)
  have "p \<in> dom f" using link_urgent.hyps by auto
  from mq_link_head_shape [OF sh this] nx show ?case
    by (intro mq_sys_invI [of "p # ms" fs]) (auto simp: mq_link_head_def Let_def split: if_splits)
next
  case (unlink q p q' f)
  then obtain ms fs where sh: "mq_shape ms fs (dom f) q" and nx: "\<And>p. f p = Some FilledTail \<Longrightarrow> mq_next q p = None"
    by (auto simp: mq_sys_inv_def)
  obtain r rs where ms: "ms = r # rs" using mq_entry_chain [OF sh] unlink.hyps(1) by (cases ms) auto
  with mq_unlink_shape [OF sh [unfolded ms]] unlink.hyps(2)
  have "mq_shape rs fs (dom (f(p \<mapsto> Unlinked))) q'" "mq_next q' = mq_next q" by auto
  with nx show ?case by (intro mq_sys_invI) (auto split: if_splits)
next
  case (release f p q)
  then obtain ms fs where sh: "mq_shape ms fs (dom f) q" and nx: "\<And>p. f p = Some FilledTail \<Longrightarrow> mq_next q p = None"
    by (auto simp: mq_sys_inv_def)
  have "p \<in> dom f" using release.hyps by auto
  from mq_release_shape [OF sh this] nx show ?case
    by (intro mq_sys_invI [of ms "p # fs"]) (auto simp: mq_release_def split: if_splits)
qed

lemma mq_reachable_inv:
  assumes "mq_reachable q0 s" "\<forall>p < unat (mq_max_msgs q0). length (mq_data q0 p) = unat (mq_msg_size q0)"
  shows "mq_sys_inv s"
  using assms(1)
proof (induction rule: mq_reachable.induct)
  case start
  then show ?case using mq_init_shape [OF assms(2)] by (intro mq_sys_invI) (simp_all add: dom_def)
next
  case (step s s')
  then show ?case by (blast intro: mq_step_inv)
qed

section \<open>The calls\<close>

lemma set_mq_fields [simp]:
  "threads (set_mq i q k) = threads k" "lists (set_mq i q k) = lists k" "cpus (set_mq i q k) = cpus k"
  "objs (set_mq i q k) = objs k" "kinv (set_mq i q k) = kinv k" "mqueues (set_mq i q k) = (mqueues k)(i := q)"
  "rt_object_get_type r (set_mq i q k) = rt_object_get_type r k" "set_mq i q (set_mq i q' k) = set_mq i q k"
  by (simp_all add: set_mq_def rt_object_get_type_def)

lemma upd_mq_mk [simp]: "upd_mq i f (mk L k) = mk L (set_mq i (f (mqueues k i)) k)"
  by (simp add: upd_mq_def)

text \<open>Waking the first receiver, or nobody, after the queue was written.\<close>

lemma mq_wake_post:
  assumes ctx: "ipc_ctx c t L k" and st: "stacks_ok k"
  shows "\<exists>s'. wake_one c (mq_queue i) (irq_disabled L c) (mk (lockn c (Some t) (Suc 0) L) (set_mq i q k)) = Some s' \<and>
     kinv (kc s') \<and> mqueues (kc s') i = q \<and>
     (case lists k (mq_queue i) of [] \<Rightarrow> True | u # us \<Rightarrow> is_ready (threads (kc s') u))"
proof -
  note d = ipc_ctxD [OF ctx]
  have k: "kinv (set_mq i q k)" "cur c (set_mq i q k) = Some t" using d by simp_all
  note w = wake_one_first [OF d(1) k(2,1), of "mq_queue i"]
  show ?thesis
  proof (cases "lists k (mq_queue i)")
    case Nil
    then show ?thesis using w k(1) by simp
  next
    case (Cons u us)
    let ?k = "resume_core c u (set_mq i q k)"
    have wt: "waits (threads (set_mq i q k) u)" using waiter_waits [OF d(4), of "mq_queue i" u] Cons by simp
    obtain s' where sch: "rt_schedule c (mk L ?k) = Some s'"
      using resume_returns [OF ctx st k, of u] wt by auto
    have kv: "kinv ?k" "cur c ?k = Some t" using kinv_resume [OF k(1) wt] d(2) by simp_all
    then have si: "sched_inv ?k" by (simp add: kinv_def)
    have "mqueues (kc s') i = q" using schedule_keeps_waiters(5) [OF d(1) kv(2) si d(3) sch] by simp
    moreover have "is_ready (threads (kc s') u)"
      using rt_schedule_ready [OF d(1) kv(2) si d(3) sch, of u] by (simp add: is_ready_def)
    ultimately show ?thesis using w Cons sch rt_schedule_kinv [OF d(1) kv(2,1) d(3) sch] by simp
  qed
qed

lemma mq_too_long:
  assumes "rt_object_get_type (OMq i) k = RT_Object_Class_MessageQueue" "length buf > unat (mq_msg_size (mqueues k i))"
  shows "rt_mq_send c i buf (mk L k) = Some (- RT_ERROR, mk L k)" "rt_mq_urgent c i buf (mk L k) = Some (- RT_ERROR, mk L k)"
  using assms by (auto simp: rt_mq_send_def rt_mq_urgent_def)

lemma mq_send_first:
  assumes "lk_ok th L" "cur c k = th" "rt_object_get_type (OMq i) k = RT_Object_Class_MessageQueue"
    and "buf \<noteq> []" "length buf \<le> unat (mq_msg_size (mqueues k i))"
  shows "mq_alloc (mqueues k i) = None \<Longrightarrow> rt_mq_send c i buf (mk L k) = Some (- RT_EFULL, mk L k)"
    "mq_alloc (mqueues k i) = None \<Longrightarrow> rt_mq_urgent c i buf (mk L k) = Some (- RT_EFULL, mk L k)"
    "mq_alloc (mqueues k i) = Some (p, q) \<Longrightarrow> rt_mq_send c i buf (mk L k) =
       do { s \<leftarrow> wake_one c (mq_queue i) (irq_disabled L c)
                (mk (lockn c th (Suc 0) L) (set_mq i (mq_link_tail p (mq_copy_in p buf (mq_clear_next p q))) k));
            Some (RT_EOK, s) }"
    "mq_alloc (mqueues k i) = Some (p, q) \<Longrightarrow> rt_mq_urgent c i buf (mk L k) =
       do { s \<leftarrow> wake_one c (mq_queue i) (irq_disabled L c)
                (mk (lockn c th (Suc 0) L) (set_mq i (mq_link_head p (mq_copy_in p buf q)) k));
            Some (RT_EOK, s) }"
  using assms by (simp_all add: rt_mq_send_def rt_mq_urgent_def not_less)

text \<open>The data of the slots that the written one does not touch.\<close>

lemma mq_data_ops [simp]:
  "mq_data (mq_link_tail p q) = mq_data q" "mq_data (mq_link_head p q) = mq_data q"
  "mq_data (mq_clear_next p q) = mq_data q" "mq_data (mq_release p q) = mq_data q"
  "mq_data (mq_copy_in p buf q) = (mq_data q)(p := buf @ drop (length buf) (mq_data q p))"
  "mq_msg_size (mq_clear_next p q) = mq_msg_size q" "mq_next (mq_clear_next p q) p = None"
  "mq_next (mq_copy_in p buf q) = mq_next q"
  by (auto simp: mq_link_tail_def mq_link_head_def mq_clear_next_def mq_release_def mq_copy_in_def Let_def
      split: option.split)

lemma mq_send_correct_aux:
  assumes sh: "mq_shape ms (p # fs) X q" and buf: "length buf \<le> unat (mq_msg_size q)"
  shows "\<exists>q' m. mq_alloc q = Some (p, q') \<and>
      mq_shape (ms @ [p]) fs X (mq_link_tail p (mq_copy_in p buf (mq_clear_next p q'))) \<and>
      mq_contents (mq_link_tail p (mq_copy_in p buf (mq_clear_next p q'))) = mq_contents q @ [m] \<and> take (length buf) m = buf"
    "\<exists>q' m. mq_alloc q = Some (p, q') \<and>
      mq_shape (p # ms) fs X (mq_link_head p (mq_copy_in p buf q')) \<and>
      mq_contents (mq_link_head p (mq_copy_in p buf q')) = m # mq_contents q \<and> take (length buf) m = buf"
proof -
  let ?q = "q\<lparr>msg_queue_free := mq_next q p\<rparr>"
  have al: "mq_alloc q = Some (p, ?q)" "mq_shape ms fs (insert p X) ?q" using mq_alloc_shape(2) [OF sh] by blast+
  have pX: "insert p X - {p} = X" "p \<notin> set ms" using sh by (auto simp: mq_shape_def)
  have keep: "map ((mq_data q)(p := v)) ms = map (mq_data q) ms" for v using pX(2) by auto
  have c1: "mq_shape ms fs (insert p X) (mq_copy_in p buf (mq_clear_next p ?q))"
    using al(2) buf by (intro mq_copy_shape mq_clear_shape) auto
  have s1: "mq_shape (ms @ [p]) fs X (mq_link_tail p (mq_copy_in p buf (mq_clear_next p ?q)))"
    using mq_link_tail_shape [OF c1, of p] pX(1) by simp
  have s2: "mq_shape (p # ms) fs X (mq_link_head p (mq_copy_in p buf ?q))"
    using mq_link_head_shape [OF mq_copy_shape [OF al(2), of p buf], of p] buf pX(1) by simp
  show "\<exists>q' m. mq_alloc q = Some (p, q') \<and>
      mq_shape (ms @ [p]) fs X (mq_link_tail p (mq_copy_in p buf (mq_clear_next p q'))) \<and>
      mq_contents (mq_link_tail p (mq_copy_in p buf (mq_clear_next p q'))) = mq_contents q @ [m] \<and> take (length buf) m = buf"
    using al(1) s1 mq_contents_shape [OF s1] mq_contents_shape [OF sh] keep by simp
  show "\<exists>q' m. mq_alloc q = Some (p, q') \<and>
      mq_shape (p # ms) fs X (mq_link_head p (mq_copy_in p buf q')) \<and>
      mq_contents (mq_link_head p (mq_copy_in p buf q')) = m # mq_contents q \<and> take (length buf) m = buf"
    using al(1) s2 mq_contents_shape [OF s2] mq_contents_shape [OF sh] keep by simp
qed

text \<open>A quiescent queue: no slot is in the hands of a call.\<close>

definition mq_wf :: "rt_messagequeue \<Rightarrow> bool" where
  "mq_wf q \<longleftrightarrow> (\<exists>ms fs. mq_shape ms fs {} q)"

lemma mq_wf_free:
  assumes sh: "mq_shape ms fs {} q"
  shows "fs = [] \<longleftrightarrow> length (mq_contents q) = unat (mq_max_msgs q)" "length (mq_contents q) \<le> unat (mq_max_msgs q)"
proof -
  have "length (ms @ fs) = card (set (ms @ fs))"
    using sh by (intro distinct_card [symmetric]) (simp add: mq_shape_def)
  also have "set (ms @ fs) = {0..<unat (mq_max_msgs q)}" using sh by (simp add: mq_shape_def)
  finally have "length ms + length fs = unat (mq_max_msgs q)" by simp
  then show "fs = [] \<longleftrightarrow> length (mq_contents q) = unat (mq_max_msgs q)" "length (mq_contents q) \<le> unat (mq_max_msgs q)"
    by (auto simp: mq_contents_shape [OF sh])
qed

text \<open>The end of a sending call: the new queue is stored, a receiver woken.\<close>

lemma mq_post:
  assumes ctx: "ipc_ctx c t L k" and st: "stacks_ok k" and wf: "mq_shape ms fs {} q"
    and call: "r = do { s \<leftarrow> wake_one c (mq_queue i) (irq_disabled L c) (mk (lockn c (Some t) (Suc 0) L) (set_mq i q k));
                       Some (RT_EOK, s) }"
  shows "\<exists>s'. r = Some (RT_EOK, s') \<and> kinv (kc s') \<and> mq_wf (mqueues (kc s') i) \<and> mq_contents (mqueues (kc s') i) = mq_contents q \<and>
     (case lists k (mq_queue i) of [] \<Rightarrow> True | u # us \<Rightarrow> is_ready (threads (kc s') u))"
proof -
  have "mq_wf q" using wf unfolding mq_wf_def by blast
  with mq_wake_post [OF ctx st, of i q] call show ?thesis by auto
qed

lemma mq_send_ok:
  assumes ctx: "ipc_ctx c t L k" and ty: "rt_object_get_type (OMq i) k = RT_Object_Class_MessageQueue"
    and buf: "buf \<noteq> []" "length buf \<le> unat (mq_msg_size (mqueues k i))" and wf: "mq_wf (mqueues k i)" and st: "stacks_ok k"
    and room: "length (mq_contents (mqueues k i)) < unat (mq_max_msgs (mqueues k i))"
  shows "\<exists>s' m. rt_mq_send c i buf (mk L k) = Some (RT_EOK, s') \<and> kinv (kc s') \<and> mq_wf (mqueues (kc s') i) \<and>
      mq_contents (mqueues (kc s') i) = mq_contents (mqueues k i) @ [m] \<and> take (length buf) m = buf \<and>
      (case lists k (mq_queue i) of [] \<Rightarrow> True | u # us \<Rightarrow> is_ready (threads (kc s') u))"
    "\<exists>s' m. rt_mq_urgent c i buf (mk L k) = Some (RT_EOK, s') \<and> kinv (kc s') \<and> mq_wf (mqueues (kc s') i) \<and>
      mq_contents (mqueues (kc s') i) = m # mq_contents (mqueues k i) \<and> take (length buf) m = buf \<and>
      (case lists k (mq_queue i) of [] \<Rightarrow> True | u # us \<Rightarrow> is_ready (threads (kc s') u))"
proof -
  note d = ipc_ctxD [OF ctx]
  obtain ms fs where sh: "mq_shape ms fs {} (mqueues k i)" using wf by (auto simp: mq_wf_def)
  then obtain p rs where fs: "fs = p # rs" using mq_wf_free(1) [OF sh] room by (cases fs) auto
  note first = mq_send_first [OF d(1,2) ty buf] and aux = mq_send_correct_aux [OF sh [unfolded fs] buf(2)]
  from aux(1) obtain q m where a: "mq_alloc (mqueues k i) = Some (p, q)"
    "mq_shape (ms @ [p]) rs {} (mq_link_tail p (mq_copy_in p buf (mq_clear_next p q)))"
    "mq_contents (mq_link_tail p (mq_copy_in p buf (mq_clear_next p q))) = mq_contents (mqueues k i) @ [m]"
    "take (length buf) m = buf" by blast
  show "\<exists>s' m. rt_mq_send c i buf (mk L k) = Some (RT_EOK, s') \<and> kinv (kc s') \<and> mq_wf (mqueues (kc s') i) \<and>
      mq_contents (mqueues (kc s') i) = mq_contents (mqueues k i) @ [m] \<and> take (length buf) m = buf \<and>
      (case lists k (mq_queue i) of [] \<Rightarrow> True | u # us \<Rightarrow> is_ready (threads (kc s') u))"
    using mq_post [OF ctx st a(2) first(3) [OF a(1)]] a(3,4) by auto
  from aux(2) obtain q m where b: "mq_alloc (mqueues k i) = Some (p, q)"
    "mq_shape (p # ms) rs {} (mq_link_head p (mq_copy_in p buf q))"
    "mq_contents (mq_link_head p (mq_copy_in p buf q)) = m # mq_contents (mqueues k i)"
    "take (length buf) m = buf" by blast
  show "\<exists>s' m. rt_mq_urgent c i buf (mk L k) = Some (RT_EOK, s') \<and> kinv (kc s') \<and> mq_wf (mqueues (kc s') i) \<and>
      mq_contents (mqueues (kc s') i) = m # mq_contents (mqueues k i) \<and> take (length buf) m = buf \<and>
      (case lists k (mq_queue i) of [] \<Rightarrow> True | u # us \<Rightarrow> is_ready (threads (kc s') u))"
    using mq_post [OF ctx st b(2) first(4) [OF b(1)]] b(3,4) by auto
qed

lemma mq_send_full:
  assumes ctx: "ipc_ctx c t L k" and ty: "rt_object_get_type (OMq i) k = RT_Object_Class_MessageQueue"
    and buf: "buf \<noteq> []" "length buf \<le> unat (mq_msg_size (mqueues k i))" and wf: "mq_wf (mqueues k i)"
    and full: "length (mq_contents (mqueues k i)) = unat (mq_max_msgs (mqueues k i))"
  shows "rt_mq_send c i buf (mk L k) = Some (- RT_EFULL, mk L k)" "rt_mq_urgent c i buf (mk L k) = Some (- RT_EFULL, mk L k)"
proof -
  note d = ipc_ctxD [OF ctx]
  obtain ms fs where sh: "mq_shape ms fs {} (mqueues k i)" using wf by (auto simp: mq_wf_def)
  then have "mq_alloc (mqueues k i) = None" using mq_wf_free(1) [OF sh] full mq_alloc_shape(1) by auto
  then show "rt_mq_send c i buf (mk L k) = Some (- RT_EFULL, mk L k)" "rt_mq_urgent c i buf (mk L k) = Some (- RT_EFULL, mk L k)"
    using mq_send_first(1,2) [OF d(1,2) ty buf] by simp_all
qed

text \<open>Receiving.\<close>

lemma mq_entry_empty: "mq_wf q \<Longrightarrow> mq_entry q = 0 \<longleftrightarrow> mq_contents q = []"
  using mq_entry_chain mq_contents_shape by (fastforce simp: mq_wf_def)

lemma mq_recv_some:
  assumes "lk_ok th L" "cur c k = th" "rt_object_get_type (OMq i) k = RT_Object_Class_MessageQueue"
    and "sz \<noteq> 0" "mq_entry (mqueues k i) \<noteq> 0" "mq_take_entry (mqueues k i) = Some (p, q)"
  shows "rt_mq_recv c i sz timeout (mk L k) =
     Some (Inl (RT_EOK, Some (take (min sz (unat (mq_msg_size q))) (mq_data q p))), mk L (set_mq i (mq_release p q) k))"
  using assms by (simp add: rt_mq_recv_def mq_recv_loop_def Let_def min_def)

lemma mq_recv_ok:
  assumes ctx: "ipc_ctx c t L k" and ty: "rt_object_get_type (OMq i) k = RT_Object_Class_MessageQueue"
    and sz: "sz \<noteq> 0" and wf: "mq_wf (mqueues k i)" and ne: "mq_contents (mqueues k i) = m # ms"
  shows "\<exists>s'. rt_mq_recv c i sz timeout (mk L k) =
       Some (Inl (RT_EOK, Some (take (min sz (unat (mq_msg_size (mqueues k i)))) m)), s') \<and>
     kinv (kc s') \<and> mq_wf (mqueues (kc s') i) \<and> mq_contents (mqueues (kc s') i) = ms"
proof -
  note d = ipc_ctxD [OF ctx]
  obtain ps fs where sh: "mq_shape ps fs {} (mqueues k i)" using wf by (auto simp: mq_wf_def)
  obtain p rs where ps: "ps = p # rs" "m = mq_data (mqueues k i) p" "ms = map (mq_data (mqueues k i)) rs"
    using mq_contents_shape [OF sh] ne by auto
  have e: "mq_entry (mqueues k i) \<noteq> 0" using mq_entry_empty [OF wf] ne by simp
  obtain q where q: "mq_take_entry (mqueues k i) = Some (p, q)" "mq_shape rs fs {p} q"
    "mq_data q = mq_data (mqueues k i)" "mq_msg_size q = mq_msg_size (mqueues k i)"
    using mq_unlink_shape [OF sh [unfolded ps(1)]] by metis
  have rel: "mq_shape rs (p # fs) {} (mq_release p q)" using mq_release_shape [OF q(2)] by simp
  then have "mq_wf (mq_release p q)" unfolding mq_wf_def by blast
  then show ?thesis
    using mq_recv_some [OF d(1,2) ty sz e q(1), of timeout] q(3,4) d(4) ps(2,3) mq_contents_shape [OF rel] by simp
qed

lemma mq_recv_empty:
  assumes ctx: "ipc_ctx c t L k" and ty: "rt_object_get_type (OMq i) k = RT_Object_Class_MessageQueue"
    and sz: "sz \<noteq> 0" and empty: "mq_entry (mqueues k i) = 0"
  shows "rt_mq_recv c i sz 0 (mk L k) = Some (Inl (- RT_ETIMEOUT, None), mk L k)"
    "wait_time timeout \<Longrightarrow> rt_mq_recv c i sz timeout (mk L k) =
       do { s \<leftarrow> rt_schedule c (mk L (wait_core (mq_queue i) (obj_flag (objs k (OMq i))) t timeout k));
            Some (Inr (if timeout > 0 then rt_tick_get k else 0, timeout), s) }"
  using ipc_ctxD [OF ctx] ty sz empty ipc_wait_first [OF ctx, of timeout]
  by (simp_all add: rt_mq_recv_def mq_recv_loop_def wait_time_def Let_def is_ready_def)

lemma mq_recv_waits:
  assumes ctx: "ipc_ctx c t L k" and ty: "rt_object_get_type (OMq i) k = RT_Object_Class_MessageQueue"
    and fl: "ipc_flag (obj_flag (objs k (OMq i)))" and st: "stacks_ok k"
    and sz: "sz \<noteq> 0" and wf: "mq_wf (mqueues k i)" and empty: "mq_contents (mqueues k i) = []" and time: "wait_time timeout"
  shows "\<exists>w s'. rt_mq_recv c i sz timeout (mk L k) = Some (Inr w, s') \<and> kinv (kc s') \<and>
     mqueues (kc s') i = mqueues k i \<and> t \<in> set (lists (kc s') (mq_queue i))"
proof -
  have e: "mq_entry (mqueues k i) = 0" using mq_entry_empty [OF wf] empty by simp
  obtain s' where s': "rt_schedule c (mk L (wait_core (mq_queue i) (obj_flag (objs k (OMq i))) t timeout k)) = Some s'"
    using wait_returns [OF ctx st _ fl, of "mq_queue i" timeout] time by auto
  from mb_block_post [OF ctx _ fl this] mq_recv_empty(2) [OF ctx ty sz e time] s' show ?thesis by simp
qed

text \<open>Resetting: every waiter is released with an error, every message goes back to the free list.\<close>

lemma mq_reset_first:
  assumes "lk_ok th L" "cur c k = th" "rt_object_get_type (OMq i) k = RT_Object_Class_MessageQueue" "kinv k"
    and "mq_flush (mqueues k i) = Some q"
  shows "rt_mq_control c i (IPC_CMD_RESET v) (mk L k) =
     do { s \<leftarrow> rt_schedule c (mk L (set_mq i (q\<lparr>mq_entry := 0\<rparr>) (resume_all_core c (mq_queue i) k))); Some (RT_EOK, s) }"
  using assms resume_all_n [of th L k c "Suc 0" "mq_queue i"] by (simp add: rt_mq_control_def resume_all_fields)

lemma mq_reset_ok:
  assumes ctx: "ipc_ctx c t L k" and ty: "rt_object_get_type (OMq i) k = RT_Object_Class_MessageQueue"
    and st: "stacks_ok k" and wf: "mq_wf (mqueues k i)"
  shows "\<exists>s'. rt_mq_control c i (IPC_CMD_RESET v) (mk L k) = Some (RT_EOK, s') \<and> kinv (kc s') \<and>
     mq_wf (mqueues (kc s') i) \<and> mq_contents (mqueues (kc s') i) = [] \<and> lists (kc s') (mq_queue i) = [] \<and>
     (\<forall>u \<in> set (lists k (mq_queue i)). is_ready (threads (kc s') u) \<and> th_error (threads (kc s') u) = - RT_ERROR)"
proof -
  note d = ipc_ctxD [OF ctx]
  obtain ms fs where "mq_shape ms fs {} ((mqueues k i)\<lparr>mq_entry := mq_entry (mqueues k i)\<rparr>)" using wf by (auto simp: mq_wf_def)
  then obtain q where q: "mq_flush (mqueues k i) = Some q" "mq_shape [] (rev ms @ fs) {} (q\<lparr>mq_entry := 0\<rparr>)"
    using mq_flush_shape by blast
  have wf': "mq_wf (q\<lparr>mq_entry := 0\<rparr>)" using q(2) unfolding mq_wf_def by blast
  have ct: "mq_contents (q\<lparr>mq_entry := 0\<rparr>) = []" using mq_contents_shape [OF q(2)] by simp
  let ?k = "set_mq i (q\<lparr>mq_entry := 0\<rparr>) (resume_all_core c (mq_queue i) k)"
  note all = resume_all_n [OF d(1,2) _ d(4), of 0 "mq_queue i", simplified]
  have k: "kinv ?k" "cur c ?k = Some t" using all by simp_all
  then have si: "sched_inv ?k" by (simp add: kinv_def)
  obtain s' where sch: "rt_schedule c (mk L ?k) = Some s'"
    using resume_all_returns [OF ctx st, of "mq_queue i" ?k] k by auto
  note keep = schedule_keeps_waiters [OF d(1) k(2) si d(3) sch]
  have "mqueues (kc s') i = q\<lparr>mq_entry := 0\<rparr>" using keep(5) by simp
  then show ?thesis
    using mq_reset_first [OF d(1,2) ty d(4) q(1), of v] sch wf' ct rt_schedule_kinv [OF d(1) k(2,1) d(3) sch]
      keep(6) [of "mq_queue i"] all rt_schedule_ready [OF d(1) k(2) si d(3) sch] keep(7) by simp
qed

section \<open>Properties\<close>

text \<open>
  C10. However the critical sections of senders and receivers on one message queue interleave, every slot
  is at each moment in exactly one place, the queue, the free list or the hands of one call, and a
  receiver that sees a positive entry count finds a message.
\<close>

theorem mq_interleaving_safe:
  assumes "\<forall>p < unat (mq_max_msgs q0). length (mq_data q0 p) = unat (mq_msg_size q0)" "mq_reachable q0 (f, q)"
  shows "\<exists>ms fs. mq_chain (mq_next q) (msg_queue_head q) ms \<and> mq_chain (mq_next q) (msg_queue_free q) fs \<and>
     distinct (ms @ fs) \<and> (set ms \<union> set fs) \<inter> dom f = {} \<and> set ms \<union> set fs \<union> dom f = {0..<unat (mq_max_msgs q)} \<and>
     unat (mq_entry q) = length ms \<and> (mq_entry q \<noteq> 0 \<longrightarrow> (\<exists>p q'. mq_take_entry q = Some (p, q')))"
proof -
  obtain ms fs where sh: "mq_shape ms fs (dom f) q"
    using mq_reachable_inv [OF assms(2,1)] by (auto simp: mq_sys_inv_def)
  have "\<exists>p q'. mq_take_entry q = Some (p, q')" if "mq_entry q \<noteq> 0"
  proof -
    have "ms \<noteq> []" using mq_entry_chain [OF sh] that by blast
    then obtain p rs where "ms = p # rs" by (cases ms) auto
    with sh show ?thesis using mq_unlink_shape by metis
  qed
  with sh show ?thesis unfolding mq_shape_def by blast
qed

definition mq_one :: rt_messagequeue where
  "mq_one = \<lparr>mq_next = \<lambda>_. None, mq_data = \<lambda>_. [0, 0, 0, 0], mq_msg_size = 4, mq_max_msgs = 1, mq_entry = 0,
     msg_queue_head = None, msg_queue_tail = None, msg_queue_free = None\<rparr>"

theorem mq_interleaving_safe_witness:
  "\<exists>q. mq_reachable mq_one ([0 \<mapsto> Taken], q) \<and>
     (\<exists>ms fs. mq_chain (mq_next q) (msg_queue_head q) ms \<and> mq_chain (mq_next q) (msg_queue_free q) fs \<and>
        set ms \<union> set fs \<union> {0} = {0..<unat (mq_max_msgs q)} \<and> unat (mq_entry q) = length ms)"
proof -
  let ?q = "(mq_init_lists mq_one)\<lparr>msg_queue_free := None\<rparr>"
  have "mq_alloc (mq_init_lists mq_one) = Some (0, ?q)"
    by (simp add: mq_alloc_def mq_init_lists_def mq_one_def mq_release_def)
  from mq_reachable.step [OF mq_reachable.start mq_step.take_slot [OF this]]
  have r: "mq_reachable mq_one ([0 \<mapsto> Taken], ?q)" .
  have "\<forall>p < unat (mq_max_msgs mq_one). length (mq_data mq_one p) = unat (mq_msg_size mq_one)" by (simp add: mq_one_def)
  from mq_interleaving_safe [OF this r] r show ?thesis by (intro exI [of _ ?q]) auto
qed

end
