(* ===== verification/Rt_Mempool.thy ===== *)
theory Rt_Mempool
  imports Rt_Mailbox
begin

text \<open>
  Memory pools, \<^verbatim>\<open>src/mempool.c\<close>, and the error number of \<^verbatim>\<open>src/kservice.c\<close>. A pool is an array
  of blocks; the free ones are chained through their headers, an allocated one points to its pool.
  The properties: every block is either on the free chain, once, or allocated; allocating and
  releasing move one block; a call on an empty pool fails or waits. The counter of waiting threads is
  not corrected when a wait times out, after which releasing a block follows a pointer that is no thread.
\<close>

section \<open>Error number\<close>

definition rt_get_errno :: "cpu_id \<Rightarrow> kstate \<Rightarrow> (rt_err_t \<times> kstate) option" where
  "rt_get_errno c s =
     do { (nest, s) \<leftarrow> rt_interrupt_get_nest c s;
          if nest \<noteq> 0 then Some (k_errno (kc s), s)
          else
            let (tid, s) = rt_thread_self c s in
            case tid of None \<Rightarrow> Some (k_errno (kc s), s) | Some t \<Rightarrow> Some (th_error (threads (kc s) t), s) }"

definition rt_set_errno :: "cpu_id \<Rightarrow> rt_err_t \<Rightarrow> kstate \<Rightarrow> kstate option" where
  "rt_set_errno c error s =
     do { (nest, s) \<leftarrow> rt_interrupt_get_nest c s;
          if nest \<noteq> 0 then Some (s\<lparr>kc := (kc s)\<lparr>k_errno := error\<rparr>\<rparr>)
          else
            let (tid, s) = rt_thread_self c s in
            case tid of
              None \<Rightarrow> Some (s\<lparr>kc := (kc s)\<lparr>k_errno := error\<rparr>\<rparr>)
            | Some t \<Rightarrow> Some (s\<lparr>kc := upd_thread t (\<lambda>th. th\<lparr>th_error := error\<rparr>) (kc s)\<rparr>) }"

section \<open>Operations\<close>

abbreviation mp_queue :: "objid \<Rightarrow> lhead" where
  "mp_queue i \<equiv> SuspendQ (OMemPool i)"

definition set_mp :: "objid \<Rightarrow> rt_mempool \<Rightarrow> kcore \<Rightarrow> kcore" where
  "set_mp i m k = k\<lparr>mempools := (mempools k)(i := m)\<rparr>"

definition upd_mp :: "objid \<Rightarrow> (rt_mempool \<Rightarrow> rt_mempool) \<Rightarrow> kstate \<Rightarrow> kstate" where
  "upd_mp i f s = s\<lparr>kc := set_mp i (f (mempools (kc s) i)) (kc s)\<rparr>"

text \<open>
  The loop that chains the blocks and the store that ends the chain. The loop leaves \<open>offset\<close> at the number of
  blocks; without blocks the store goes to the memory before the pool.
\<close>

fun mp_link_blocks :: "nat \<Rightarrow> (nat \<Rightarrow> block_header) \<Rightarrow> nat \<Rightarrow> block_header" where
  "mp_link_blocks 0 h = h"
| "mp_link_blocks (Suc n) h = (mp_link_blocks n h)(n := NextFree (Some (Suc n)))"

definition mp_init_blocks :: "rt_mempool \<Rightarrow> rt_mempool option" where
  "mp_init_blocks m =
     (let n = unat (block_total_count m); h = mp_link_blocks n (mp_header m) in
      if n = 0 then None
      else Some (m\<lparr>mp_header := h(n - 1 := NextFree None), block_list := Some 0\<rparr>))"

definition mp_set_sizes :: "u32 \<Rightarrow> u32 \<Rightarrow> rt_mempool \<Rightarrow> rt_mempool" where
  "mp_set_sizes sz bsz m =
     (let bsz = RT_ALIGN bsz (of_nat RT_ALIGN_SIZE); sz = RT_ALIGN_DOWN sz (of_nat RT_ALIGN_SIZE) in
      m\<lparr>mp_size := sz, block_size := bsz, block_total_count := sz div (bsz + 4), block_free_count := sz div (bsz + 4)\<rparr>)"

definition rt_mp_init :: "cpu_id \<Rightarrow> objid \<Rightarrow> u8 list \<Rightarrow> u32 \<Rightarrow> u32 \<Rightarrow> kstate \<Rightarrow> (rt_err_t \<times> kstate) option" where
  "rt_mp_init c i name sz bsz s =
     do { s \<leftarrow> rt_object_init c (OMemPool i) RT_Object_Class_MemPool name s;
          let s = upd_mp i (mp_set_sizes sz bsz) s;
          let s = s\<lparr>kc := (kc s)\<lparr>lists := (lists (kc s))(mp_queue i := [])\<rparr>\<rparr>;
          let s = upd_mp i (\<lambda>m. m\<lparr>suspend_thread_count := 0\<rparr>) s;
          m \<leftarrow> mp_init_blocks (mempools (kc s) i);
          Some (RT_EOK, upd_mp i (\<lambda>_. m) s) }"

partial_function (option) mp_resume_all :: "cpu_id \<Rightarrow> objid \<Rightarrow> kstate \<Rightarrow> kstate option" where
  "mp_resume_all c i s =
     (case lists (kc s) (mp_queue i) of
        [] \<Rightarrow> Some s
      | t # _ \<Rightarrow>
          Option.bind (rt_hw_interrupt_disable c s) (\<lambda>ls.
            Option.bind (rt_thread_resume c t ((snd ls)\<lparr>kc :=
                upd_thread t (\<lambda>th. th\<lparr>th_error := - RT_ERROR\<rparr>) (kc (snd ls))\<rparr>)) (\<lambda>es.
              mp_resume_all c i (rt_hw_interrupt_enable c (fst ls)
                (upd_mp i (\<lambda>m. m\<lparr>suspend_thread_count := suspend_thread_count m - 1\<rparr>) (snd es))))))"

definition rt_mp_detach :: "cpu_id \<Rightarrow> objid \<Rightarrow> kstate \<Rightarrow> (rt_err_t \<times> kstate) option" where
  "rt_mp_detach c i s =
     do { RT_ASSERT (rt_object_get_type (OMemPool i) (kc s) = RT_Object_Class_MemPool);
          RT_ASSERT (rt_object_is_systemobject (OMemPool i) (kc s));
          s \<leftarrow> mp_resume_all c i s;
          s \<leftarrow> rt_object_detach c (OMemPool i) s;
          Some (RT_EOK, s) }"

text \<open>\<open>mem\<close> and \<open>malloc\<close> are the results of the two allocations, the second for so many bytes.\<close>

definition rt_mp_create ::
    "cpu_id \<Rightarrow> u8 list \<Rightarrow> u32 \<Rightarrow> u32 \<Rightarrow> objid option \<Rightarrow> (u32 \<Rightarrow> bool) \<Rightarrow> kstate \<Rightarrow> (objid option \<times> kstate) option" where
  "rt_mp_create c name count bsz mem malloc s =
     do { s \<leftarrow> RT_DEBUG_NOT_IN_INTERRUPT c s;
          (mp, s) \<leftarrow> rt_object_allocate c RT_Object_Class_MemPool name (map_option OMemPool mem) s;
          case mp of
            Some (OMemPool i) \<Rightarrow>
              do { let bsz = RT_ALIGN bsz (of_nat RT_ALIGN_SIZE);
                   let s = upd_mp i (\<lambda>m. m\<lparr>block_size := bsz, mp_size := (bsz + 4) * count\<rparr>) s;
                   if \<not> malloc ((bsz + 4) * count)
                   then do { s \<leftarrow> rt_object_delete c (OMemPool i) s; Some (None, s) }
                   else
                     do { let s = upd_mp i (\<lambda>m. m\<lparr>block_total_count := count, block_free_count := count\<rparr>) s;
                          let s = s\<lparr>kc := (kc s)\<lparr>lists := (lists (kc s))(mp_queue i := [])\<rparr>\<rparr>;
                          let s = upd_mp i (\<lambda>m. m\<lparr>suspend_thread_count := 0\<rparr>) s;
                          m \<leftarrow> mp_init_blocks (mempools (kc s) i);
                          Some (Some i, upd_mp i (\<lambda>_. m) s) } }
          | _ \<Rightarrow> Some (None, s) }"

definition rt_mp_delete :: "cpu_id \<Rightarrow> objid \<Rightarrow> kstate \<Rightarrow> (rt_err_t \<times> kstate) option" where
  "rt_mp_delete c i s =
     do { s \<leftarrow> RT_DEBUG_NOT_IN_INTERRUPT c s;
          RT_ASSERT (rt_object_get_type (OMemPool i) (kc s) = RT_Object_Class_MemPool);
          RT_ASSERT (\<not> rt_object_is_systemobject (OMemPool i) (kc s));
          s \<leftarrow> mp_resume_all c i s;
          s \<leftarrow> rt_object_delete c (OMemPool i) s;
          Some (RT_EOK, s) }"

text \<open>Taking the first block off the chain; \<open>None\<close> is the failed assertion, or a header that is no link.\<close>

definition mp_take_block :: "objid \<Rightarrow> rt_mempool \<Rightarrow> (nat \<times> rt_mempool) option" where
  "mp_take_block i m =
     (case block_list m of
        None \<Rightarrow> None
      | Some b \<Rightarrow>
          (case mp_header m b of
             OwnedBy _ \<Rightarrow> None
           | NextFree nx \<Rightarrow>
               Some (b, m\<lparr>block_free_count := block_free_count m - 1, block_list := nx,
                          mp_header := (mp_header m)(b := OwnedBy i)\<rparr>)))"

definition mp_suspend :: "cpu_id \<Rightarrow> objid \<Rightarrow> tid \<Rightarrow> kstate \<Rightarrow> kstate option" where
  "mp_suspend c i t s =
     do { (_, s) \<leftarrow> rt_thread_suspend c t s;
          let s = s\<lparr>kc := (kc s)\<lparr>lists := ll_insert_head (mp_queue i) t (lists (kc s))\<rparr>\<rparr>;
          Some (upd_mp i (\<lambda>m. m\<lparr>suspend_thread_count := suspend_thread_count m + 1\<rparr>) s) }"

text \<open>
  The loop of \<^verbatim>\<open>rt_mp_alloc\<close> up to a suspension, and what follows it. \<open>Inl\<close> is the result, a block of
  pool \<open>i\<close> or a null pointer; \<open>Inr\<close> the start of the wait and the time given.
\<close>

definition mp_alloc_loop ::
    "cpu_id \<Rightarrow> objid \<Rightarrow> tid option \<Rightarrow> bool \<Rightarrow> u32 \<Rightarrow> int \<Rightarrow> kstate \<Rightarrow> (((objid \<times> nat) option + (u32 \<times> int)) \<times> kstate) option" where
  "mp_alloc_loop c i thread level before_sleep time s =
     (if block_free_count (mempools (kc s) i) = 0 then
        if time = 0 then
          do { let s = rt_hw_interrupt_enable c level s;
               s \<leftarrow> rt_set_errno c (- RT_ETIMEOUT) s;
               Some (Inl None, s) }
        else
          do { s \<leftarrow> RT_DEBUG_NOT_IN_INTERRUPT c s;
               t \<leftarrow> thread;
               let s = s\<lparr>kc := upd_thread t (\<lambda>th. th\<lparr>th_error := RT_EOK\<rparr>) (kc s)\<rparr>;
               s \<leftarrow> mp_suspend c i t s;
               (before_sleep, s) \<leftarrow>
                 (if time > 0 then
                    do { let before_sleep = rt_tick_get (kc s);
                         (_, _, s) \<leftarrow> rt_timer_control (OThreadTimer t) (TIMER_SET_TIME (word_of_int time)) s;
                         (_, s) \<leftarrow> rt_timer_start c (OThreadTimer t) s;
                         Some (before_sleep, s) }
                  else Some (before_sleep, s));
               let s = rt_hw_interrupt_enable c level s;
               s \<leftarrow> rt_schedule c s;
               Some (Inr (before_sleep, time), s) }
      else
        do { (b, m) \<leftarrow> mp_take_block i (mempools (kc s) i);
             let s = rt_hw_interrupt_enable c level (upd_mp i (\<lambda>_. m) s);
             Some (Inl (Some (i, b)), s) })"

definition rt_mp_alloc ::
    "cpu_id \<Rightarrow> objid \<Rightarrow> int \<Rightarrow> kstate \<Rightarrow> (((objid \<times> nat) option + (u32 \<times> int)) \<times> kstate) option" where
  "rt_mp_alloc c i time s =
     do { let (thread, s) = rt_thread_self c s;
          (level, s) \<leftarrow> rt_hw_interrupt_disable c s;
          mp_alloc_loop c i thread level 0 time s }"

definition rt_mp_alloc_cont ::
    "cpu_id \<Rightarrow> objid \<Rightarrow> tid \<Rightarrow> u32 \<times> int \<Rightarrow> kstate \<Rightarrow> (((objid \<times> nat) option + (u32 \<times> int)) \<times> kstate) option" where
  "rt_mp_alloc_cont c i t w s =
     (if th_error (threads (kc s) t) \<noteq> RT_EOK then Some (Inl None, s)
      else
        do { (level, s) \<leftarrow> rt_hw_interrupt_disable c s;
             mp_alloc_loop c i (Some t) level (fst w) (time_left (rt_tick_get (kc s)) (fst w) (snd w)) s })"

text \<open>
  Releasing a block, given by the pool whose memory it lies in and its number. The header names the
  pool; a header that does not (the block is free already) is not a pointer to one, and one that names
  another pool is outside the model.
\<close>

definition mp_put_block :: "nat \<Rightarrow> rt_mempool \<Rightarrow> rt_mempool" where
  "mp_put_block b m = m\<lparr>block_free_count := block_free_count m + 1,
     mp_header := (mp_header m)(b := NextFree (block_list m)), block_list := Some b\<rparr>"

definition rt_mp_free :: "cpu_id \<Rightarrow> objid \<times> nat \<Rightarrow> kstate \<Rightarrow> kstate option" where
  "rt_mp_free c block s =
     do { i \<leftarrow> (case mp_header (mempools (kc s) (fst block)) (snd block) of
                  OwnedBy i \<Rightarrow> if i = fst block then Some i else None
                | NextFree _ \<Rightarrow> None);
          (level, s) \<leftarrow> rt_hw_interrupt_disable c s;
          let s = upd_mp i (mp_put_block (snd block)) s;
          if suspend_thread_count (mempools (kc s) i) > 0 then
            do { t \<leftarrow> first_thread (lists (kc s) (mp_queue i));
                 let s = s\<lparr>kc := upd_thread t (\<lambda>th. th\<lparr>th_error := RT_EOK\<rparr>) (kc s)\<rparr>;
                 (_, s) \<leftarrow> rt_thread_resume c t s;
                 let s = upd_mp i (\<lambda>m. m\<lparr>suspend_thread_count := suspend_thread_count m - 1\<rparr>) s;
                 let s = rt_hw_interrupt_enable c level s;
                 rt_schedule c s }
          else Some (rt_hw_interrupt_enable c level s) }"

section \<open>The chain of free blocks\<close>

fun mp_chain :: "(nat \<Rightarrow> block_header) \<Rightarrow> nat option \<Rightarrow> nat list \<Rightarrow> bool" where
  "mp_chain h p [] \<longleftrightarrow> p = None"
| "mp_chain h p (b # bs) \<longleftrightarrow> p = Some b \<and> (case h b of NextFree nx \<Rightarrow> mp_chain h nx bs | OwnedBy _ \<Rightarrow> False)"

text \<open>\<open>mp_shape i fs m\<close>: the free blocks are \<open>fs\<close>, each once, and every other block is allocated.\<close>

definition mp_shape :: "objid \<Rightarrow> nat list \<Rightarrow> rt_mempool \<Rightarrow> bool" where
  "mp_shape i fs m \<longleftrightarrow>
     mp_chain (mp_header m) (block_list m) fs \<and> distinct fs \<and> set fs \<subseteq> {0..<unat (block_total_count m)} \<and>
     unat (block_free_count m) = length fs \<and>
     (\<forall>b < unat (block_total_count m). b \<notin> set fs \<longrightarrow> mp_header m b = OwnedBy i)"

definition mp_wf :: "objid \<Rightarrow> rt_mempool \<Rightarrow> bool" where
  "mp_wf i m \<longleftrightarrow> (\<exists>fs. mp_shape i fs m)"

text \<open>The blocks in use.\<close>

definition mp_used :: "objid \<Rightarrow> rt_mempool \<Rightarrow> nat set" where
  "mp_used i m = {b. b < unat (block_total_count m) \<and> mp_header m b = OwnedBy i}"

lemma mp_chain_upd [simp]: "x \<notin> set xs \<Longrightarrow> mp_chain (h(x := v)) p xs = mp_chain h p xs"
  by (induction xs arbitrary: p) (auto split: block_header.split)

lemma mp_chain_free: "mp_chain h p fs \<Longrightarrow> b \<in> set fs \<Longrightarrow> h b \<noteq> OwnedBy i"
  by (induction fs arbitrary: p) (auto split: block_header.splits)

lemma mp_used_shape: "mp_shape i fs m \<Longrightarrow> mp_used i m = {0..<unat (block_total_count m)} - set fs"
  using mp_chain_free by (fastforce simp: mp_used_def mp_shape_def)

lemma mp_take_shape:
  assumes "mp_shape i (b # fs) m"
  shows "\<exists>m'. mp_take_block i m = Some (b, m') \<and> mp_shape i fs m' \<and> block_total_count m' = block_total_count m \<and>
     suspend_thread_count m' = suspend_thread_count m"
proof -
  obtain nx where nx: "mp_header m b = NextFree nx" "mp_chain (mp_header m) nx fs" "block_list m = Some b"
    using assms by (auto simp: mp_shape_def split: block_header.splits)
  have "unat (block_free_count m - 1) = length fs" using assms by (simp add: mp_shape_def unat_sub word_le_nat_alt)
  then show ?thesis using assms nx by (auto simp: mp_take_block_def mp_shape_def)
qed

lemma mp_put_shape:
  assumes sh: "mp_shape i fs m" and b: "b \<in> mp_used i m"
  shows "mp_shape i (b # fs) (mp_put_block b m)"
proof -
  have nb: "b \<notin> set fs" "b < unat (block_total_count m)" using b mp_used_shape [OF sh] by auto
  have "length (b # fs) = card (set (b # fs))" using sh nb(1) by (intro distinct_card [symmetric]) (simp add: mp_shape_def)
  also have "\<dots> \<le> card {0..<unat (block_total_count m)}" using sh nb(2) by (intro card_mono) (auto simp: mp_shape_def)
  finally have "block_free_count m < block_total_count m" using sh by (simp add: mp_shape_def word_less_nat_alt)
  then have "unat (block_free_count m + 1) = Suc (length fs)"
    using sh unat_Suc_less [of "block_free_count m"] by (simp add: mp_shape_def)
  then show ?thesis using sh nb by (auto simp: mp_put_block_def mp_shape_def)
qed

lemma mp_link_blocks_nth: "mp_link_blocks n h b = (if b < n then NextFree (Some (Suc b)) else h b)"
  by (induction n) auto

lemma mp_chain_up:
  assumes "\<And>b. j \<le> b \<Longrightarrow> b < n \<Longrightarrow> h b = NextFree (if Suc b = n then None else Some (Suc b))" "j < n"
  shows "mp_chain h (Some j) [j..<n]"
  using assms
proof (induction "n - j" arbitrary: j)
  case (Suc d)
  have "[j..<n] = j # [Suc j..<n]" using Suc.prems(2) by (simp add: upt_conv_Cons)
  moreover have "Suc j < n \<Longrightarrow> mp_chain h (Some (Suc j)) [Suc j..<n]" using Suc.hyps Suc.prems by (intro Suc.hyps) auto
  ultimately show ?case using Suc.prems by (cases "Suc j = n") simp_all
qed simp

lemma mp_init_shape:
  assumes "block_free_count m = block_total_count m" "block_total_count m \<noteq> 0"
  shows "\<exists>m'. mp_init_blocks m = Some m' \<and> mp_shape i [0..<unat (block_total_count m)] m' \<and>
     block_total_count m' = block_total_count m \<and> suspend_thread_count m' = suspend_thread_count m"
proof -
  let ?n = "unat (block_total_count m)"
  have n: "0 < ?n" using assms(2) by (simp add: unat_gt_0)
  let ?h = "(mp_link_blocks ?n (mp_header m))(?n - 1 := NextFree None)"
  have "mp_chain ?h (Some 0) [0..<?n]" using n by (intro mp_chain_up) (auto simp: mp_link_blocks_nth)
  then show ?thesis using n assms(1) by (simp add: mp_init_blocks_def mp_shape_def Let_def)
qed

section \<open>The calls\<close>

lemma set_mp_fields [simp]:
  "threads (set_mp i m k) = threads k" "lists (set_mp i m k) = lists k" "cpus (set_mp i m k) = cpus k"
  "objs (set_mp i m k) = objs k" "timers (set_mp i m k) = timers k" "kinv (set_mp i m k) = kinv k"
  "objs_ok (set_mp i m k) = objs_ok k" "mempools (set_mp i m k) = (mempools k)(i := m)"
  "rt_object_get_type r (set_mp i m k) = rt_object_get_type r k" "set_mp i m (set_mp i m' k) = set_mp i m k"
  "timer_flag r f (set_mp i m k) = timer_flag r f k"
  by (simp_all add: set_mp_def rt_object_get_type_def timer_flag_def)

lemma upd_mp_mk [simp]: "upd_mp i f (mk L k) = mk L (set_mp i (f (mempools k i)) k)"
  by (simp add: upd_mp_def)

lemma mp_alloc_some:
  assumes "lk_ok th L" "cur c k = th" "block_free_count (mempools k i) \<noteq> 0" "mp_take_block i (mempools k i) = Some (b, m)"
  shows "rt_mp_alloc c i time (mk L k) = Some (Inl (Some (i, b)), mk L (set_mp i m k))"
  using assms by (simp add: rt_mp_alloc_def mp_alloc_loop_def)

lemma mp_alloc_fails:
  assumes "lk_ok (Some t) L" "cur c k = Some t" "irq_nest (cpus k c) = 0" "block_free_count (mempools k i) = 0"
  shows "rt_mp_alloc c i 0 (mk L k) =
     Some (Inl None, mk L (upd_thread t (\<lambda>th. th\<lparr>th_error := - RT_ETIMEOUT\<rparr>) k))"
  using assms by (simp add: rt_mp_alloc_def mp_alloc_loop_def rt_set_errno_def)

definition mp_wait_core :: "objid \<Rightarrow> tid \<Rightarrow> int \<Rightarrow> kcore \<Rightarrow> kcore" where
  "mp_wait_core i t time k =
     (let k1 = suspend_core t (upd_thread t (\<lambda>th. th\<lparr>th_error := RT_EOK\<rparr>) k);
          k2 = k1\<lparr>lists := ll_insert_head (mp_queue i) t (lists k1)\<rparr>;
          k3 = set_mp i ((mempools k i)\<lparr>suspend_thread_count := suspend_thread_count (mempools k i) + 1\<rparr>) k2
      in if time > 0 then block_core t (word_of_int time) k3 else k3)"

lemma mp_alloc_waits:
  assumes ctx: "ipc_ctx c t L k" and empty: "block_free_count (mempools k i) = 0" and time: "wait_time time"
  shows "rt_mp_alloc c i time (mk L k) =
     do { s \<leftarrow> rt_schedule c (mk L (mp_wait_core i t time k));
          Some (Inr (if time > 0 then rt_tick_get k else 0, time), s) }"
proof -
  note d = ipc_ctxD [OF ctx]
  let ?k = "upd_thread t (\<lambda>th. th\<lparr>th_error := RT_EOK\<rparr>) k"
  have ob: "objs_ok ?k" using d(5) by (rule objs_ok_upd_thread) (simp add: started_def)
  have tick: "rt_tick_get (set_mp i m ((suspend_core t ?k)\<lparr>lists := l\<rparr>)) = rt_tick_get k" for m l
    by (simp add: rt_tick_get_def suspend_core_def)
  have ty: "rt_object_get_type (OThreadTimer t) (suspend_core t ?k) = RT_Object_Class_Timer"
    "\<not> timer_flag (OThreadTimer t) RT_TIMER_FLAG_SOFT_TIMER (suspend_core t ?k)" using d(8,10) by simp_all
  show ?thesis
    using d time wait_time_tick [OF time] ob ty tick empty
    by (simp add: rt_mp_alloc_def mp_alloc_loop_def mp_suspend_def mp_wait_core_def Let_def wait_time_def
        block_core_def is_ready_def)
qed

lemma mp_wait_core_post:
  assumes ctx: "ipc_ctx c t L k"
  shows "kinv (mp_wait_core i t time k)" "cur c (mp_wait_core i t time k) = Some t"
    "mempools (mp_wait_core i t time k) i =
       (mempools k i)\<lparr>suspend_thread_count := suspend_thread_count (mempools k i) + 1\<rparr>"
    "lists (mp_wait_core i t time k) (mp_queue i) = t # lists k (mp_queue i)"
    "threads (mp_wait_core i t time k) =
       (threads k)(t := (threads k t)\<lparr>th_error := RT_EOK, stat := set_tstate RT_THREAD_SUSPEND (stat (threads k t))\<rparr>)"
proof -
  note d = ipc_ctxD [OF ctx]
  let ?k = "upd_thread t (\<lambda>th. th\<lparr>th_error := RT_EOK\<rparr>) k"
  let ?k1 = "suspend_core t ?k"
  have k: "kinv ?k" "cur c ?k = Some t" "is_ready (threads ?k t)" using d by (simp_all add: sview_def is_ready_def)
  then have sv: "sched_inv ?k" by (simp add: kinv_def)
  note s = suspend_core_inv [OF sv k(2) d(3) k(3)]
  have k1: "kinv ?k1" using kinv_suspend [OF k(1,2) d(3) k(3)] .
  have "t \<notin> set (lists ?k1 (mp_queue i))" using s(2) by (simp add: detached_def)
  then have "kinv (?k1\<lparr>lists := (lists ?k1)(mp_queue i := t # lists ?k1 (mp_queue i))\<rparr>)"
    using kinv_distinct [OF k1, of "mp_queue i"] by (intro kinv_waiter [OF k1 s(2,3)]) simp_all
  then show "kinv (mp_wait_core i t time k)" by (simp add: mp_wait_core_def Let_def ll_insert_head_def)
  show "cur c (mp_wait_core i t time k) = Some t"
    "mempools (mp_wait_core i t time k) i =
       (mempools k i)\<lparr>suspend_thread_count := suspend_thread_count (mempools k i) + 1\<rparr>"
    "threads (mp_wait_core i t time k) =
       (threads k)(t := (threads k t)\<lparr>th_error := RT_EOK, stat := set_tstate RT_THREAD_SUSPEND (stat (threads k t))\<rparr>)"
    using k(2) by (simp_all add: mp_wait_core_def Let_def)
  have "detached t (lists k)"
    using d running_detached [of "{}" k t] sched_inv_oncpu(2) [of k c t] by (simp add: kinv_def sched_inv_def)
  then have "lists ?k1 = lists k" by (simp add: ll_remove_detached)
  then show "lists (mp_wait_core i t time k) (mp_queue i) = t # lists k (mp_queue i)"
    by (simp add: mp_wait_core_def Let_def ll_insert_head_def)
qed

lemma mp_alloc_waits_post:
  assumes ctx: "ipc_ctx c t L k" and st: "stacks_ok k" and empty: "block_free_count (mempools k i) = 0" and time: "wait_time time"
  shows "\<exists>w s'. rt_mp_alloc c i time (mk L k) = Some (Inr w, s') \<and> kinv (kc s') \<and>
     lists (kc s') (mp_queue i) = t # lists k (mp_queue i) \<and>
     mempools (kc s') i = (mempools k i)\<lparr>suspend_thread_count := suspend_thread_count (mempools k i) + 1\<rparr>"
proof -
  note d = ipc_ctxD [OF ctx] and p = mp_wait_core_post [OF ctx, of i time]
  have started: "started (threads k t)" using d(6) state_excl(2) by simp
  have "\<exists>s'. rt_schedule c (mk L (mp_wait_core i t time k)) = Some s'"
    using p(1,2) started
    by (intro schedule_after [OF ctx st]) (auto simp: p(5) stack_view_def started_def split: if_splits)
  then obtain s' where sch: "rt_schedule c (mk L (mp_wait_core i t time k)) = Some s'" by blast
  have si: "sched_inv (mp_wait_core i t time k)" using p(1) by (simp add: kinv_def)
  note keep = schedule_keeps_waiters [OF d(1) p(2) si d(3) sch]
  show ?thesis
    using mp_alloc_waits [OF ctx empty time] sch keep(10) keep(6) [of "mp_queue i"] p(3,4)
      rt_schedule_kinv [OF d(1) p(2,1) d(3) sch] by simp
qed

text \<open>Releasing a block, without and with a waiting thread.\<close>

definition mp_count_ok :: "objid \<Rightarrow> kcore \<Rightarrow> bool" where
  "mp_count_ok i k \<longleftrightarrow> unat (suspend_thread_count (mempools k i)) = length (lists k (mp_queue i))"

lemma mp_put_block_fields [simp]:
  "suspend_thread_count (mp_put_block b m) = suspend_thread_count m" "block_total_count (mp_put_block b m) = block_total_count m"
  by (simp_all add: mp_put_block_def)

lemma mp_free_quiet:
  assumes "lk_ok th L" "cur c k = th" "b \<in> mp_used i (mempools k i)" "suspend_thread_count (mempools k i) = 0"
  shows "rt_mp_free c (i, b) (mk L k) = Some (mk L (set_mp i (mp_put_block b (mempools k i)) k))"
  using assms by (simp add: rt_mp_free_def mp_used_def)

definition mp_wake_core :: "cpu_id \<Rightarrow> objid \<Rightarrow> nat \<Rightarrow> tid \<Rightarrow> kcore \<Rightarrow> kcore" where
  "mp_wake_core c i b u k =
     (let m = mp_put_block b (mempools k i) in
      set_mp i (m\<lparr>suspend_thread_count := suspend_thread_count m - 1\<rparr>)
        (resume_core c u (upd_thread u (\<lambda>th. th\<lparr>th_error := RT_EOK\<rparr>) (set_mp i m k))))"

lemma mp_free_wakes:
  assumes "lk_ok th L" "cur c k = th" "kinv k" "b \<in> mp_used i (mempools k i)"
    and "suspend_thread_count (mempools k i) > 0" "lists k (mp_queue i) = u # us"
  shows "rt_mp_free c (i, b) (mk L k) = rt_schedule c (mk L (mp_wake_core c i b u k))"
proof -
  have "waits (threads k u)" using waiter_waits [OF assms(3), of "mp_queue i" u] assms(6) by simp
  then have w: "waits ((threads k u)\<lparr>th_error := RT_EOK\<rparr>)" by (simp add: waits_def)
  have ob: "objs_ok (upd_thread u (\<lambda>th. th\<lparr>th_error := RT_EOK\<rparr>) k')" if "objs_ok k'" for k'
    using that by (rule objs_ok_upd_thread) (simp add: started_def)
  have "objs_ok k" using assms(3) by (simp add: kinv_def)
  with assms w ob show ?thesis
    by (simp add: rt_mp_free_def mp_used_def first_thread_def mp_wake_core_def Let_def)
qed

lemma mp_wake_core_post:
  assumes kv: "kinv k" and q: "lists k (mp_queue i) = u # us"
  shows "kinv (mp_wake_core c i b u k)" "cur d (mp_wake_core c i b u k) = cur d k"
    "lists (mp_wake_core c i b u k) (mp_queue i) = us" "is_ready (threads (mp_wake_core c i b u k) u)"
    "mempools (mp_wake_core c i b u k) i =
       (mp_put_block b (mempools k i))\<lparr>suspend_thread_count := suspend_thread_count (mempools k i) - 1\<rparr>"
    "stack_view (threads (mp_wake_core c i b u k) v) = stack_view (threads k v)"
    "started (threads (mp_wake_core c i b u k) v) \<Longrightarrow> started (threads k v)"
proof -
  let ?k = "upd_thread u (\<lambda>th. th\<lparr>th_error := RT_EOK\<rparr>) (set_mp i (mp_put_block b (mempools k i)) k)"
  have w0: "waits (threads k u)" using waiter_waits [OF kv, of "mp_queue i" u] q by simp
  have k: "kinv ?k" "waits (threads ?k u)" "lists ?k (mp_queue i) = u # us"
    using kv w0 q by (simp_all add: sview_def waits_def)
  show "kinv (mp_wake_core c i b u k)" using kinv_resume [OF k(1,2), of c] by (simp add: mp_wake_core_def Let_def)
  show "cur d (mp_wake_core c i b u k) = cur d k" by (simp add: mp_wake_core_def Let_def)
  show "lists (mp_wake_core c i b u k) (mp_queue i) = us"
    using lists_resume_first [OF k(1,3), of "mp_queue i" c] by (simp add: mp_wake_core_def Let_def)
  show "mempools (mp_wake_core c i b u k) i =
       (mp_put_block b (mempools k i))\<lparr>suspend_thread_count := suspend_thread_count (mempools k i) - 1\<rparr>"
    by (simp add: mp_wake_core_def Let_def)
  show "is_ready (threads (mp_wake_core c i b u k) u)"
    "stack_view (threads (mp_wake_core c i b u k) v) = stack_view (threads k v)"
    by (auto simp: mp_wake_core_def Let_def is_ready_def stack_view_def)
  show "started (threads k v)" if "started (threads (mp_wake_core c i b u k) v)"
    using that state_excl(3) [OF w0] by (cases "v = u") (auto simp: mp_wake_core_def Let_def)
qed

lemma mp_free_wakes_post:
  assumes ctx: "ipc_ctx c t L k" and st: "stacks_ok k" and b: "b \<in> mp_used i (mempools k i)"
    and cnt: "mp_count_ok i k" and q: "lists k (mp_queue i) = u # us"
  shows "\<exists>s'. rt_mp_free c (i, b) (mk L k) = Some s' \<and> kinv (kc s') \<and> mp_count_ok i (kc s') \<and> is_ready (threads (kc s') u) \<and>
     mempools (kc s') i =
       (mp_put_block b (mempools k i))\<lparr>suspend_thread_count := suspend_thread_count (mempools k i) - 1\<rparr>"
proof -
  note d = ipc_ctxD [OF ctx] and p = mp_wake_core_post [OF d(4) q, of c b]
  have pos: "suspend_thread_count (mempools k i) > 0" using cnt q by (simp add: mp_count_ok_def unat_gt_0 [symmetric] word_gt_0)
  then have u1: "unat (suspend_thread_count (mempools k i) - 1) = length us"
    using cnt q by (simp add: mp_count_ok_def unat_minus_one)
  have "cur c (mp_wake_core c i b u k) = Some t" using p(2) d(2) by simp
  note k = p(1) this
  obtain s' where sch: "rt_schedule c (mk L (mp_wake_core c i b u k)) = Some s'"
    using schedule_after [OF ctx st k p(6,7)] by blast
  have si: "sched_inv (mp_wake_core c i b u k)" using k(1) by (simp add: kinv_def)
  note keep = schedule_keeps_waiters [OF d(1) k(2) si d(3) sch]
  show ?thesis
    using mp_free_wakes [OF d(1,2,4) b pos q] sch keep(10) keep(6) [of "mp_queue i"] p(3,5) u1
      rt_schedule_kinv [OF d(1) k(2,1) d(3) sch] rt_schedule_ready [OF d(1) k(2) si d(3) sch p(4)]
    by (simp add: mp_count_ok_def)
qed

text \<open>With a positive counter and nobody waiting the first entry of the list is no thread.\<close>

lemma mp_free_no_thread:
  assumes "lk_ok th L" "cur c k = th" "suspend_thread_count (mempools k i) > 0" "lists k (mp_queue i) = []"
  shows "rt_mp_free c (i, b) (mk L k) = None"
  using assms by (auto simp: rt_mp_free_def first_thread_def split: block_header.split)

lemma timeout_leaves:
  assumes "kinv k" "lists k (mp_queue i) = [u]"
  shows "lists (timeout_core c u k) (mp_queue i) = []" "mempools (timeout_core c u k) = mempools k"
proof -
  have "home (threads k u) \<noteq> mp_queue i" by (auto simp: home_def)
  then show "lists (timeout_core c u k) (mp_queue i) = []" "mempools (timeout_core c u k) = mempools k"
    using assms(2) by (auto simp: timeout_core_def lists_insert_body ll_insert_tail_def ll_remove_def home_def)
qed

end
