(* ===== verification/Rt_Demo.thy ===== *)
theory Rt_Demo
  imports Rt_Sem Rt_Mutex Rt_Event Rt_Mailbox Rt_Mq Rt_Mempool
begin

text \<open>
  A small concrete kernel state at which the properties are applied: thread 1 (priority 10) runs on
  CPU 0 and thread 2 (priority 20) on CPU 1, thread 3 (priority 8) is ready, thread 4 waits for
  semaphore 0, thread 5 for mutex 1, which thread 1 owns, and thread 6 for both low bits of event 0.
  Semaphore 1 has the value 2, mutex 0 is free, mailbox 0 holds one of at most two words. At tick 5
  the timer of thread 4 has expired and that of thread 6 has not.
\<close>

definition demo_thread :: "u8 \<Rightarrow> nat \<Rightarrow> nat \<Rightarrow> rt_thread" where
  "demo_thread st prio on =
     \<lparr>sp = 0x1080, stack_addr = 0x1000, stack_size = 0x200, stack_guard = 0x23, th_error = 0, stat = st,
      bind_cpu = 2, oncpu = on, current_priority = of_nat prio, init_priority = of_nat prio,
      number_mask = push_bit prio 1, event_set = 3, event_info = RT_EVENT_FLAG_AND, th_init_tick = 10,
      remaining_tick = 10, cleanup = None, user_data = 0\<rparr>"

fun demo_threads :: "tid \<Rightarrow> rt_thread" where
  "demo_threads t =
     (if t = 1 then demo_thread RT_THREAD_READY 10 0
      else if t = 2 then demo_thread RT_THREAD_READY 20 1
      else if t = 3 then demo_thread RT_THREAD_READY 8 2
      else if t = 4 then demo_thread RT_THREAD_SUSPEND 9 2
      else if t = 5 then demo_thread RT_THREAD_SUSPEND 6 2
      else if t = 6 then demo_thread RT_THREAD_SUSPEND 11 2
      else demo_thread RT_THREAD_INIT 31 2)"

fun demo_lists :: "lhead \<Rightarrow> tid list" where
  "demo_lists (Ready p) = (if p = 8 then [3] else [])"
| "demo_lists (SuspendQ (OSem i)) = (if i = 0 then [4] else [])"
| "demo_lists (SuspendQ (OMutex i)) = (if i = 1 then [5] else [])"
| "demo_lists (SuspendQ (OEvent i)) = (if i = 0 then [6] else [])"
| "demo_lists _ = []"

fun demo_objs :: "objref \<Rightarrow> rt_object" where
  "demo_objs (OThread _) = \<lparr>obj_name = [], obj_type = RT_Object_Class_Thread, obj_flag = 0\<rparr>"
| "demo_objs (OThreadTimer t) = \<lparr>obj_name = [], obj_type = RT_Object_Class_Timer OR RT_Object_Class_Static,
                                  obj_flag = (if t \<in> {4, 6} then RT_TIMER_FLAG_ACTIVATED else 0)\<rparr>"
| "demo_objs (OTimer _) = \<lparr>obj_name = [], obj_type = RT_Object_Class_Timer, obj_flag = 0\<rparr>"
| "demo_objs (OSem _) = \<lparr>obj_name = [], obj_type = RT_Object_Class_Semaphore, obj_flag = 0\<rparr>"
| "demo_objs (OMutex _) = \<lparr>obj_name = [], obj_type = RT_Object_Class_Mutex, obj_flag = 1\<rparr>"
| "demo_objs (OEvent _) = \<lparr>obj_name = [], obj_type = RT_Object_Class_Event, obj_flag = 0\<rparr>"
| "demo_objs (OMailBox _) = \<lparr>obj_name = [], obj_type = RT_Object_Class_MailBox, obj_flag = 0\<rparr>"
| "demo_objs (OMq _) = \<lparr>obj_name = [], obj_type = RT_Object_Class_MessageQueue, obj_flag = 0\<rparr>"
| "demo_objs _ = \<lparr>obj_name = [], obj_type = RT_Object_Class_MemPool, obj_flag = 0\<rparr>"

definition demo_cpu :: "nat \<Rightarrow> rt_cpu" where
  "demo_cpu c = \<lparr>current_thread = (if c = 0 then Some 1 else if c = 1 then Some 2 else None), irq_nest = 0,
     irq_switch_flag = False, cpu_current_priority = (if c = 0 then 10 else 20), cpu_priority_group = 0, cpu_tick = 5\<rparr>"

definition demo_mq :: rt_messagequeue where
  "demo_mq = mq_init_lists \<lparr>mq_next = (\<lambda>_. None), mq_data = (\<lambda>_. replicate 4 0), mq_msg_size = 4,
     mq_max_msgs = 2, mq_entry = 0, msg_queue_head = None, msg_queue_tail = None, msg_queue_free = None\<rparr>"

definition demo_mp :: rt_mempool where
  "demo_mp = \<lparr>mp_header = (\<lambda>b. NextFree (if b = 0 then Some 1 else None)), mp_size = 16, block_size = 4,
     block_list = Some 0, block_total_count = 2, block_free_count = 2, suspend_thread_count = 0\<rparr>"

definition demo_core :: kcore where
  "demo_core =
     \<lparr>threads = demo_threads, lists = demo_lists, ready_priority_group = 256, cpus = demo_cpu,
      ipi_pending = (\<lambda>_. False), objs = demo_objs, container = (\<lambda>_. []),
      timers = (\<lambda>r. \<lparr>timeout_func = (case r of OThreadTimer t \<Rightarrow> ThreadTimeout t | _ \<Rightarrow> UserTimeout 0), init_tick = 3,
                       timeout_tick = (if r = OThreadTimer 4 then 4 else 9)\<rparr>),
      rt_timer_list = [OThreadTimer 4, OThreadTimer 6], rt_soft_timer_list = [],
      sems = (\<lambda>i. \<lparr>sem_value = (if i = 1 then 2 else 0)\<rparr>),
      mutexes = (\<lambda>i. if i = 1 then \<lparr>mtx_value = 0, original_priority = 10, hold = 1, owner = Some 1\<rparr>
                     else \<lparr>mtx_value = 1, original_priority = 0xff, hold = 0, owner = None\<rparr>),
      events = (\<lambda>_. \<lparr>ev_set = 0\<rparr>),
      mailboxes = (\<lambda>_. \<lparr>mb_pool = [7, 0], mb_size = 2, mb_entry = 1, in_offset = 1, out_offset = 0\<rparr>),
      mqueues = (\<lambda>_. demo_mq), mempools = (\<lambda>_. demo_mp), k_errno = 0, freed = []\<rparr>"

definition demo_lock :: klock where
  "demo_lock = \<lparr>cpus_lock_nest = (\<lambda>_. 0), scheduler_lock_nest = (\<lambda>_. 0), cpus_lock = False,
     critical_lock = False, irq_disabled = (\<lambda>_. False), sp_reg = (\<lambda>_. 0x1180), switch_frame = (\<lambda>_. None)\<rparr>"

section \<open>The state satisfies the invariants\<close>

lemma demo_fields [simp]:
  "threads demo_core = demo_threads" "lists demo_core = demo_lists" "cpus demo_core = demo_cpu"
  "objs demo_core = demo_objs" "ready_priority_group demo_core = 256"
  "sems demo_core i = \<lparr>sem_value = (if i = 1 then 2 else 0)\<rparr>" "events demo_core i = \<lparr>ev_set = 0\<rparr>"
  "mutexes demo_core i =
     (if i = 1 then \<lparr>mtx_value = 0, original_priority = 10, hold = 1, owner = Some 1\<rparr>
      else \<lparr>mtx_value = 1, original_priority = 0xff, hold = 0, owner = None\<rparr>)"
  "mailboxes demo_core i = \<lparr>mb_pool = [7, 0], mb_size = 2, mb_entry = 1, in_offset = 1, out_offset = 0\<rparr>"
  "mqueues demo_core i = demo_mq" "mempools demo_core i = demo_mp" "rt_timer_list demo_core = [OThreadTimer 4, OThreadTimer 6]"
  "timers demo_core r = \<lparr>timeout_func = (case r of OThreadTimer t \<Rightarrow> ThreadTimeout t | _ \<Rightarrow> UserTimeout 0),
     init_tick = 3, timeout_tick = (if r = OThreadTimer 4 then 4 else 9)\<rparr>"
  by (simp_all add: demo_core_def)

lemma demo_thread_simps [simp]:
  "stat (demo_thread st p on) = st" "oncpu (demo_thread st p on) = on"
  "current_priority (demo_thread st p on) = of_nat p" "bind_cpu (demo_thread st p on) = 2"
  "number_mask (demo_thread st p on) = push_bit p 1" "event_set (demo_thread st p on) = 3"
  "event_info (demo_thread st p on) = RT_EVENT_FLAG_AND"
  by (simp_all add: demo_thread_def)

lemma demo_cpu_simps [simp]:
  "cpu_priority_group (demo_cpu c) = 0" "irq_nest (demo_cpu c) = 0"
  "current_thread (demo_cpu c) = (if c = 0 then Some 1 else if c = 1 then Some 2 else None)"
  by (simp_all add: demo_cpu_def)

lemma demo_states:
  "is_ready (demo_threads t) \<longleftrightarrow> t \<in> {1, 2, 3}" "waits (demo_threads t) \<longleftrightarrow> t \<in> {4, 5, 6}"
  "started (demo_threads t) \<longleftrightarrow> t \<in> {1, 2, 3, 4, 5, 6}"
  by (simp_all add: is_ready_def waits_def started_def stat_defs)

lemma demo_list_members:
  "t \<in> set (demo_lists h) \<longleftrightarrow>
     (t = 3 \<and> h = Ready 8) \<or> (t = 4 \<and> h = SuspendQ (OSem 0)) \<or> (t = 5 \<and> h = SuspendQ (OMutex 1)) \<or>
     (t = 6 \<and> h = SuspendQ (OEvent 0))"
  by (cases h rule: demo_lists.cases) auto

lemma bit_256: "bit (256 :: u32) p \<longleftrightarrow> p = 8"
proof -
  have "(256 :: u32) = push_bit 8 1" by simp
  then show ?thesis by (simp only: bit_push_bit_iff bit_1_iff) auto
qed

lemma demo_queue_inv: "queue_inv {} demo_core"
proof -
  have "lists_wf demo_lists"
  proof -
    have "distinct (demo_lists h)" for h by (cases h rule: demo_lists.cases) simp_all
    moreover have "set (demo_lists h) \<inter> set (demo_lists g) = {}" if "h \<noteq> g" for h g
      using that by (auto simp: demo_list_members)
    ultimately show ?thesis by (simp add: lists_wf_def)
  qed
  moreover have "t \<in> set (demo_lists h) \<longleftrightarrow> is_ready (demo_threads t) \<and> oncpu (demo_threads t) = RT_CPU_DETACHED \<and>
      h = home (demo_threads t)" if "ready_head h" for t h
    using that unfolding demo_list_members demo_states
    by (auto simp: home_def RT_CPU_DETACHED_def RT_CPUS_NR_def)
  moreover have "waits (demo_threads t)" if "t \<in> set (demo_lists (SuspendQ q)) \<union> set (demo_lists (SenderQ q))" for t q
    using that unfolding demo_states by (auto simp: demo_list_members simp del: demo_threads.simps)
  moreover have "thread_ok (demo_threads t)" for t
    by (simp add: thread_ok_def RT_THREAD_PRIORITY_MAX_def RT_CPUS_NR_def)
  moreover have "bit (256 :: u32) p \<longleftrightarrow> demo_lists (Ready p) \<noteq> []" for p
    unfolding bit_256 by simp
  ultimately show ?thesis unfolding queue_inv_def demo_fields by (simp del: demo_threads.simps bit_numeral_word_iff)
qed

lemma demo_cpu_inv: "cpu_inv demo_core"
  by (auto simp: cpu_inv_def RT_CPU_DETACHED_def RT_CPUS_NR_def less_Suc_eq numeral_2_eq_2)

lemma demo_types [simp]:
  "rt_object_get_type (OThread t) demo_core = RT_Object_Class_Thread"
  "rt_object_get_type (OThreadTimer t) demo_core = RT_Object_Class_Timer"
  "rt_object_get_type (OSem i) demo_core = RT_Object_Class_Semaphore"
  "rt_object_get_type (OMutex i) demo_core = RT_Object_Class_Mutex"
  "rt_object_get_type (OEvent i) demo_core = RT_Object_Class_Event"
  "rt_object_get_type (OMailBox i) demo_core = RT_Object_Class_MailBox"
  "rt_object_get_type (OMq i) demo_core = RT_Object_Class_MessageQueue"
  by (simp_all add: rt_object_get_type_def class_defs)

lemma demo_kinv: "kinv demo_core"
  using demo_queue_inv demo_cpu_inv by (simp add: kinv_def sched_inv_def objs_ok_def)

lemma demo_ctx: "ipc_ctx 0 1 demo_lock demo_core"
  using demo_kinv
  by (simp add: ipc_ctx_def lk_ok_def demo_lock_def demo_states timer_flag_def RT_CPUS_NR_def del: demo_threads.simps)

lemma demo_stacks: "stacks_ok demo_core"
  by (simp add: stacks_ok_def rt_scheduler_stack_check_def demo_thread_def)

lemma ipc_flag_known [simp]: "ipc_flag 0" "ipc_flag 1"
  by (simp_all add: ipc_flag_def RT_IPC_FLAG_FIFO_def RT_IPC_FLAG_PRIO_def)

lemma demo_flags [simp]:
  "ipc_flag (obj_flag (objs demo_core (OSem i)))" "ipc_flag (obj_flag (objs demo_core (OMutex i)))"
  "ipc_flag (obj_flag (objs demo_core (OEvent i)))" "ipc_flag (obj_flag (objs demo_core (OMailBox i)))"
  "ipc_flag (obj_flag (objs demo_core (OMq i)))"
  by simp_all

lemma demo_lock_inv: "lock_inv (mk demo_lock demo_core)"
  by (simp add: lock_inv_def demo_lock_def holds_lock_def)

lemma demo_objects_inv:
  "sem_inv i demo_core" "mutex_inv 0 demo_core" "mutex_inv 1 demo_core" "mb_wf (mailboxes demo_core i)"
  by (simp_all add: sem_inv_def mutex_inv_def demo_states RT_THREAD_PRIORITY_MAX_def mb_wf_def del: demo_threads.simps)

lemma demo_event_inv: "event_inv 0 demo_core"
  by (simp add: event_inv_def event_sat_def event_check_def RT_EVENT_FLAG_AND_def)

lemma demo_may_switch: "may_switch 0 1 demo_lock demo_core"
  by (simp add: may_switch_def demo_lock_def lockn_def)

text \<open>The message queue of the state is empty; a second one holds a message.\<close>

lemma ipc_ctx_set_mq [simp]: "ipc_ctx c t L (set_mq i q k) = ipc_ctx c t L k" "stacks_ok (set_mq i q k) = stacks_ok k"
  by (simp_all add: ipc_ctx_def stacks_ok_def rt_scheduler_stack_check_def timer_flag_def set_mq_def)

lemma demo_mq_wf: "mq_wf demo_mq" "mq_contents demo_mq = []" "mq_msg_size demo_mq = 4" "mq_max_msgs demo_mq = 2"
proof -
  let ?q = "\<lparr>mq_next = (\<lambda>_. None), mq_data = (\<lambda>_. replicate 4 0), mq_msg_size = 4,
     mq_max_msgs = 2, mq_entry = 0, msg_queue_head = None, msg_queue_tail = None, msg_queue_free = None\<rparr>"
  have sh: "mq_shape [] (rev [0..<unat (mq_max_msgs ?q)]) {} demo_mq"
    unfolding demo_mq_def by (rule mq_init_shape) simp
  then show "mq_wf demo_mq" "mq_contents demo_mq = []"
    using mq_contents_shape [OF sh] by (simp_all only: mq_wf_def list.map) blast
  show "mq_msg_size demo_mq = 4" "mq_max_msgs demo_mq = 2"
    by (simp_all add: demo_mq_def mq_init_lists_def mq_free_init_chain)
qed

definition demo_mq1 :: rt_messagequeue where
  "demo_mq1 = \<lparr>mq_next = (\<lambda>_. None), mq_data = (\<lambda>p. if p = 0 then [9, 8, 7, 6] else [0, 0, 0, 0]), mq_msg_size = 4,
     mq_max_msgs = 2, mq_entry = 1, msg_queue_head = Some 0, msg_queue_tail = Some 0, msg_queue_free = Some 1\<rparr>"

lemma demo_mq1_wf: "mq_wf demo_mq1" "mq_contents demo_mq1 = [[9, 8, 7, 6]]" "mq_msg_size demo_mq1 = 4"
proof -
  have sh: "mq_shape [0] [1] {} demo_mq1" by (auto simp: mq_shape_def demo_mq1_def)
  then show "mq_wf demo_mq1" unfolding mq_wf_def by blast
  show "mq_contents demo_mq1 = [[9, 8, 7, 6]]" "mq_msg_size demo_mq1 = 4"
    using mq_contents_shape [OF sh] by (simp_all add: demo_mq1_def)
qed

text \<open>The memory pool has two free blocks; a second one has one block in use.\<close>

lemma ipc_ctx_set_mp [simp]: "ipc_ctx c t L (set_mp i m k) = ipc_ctx c t L k" "stacks_ok (set_mp i m k) = stacks_ok k"
  by (simp_all add: ipc_ctx_def stacks_ok_def rt_scheduler_stack_check_def timer_flag_def set_mp_def)

lemma demo_mp_wf: "mp_wf i demo_mp" "block_free_count demo_mp = 2" "mp_used i demo_mp = {}"
proof -
  have "b \<in> {0, 1}" if "b < 2" for b :: nat using that by auto
  then have sh: "mp_shape i [0, 1] demo_mp" by (simp add: mp_shape_def demo_mp_def)
  then show "mp_wf i demo_mp" unfolding mp_wf_def by blast
  have t: "unat (block_total_count demo_mp) = 2" by (simp add: demo_mp_def)
  show "mp_used i demo_mp = {}" unfolding mp_used_shape [OF sh] t by auto
  show "block_free_count demo_mp = 2" by (simp add: demo_mp_def)
qed

definition demo_mp1 :: rt_mempool where
  "demo_mp1 = demo_mp\<lparr>mp_header := \<lambda>b. if b = 0 then OwnedBy 0 else NextFree None, block_list := Some 1,
     block_free_count := 1, suspend_thread_count := 0\<rparr>"

lemma demo_mp1_wf: "mp_wf 0 demo_mp1" "mp_used 0 demo_mp1 = {0}"
proof -
  have "b \<in> {0, 1}" if "b < 2" for b :: nat using that by auto
  then have sh: "mp_shape 0 [1] demo_mp1" by (simp add: mp_shape_def demo_mp1_def demo_mp_def)
  then show "mp_wf 0 demo_mp1" unfolding mp_wf_def by blast
  have t: "unat (block_total_count demo_mp1) = 2" by (simp add: demo_mp1_def demo_mp_def)
  show "mp_used 0 demo_mp1 = {0}" unfolding mp_used_shape [OF sh] t by auto
qed

text \<open>The same state inside the tick interrupt of CPU 0.\<close>

definition demo_irq :: kcore where
  "demo_irq = upd_cpu 0 (\<lambda>p. p\<lparr>irq_nest := 1\<rparr>) demo_core"

lemma demo_tick_state: "tick_state 0 (Some 1) demo_lock (mk (lockn 0 (Some 1) (Suc 0) demo_lock) demo_irq)"
proof -
  have "kinv demo_irq" using demo_kinv by (simp add: demo_irq_def)
  moreover have "threads demo_irq = demo_threads" "objs demo_irq = demo_objs" "timers demo_irq = timers demo_core"
    "rt_timer_list demo_irq = rt_timer_list demo_core" "cur 0 demo_irq = Some 1" "irq_nest (cpus demo_irq 0) = 1"
    by (simp_all add: demo_irq_def upd_cpu_def)
  ultimately show ?thesis
    using ipc_ctxD(1) [OF demo_ctx]
    by (simp add: tick_state_def timer_flag_def RT_TIMER_FLAG_PERIODIC_def RT_TIMER_FLAG_ACTIVATED_def
        demo_states del: demo_threads.simps)
qed

end
