(* ===== verification/Rt_Drv_Ipc.thy ===== *)
theory Rt_Drv_Ipc
  imports Rt_Demo
begin

text \<open>
  Two synchronisation components of the driver framework, \<^verbatim>\<open>components/drivers/src/completion.c\<close> and \<^verbatim>\<open>dataqueue.c\<close>, on the kernel's wait lists. Their
  own fields are records of this theory, passed along with the kernel's state; the lists of waiting threads are the kernel's.
\<close>

section \<open>Waiting in a list\<close>

text \<open>Suspending a thread and linking it at the end of a list, and arming its timer, as both components write it out.\<close>

definition list_suspend :: "cpu_id \<Rightarrow> lhead \<Rightarrow> tid \<Rightarrow> kstate \<Rightarrow> kstate option" where
  "list_suspend c h t s =
     do { (_, s) \<leftarrow> rt_thread_suspend c t s;
          Some (s\<lparr>kc := (kc s)\<lparr>lists := (lists (kc s))(h := lists (kc s) h @ [t])\<rparr>\<rparr>) }"

definition start_timeout :: "cpu_id \<Rightarrow> tid \<Rightarrow> int \<Rightarrow> kstate \<Rightarrow> kstate option" where
  "start_timeout c t timeout s =
     (if timeout > 0 then
        do { (_, _, s) \<leftarrow> rt_timer_control (OThreadTimer t) (TIMER_SET_TIME (word_of_int timeout)) s;
             (_, s) \<leftarrow> rt_timer_start c (OThreadTimer t) s;
             Some s }
      else Some s)"

section \<open>Completions\<close>

record rt_completion =
  cp_flag :: u32

definition RT_COMPLETED :: u32 where "RT_COMPLETED = 1"
definition RT_UNCOMPLETED :: u32 where "RT_UNCOMPLETED = 0"

abbreviation cp_queue :: "objid \<Rightarrow> lhead" where "cp_queue i \<equiv> SuspendQ (OCompletion i)"

definition rt_completion_init :: "cpu_id \<Rightarrow> objid \<Rightarrow> kstate \<Rightarrow> (rt_completion \<times> kstate) option" where
  "rt_completion_init c i s =
     do { (level, s) \<leftarrow> rt_hw_interrupt_disable c s;
          let cp = \<lparr>cp_flag = RT_UNCOMPLETED\<rparr>;
          let s = s\<lparr>kc := (kc s)\<lparr>lists := (lists (kc s))(cp_queue i := [])\<rparr>\<rparr>;
          Some (cp, rt_hw_interrupt_enable c level s) }"

definition rt_completion_wait ::
    "cpu_id \<Rightarrow> objid \<Rightarrow> int \<Rightarrow> rt_completion \<Rightarrow> kstate \<Rightarrow> (rt_err_t option \<times> rt_completion \<times> kstate) option" where
  "rt_completion_wait c i timeout cp s =
     do { let (thread, s) = rt_thread_self c s;
          (level, s) \<leftarrow> rt_hw_interrupt_disable c s;
          if cp_flag cp \<noteq> RT_COMPLETED then
            do { RT_ASSERT (lists (kc s) (cp_queue i) = []);
                 if timeout = 0 then Some (Some (- RT_ETIMEOUT), cp, rt_hw_interrupt_enable c level s)
                 else
                   do { t \<leftarrow> thread;
                        let s = s\<lparr>kc := upd_thread t (\<lambda>th. th\<lparr>th_error := RT_EOK\<rparr>) (kc s)\<rparr>;
                        s \<leftarrow> list_suspend c (cp_queue i) t s;
                        s \<leftarrow> RT_DEBUG_NOT_IN_INTERRUPT c s;
                        s \<leftarrow> start_timeout c t timeout s;
                        let s = rt_hw_interrupt_enable c level s;
                        s \<leftarrow> rt_schedule c s;
                        Some (None, cp, s) } }
          else Some (Some RT_EOK, cp\<lparr>cp_flag := RT_UNCOMPLETED\<rparr>, rt_hw_interrupt_enable c level s) }"

text \<open>When the waiting thread \<open>t\<close> runs again.\<close>

definition rt_completion_wait_cont ::
    "cpu_id \<Rightarrow> tid \<Rightarrow> rt_completion \<Rightarrow> kstate \<Rightarrow> (rt_err_t \<times> rt_completion \<times> kstate) option" where
  "rt_completion_wait_cont c t cp s =
     do { let result = th_error (threads (kc s) t);
          (level, s) \<leftarrow> rt_hw_interrupt_disable c s;
          Some (result, cp\<lparr>cp_flag := RT_UNCOMPLETED\<rparr>, rt_hw_interrupt_enable c level s) }"

definition rt_completion_done :: "cpu_id \<Rightarrow> objid \<Rightarrow> rt_completion \<Rightarrow> kstate \<Rightarrow> (rt_completion \<times> kstate) option" where
  "rt_completion_done c i cp s =
     (if cp_flag cp = RT_COMPLETED then Some (cp, s)
      else
        do { (level, s) \<leftarrow> rt_hw_interrupt_disable c s;
             let cp = cp\<lparr>cp_flag := RT_COMPLETED\<rparr>;
             s \<leftarrow> wake_one c (cp_queue i) level s;
             Some (cp, s) })"

section \<open>Data queues\<close>

text \<open>An item is a pointer and a size. \<^verbatim>\<open>waiting_lwm\<close> is never used.\<close>

type_synonym rt_data_item = "u32 \<times> u32"

record rt_data_queue =
  dq_size :: u16
  dq_lwm :: u16
  get_index :: u16
  put_index :: u16
  dq_queue :: "rt_data_item list"

definition RT_DATAQUEUE_EVENT_POP :: u32 where "RT_DATAQUEUE_EVENT_POP = 1"
definition RT_DATAQUEUE_EVENT_PUSH :: u32 where "RT_DATAQUEUE_EVENT_PUSH = 2"
definition RT_DATAQUEUE_EVENT_LWM :: u32 where "RT_DATAQUEUE_EVENT_LWM = 3"

abbreviation dq_pops :: "objid \<Rightarrow> lhead" where "dq_pops i \<equiv> SuspendQ (ODataQueue i)"
abbreviation dq_pushs :: "objid \<Rightarrow> lhead" where "dq_pushs i \<equiv> SenderQ (ODataQueue i)"

text \<open>\<open>malloc\<close> is the memory \<^verbatim>\<open>rt_malloc\<close> returns for that many items.\<close>

definition rt_data_queue_init ::
    "objid \<Rightarrow> u16 \<Rightarrow> u16 \<Rightarrow> (nat \<Rightarrow> rt_data_item list option) \<Rightarrow> kstate \<Rightarrow> rt_err_t \<times> rt_data_queue \<times> kstate" where
  "rt_data_queue_init i sz lwm malloc s =
     (let s = s\<lparr>kc := (kc s)\<lparr>lists := (lists (kc s))(dq_pushs i := [], dq_pops i := [])\<rparr>\<rparr>;
          dq = \<lparr>dq_size = sz, dq_lwm = lwm, get_index = 0, put_index = 0, dq_queue = []\<rparr>
      in case malloc (unat sz) of
           None \<Rightarrow> (- RT_ENOMEM, dq, s)
         | Some q \<Rightarrow> (RT_EOK, dq\<lparr>dq_queue := q\<rparr>, s))"

text \<open>The difference of the two 16-bit indices is computed with integers.\<close>

definition dq_used :: "rt_data_queue \<Rightarrow> int" where "dq_used dq = uint (put_index dq) - uint (get_index dq)"

definition dq_put :: "rt_data_item \<Rightarrow> rt_data_queue \<Rightarrow> rt_data_queue option" where
  "dq_put x dq =
     (if unat (put_index dq mod dq_size dq) < length (dq_queue dq)
      then Some (dq\<lparr>dq_queue := (dq_queue dq)[unat (put_index dq mod dq_size dq) := x], put_index := put_index dq + 1\<rparr>)
      else None)"

definition dq_get :: "rt_data_queue \<Rightarrow> (rt_data_item \<times> rt_data_queue) option" where
  "dq_get dq =
     (if unat (get_index dq mod dq_size dq) < length (dq_queue dq)
      then Some (dq_queue dq ! unat (get_index dq mod dq_size dq), dq\<lparr>get_index := get_index dq + 1\<rparr>)
      else None)"

text \<open>The body of the waiting loops.\<close>

definition dq_wait :: "cpu_id \<Rightarrow> lhead \<Rightarrow> tid option \<Rightarrow> bool \<Rightarrow> int \<Rightarrow> kstate \<Rightarrow> kstate option" where
  "dq_wait c h thread level timeout s =
     do { s \<leftarrow> RT_DEBUG_NOT_IN_INTERRUPT c s;
          t \<leftarrow> thread;
          let s = s\<lparr>kc := upd_thread t (\<lambda>th. th\<lparr>th_error := RT_EOK\<rparr>) (kc s)\<rparr>;
          s \<leftarrow> list_suspend c h t s;
          s \<leftarrow> start_timeout c t timeout s;
          rt_schedule c (rt_hw_interrupt_enable c level s) }"

text \<open>
  A call returns the result and the event \<^verbatim>\<open>evt_notify\<close> is called with, if there is one, or \<open>None\<close> when the caller waits.
\<close>

definition dq_push_loop ::
    "cpu_id \<Rightarrow> objid \<Rightarrow> rt_data_item \<Rightarrow> int \<Rightarrow> tid option \<Rightarrow> bool \<Rightarrow> rt_data_queue \<Rightarrow> kstate \<Rightarrow>
      ((rt_err_t \<times> u32 option) option \<times> rt_data_queue \<times> kstate) option" where
  "dq_push_loop c i x timeout thread level dq s =
     (if dq_used dq = uint (dq_size dq) then
        if timeout = 0 then Some (Some (- RT_ETIMEOUT, None), dq, rt_hw_interrupt_enable c level s)
        else do { s \<leftarrow> dq_wait c (dq_pushs i) thread level timeout s; Some (None, dq, s) }
      else
        do { dq \<leftarrow> dq_put x dq;
             let woken = (lists (kc s) (dq_pops i) \<noteq> []);
             s \<leftarrow> wake_one c (dq_pops i) level s;
             Some (Some (RT_EOK, if woken then None else Some RT_DATAQUEUE_EVENT_PUSH), dq, s) })"

definition rt_data_queue_push ::
    "cpu_id \<Rightarrow> objid \<Rightarrow> rt_data_item \<Rightarrow> int \<Rightarrow> rt_data_queue \<Rightarrow> kstate \<Rightarrow>
      ((rt_err_t \<times> u32 option) option \<times> rt_data_queue \<times> kstate) option" where
  "rt_data_queue_push c i x timeout dq s =
     do { let (thread, s) = rt_thread_self c s;
          (level, s) \<leftarrow> rt_hw_interrupt_disable c s;
          dq_push_loop c i x timeout thread level dq s }"

definition rt_data_queue_push_cont ::
    "cpu_id \<Rightarrow> objid \<Rightarrow> rt_data_item \<Rightarrow> int \<Rightarrow> tid \<Rightarrow> rt_data_queue \<Rightarrow> kstate \<Rightarrow>
      ((rt_err_t \<times> u32 option) option \<times> rt_data_queue \<times> kstate) option" where
  "rt_data_queue_push_cont c i x timeout t dq s =
     do { let result = th_error (threads (kc s) t);
          (level, s) \<leftarrow> rt_hw_interrupt_disable c s;
          if result \<noteq> RT_EOK then Some (Some (result, None), dq, rt_hw_interrupt_enable c level s)
          else dq_push_loop c i x timeout (Some t) level dq s }"

definition dq_pop_loop ::
    "cpu_id \<Rightarrow> objid \<Rightarrow> int \<Rightarrow> tid option \<Rightarrow> bool \<Rightarrow> rt_data_queue \<Rightarrow> kstate \<Rightarrow>
      ((rt_err_t \<times> rt_data_item option \<times> u32 option) option \<times> rt_data_queue \<times> kstate) option" where
  "dq_pop_loop c i timeout thread level dq s =
     (if get_index dq = put_index dq then
        if timeout = 0 then Some (Some (- RT_ETIMEOUT, None, None), dq, rt_hw_interrupt_enable c level s)
        else do { s \<leftarrow> dq_wait c (dq_pops i) thread level timeout s; Some (None, dq, s) }
      else
        do { (x, dq) \<leftarrow> dq_get dq;
             if dq_used dq \<le> uint (dq_lwm dq) then
               do { s \<leftarrow> wake_one c (dq_pushs i) level s;
                    Some (Some (RT_EOK, Some x, Some RT_DATAQUEUE_EVENT_LWM), dq, s) }
             else Some (Some (RT_EOK, Some x, Some RT_DATAQUEUE_EVENT_POP), dq, rt_hw_interrupt_enable c level s) })"

definition rt_data_queue_pop ::
    "cpu_id \<Rightarrow> objid \<Rightarrow> int \<Rightarrow> rt_data_queue \<Rightarrow> kstate \<Rightarrow>
      ((rt_err_t \<times> rt_data_item option \<times> u32 option) option \<times> rt_data_queue \<times> kstate) option" where
  "rt_data_queue_pop c i timeout dq s =
     do { let (thread, s) = rt_thread_self c s;
          (level, s) \<leftarrow> rt_hw_interrupt_disable c s;
          dq_pop_loop c i timeout thread level dq s }"

definition rt_data_queue_pop_cont ::
    "cpu_id \<Rightarrow> objid \<Rightarrow> int \<Rightarrow> tid \<Rightarrow> rt_data_queue \<Rightarrow> kstate \<Rightarrow>
      ((rt_err_t \<times> rt_data_item option \<times> u32 option) option \<times> rt_data_queue \<times> kstate) option" where
  "rt_data_queue_pop_cont c i timeout t dq s =
     do { let result = th_error (threads (kc s) t);
          (level, s) \<leftarrow> rt_hw_interrupt_disable c s;
          if result \<noteq> RT_EOK then Some (Some (result, None, None), dq, rt_hw_interrupt_enable c level s)
          else dq_pop_loop c i timeout (Some t) level dq s }"

definition rt_data_queue_peak :: "cpu_id \<Rightarrow> rt_data_queue \<Rightarrow> kstate \<Rightarrow> (rt_err_t \<times> rt_data_item option \<times> kstate) option" where
  "rt_data_queue_peak c dq s =
     do { (level, s) \<leftarrow> rt_hw_interrupt_disable c s;
          if get_index dq = put_index dq then Some (- RT_EEMPTY, None, rt_hw_interrupt_enable c level s)
          else do { (x, _) \<leftarrow> dq_get dq; Some (RT_EOK, Some x, rt_hw_interrupt_enable c level s) } }"

text \<open>
  The two loops are those of \<^verbatim>\<open>rt_ipc_list_resume_all\<close>. \<^verbatim>\<open>rt_exit_critical\<close> calls the scheduler; what follows it is done when the caller runs again.
\<close>

definition rt_data_queue_reset :: "cpu_id \<Rightarrow> objid \<Rightarrow> kstate \<Rightarrow> kstate option" where
  "rt_data_queue_reset c i s =
     do { s \<leftarrow> rt_enter_critical c s;
          (_, s) \<leftarrow> rt_ipc_list_resume_all c (dq_pops i) s;
          (_, s) \<leftarrow> rt_ipc_list_resume_all c (dq_pushs i) s;
          rt_exit_critical c s }"

definition rt_data_queue_reset_cont :: "cpu_id \<Rightarrow> kstate \<Rightarrow> kstate option" where "rt_data_queue_reset_cont c s = rt_schedule c s"

section \<open>Every branch\<close>

lemma list_suspend_n [simp]:
  assumes "lk_ok (Some t) L" "cur c k = Some t" "n < 0xf0" "objs_ok k" "is_ready (threads k t)"
  shows "list_suspend c h t (mk (lockn c (Some t) n L) k) = Some (mk (lockn c (Some t) n L) (ipc_suspend_core h t RT_IPC_FLAG_FIFO k))"
  using ipc_list_suspend_n [OF assms, of h RT_IPC_FLAG_FIFO]
  by (auto simp: list_suspend_def rt_ipc_list_suspend_def enqueue_waiter_def queue_insert_def fifo_insert_def bind_Some_iff)

abbreviation list_wait :: "lhead \<Rightarrow> tid \<Rightarrow> int \<Rightarrow> kcore \<Rightarrow> kcore" where
  "list_wait h t timeout k \<equiv> wait_core h RT_IPC_FLAG_FIFO t timeout k"

lemma fifo_flag [simp]: "ipc_flag RT_IPC_FLAG_FIFO"
  by (simp add: ipc_flag_def)

lemma dq_wait_first:
  assumes ctx: "ipc_ctx c t L k" and time: "wait_time timeout"
  shows "dq_wait c h (Some t) (irq_disabled L c) timeout (mk (lockn c (Some t) (Suc 0) L) k) = rt_schedule c (mk L (list_wait h t timeout k))"
proof -
  note d = ipc_ctxD [OF ctx]
  have ob: "objs_ok (upd_thread t (\<lambda>th. th\<lparr>th_error := RT_EOK\<rparr>) k)"
    using d(5) by (rule objs_ok_upd_thread) (simp add: started_def)
  show ?thesis
    using d time wait_time_tick [OF time] ob
    by (simp add: dq_wait_def start_timeout_def wait_core_def Let_def wait_time_def block_core_def is_ready_def)
qed

lemma completion_wait_blocks:
  assumes ctx: "ipc_ctx c t L k" and time: "wait_time timeout" and f: "cp_flag cp \<noteq> RT_COMPLETED" "lists k (cp_queue i) = []"
  shows "rt_completion_wait c i timeout cp (mk L k) =
     do { s \<leftarrow> rt_schedule c (mk L (list_wait (cp_queue i) t timeout k)); Some (None, cp, s) }"
proof -
  note d = ipc_ctxD [OF ctx]
  have ob: "objs_ok (upd_thread t (\<lambda>th. th\<lparr>th_error := RT_EOK\<rparr>) k)"
    using d(5) by (rule objs_ok_upd_thread) (simp add: started_def)
  show ?thesis
    using d f time wait_time_tick [OF time] ob
    by (simp add: rt_completion_wait_def start_timeout_def wait_core_def Let_def wait_time_def block_core_def is_ready_def)
qed

lemma list_wait_post:
  assumes ctx: "ipc_ctx c t L k" and h: "wait_head h" and st: "stacks_ok k"
  shows "\<exists>s'. rt_schedule c (mk L (list_wait h t timeout k)) = Some s' \<and> kinv (kc s') \<and> lists (kc s') h = lists k h @ [t] \<and>
    (\<forall>g. wait_head g \<longrightarrow> g \<noteq> h \<longrightarrow> lists (kc s') g = lists k g)"
proof -
  note d = ipc_ctxD [OF ctx]
  obtain s' where s': "rt_schedule c (mk L (list_wait h t timeout k)) = Some s'" using wait_returns [OF ctx st h fifo_flag] by blast
  have kv: "kinv (list_wait h t timeout k)" "cur c (list_wait h t timeout k) = Some t" using wait_core_inv [OF d(4,2,3,6) h fifo_flag] d(2) by simp_all
  hence "sched_inv (list_wait h t timeout k)" by (simp add: kinv_def)
  note keep = schedule_keeps_waiters(6) [OF d(1) kv(2) this d(3) s']
  have "lists (kc s') g = (if g = h then lists k h @ [t] else lists k g)" if "wait_head g" for g
    using keep [OF that] wait_core_queue [OF d(4,2,3,6), of h RT_IPC_FLAG_FIFO timeout g] by (simp add: queue_insert_def fifo_insert_def)
  thus ?thesis using s' rt_schedule_kinv [OF d(1) kv(2,1) d(3) s'] h by auto
qed

text \<open>What waking the first thread of a list leaves.\<close>

definition woken :: "lhead \<Rightarrow> kcore \<Rightarrow> kcore \<Rightarrow> bool" where
  "woken h k k' \<longleftrightarrow> kinv k' \<and> lists k' h = tl (lists k h) \<and> (\<forall>g. wait_head g \<longrightarrow> g \<noteq> h \<longrightarrow> lists k' g = lists k g) \<and>
     (case lists k h of [] \<Rightarrow> k' = k | u # _ \<Rightarrow> is_ready (threads k' u) \<and> th_error (threads k' u) = th_error (threads k u))"

lemma wake_one_post:
  assumes ctx: "ipc_ctx c t L k" and h: "wait_head h" and st: "stacks_ok k"
  shows "\<exists>s'. wake_one c h (irq_disabled L c) (mk (lockn c (Some t) (Suc 0) L) k) = Some s' \<and> woken h k (kc s')"
proof (cases "lists k h")
  case Nil
  thus ?thesis using ipc_ctxD(4) [OF ctx] wake_one_first [OF ipc_ctxD(1,2,4) [OF ctx] h] h by (simp add: woken_def)
next
  case (Cons u us)
  note d = ipc_ctxD [OF ctx]
  have w: "waits (threads k u)" using waiter_waits [OF d(4) h, of u] Cons by simp
  obtain s' where s': "rt_schedule c (mk L (resume_core c u k)) = Some s'" using resume_returns [OF ctx st d(4,2) _ _ w] by blast
  have kv: "kinv (resume_core c u k)" "cur c (resume_core c u k) = Some t" using kinv_resume [OF d(4) w] d(2) by simp_all
  hence sv: "sched_inv (resume_core c u k)" by (simp add: kinv_def)
  note keep = schedule_keeps_waiters [OF d(1) kv(2) sv d(3) s']
  have r: "is_ready (threads (resume_core c u k) u)" "th_error (threads (resume_core c u k) u) = th_error (threads k u)"
    by (simp_all add: is_ready_def)
  have "lists (kc s') g = (if g = h then us else lists k g)" if "wait_head g" for g
    using keep(6) [OF that] lists_resume_first [OF d(4) Cons h that] by simp
  hence "woken h k (kc s')"
    using rt_schedule_kinv [OF d(1) kv(2,1) d(3) s'] rt_schedule_ready [OF d(1) kv(2) sv d(3) s' r(1)] keep(7) [of u] r(2) h Cons
    by (simp add: woken_def)
  thus ?thesis using s' wake_one_first [OF d(1,2,4) h] Cons by auto
qed

section \<open>The array of a data queue\<close>

definition dq_wf :: "rt_data_queue \<Rightarrow> bool" where
  "dq_wf dq \<longleftrightarrow> 0 < dq_size dq \<and> length (dq_queue dq) = unat (dq_size dq) \<and> get_index dq \<le> put_index dq \<and>
     unat (put_index dq) - unat (get_index dq) \<le> unat (dq_size dq)"

definition dq_contents :: "rt_data_queue \<Rightarrow> rt_data_item list" where
  "dq_contents dq = ring_contents (dq_queue dq) (unat (get_index dq) mod unat (dq_size dq)) (unat (put_index dq) - unat (get_index dq))"

lemma dq_full_iff: "dq_wf dq \<Longrightarrow> dq_used dq = uint (dq_size dq) \<longleftrightarrow> length (dq_contents dq) = unat (dq_size dq)"
proof -
  assume "dq_wf dq"
  hence "uint (get_index dq) \<le> uint (put_index dq)" by (simp add: dq_wf_def word_le_def)
  thus ?thesis unfolding dq_used_def dq_contents_def ring_contents_length unat_eq_nat_uint
    using uint_nonnegative [of "get_index dq"] uint_nonnegative [of "dq_size dq"] by arith
qed

lemma dq_empty_iff: "dq_wf dq \<Longrightarrow> get_index dq = put_index dq \<longleftrightarrow> dq_contents dq = []"
  by (auto simp: dq_wf_def dq_contents_def ring_contents_def word_le_nat_alt word_unat_eq_iff)

lemma dq_put_ok:
  assumes wf: "dq_wf dq" and room: "length (dq_contents dq) < unat (dq_size dq)" and wrap: "put_index dq < 0xffff"
  shows "\<exists>dq'. dq_put x dq = Some dq' \<and> dq_wf dq' \<and> dq_contents dq' = dq_contents dq @ [x] \<and> dq_size dq' = dq_size dq"
proof -
  define n where "n = unat (put_index dq) - unat (get_index dq)"
  let ?r = "unat (get_index dq) mod unat (dq_size dq)" and ?w = "unat (put_index dq) mod unat (dq_size dq)"
  have len: "length (dq_queue dq) = unat (dq_size dq)" and pos: "0 < unat (dq_size dq)" and le: "unat (get_index dq) \<le> unat (put_index dq)"
    using wf by (simp_all add: dq_wf_def word_less_nat_alt word_le_nat_alt)
  have n: "n < unat (dq_size dq)" using room by (simp add: dq_contents_def n_def)
  have "unat (put_index dq) = unat (get_index dq) + n" using le by (simp add: n_def)
  hence w: "?w = (?r + n) mod length (dq_queue dq)" by (simp add: len mod_add_left_eq)
  have p1: "unat (put_index dq + 1) = Suc (unat (put_index dq))" using wrap by (rule unat_Suc_less)
  define dq' where "dq' = dq\<lparr>dq_queue := (dq_queue dq)[?w := x], put_index := put_index dq + 1\<rparr>"
  have "dq_put x dq = Some dq'" using pos len by (simp add: dq_put_def dq'_def unat_mod)
  moreover have "dq_wf dq'" using wf n p1 le by (simp add: dq_wf_def dq'_def word_le_nat_alt n_def)
  moreover have "dq_contents dq' = dq_contents dq @ [x]"
    using ring_contents_write [OF w, of x] n len p1 le by (simp add: dq_contents_def dq'_def n_def Suc_diff_le)
  ultimately show ?thesis by (auto simp: dq'_def)
qed

lemma dq_get_ok:
  assumes wf: "dq_wf dq" and c: "dq_contents dq = x # xs"
  shows "\<exists>dq'. dq_get dq = Some (x, dq') \<and> dq_wf dq' \<and> dq_contents dq' = xs \<and> dq_size dq' = dq_size dq \<and> dq_lwm dq' = dq_lwm dq \<and>
    dq_used dq' = int (length xs)"
proof -
  define n where "n = length xs"
  let ?r = "unat (get_index dq) mod unat (dq_size dq)"
  have len: "length (dq_queue dq) = unat (dq_size dq)" and pos: "0 < unat (dq_size dq)" and le: "unat (get_index dq) \<le> unat (put_index dq)"
    using wf by (simp_all add: dq_wf_def word_less_nat_alt word_le_nat_alt)
  have n: "unat (put_index dq) - unat (get_index dq) = Suc n" using arg_cong [OF c, of length] by (simp add: dq_contents_def n_def)
  have n1: "unat (put_index dq) - Suc (unat (get_index dq)) = n" using n by simp
  have "get_index dq < put_index dq" using n by (simp add: word_less_nat_alt)
  hence g1: "unat (get_index dq + 1) = Suc (unat (get_index dq))" by (rule unat_Suc_less)
  define dq' where "dq' = dq\<lparr>get_index := get_index dq + 1\<rparr>"
  have r: "?r < length (dq_queue dq)" using pos len by simp
  have ring: "dq_contents dq = dq_queue dq ! ?r # dq_contents dq'"
    using ring_contents_read [OF r, of n] n n1 g1 len by (simp add: dq_contents_def dq'_def mod_simps)
  have "dq_get dq = Some (x, dq')" using ring c r by (simp add: dq_get_def dq'_def unat_mod)
  moreover have "Suc (unat (get_index dq)) \<le> unat (put_index dq)" using n by simp
  hence "dq_wf dq'" using wf n n1 g1 by (simp add: dq_wf_def dq'_def word_le_nat_alt)
  moreover have "int (unat (put_index dq)) - int (unat (get_index dq + 1)) = int n" unfolding g1 using n by linarith
  hence "dq_used dq' = int (length xs)" by (simp add: dq_used_def dq'_def n_def)
  ultimately show ?thesis using ring c by (auto simp: dq'_def)
qed

section \<open>Reset\<close>

lemma exit_critical_last:
  assumes "cur c k = Some t" "cpus_lock_nest L t = 0" "scheduler_lock_nest L t = 0" "\<not> critical_lock L"
  shows "rt_exit_critical c (mk (L\<lparr>critical_lock := True, scheduler_lock_nest := (scheduler_lock_nest L)(t := 1)\<rparr>) k) = rt_schedule c (mk L k)"
proof -
  have e: "L\<lparr>critical_lock := False\<rparr> = L" using assms(4) by (cases L) simp
  show ?thesis using assms
    by (simp add: rt_exit_critical_def lock_defs spin_unlock_critical_def cpus_nest_flag_def Let_def fun_upd_idem e)
qed

text \<open>Resetting a data queue makes every waiting reader and writer ready, with the error \<^verbatim>\<open>-RT_ERROR\<close>.\<close>

lemma data_queue_reset_releases:
  assumes ctx: "ipc_ctx c t L k" and st: "stacks_ok k" and l: "cpus_lock_nest L t = 0" "scheduler_lock_nest L t = 0" "\<not> critical_lock L"
  shows "\<exists>s'. rt_data_queue_reset c i (mk L k) = Some s' \<and> kinv (kc s') \<and> lists (kc s') (dq_pops i) = [] \<and> lists (kc s') (dq_pushs i) = [] \<and>
    (\<forall>u \<in> set (lists k (dq_pops i)) \<union> set (lists k (dq_pushs i)). is_ready (threads (kc s') u) \<and> th_error (threads (kc s') u) = - RT_ERROR)"
proof -
  note d = ipc_ctxD [OF ctx]
  let ?L = "L\<lparr>critical_lock := True, scheduler_lock_nest := (scheduler_lock_nest L)(t := 1)\<rparr>"
  let ?k1 = "resume_all_core c (dq_pops i) k" let ?k2 = "resume_all_core c (dq_pushs i) ?k1"
  have lk: "lk_ok (Some t) ?L" using d(1) by (simp add: lk_ok_def)
  note a1 = resume_all_n [OF lk d(2) _ d(4), of 0 "dq_pops i", simplified]
  have k1: "cur c ?k1 = Some t" "kinv ?k1" using a1 by simp_all
  note a2 = resume_all_n [OF lk k1(1) _ k1(2), of 0 "dq_pushs i", simplified]
  have k2: "kinv ?k2" "cur c ?k2 = Some t" using a2 by simp_all
  have r: "rt_data_queue_reset c i (mk L k) = rt_schedule c (mk L ?k2)"
    using enter_critical_first [OF d(2) l] a1 a2 exit_critical_last [OF k2(2) l] by (simp add: rt_data_queue_reset_def)
  have dis: "u \<notin> set (lists k (dq_pushs i))" if "u \<in> set (lists k (dq_pops i))" for u
    using lists_wfD(2) [of "lists k" u "dq_pops i" "dq_pushs i"] d(4) that by (auto simp: kinv_def sched_inv_def queue_inv_def)
  have p1: "lists ?k1 (dq_pushs i) = lists k (dq_pushs i)" using a1 by simp
  have thr: "is_ready (threads ?k2 u) \<and> th_error (threads ?k2 u) = - RT_ERROR"
    if "u \<in> set (lists k (dq_pops i)) \<union> set (lists k (dq_pushs i))" for u using that a1 a2 dis p1 by auto
  have "started (threads k v)" if "started (threads ?k2 v)" for v
  proof (cases "v \<in> set (lists k (dq_pops i)) \<union> set (lists k (dq_pushs i))")
    case True
    thus ?thesis using waiter_waits [OF d(4), of "dq_pops i" v] waiter_waits [OF d(4), of "dq_pushs i" v] state_excl(3) by auto
  qed (use that a1 a2 p1 in auto)
  moreover have "stack_view (threads ?k2 v) = stack_view (threads k v)" for v by (simp add: resume_all_stack)
  ultimately obtain s' where s': "rt_schedule c (mk L ?k2) = Some s'" using schedule_after [OF ctx st k2] by blast
  have sv: "sched_inv ?k2" using k2 by (simp add: kinv_def)
  note keep = schedule_keeps_waiters [OF d(1) k2(2) sv d(3) s']
  have "lists (kc s') (dq_pops i) = []" "lists (kc s') (dq_pushs i) = []" using keep(6) a1 a2 by simp_all
  moreover have "is_ready (threads (kc s') u) \<and> th_error (threads (kc s') u) = - RT_ERROR"
    if "u \<in> set (lists k (dq_pops i)) \<union> set (lists k (dq_pushs i))" for u
    using thr [OF that] rt_schedule_ready [OF d(1) k2(2) sv d(3) s'] keep(7) by simp
  ultimately show ?thesis using r s' rt_schedule_kinv [OF d(1) k2(2,1) d(3) s'] by auto
qed

section \<open>Properties\<close>

text \<open>
  A completion holds at most one signal and passes it to the waiter: \<^verbatim>\<open>rt_completion_done\<close> sets the flag and makes the waiting thread ready
  with its error untouched; \<^verbatim>\<open>rt_completion_wait\<close> on a set flag takes the signal without waiting, otherwise it fails at once or the caller is the one
  thread that waits. Both return and keep the kernel's invariant.
\<close>

lemma completion_correct:
  assumes "ipc_ctx c t L k" "stacks_ok k" "timeout = 0 \<or> wait_time timeout" "cp_flag cp = RT_COMPLETED \<or> lists k (SuspendQ (OCompletion i)) = []"
  shows "(\<exists>cp' s'. rt_completion_done c i cp (mk L k) = Some (cp', s') \<and> cp_flag cp' = RT_COMPLETED \<and>
      (if cp_flag cp = RT_COMPLETED then s' = mk L k else woken (SuspendQ (OCompletion i)) k (kc s'))) \<and>
    (\<exists>r cp' s'. rt_completion_wait c i timeout cp (mk L k) = Some (r, cp', s') \<and> cp_flag cp' \<noteq> RT_COMPLETED \<and>
      (if cp_flag cp = RT_COMPLETED then r = Some RT_EOK \<and> s' = mk L k
       else cp' = cp \<and> (if timeout = 0 then r = Some (- RT_ETIMEOUT) \<and> s' = mk L k
         else r = None \<and> kinv (kc s') \<and> lists (kc s') (SuspendQ (OCompletion i)) = [t])))"
proof
  note d = ipc_ctxD [OF assms(1)]
  obtain s where s: "wake_one c (cp_queue i) (irq_disabled L c) (mk (lockn c (Some t) (Suc 0) L) k) = Some s" "woken (cp_queue i) k (kc s)"
    using wake_one_post [OF assms(1) _ assms(2), of "cp_queue i"] by auto
  show "\<exists>cp' s'. rt_completion_done c i cp (mk L k) = Some (cp', s') \<and> cp_flag cp' = RT_COMPLETED \<and>
      (if cp_flag cp = RT_COMPLETED then s' = mk L k else woken (SuspendQ (OCompletion i)) k (kc s'))"
    using s d(1,2) by (simp add: rt_completion_done_def)
  have n: "RT_UNCOMPLETED \<noteq> RT_COMPLETED" by (simp add: RT_COMPLETED_def RT_UNCOMPLETED_def)
  show "\<exists>r cp' s'. rt_completion_wait c i timeout cp (mk L k) = Some (r, cp', s') \<and> cp_flag cp' \<noteq> RT_COMPLETED \<and>
      (if cp_flag cp = RT_COMPLETED then r = Some RT_EOK \<and> s' = mk L k
       else cp' = cp \<and> (if timeout = 0 then r = Some (- RT_ETIMEOUT) \<and> s' = mk L k
         else r = None \<and> kinv (kc s') \<and> lists (kc s') (SuspendQ (OCompletion i)) = [t]))"
  proof (cases "cp_flag cp = RT_COMPLETED \<or> timeout = 0")
    case True
    thus ?thesis using d(1,2) n assms(4) by (auto simp: rt_completion_wait_def)
  next
    case False
    hence f: "cp_flag cp \<noteq> RT_COMPLETED" "lists k (cp_queue i) = []" "wait_time timeout" using assms(3,4) by auto
    show ?thesis
      using completion_wait_blocks [OF assms(1) f(3,1,2)] list_wait_post [OF assms(1) _ assms(2), of "cp_queue i" timeout] f False by auto
  qed
qed

lemma completion_correct_witness:
  "\<exists>cp' s'. rt_completion_done 0 0 \<lparr>cp_flag = 0\<rparr> (mk demo_lock demo_core) = Some (cp', s') \<and> cp_flag cp' = RT_COMPLETED"
  using completion_correct [OF demo_ctx demo_stacks, of 0 "\<lparr>cp_flag = 0\<rparr>" 0] by auto

text \<open>
  A signal is lost when it arrives between the timeout of the waiter and its next step: the waiter clears the flag although it reports the
  timeout, and the next caller of \<^verbatim>\<open>rt_completion_wait\<close> does not find the signal.
\<close>

lemma completion_lost:
  assumes "lk_ok th L" "cur c k = th" "cp_flag cp \<noteq> RT_COMPLETED" "lists k (SuspendQ (OCompletion i)) = []"
    and "th_error (threads k t) = - RT_ETIMEOUT" "kinv k"
  shows "do { (cp, s) \<leftarrow> rt_completion_done c i cp (mk L k);
      (r, cp, s) \<leftarrow> rt_completion_wait_cont c t cp s;
      (r', _) \<leftarrow> rt_completion_wait c i 0 cp s;
      Some (r, r') } = Some (- RT_ETIMEOUT, Some (- RT_ETIMEOUT))"
  using assms wake_one_first [OF assms(1,2,6), of "cp_queue i"]
  by (simp add: rt_completion_done_def rt_completion_wait_cont_def rt_completion_wait_def RT_COMPLETED_def RT_UNCOMPLETED_def)

lemma completion_lost_witness:
  "do { (cp, s) \<leftarrow> rt_completion_done 0 0 \<lparr>cp_flag = 0\<rparr> (mk demo_lock (upd_thread 3 (\<lambda>th. th\<lparr>th_error := - RT_ETIMEOUT\<rparr>) demo_core));
      (r, cp, s) \<leftarrow> rt_completion_wait_cont 0 3 cp s;
      (r', _) \<leftarrow> rt_completion_wait 0 0 0 cp s;
      Some (r, r') } = Some (- RT_ETIMEOUT, Some (- RT_ETIMEOUT))"
proof -
  have "kinv (upd_thread 3 (\<lambda>th. th\<lparr>th_error := - RT_ETIMEOUT\<rparr>) demo_core)" using demo_kinv by (simp add: sview_def)
  thus ?thesis using ipc_ctxD(1,2) [OF demo_ctx] by (intro completion_lost [where th = "Some 1"]) (simp_all add: RT_COMPLETED_def)
qed

text \<open>
  C38. \<^verbatim>\<open>rt_data_queue_push\<close> refines a bounded queue as long as the 16-bit index does not wrap: with room the item is appended and the first waiting
  reader is made ready, otherwise nothing changes and the call fails or the caller waits among the writers.
\<close>

theorem data_queue_push_correct:
  assumes "ipc_ctx c t L k" "stacks_ok k" "timeout = 0 \<or> wait_time timeout" "dq_wf dq" "put_index dq < 0xffff"
  shows "\<exists>r dq' s'. rt_data_queue_push c i x timeout dq (mk L k) = Some (r, dq', s') \<and> dq_wf dq' \<and>
    (if length (dq_contents dq) < unat (dq_size dq)
     then (\<exists>e. r = Some (RT_EOK, e)) \<and> dq_contents dq' = dq_contents dq @ [x] \<and> woken (SuspendQ (ODataQueue i)) k (kc s')
     else dq' = dq \<and> (if timeout = 0 then r = Some (- RT_ETIMEOUT, None) \<and> s' = mk L k
       else r = None \<and> kinv (kc s') \<and> lists (kc s') (SenderQ (ODataQueue i)) = lists k (SenderQ (ODataQueue i)) @ [t]))"
proof -
  note d = ipc_ctxD [OF assms(1)]
  have le: "length (dq_contents dq) \<le> unat (dq_size dq)" using assms(4) by (simp add: dq_wf_def dq_contents_def)
  show ?thesis
  proof (cases "length (dq_contents dq) < unat (dq_size dq)")
    case True
    obtain dq' where dq': "dq_put x dq = Some dq'" "dq_wf dq'" "dq_contents dq' = dq_contents dq @ [x]"
      using dq_put_ok [OF assms(4) True assms(5)] by blast
    obtain s where s: "wake_one c (dq_pops i) (irq_disabled L c) (mk (lockn c (Some t) (Suc 0) L) k) = Some s" "woken (dq_pops i) k (kc s)"
      using wake_one_post [OF assms(1) _ assms(2), of "dq_pops i"] by auto
    have "dq_used dq \<noteq> uint (dq_size dq)" using dq_full_iff [OF assms(4)] True by simp
    thus ?thesis using d(1,2) True dq' s by (auto simp: rt_data_queue_push_def dq_push_loop_def)
  next
    case False
    hence full: "dq_used dq = uint (dq_size dq)" using dq_full_iff [OF assms(4)] le by simp
    obtain s where s: "rt_schedule c (mk L (list_wait (dq_pushs i) t timeout k)) = Some s" "kinv (kc s)"
        "lists (kc s) (dq_pushs i) = lists k (dq_pushs i) @ [t]"
      using list_wait_post [OF assms(1) _ assms(2), of "dq_pushs i" timeout] by auto
    show ?thesis
      using False full d(1,2) assms(3,4) s dq_wait_first [OF assms(1), of timeout "dq_pushs i"]
      by (cases "timeout = 0") (simp_all add: rt_data_queue_push_def dq_push_loop_def)
  qed
qed

definition demo_dq :: rt_data_queue where
  "demo_dq = \<lparr>dq_size = 2, dq_lwm = 1, get_index = 3, put_index = 4, dq_queue = [(0, 0), (7, 8)]\<rparr>"

lemma demo_dq_wf: "dq_wf demo_dq" "dq_contents demo_dq = [(7, 8)]"
  by (simp_all add: demo_dq_def dq_wf_def dq_contents_def ring_contents_def)

theorem data_queue_push_correct_witness:
  "\<exists>e dq' s'. rt_data_queue_push 0 0 (1, 2) 0 demo_dq (mk demo_lock demo_core) = Some (Some (RT_EOK, e), dq', s') \<and>
    dq_contents dq' = [(7, 8), (1, 2)]"
  using data_queue_push_correct [OF demo_ctx demo_stacks, of 0 demo_dq 0 "(1, 2)"] demo_dq_wf by (auto simp: demo_dq_def)

text \<open>
  \<^verbatim>\<open>rt_data_queue_pop\<close> refines the same queue: it delivers and removes the oldest item, and when no more than the low water mark is left the
  first waiting writer is made ready; from an empty queue it fails or the caller waits among the readers.
\<close>

lemma data_queue_pop_correct:
  assumes "ipc_ctx c t L k" "stacks_ok k" "timeout = 0 \<or> wait_time timeout" "dq_wf dq"
  shows "\<exists>r dq' s'. rt_data_queue_pop c i timeout dq (mk L k) = Some (r, dq', s') \<and> dq_wf dq' \<and>
    (case dq_contents dq of
       x # xs \<Rightarrow> (\<exists>e. r = Some (RT_EOK, Some x, e)) \<and> dq_contents dq' = xs \<and>
         (if length xs \<le> unat (dq_lwm dq) then woken (SenderQ (ODataQueue i)) k (kc s') else s' = mk L k)
     | [] \<Rightarrow> dq' = dq \<and> (if timeout = 0 then r = Some (- RT_ETIMEOUT, None, None) \<and> s' = mk L k
       else r = None \<and> kinv (kc s') \<and> lists (kc s') (SuspendQ (ODataQueue i)) = lists k (SuspendQ (ODataQueue i)) @ [t]))"
proof -
  note d = ipc_ctxD [OF assms(1)]
  show ?thesis
  proof (cases "dq_contents dq")
    case (Cons x xs)
    obtain dq' where dq': "dq_get dq = Some (x, dq')" "dq_wf dq'" "dq_contents dq' = xs" "dq_lwm dq' = dq_lwm dq" "dq_used dq' = int (length xs)"
      using dq_get_ok [OF assms(4) Cons] by blast
    obtain s where s: "wake_one c (dq_pushs i) (irq_disabled L c) (mk (lockn c (Some t) (Suc 0) L) k) = Some s" "woken (dq_pushs i) k (kc s)"
      using wake_one_post [OF assms(1) _ assms(2), of "dq_pushs i"] by auto
    have "int (length xs) \<le> uint (dq_lwm dq) \<longleftrightarrow> length xs \<le> unat (dq_lwm dq)"
      using zle_int [of "length xs" "unat (dq_lwm dq)"] by simp
    moreover have "get_index dq \<noteq> put_index dq" using dq_empty_iff [OF assms(4)] Cons by simp
    ultimately show ?thesis using d(1,2) Cons dq' s by (auto simp: rt_data_queue_pop_def dq_pop_loop_def)
  next
    case Nil
    hence e: "get_index dq = put_index dq" using dq_empty_iff [OF assms(4)] by simp
    obtain s where s: "rt_schedule c (mk L (list_wait (dq_pops i) t timeout k)) = Some s" "kinv (kc s)"
        "lists (kc s) (dq_pops i) = lists k (dq_pops i) @ [t]"
      using list_wait_post [OF assms(1) _ assms(2), of "dq_pops i" timeout] by auto
    show ?thesis
      using Nil e d(1,2) assms(3,4) s dq_wait_first [OF assms(1), of timeout "dq_pops i"]
      by (cases "timeout = 0") (simp_all add: rt_data_queue_pop_def dq_pop_loop_def)
  qed
qed

lemma data_queue_pop_correct_witness:
  "\<exists>e dq' s'. rt_data_queue_pop 0 0 0 demo_dq (mk demo_lock demo_core) = Some (Some (RT_EOK, Some (7, 8), e), dq', s') \<and> dq_contents dq' = []"
  using data_queue_pop_correct [OF demo_ctx demo_stacks, of 0 demo_dq 0] demo_dq_wf by auto

text \<open>
  C39. After 65536 items the index \<^verbatim>\<open>put_index\<close> is 0 again, and the test for a full queue, which subtracts the indices as integers, fails: on a queue of a
  size that divides 65536 with all places taken, \<^verbatim>\<open>rt_data_queue_push\<close> reports success and overwrites the oldest item, so that the next reader gets the new one.
\<close>

theorem data_queue_wrap_overwrites:
  assumes "ipc_ctx c t L k" "stacks_ok k" "0 < dq_size dq" "unat (dq_size dq) dvd 65536" "length (dq_queue dq) = unat (dq_size dq)"
    and "put_index dq = 0" "get_index dq = - dq_size dq"
  shows "\<exists>e dq' s' dq''. rt_data_queue_push c i x 0 dq (mk L k) = Some (Some (RT_EOK, e), dq', s') \<and> dq_get dq' = Some (x, dq'')"
proof -
  note d = ipc_ctxD [OF assms(1)]
  have pos: "0 < unat (dq_size dq)" using assms(3) by (simp add: word_less_nat_alt)
  have lt: "uint (dq_size dq) < 65536" using uint_lt2p [of "dq_size dq"] by simp
  hence u: "uint (- dq_size dq) = 65536 - uint (dq_size dq)"
    using assms(3) uint_nonnegative [of "dq_size dq"] by (simp add: uint_word_ariths zmod_zminus1_eq_if word_gt_0 uint_0_iff)
  hence "unat (- dq_size dq) = 65536 - unat (dq_size dq)"
    unfolding unat_eq_nat_uint using uint_nonnegative [of "dq_size dq"] by arith
  moreover have "(65536 - unat (dq_size dq)) mod unat (dq_size dq) = 0"
    using assms(4) by (simp add: dvd_diff_nat mod_eq_0_iff_dvd)
  ultimately have g: "unat (get_index dq mod dq_size dq) = 0" using assms(7) by (simp add: unat_mod)
  have "uint (get_index dq) > 0" using assms(7) u lt by simp
  hence nf: "dq_used dq \<noteq> uint (dq_size dq)" using assms(6) uint_nonnegative [of "dq_size dq"] unfolding dq_used_def by (simp only: unsigned_0)
  define dq' where "dq' = dq\<lparr>dq_queue := (dq_queue dq)[0 := x], put_index := 1\<rparr>"
  have p: "dq_put x dq = Some dq'" using pos assms(5,6) by (simp add: dq_put_def dq'_def)
  have "dq_get dq' = Some (x, dq'\<lparr>get_index := get_index dq' + 1\<rparr>)" using g pos assms(5) by (simp add: dq_get_def dq'_def)
  moreover obtain s where "wake_one c (dq_pops i) (irq_disabled L c) (mk (lockn c (Some t) (Suc 0) L) k) = Some s"
    using wake_one_post [OF assms(1) _ assms(2), of "dq_pops i"] by auto
  ultimately show ?thesis using d(1,2) nf p by (auto simp: rt_data_queue_push_def dq_push_loop_def)
qed

theorem data_queue_wrap_overwrites_witness:
  "\<exists>e dq' s' dq''. rt_data_queue_push 0 0 (1, 2) 0 \<lparr>dq_size = 2, dq_lwm = 1, get_index = 0xfffe, put_index = 0, dq_queue = [(3, 4), (5, 6)]\<rparr>
       (mk demo_lock demo_core) = Some (Some (RT_EOK, e), dq', s') \<and> dq_get dq' = Some ((1, 2), dq'')"
  by (rule data_queue_wrap_overwrites [OF demo_ctx demo_stacks]) simp_all

end
