(* ===== verification/Rt_Ringbuffer.thy ===== *)
theory Rt_Ringbuffer
  imports Rt_Fifo
begin

text \<open>
  The byte ring buffer of the device drivers, \<^verbatim>\<open>components/drivers/src/ringbuffer.c\<close>. Read and write
  positions are 15-bit indices with a mirror bit each: equal indices mean empty when the mirror bits
  agree and full when they differ. Sizes are the C types' (\<^verbatim>\<open>rt_int16_t\<close> for the size of the
  buffer, 32 bits for \<^verbatim>\<open>rt_size_t\<close>), and an access outside a buffer is \<open>None\<close>. Single bytes
  implement the bounded queue of \<open>Rt_Fifo\<close>; blocks are put and got as far as there is room and data.
  Overwriting is right except in one case, which loses the whole contents.
\<close>

section \<open>Data and operations\<close>

record rt_ringbuffer =
  buffer_ptr :: "u8 list"
  read_mirror :: bool
  read_index :: "15 word"
  write_mirror :: bool
  write_index :: "15 word"
  buffer_size :: u16

datatype rt_ringbuffer_state = RT_RINGBUFFER_EMPTY | RT_RINGBUFFER_FULL | RT_RINGBUFFER_HALFFULL

text \<open>\<^verbatim>\<open>buffer_size\<close> is signed; C computes with it and with the indices at the width of \<^verbatim>\<open>int\<close>.\<close>

abbreviation bsize :: "rt_ringbuffer \<Rightarrow> int" where "bsize rb \<equiv> sint (buffer_size rb)"

text \<open>\<^verbatim>\<open>memcpy(&dst[d], &src[s], n)\<close>, \<open>None\<close> when it leaves one of the two buffers.\<close>

definition memcpy :: "u8 list \<Rightarrow> int \<Rightarrow> u8 list \<Rightarrow> int \<Rightarrow> int \<Rightarrow> u8 list option" where
  "memcpy dst d src s n =
     (if 0 \<le> n \<and> 0 \<le> d \<and> 0 \<le> s \<and> d + n \<le> int (length dst) \<and> s + n \<le> int (length src)
      then Some (take (nat d) dst @ take (nat n) (drop (nat s) src) @ drop (nat (d + n)) dst)
      else None)"

definition rt_ringbuffer_status :: "rt_ringbuffer \<Rightarrow> rt_ringbuffer_state" where
  "rt_ringbuffer_status rb =
     (if read_index rb = write_index rb then
        if read_mirror rb = write_mirror rb then RT_RINGBUFFER_EMPTY else RT_RINGBUFFER_FULL
      else RT_RINGBUFFER_HALFFULL)"

definition rt_ringbuffer_init :: "u8 list \<Rightarrow> u16 \<Rightarrow> rt_ringbuffer option" where
  "rt_ringbuffer_init pool sz =
     do { RT_ASSERT (sint sz > 0);
          Some \<lparr>buffer_ptr = pool, read_mirror = False, read_index = 0, write_mirror = False, write_index = 0,
                buffer_size = ucast (RT_ALIGN_DOWN (word_of_int (sint sz)) (of_nat RT_ALIGN_SIZE))\<rparr> }"

definition rt_ringbuffer_data_len :: "rt_ringbuffer \<Rightarrow> u32" where
  "rt_ringbuffer_data_len rb =
     (case rt_ringbuffer_status rb of
        RT_RINGBUFFER_EMPTY \<Rightarrow> 0
      | RT_RINGBUFFER_FULL \<Rightarrow> word_of_int (bsize rb)
      | RT_RINGBUFFER_HALFFULL \<Rightarrow>
          if write_index rb > read_index rb then word_of_int (uint (write_index rb) - uint (read_index rb))
          else word_of_int (bsize rb - (uint (read_index rb) - uint (write_index rb))))"

definition rt_ringbuffer_get_size :: "rt_ringbuffer \<Rightarrow> u16" where
  "rt_ringbuffer_get_size rb = buffer_size rb"

definition rt_ringbuffer_space_len :: "rt_ringbuffer \<Rightarrow> u32" where
  "rt_ringbuffer_space_len rb = word_of_int (bsize rb) - rt_ringbuffer_data_len rb"

definition rt_ringbuffer_put :: "u8 list \<Rightarrow> u16 \<Rightarrow> rt_ringbuffer \<Rightarrow> (u32 \<times> rt_ringbuffer) option" where
  "rt_ringbuffer_put ptr len rb =
     (let sz = ucast (rt_ringbuffer_space_len rb) :: u16 in
      if sz = 0 then Some (0, rb)
      else
        let len = (if sz < len then sz else len);
            first = bsize rb - uint (write_index rb)
        in
        if first > uint len then
          do { pool \<leftarrow> memcpy (buffer_ptr rb) (uint (write_index rb)) ptr 0 (uint len);
               Some (ucast len, rb\<lparr>buffer_ptr := pool, write_index := write_index rb + ucast len\<rparr>) }
        else
          do { pool \<leftarrow> memcpy (buffer_ptr rb) (uint (write_index rb)) ptr 0 first;
               pool \<leftarrow> memcpy pool 0 ptr first (uint len - first);
               Some (ucast len, rb\<lparr>buffer_ptr := pool, write_mirror := \<not> write_mirror rb,
                                   write_index := word_of_int (uint len - first)\<rparr>) })"

definition rt_ringbuffer_put_force :: "u8 list \<Rightarrow> u16 \<Rightarrow> rt_ringbuffer \<Rightarrow> (u32 \<times> rt_ringbuffer) option" where
  "rt_ringbuffer_put_force ptr len rb =
     (let space_length = ucast (rt_ringbuffer_space_len rb) :: u16;
          (skip, len) = (if uint len > bsize rb then (uint len - bsize rb, buffer_size rb) else (0, len));
          first = bsize rb - uint (write_index rb)
      in
      if first > uint len then
        do { pool \<leftarrow> memcpy (buffer_ptr rb) (uint (write_index rb)) ptr skip (uint len);
             let rb = rb\<lparr>buffer_ptr := pool, write_index := write_index rb + ucast len\<rparr>;
             let rb = (if len > space_length then rb\<lparr>read_index := write_index rb\<rparr> else rb);
             Some (ucast len, rb) }
      else
        do { pool \<leftarrow> memcpy (buffer_ptr rb) (uint (write_index rb)) ptr skip first;
             pool \<leftarrow> memcpy pool 0 ptr (skip + first) (uint len - first);
             let rb = rb\<lparr>buffer_ptr := pool, write_mirror := \<not> write_mirror rb,
                         write_index := word_of_int (uint len - first)\<rparr>;
             let rb = (if len > space_length
                       then rb\<lparr>read_mirror := \<not> read_mirror rb, read_index := write_index rb\<rparr> else rb);
             Some (ucast len, rb) })"

text \<open>The second component is the caller's buffer, which is written.\<close>

definition rt_ringbuffer_get ::
    "u8 list \<Rightarrow> u16 \<Rightarrow> rt_ringbuffer \<Rightarrow> (u32 \<times> u8 list \<times> rt_ringbuffer) option" where
  "rt_ringbuffer_get ptr len rb =
     (let sz = rt_ringbuffer_data_len rb in
      if sz = 0 then Some (0, ptr, rb)
      else
        let len = (if sz < ucast len then ucast sz else len);
            first = bsize rb - uint (read_index rb)
        in
        if first > uint len then
          do { ptr \<leftarrow> memcpy ptr 0 (buffer_ptr rb) (uint (read_index rb)) (uint len);
               Some (ucast len, ptr, rb\<lparr>read_index := read_index rb + ucast len\<rparr>) }
        else
          do { ptr \<leftarrow> memcpy ptr 0 (buffer_ptr rb) (uint (read_index rb)) first;
               ptr \<leftarrow> memcpy ptr first (buffer_ptr rb) 0 (uint len - first);
               Some (ucast len, ptr, rb\<lparr>read_mirror := \<not> read_mirror rb,
                                        read_index := word_of_int (uint len - first)\<rparr>) })"

text \<open>\<^verbatim>\<open>buffer_ptr[i] = ch\<close>.\<close>

definition poke :: "15 word \<Rightarrow> u8 \<Rightarrow> rt_ringbuffer \<Rightarrow> rt_ringbuffer option" where
  "poke i ch rb = (if unat i < length (buffer_ptr rb) then Some (rb\<lparr>buffer_ptr := (buffer_ptr rb)[unat i := ch]\<rparr>) else None)"

definition rt_ringbuffer_putchar :: "u8 \<Rightarrow> rt_ringbuffer \<Rightarrow> (u32 \<times> rt_ringbuffer) option" where
  "rt_ringbuffer_putchar ch rb =
     (if rt_ringbuffer_space_len rb = 0 then Some (0, rb)
      else
        do { rb \<leftarrow> poke (write_index rb) ch rb;
             Some (1, if uint (write_index rb) = bsize rb - 1
                      then rb\<lparr>write_mirror := \<not> write_mirror rb, write_index := 0\<rparr>
                      else rb\<lparr>write_index := write_index rb + 1\<rparr>) })"

definition rt_ringbuffer_putchar_force :: "u8 \<Rightarrow> rt_ringbuffer \<Rightarrow> (u32 \<times> rt_ringbuffer) option" where
  "rt_ringbuffer_putchar_force ch rb =
     (let old_state = rt_ringbuffer_status rb in
      do { rb \<leftarrow> poke (write_index rb) ch rb;
           Some (1, if uint (write_index rb) = bsize rb - 1 then
                      let rb = rb\<lparr>write_mirror := \<not> write_mirror rb, write_index := 0\<rparr> in
                      if old_state = RT_RINGBUFFER_FULL
                      then rb\<lparr>read_mirror := \<not> read_mirror rb, read_index := write_index rb\<rparr> else rb
                    else
                      let rb = rb\<lparr>write_index := write_index rb + 1\<rparr> in
                      if old_state = RT_RINGBUFFER_FULL then rb\<lparr>read_index := write_index rb\<rparr> else rb) })"

definition rt_ringbuffer_getchar :: "rt_ringbuffer \<Rightarrow> (u32 \<times> u8 option \<times> rt_ringbuffer) option" where
  "rt_ringbuffer_getchar rb =
     (if rt_ringbuffer_data_len rb = 0 then Some (0, None, rb)
      else if unat (read_index rb) < length (buffer_ptr rb) then
        Some (1, Some (buffer_ptr rb ! unat (read_index rb)),
              if uint (read_index rb) = bsize rb - 1
              then rb\<lparr>read_mirror := \<not> read_mirror rb, read_index := 0\<rparr>
              else rb\<lparr>read_index := read_index rb + 1\<rparr>)
      else None)"

definition rt_ringbuffer_reset :: "rt_ringbuffer \<Rightarrow> rt_ringbuffer" where
  "rt_ringbuffer_reset rb = rb\<lparr>read_mirror := False, read_index := 0, write_mirror := False, write_index := 0\<rparr>"

text \<open>
  \<open>mem\<close> is the address of the first allocation and \<open>malloc\<close> the second one. The result is the
  address returned and what it points to; without a pool the structure has already been freed.
\<close>

definition rt_ringbuffer_create ::
    "u16 \<Rightarrow> nat option \<Rightarrow> (u32 \<Rightarrow> u8 list option) \<Rightarrow> (nat option \<times> rt_ringbuffer option) option" where
  "rt_ringbuffer_create sz mem malloc =
     do { RT_ASSERT (sz > 0);
          let sz = (ucast (RT_ALIGN_DOWN (ucast sz) (of_nat RT_ALIGN_SIZE)) :: u16);
          case mem of
            None \<Rightarrow> Some (None, None)
          | Some rb \<Rightarrow>
              (case malloc (ucast sz) of
                 None \<Rightarrow> Some (Some rb, None)
               | Some pool \<Rightarrow> do { r \<leftarrow> rt_ringbuffer_init pool sz; Some (Some rb, Some r) }) }"

section \<open>Positions with a mirror bit\<close>

text \<open>
  A position is a mirror bit and an index below \<open>N\<close>. \<open>pos_gap\<close> is how far the second position is
  ahead of the first, at most \<open>N\<close>; \<open>pos_adv\<close> moves a position by at most \<open>N\<close>.
\<close>

definition pos_ok :: "nat \<Rightarrow> bool \<times> nat \<Rightarrow> bool \<times> nat \<Rightarrow> bool" where
  "pos_ok N r w \<longleftrightarrow> snd r < N \<and> snd w < N \<and> (if fst r = fst w then snd r \<le> snd w else snd w \<le> snd r)"

definition pos_gap :: "nat \<Rightarrow> bool \<times> nat \<Rightarrow> bool \<times> nat \<Rightarrow> nat" where
  "pos_gap N r w = (if fst r = fst w then snd w - snd r else N - (snd r - snd w))"

definition pos_adv :: "nat \<Rightarrow> nat \<Rightarrow> bool \<times> nat \<Rightarrow> bool \<times> nat" where
  "pos_adv N m p = (if N - snd p > m then (fst p, snd p + m) else (\<not> fst p, m - (N - snd p)))"

lemma pos_gap_le: "pos_ok N r w \<Longrightarrow> pos_gap N r w \<le> N"
  by (auto simp: pos_ok_def pos_gap_def)

lemma pos_write:
  assumes "pos_ok N r w" "pos_gap N r w + m \<le> N"
  shows "pos_ok N r (pos_adv N m w) \<and> pos_gap N r (pos_adv N m w) = pos_gap N r w + m"
  using assms unfolding pos_ok_def pos_gap_def pos_adv_def by (auto split: if_splits)

lemma pos_read:
  assumes "pos_ok N r w" "m \<le> pos_gap N r w"
  shows "pos_ok N (pos_adv N m r) w \<and> pos_gap N (pos_adv N m r) w = pos_gap N r w - m"
  using assms unfolding pos_ok_def pos_gap_def pos_adv_def by (auto split: if_splits)

lemma pos_index:
  assumes "pos_ok N r w"
  shows "snd w = (snd r + pos_gap N r w) mod N"
proof (cases "fst r = fst w")
  case False
  then have "snd r + pos_gap N r w = snd w + N" using assms by (simp add: pos_ok_def pos_gap_def)
  then show ?thesis using assms by (simp add: pos_ok_def)
qed (use assms in \<open>simp add: pos_ok_def pos_gap_def\<close>)

lemma pos_full: "pos_ok N r w \<Longrightarrow> pos_gap N r w = N \<longleftrightarrow> snd r = snd w \<and> fst r \<noteq> fst w"
  by (auto simp: pos_ok_def pos_gap_def)

lemma pos_adv_index: "snd p < N \<Longrightarrow> m \<le> N \<Longrightarrow> snd (pos_adv N m p) = (snd p + m) mod N"
  by (auto simp: pos_adv_def mod_if)

section \<open>Invariant and contents\<close>

abbreviation rb_read :: "rt_ringbuffer \<Rightarrow> bool \<times> nat" where
  "rb_read rb \<equiv> (read_mirror rb, unat (read_index rb))"

abbreviation rb_write :: "rt_ringbuffer \<Rightarrow> bool \<times> nat" where
  "rb_write rb \<equiv> (write_mirror rb, unat (write_index rb))"

definition rb_capacity :: "rt_ringbuffer \<Rightarrow> nat" where
  "rb_capacity rb = nat (bsize rb)"

definition rb_wf :: "rt_ringbuffer \<Rightarrow> bool" where
  "rb_wf rb \<longleftrightarrow> rb_capacity rb \<le> length (buffer_ptr rb) \<and> pos_ok (rb_capacity rb) (rb_read rb) (rb_write rb)"

definition rb_contents :: "rt_ringbuffer \<Rightarrow> u8 list" where
  "rb_contents rb =
     ring_contents (take (rb_capacity rb) (buffer_ptr rb)) (unat (read_index rb)) (unat (rt_ringbuffer_data_len rb))"

lemma rb_wf_bsize:
  assumes "rb_wf rb"
  shows "bsize rb = int (rb_capacity rb)" "0 < rb_capacity rb" "rb_capacity rb < 0x8000"
proof -
  have pos: "0 < bsize rb" using assms by (auto simp: rb_wf_def pos_ok_def rb_capacity_def)
  then show "bsize rb = int (rb_capacity rb)" "0 < rb_capacity rb" by (simp_all add: rb_capacity_def)
  have "bsize rb < 0x8000" using sint_lt [of "buffer_size rb"] by simp
  then show "rb_capacity rb < 0x8000" by (simp add: rb_capacity_def)
qed

lemma data_len_gap:
  assumes "rb_wf rb"
  shows "unat (rt_ringbuffer_data_len rb) = pos_gap (rb_capacity rb) (rb_read rb) (rb_write rb)"
proof -
  note b = rb_wf_bsize [OF assms]
  let ?g = "pos_gap (rb_capacity rb) (rb_read rb) (rb_write rb)"
  let ?r = "unat (read_index rb)" and ?w = "unat (write_index rb)"
  have ok: "pos_ok (rb_capacity rb) (rb_read rb) (rb_write rb)" using assms by (simp add: rb_wf_def)
  have eq: "read_index rb = write_index rb \<longleftrightarrow> ?r = ?w" "write_index rb > read_index rb \<longleftrightarrow> ?r < ?w"
    by (simp_all add: word_unat_eq_iff word_less_nat_alt)
  have le: "?r < rb_capacity rb" "?w < rb_capacity rb"
    "if read_mirror rb = write_mirror rb then ?r \<le> ?w else ?w \<le> ?r" using ok unfolding pos_ok_def fst_conv snd_conv by blast+
  have "rt_ringbuffer_data_len rb = word_of_int (int ?g)"
    unfolding rt_ringbuffer_data_len_def rt_ringbuffer_status_def eq b(1) uint_nat pos_gap_def fst_conv snd_conv
    using le by (simp add: of_nat_diff split: if_splits) (auto dest: word_unat_eq_iff [THEN iffD2])
  moreover have "?g < 2 ^ 32" using pos_gap_le [OF ok] b(3) by simp
  ultimately show ?thesis by (simp add: unat_of_nat_small)
qed

lemma rb_contents_length: "length (rb_contents rb) = unat (rt_ringbuffer_data_len rb)"
  by (simp add: rb_contents_def)

lemma rb_within: "rb_wf rb \<Longrightarrow> length (rb_contents rb) \<le> rb_capacity rb"
  by (simp add: rb_contents_length data_len_gap pos_gap_le rb_wf_def)

lemma space_len_room:
  assumes "rb_wf rb"
  shows "unat (rt_ringbuffer_space_len rb) = rb_capacity rb - length (rb_contents rb)"
proof -
  note b = rb_wf_bsize [OF assms]
  have n: "unat (word_of_int (bsize rb) :: u32) = rb_capacity rb" using b by (simp add: unat_of_nat_small)
  have "rt_ringbuffer_data_len rb \<le> word_of_int (bsize rb)"
    using rb_within [OF assms] n by (simp add: word_le_nat_alt rb_contents_length)
  then show ?thesis using n by (simp add: rt_ringbuffer_space_len_def unat_sub rb_contents_length)
qed

section \<open>Moving the positions\<close>

lemma rb_capacity_upd [simp]:
  "rb_capacity (rb\<lparr>buffer_ptr := p\<rparr>) = rb_capacity rb" "rb_capacity (rb\<lparr>write_index := i\<rparr>) = rb_capacity rb"
  "rb_capacity (rb\<lparr>write_mirror := m\<rparr>) = rb_capacity rb" "rb_capacity (rb\<lparr>read_index := i\<rparr>) = rb_capacity rb"
  "rb_capacity (rb\<lparr>read_mirror := m\<rparr>) = rb_capacity rb"
  by (simp_all add: rb_capacity_def)

lemma rb_wfD:
  assumes "rb_wf rb"
  shows "unat (read_index rb) < rb_capacity rb" "unat (write_index rb) < rb_capacity rb"
    "rb_capacity rb \<le> length (buffer_ptr rb)" "pos_ok (rb_capacity rb) (rb_read rb) (rb_write rb)"
    "length (rb_contents rb) = pos_gap (rb_capacity rb) (rb_read rb) (rb_write rb)"
    "unat (write_index rb) = (unat (read_index rb) + length (rb_contents rb)) mod rb_capacity rb"
proof -
  show ok: "pos_ok (rb_capacity rb) (rb_read rb) (rb_write rb)" "rb_capacity rb \<le> length (buffer_ptr rb)"
    using assms by (simp_all add: rb_wf_def)
  show "unat (read_index rb) < rb_capacity rb" "unat (write_index rb) < rb_capacity rb"
    using ok(1) by (simp_all add: pos_ok_def)
  show "length (rb_contents rb) = pos_gap (rb_capacity rb) (rb_read rb) (rb_write rb)"
    using assms by (simp add: rb_contents_length data_len_gap)
  with pos_index [OF ok(1)]
  show "unat (write_index rb) = (unat (read_index rb) + length (rb_contents rb)) mod rb_capacity rb" by simp
qed

lemma rb_write_adv:
  assumes wf: "rb_wf rb" and room: "length (rb_contents rb) + n \<le> rb_capacity rb" and n: "length bs = n"
    and adv: "(b, unat i) = pos_adv (rb_capacity rb) n (rb_write rb)"
    and pool: "take (rb_capacity rb) pool = ring_put (take (rb_capacity rb) (buffer_ptr rb)) (unat (write_index rb)) bs"
  defines "rb' \<equiv> rb\<lparr>buffer_ptr := pool, write_mirror := b, write_index := i\<rparr>"
  shows "rb_wf rb'" "rb_contents rb' = rb_contents rb @ bs" "rb_capacity rb' = rb_capacity rb"
proof -
  let ?N = "rb_capacity rb" and ?xs = "take (rb_capacity rb) (buffer_ptr rb)"
  note d = rb_wfD [OF wf]
  have len: "length ?xs = ?N" using d(3) by simp
  have pos: "pos_ok ?N (rb_read rb) (b, unat i)"
    "pos_gap ?N (rb_read rb) (b, unat i) = length (rb_contents rb) + length bs"
    unfolding adv using pos_write [OF d(4), of n] room n d(5) by simp_all
  have "?N \<le> length pool" using arg_cong [OF pool, of length] len by simp
  then show wf': "rb_wf rb'" using pos(1) by (simp add: rb_wf_def rb'_def)
  show "rb_capacity rb' = ?N" by (simp add: rb'_def)
  have "rb_contents rb' = ring_contents (ring_put ?xs (unat (write_index rb)) bs) (unat (read_index rb))
      (length (rb_contents rb) + length bs)"
    using pos(2) data_len_gap [OF wf'] pool by (simp add: rb_contents_def rb'_def)
  also have "\<dots> = rb_contents rb @ bs"
    using ring_put_contents [of "unat (write_index rb)" "unat (read_index rb)" "length (rb_contents rb)" ?xs bs] d(6) len room n
    by (simp add: rb_contents_def)
  finally show "rb_contents rb' = rb_contents rb @ bs" .
qed

lemma rb_read_adv:
  assumes wf: "rb_wf rb" and avail: "m \<le> length (rb_contents rb)"
    and adv: "(b, unat i) = pos_adv (rb_capacity rb) m (rb_read rb)"
  defines "rb' \<equiv> rb\<lparr>read_mirror := b, read_index := i\<rparr>"
  shows "rb_wf rb'" "rb_contents rb' = drop m (rb_contents rb)" "rb_capacity rb' = rb_capacity rb"
    "take m (rb_contents rb) = ring_contents (take (rb_capacity rb) (buffer_ptr rb)) (unat (read_index rb)) m"
proof -
  let ?N = "rb_capacity rb" and ?xs = "take (rb_capacity rb) (buffer_ptr rb)" and ?n = "length (rb_contents rb)"
  note d = rb_wfD [OF wf]
  have len: "length ?xs = ?N" using d(3) by simp
  have pos: "pos_ok ?N (b, unat i) (rb_write rb)" "pos_gap ?N (b, unat i) (rb_write rb) = ?n - m"
    unfolding adv using pos_read [OF d(4), of m] avail d(5) by simp_all
  show wf': "rb_wf rb'" using pos(1) d(3) by (simp add: rb_wf_def rb'_def)
  show "rb_capacity rb' = ?N" by (simp add: rb'_def)
  have i: "unat i = (unat (read_index rb) + m) mod length ?xs"
    using pos_adv_index [of "rb_read rb" ?N m] d(1) avail rb_within [OF wf] adv len by (metis le_trans snd_conv)
  have "rb_contents rb = ring_contents ?xs (unat (read_index rb)) (m + (?n - m))"
    using avail by (simp add: rb_contents_def)
  also have "\<dots> = ring_contents ?xs (unat (read_index rb)) m @ ring_contents ?xs (unat i) (?n - m)"
    unfolding i by (rule ring_contents_add)
  finally have sp: "rb_contents rb = ring_contents ?xs (unat (read_index rb)) m @ ring_contents ?xs (unat i) (?n - m)" .
  from arg_cong [OF sp, of "take m"]
  show "take m (rb_contents rb) = ring_contents ?xs (unat (read_index rb)) m" by simp
  have "rb_contents rb' = ring_contents ?xs (unat i) (?n - m)"
    using pos(2) data_len_gap [OF wf'] by (simp add: rb_contents_def rb'_def)
  with arg_cong [OF sp, of "drop m"] show "rb_contents rb' = drop m (rb_contents rb)" by simp
qed

text \<open>The two ways the code moves an index.\<close>

lemma index_adv:
  fixes i :: "15 word"
  assumes "unat i < N" "N < 0x8000" "m \<le> N"
  shows "int N - uint i > int m \<Longrightarrow> unat (i + of_nat m) = unat i + m"
    "\<not> int N - uint i > int m \<Longrightarrow> unat (word_of_int (int m - (int N - uint i)) :: 15 word) = m - (N - unat i)"
proof -
  show "unat (i + of_nat m) = unat i + m" if "int N - uint i > int m"
  proof -
    have "unat i + m < 0x8000" using that assms(2) unfolding uint_nat by linarith
    then have "unat (of_nat (unat i + m) :: 15 word) = unat i + m" by (intro unat_of_nat_small) simp
    then show ?thesis by simp
  qed
  show "unat (word_of_int (int m - (int N - uint i)) :: 15 word) = m - (N - unat i)" if "\<not> int N - uint i > int m"
  proof -
    have "int m - (int N - uint i) = int (m - (N - unat i))" using that assms(1) unfolding uint_nat by linarith
    moreover have "m - (N - unat i) < 2 ^ 15" using assms by simp
    ultimately show ?thesis by (simp add: unat_of_nat_small)
  qed
qed

section \<open>Single bytes\<close>

lemma step_adv:
  fixes i :: "15 word"
  assumes "unat i < N" "N < 0x8000"
  shows "(if uint i = int N - 1 then \<not> b else b, unat (if uint i = int N - 1 then 0 else i + 1)) = pos_adv N 1 (b, unat i)"
proof -
  have "uint i = int N - 1 \<longleftrightarrow> Suc (unat i) = N" unfolding uint_nat by linarith
  moreover have "unat (i + 1) = Suc (unat i)" if "Suc (unat i) \<noteq> N"
  proof -
    have "int N - uint i > int 1" using that assms(1) unfolding uint_nat by linarith
    then show ?thesis using index_adv(1) [OF assms, of 1] assms(1) by simp
  qed
  ultimately show ?thesis using assms(1) by (auto simp: pos_adv_def)
qed

lemma putchar_full:
  "rb_wf rb \<Longrightarrow> length (rb_contents rb) = rb_capacity rb \<Longrightarrow> rt_ringbuffer_putchar ch rb = Some (0, rb)"
  using space_len_room [of rb] by (simp add: rt_ringbuffer_putchar_def unat_eq_0)

lemma putchar_ok:
  assumes wf: "rb_wf rb" and room: "length (rb_contents rb) < rb_capacity rb"
  shows "\<exists>rb'. rt_ringbuffer_putchar ch rb = Some (1, rb') \<and> rb_wf rb' \<and> rb_contents rb' = rb_contents rb @ [ch] \<and>
     rb_capacity rb' = rb_capacity rb"
proof -
  note b = rb_wf_bsize [OF wf] and d = rb_wfD [OF wf]
  let ?w = "write_index rb" and ?N = "rb_capacity rb"
  let ?rb = "rb\<lparr>buffer_ptr := (buffer_ptr rb)[unat ?w := ch],
      write_mirror := (if uint ?w = int ?N - 1 then \<not> write_mirror rb else write_mirror rb),
      write_index := (if uint ?w = int ?N - 1 then 0 else ?w + 1)\<rparr>"
  have "rt_ringbuffer_space_len rb \<noteq> 0" using space_len_room [OF wf] room by (auto simp: unat_eq_0 [symmetric])
  then have "rt_ringbuffer_putchar ch rb = Some (1, ?rb)"
    using d(2,3) b(1) by (simp add: rt_ringbuffer_putchar_def poke_def)
  moreover have "take ?N ((buffer_ptr rb)[unat ?w := ch]) = ring_put (take ?N (buffer_ptr rb)) (unat ?w) [ch]"
    by (simp add: take_update_swap)
  from rb_write_adv [OF wf _ _ step_adv [OF d(2) b(3), of "write_mirror rb"] this] room
  have "rb_wf ?rb \<and> rb_contents ?rb = rb_contents rb @ [ch] \<and> rb_capacity ?rb = ?N" by simp
  ultimately show ?thesis by blast
qed

lemma getchar_empty: "rb_contents rb = [] \<Longrightarrow> rt_ringbuffer_getchar rb = Some (0, None, rb)"
  using rb_contents_length [of rb] by (simp add: rt_ringbuffer_getchar_def unat_eq_0)

lemma getchar_ok:
  assumes wf: "rb_wf rb" and c: "rb_contents rb = v # vs"
  shows "\<exists>rb'. rt_ringbuffer_getchar rb = Some (1, Some v, rb') \<and> rb_wf rb' \<and> rb_contents rb' = vs \<and>
     rb_capacity rb' = rb_capacity rb"
proof -
  note b = rb_wf_bsize [OF wf] and d = rb_wfD [OF wf]
  let ?r = "read_index rb" and ?N = "rb_capacity rb"
  let ?rb = "rb\<lparr>read_mirror := (if uint ?r = int ?N - 1 then \<not> read_mirror rb else read_mirror rb),
      read_index := (if uint ?r = int ?N - 1 then 0 else ?r + 1)\<rparr>"
  note adv = rb_read_adv [OF wf, of 1, OF _ step_adv [OF d(1) b(3), of "read_mirror rb"], unfolded c]
  have "v = buffer_ptr rb ! unat ?r"
    using adv(4) d(1,3) by (simp add: ring_contents_def)
  moreover have "rt_ringbuffer_data_len rb \<noteq> 0" using rb_contents_length [of rb] c by auto
  ultimately have "rt_ringbuffer_getchar rb = Some (1, Some v, ?rb)"
    using d(1,3) b(1) by (simp add: rt_ringbuffer_getchar_def)
  then show ?thesis using adv(1-3) by simp
qed

text \<open>The bounded queue that the byte operations implement.\<close>

definition rb_enq :: "u8 \<Rightarrow> rt_ringbuffer \<Rightarrow> rt_ringbuffer option" where
  "rb_enq ch rb = do { (n, rb) \<leftarrow> rt_ringbuffer_putchar ch rb; if n = 1 then Some rb else None }"

definition rb_deq :: "rt_ringbuffer \<Rightarrow> (u8 \<times> rt_ringbuffer) option" where
  "rb_deq rb = do { (n, ch, rb) \<leftarrow> rt_ringbuffer_getchar rb; ch \<leftarrow> ch; Some (ch, rb) }"

interpretation rb: bounded_fifo rb_wf rb_contents rb_capacity rb_enq rb_deq
proof
  show "length (rb_contents b) \<le> rb_capacity b" if "rb_wf b" for b using rb_within [OF that] .
  show "\<exists>b'. rb_enq v b = Some b' \<and> rb_wf b' \<and> rb_contents b' = rb_contents b @ [v] \<and> rb_capacity b' = rb_capacity b"
    if "rb_wf b" "length (rb_contents b) < rb_capacity b" for b v
    using putchar_ok [OF that, of v] by (auto simp: rb_enq_def)
  show "\<exists>b'. rb_deq b = Some (v, b') \<and> rb_wf b' \<and> rb_contents b' = vs \<and> rb_capacity b' = rb_capacity b"
    if "rb_wf b" "rb_contents b = v # vs" for b v vs
    using getchar_ok [OF that] by (auto simp: rb_deq_def)
qed

text \<open>The forced variant drops the oldest byte of a full buffer.\<close>

lemma status_full: "rb_wf rb \<Longrightarrow> rt_ringbuffer_status rb = RT_RINGBUFFER_FULL \<longleftrightarrow> length (rb_contents rb) = rb_capacity rb"
  using pos_full [OF rb_wfD(4), of rb] rb_wfD(5) [of rb]
  by (simp add: rt_ringbuffer_status_def word_unat_eq_iff)

lemma putchar_force_ok:
  assumes wf: "rb_wf rb"
  shows "\<exists>rb'. rt_ringbuffer_putchar_force ch rb = Some (1, rb') \<and> rb_wf rb' \<and> rb_capacity rb' = rb_capacity rb \<and>
     rb_contents rb' = (if length (rb_contents rb) = rb_capacity rb then tl (rb_contents rb) else rb_contents rb) @ [ch]"
proof (cases "length (rb_contents rb) = rb_capacity rb")
  case False
  then have room: "length (rb_contents rb) < rb_capacity rb" using rb_within [OF wf] by simp
  have "rt_ringbuffer_space_len rb \<noteq> 0" using space_len_room [OF wf] room by (auto simp: unat_eq_0 [symmetric])
  then have "rt_ringbuffer_putchar_force ch rb = rt_ringbuffer_putchar ch rb"
    using False status_full [OF wf] rb_wfD(2,3) [OF wf]
    by (simp add: rt_ringbuffer_putchar_force_def rt_ringbuffer_putchar_def poke_def Let_def)
  with putchar_ok [OF wf room, of ch] False show ?thesis by auto
next
  case True
  note b = rb_wf_bsize [OF wf] and d = rb_wfD [OF wf]
  have st: "rt_ringbuffer_status rb = RT_RINGBUFFER_FULL" using status_full [OF wf] True by simp
  then have eq: "read_index rb = write_index rb" by (auto simp: rt_ringbuffer_status_def split: if_splits)
  obtain v vs where c: "rb_contents rb = v # vs" using True b(2) by (cases "rb_contents rb") auto
  obtain rb1 where g: "rt_ringbuffer_getchar rb = Some (1, Some v, rb1)" "rb_wf rb1" "rb_contents rb1 = vs"
    "rb_capacity rb1 = rb_capacity rb" using getchar_ok [OF wf c] by blast
  have room: "length (rb_contents rb1) < rb_capacity rb1" using True c g(3,4) by simp
  have "rt_ringbuffer_space_len rb1 \<noteq> 0" using space_len_room [OF g(2)] room by (auto simp: unat_eq_0 [symmetric])
  moreover have "rb1 = (if uint (read_index rb) = bsize rb - 1
      then rb\<lparr>read_mirror := \<not> read_mirror rb, read_index := 0\<rparr> else rb\<lparr>read_index := read_index rb + 1\<rparr>)"
    using g(1) by (auto simp: rt_ringbuffer_getchar_def split: if_splits)
  ultimately have "rt_ringbuffer_putchar_force ch rb = rt_ringbuffer_putchar ch rb1"
    using st eq d(2,3)
    by (simp add: rt_ringbuffer_putchar_force_def rt_ringbuffer_putchar_def poke_def Let_def)
  with putchar_ok [OF g(2) room, of ch] g(3,4) c True show ?thesis by auto
qed

section \<open>Blocks\<close>

lemma memcpy_nat:
  "d + n \<le> length dst \<Longrightarrow> s + n \<le> length src \<Longrightarrow>
     memcpy dst (int d) src (int s) (int n) = Some (take d dst @ take n (drop s src) @ drop (d + n) dst)"
  using nat_int [of "d + n"] by (simp add: memcpy_def)

lemma memcpy_straight:
  assumes "w < N" "w + m \<le> N" "N \<le> length pool" "s + m \<le> length ptr"
  shows "\<exists>pool'. memcpy pool (int w) ptr (int s) (int m) = Some pool' \<and>
     take N pool' = ring_put (take N pool) w (take m (drop s ptr))"
proof -
  define bs where "bs = take m (drop s ptr)"
  have bs: "length bs = m" using assms(4) by (simp add: bs_def)
  have "memcpy pool (int w) ptr (int s) (int m) = Some (take w pool @ bs @ drop (w + m) pool)"
    using assms by (simp add: memcpy_nat bs_def)
  moreover have "take N (take w pool @ bs @ drop (w + m) pool) = ring_put (take N pool) w bs"
    using assms(1-3) bs ring_put_straight [of w bs "take N pool"] by (simp add: drop_take min_def)
  ultimately show ?thesis unfolding bs_def by blast
qed

lemma memcpy_wrap:
  assumes "w < N" "N - w \<le> m" "m \<le> N" "N \<le> length pool" "s + m \<le> length ptr"
  shows "\<exists>pool'. do { p \<leftarrow> memcpy pool (int w) ptr (int s) (int (N - w));
                    memcpy p 0 ptr (int (s + (N - w))) (int (m - (N - w))) } = Some pool' \<and>
     take N pool' = ring_put (take N pool) w (take m (drop s ptr))"
proof -
  let ?f = "N - w"
  have f: "s + ?f \<le> length ptr" "s + ?f + (m - ?f) \<le> length ptr" "m - ?f \<le> N" using assms by linarith+
  obtain p where p: "memcpy pool (int w) ptr (int s) (int ?f) = Some p"
    "take N p = ring_put (take N pool) w (take ?f (drop s ptr))"
    using memcpy_straight [OF assms(1) _ assms(4) f(1)] assms(1) by auto
  have "length p = length pool" using p(1) assms by (auto simp: memcpy_def split: if_splits)
  then obtain p' where p': "memcpy p (int 0) ptr (int (s + ?f)) (int (m - ?f)) = Some p'"
    "take N p' = ring_put (take N p) 0 (take (m - ?f) (drop (s + ?f) ptr))"
    using memcpy_straight [of 0 N "m - ?f" p "s + ?f" ptr] assms f by auto
  have "take m (drop s ptr) = take ?f (drop s ptr) @ take (m - ?f) (drop (s + ?f) ptr)"
    using take_add [of ?f "m - ?f" "drop s ptr"] assms(2) by (simp add: add.commute)
  then have "ring_put (take N pool) w (take m (drop s ptr)) = take N p'"
    using p'(2) p(2) assms by (simp add: ring_put_append)
  then show ?thesis using p(1) p'(1) by simp
qed

text \<open>
  What both block writers do: copy \<open>L\<close> bytes from offset \<open>k\<close> of the caller's memory and move the
  write position, in the straight or in the wrapping way.
\<close>

lemma write_block:
  assumes wf: "rb_wf rb" and m: "unat (L :: u16) = m" "m \<le> rb_capacity rb" "k + m \<le> length ptr"
  defines "N \<equiv> rb_capacity rb" and "w \<equiv> write_index rb"
  shows "bsize rb - uint w > uint L \<Longrightarrow>
      \<exists>pool. memcpy (buffer_ptr rb) (uint w) ptr (int k) (uint L) = Some pool \<and>
        take N pool = ring_put (take N (buffer_ptr rb)) (unat w) (take m (drop k ptr)) \<and>
        (write_mirror rb, unat (w + ucast L)) = pos_adv N m (rb_write rb)"
    "\<not> bsize rb - uint w > uint L \<Longrightarrow>
      \<exists>p pool. memcpy (buffer_ptr rb) (uint w) ptr (int k) (bsize rb - uint w) = Some p \<and>
        memcpy p 0 ptr (int k + (bsize rb - uint w)) (uint L - (bsize rb - uint w)) = Some pool \<and>
        take N pool = ring_put (take N (buffer_ptr rb)) (unat w) (take m (drop k ptr)) \<and>
        (\<not> write_mirror rb, unat (word_of_int (uint L - (bsize rb - uint w)) :: 15 word)) = pos_adv N m (rb_write rb)"
proof -
  note b = rb_wf_bsize [OF wf] and d = rb_wfD [OF wf]
  have i: "bsize rb = int N" "uint L = int m" "uint w = int (unat w)" using b(1) m(1) by (auto simp: N_def)
  have w: "unat w < N" "N \<le> length (buffer_ptr rb)" "N < 0x8000" "m \<le> N" using d(2,3) b(3) m(2) by (simp_all add: N_def w_def)
  have L: "(ucast L :: 15 word) = of_nat m" by (simp flip: m(1))
  show "\<exists>pool. memcpy (buffer_ptr rb) (uint w) ptr (int k) (uint L) = Some pool \<and>
        take N pool = ring_put (take N (buffer_ptr rb)) (unat w) (take m (drop k ptr)) \<and>
        (write_mirror rb, unat (w + ucast L)) = pos_adv N m (rb_write rb)" if c: "bsize rb - uint w > uint L"
  proof -
    have c': "N - unat w > m" using c unfolding i by linarith
    have "unat (w + ucast L) = unat w + m" unfolding L using index_adv(1) [OF w(1,3,4)] c i(1,2) by simp
    then have "(write_mirror rb, unat (w + ucast L)) = pos_adv N m (rb_write rb)"
      using c' by (simp add: pos_adv_def w_def)
    moreover have "unat w + m \<le> N" using c' by linarith
    ultimately show ?thesis unfolding i using memcpy_straight [OF w(1) _ w(2) m(3)] by blast
  qed
  show "\<exists>p pool. memcpy (buffer_ptr rb) (uint w) ptr (int k) (bsize rb - uint w) = Some p \<and>
        memcpy p 0 ptr (int k + (bsize rb - uint w)) (uint L - (bsize rb - uint w)) = Some pool \<and>
        take N pool = ring_put (take N (buffer_ptr rb)) (unat w) (take m (drop k ptr)) \<and>
        (\<not> write_mirror rb, unat (word_of_int (uint L - (bsize rb - uint w)) :: 15 word)) = pos_adv N m (rb_write rb)"
    if c: "\<not> bsize rb - uint w > uint L"
  proof -
    have c': "\<not> N - unat w > m" using c w(1) unfolding i by linarith
    have e: "int N - int (unat w) = int (N - unat w)" "int k + int (N - unat w) = int (k + (N - unat w))"
      "int m - int (N - unat w) = int (m - (N - unat w))" using c' w(1) by linarith+
    have "unat (word_of_int (int m - (int N - uint w)) :: 15 word) = m - (N - unat w)"
      using index_adv(2) [OF w(1,3,4)] c i(1,2) by simp
    then have "(\<not> write_mirror rb, unat (word_of_int (int m - (int N - uint w)) :: 15 word)) = pos_adv N m (rb_write rb)"
      using c' by (simp add: pos_adv_def w_def)
    moreover have "N - unat w \<le> m" using c' by linarith
    ultimately show ?thesis
      using memcpy_wrap [OF w(1) _ w(4,2) m(3)] unfolding i e bind_Some_iff by blast
  qed
qed

lemma space_word:
  assumes "rb_wf rb"
  shows "unat (ucast (rt_ringbuffer_space_len rb) :: u16) = rb_capacity rb - length (rb_contents rb)"
proof -
  have "rb_capacity rb - length (rb_contents rb) < 2 ^ 16" using rb_wf_bsize(3) [OF assms] by simp
  then show ?thesis
    using space_len_room [OF assms] by (simp add: unsigned_ucast_eq take_bit_nat_eq_self)
qed

lemma put_ok:
  assumes wf: "rb_wf rb" and len: "unat len \<le> length ptr"
  defines "m \<equiv> min (unat len) (rb_capacity rb - length (rb_contents rb))"
  shows "\<exists>rb'. rt_ringbuffer_put ptr len rb = Some (of_nat m, rb') \<and> rb_wf rb' \<and>
     rb_contents rb' = rb_contents rb @ take m ptr \<and> rb_capacity rb' = rb_capacity rb"
proof -
  let ?sz = "ucast (rt_ringbuffer_space_len rb) :: u16"
  define L where "L = (if ?sz < len then ?sz else len)"
  note sz = space_word [OF wf]
  have L: "unat L = m" "ucast L = (of_nat m :: u32)"
  proof -
    show "unat L = m" using sz by (simp add: L_def m_def word_less_nat_alt min_def)
    then show "ucast L = (of_nat m :: u32)" by (simp flip: \<open>unat L = m\<close>)
  qed
  have mN: "m \<le> rb_capacity rb" "0 + m \<le> length ptr" "length (rb_contents rb) + m \<le> rb_capacity rb"
    "length (take m ptr) = m"
    using len rb_within [OF wf] by (auto simp: m_def)
  show ?thesis
  proof (cases "?sz = 0")
    case True
    then have "m = 0" using sz by (simp add: m_def)
    then show ?thesis using True wf by (simp add: rt_ringbuffer_put_def)
  next
    case ne: False
    note blk = write_block [OF wf L(1) mN(1,2)]
    show ?thesis
    proof (cases "bsize rb - uint (write_index rb) > uint L")
      case True
      from blk(1) [OF this] obtain pool where p:
        "memcpy (buffer_ptr rb) (uint (write_index rb)) ptr 0 (uint L) = Some pool"
        "take (rb_capacity rb) pool = ring_put (take (rb_capacity rb) (buffer_ptr rb)) (unat (write_index rb)) (take m ptr)"
        "(write_mirror rb, unat (write_index rb + ucast L)) = pos_adv (rb_capacity rb) m (rb_write rb)" by auto
      have "rt_ringbuffer_put ptr len rb = Some (of_nat m,
          rb\<lparr>buffer_ptr := pool, write_mirror := write_mirror rb, write_index := write_index rb + ucast L\<rparr>)"
        using ne True p(1) L(2) unfolding rt_ringbuffer_put_def Let_def L_def [symmetric] by simp
      then show ?thesis using rb_write_adv [OF wf mN(3,4) p(3,2)] by blast
    next
      case False
      from blk(2) [OF this] obtain p pool where p:
        "memcpy (buffer_ptr rb) (uint (write_index rb)) ptr 0 (bsize rb - uint (write_index rb)) = Some p"
        "memcpy p 0 ptr (bsize rb - uint (write_index rb)) (uint L - (bsize rb - uint (write_index rb))) = Some pool"
        "take (rb_capacity rb) pool = ring_put (take (rb_capacity rb) (buffer_ptr rb)) (unat (write_index rb)) (take m ptr)"
        "(\<not> write_mirror rb, unat (word_of_int (uint L - (bsize rb - uint (write_index rb))) :: 15 word)) =
           pos_adv (rb_capacity rb) m (rb_write rb)" by auto
      have "rt_ringbuffer_put ptr len rb = Some (of_nat m, rb\<lparr>buffer_ptr := pool, write_mirror := \<not> write_mirror rb,
          write_index := word_of_int (uint L - (bsize rb - uint (write_index rb)))\<rparr>)"
        using ne False p(1,2) L(2) unfolding rt_ringbuffer_put_def Let_def L_def [symmetric] by simp
      then show ?thesis using rb_write_adv [OF wf mN(3,4) p(4,3)] by blast
    qed
  qed
qed

text \<open>Reading a block, likewise.\<close>

lemma read_block:
  assumes wf: "rb_wf rb" and m: "unat (L :: u16) = m" "m \<le> rb_capacity rb" "m \<le> length ptr"
  defines "N \<equiv> rb_capacity rb" and "r \<equiv> read_index rb"
  shows "bsize rb - uint r > uint L \<Longrightarrow>
      memcpy ptr 0 (buffer_ptr rb) (uint r) (uint L) = Some (ring_contents (take N (buffer_ptr rb)) (unat r) m @ drop m ptr) \<and>
      (read_mirror rb, unat (r + ucast L)) = pos_adv N m (rb_read rb)"
    "\<not> bsize rb - uint r > uint L \<Longrightarrow>
      \<exists>p. memcpy ptr 0 (buffer_ptr rb) (uint r) (bsize rb - uint r) = Some p \<and>
        memcpy p (bsize rb - uint r) (buffer_ptr rb) 0 (uint L - (bsize rb - uint r)) =
          Some (ring_contents (take N (buffer_ptr rb)) (unat r) m @ drop m ptr) \<and>
        (\<not> read_mirror rb, unat (word_of_int (uint L - (bsize rb - uint r)) :: 15 word)) = pos_adv N m (rb_read rb)"
proof -
  note b = rb_wf_bsize [OF wf] and d = rb_wfD [OF wf]
  have i: "bsize rb = int N" "uint L = int m" "uint r = int (unat r)" using b(1) m(1) by (auto simp: N_def)
  have r: "unat r < N" "N \<le> length (buffer_ptr rb)" "N < 0x8000" "m \<le> N" using d(1,3) b(3) m(2) by (simp_all add: N_def r_def)
  have L: "(ucast L :: 15 word) = of_nat m" by (simp flip: m(1))
  have len: "length (take N (buffer_ptr rb)) = N" using r(2) by simp
  show "memcpy ptr 0 (buffer_ptr rb) (uint r) (uint L) = Some (ring_contents (take N (buffer_ptr rb)) (unat r) m @ drop m ptr) \<and>
      (read_mirror rb, unat (r + ucast L)) = pos_adv N m (rb_read rb)" if c: "bsize rb - uint r > uint L"
  proof -
    have c': "N - unat r > m" using c unfolding i by linarith
    have "unat (r + ucast L) = unat r + m" unfolding L using index_adv(1) [OF r(1,3,4)] c i(1,2) by simp
    moreover have "memcpy ptr 0 (buffer_ptr rb) (uint r) (int m) = Some (take m (drop (unat r) (buffer_ptr rb)) @ drop m ptr)"
      using c' r(2) m(3) memcpy_nat [of 0 m ptr "unat r" "buffer_ptr rb"] by simp
    moreover have "ring_contents (take N (buffer_ptr rb)) (unat r) m = take m (drop (unat r) (buffer_ptr rb))"
      using ring_contents_straight [of "unat r" m "take N (buffer_ptr rb)"] c' r(2) by (simp add: drop_take)
    ultimately show ?thesis unfolding i(1,2) using c' by (simp add: pos_adv_def r_def)
  qed
  show "\<exists>p. memcpy ptr 0 (buffer_ptr rb) (uint r) (bsize rb - uint r) = Some p \<and>
        memcpy p (bsize rb - uint r) (buffer_ptr rb) 0 (uint L - (bsize rb - uint r)) =
          Some (ring_contents (take N (buffer_ptr rb)) (unat r) m @ drop m ptr) \<and>
        (\<not> read_mirror rb, unat (word_of_int (uint L - (bsize rb - uint r)) :: 15 word)) = pos_adv N m (rb_read rb)"
    if c: "\<not> bsize rb - uint r > uint L"
  proof -
    define f where "f = N - unat r"
    have f: "f \<le> m" "unat r + f = N" "int N - uint r = int f" "int m - int f = int (m - f)" "int f + int (m - f) = int m"
      using c r(1) unfolding f_def i by linarith+
    let ?p = "take f (drop (unat r) (buffer_ptr rb)) @ drop f ptr"
    have lp: "length (take f (drop (unat r) (buffer_ptr rb))) = f" "length ?p = length ptr" using f r(2) m(3) by auto
    have "memcpy ptr 0 (buffer_ptr rb) (uint r) (int f) = Some ?p"
      using f(1,2) r(2) m(3) memcpy_nat [of 0 f ptr "unat r" "buffer_ptr rb"] by simp
    moreover have "memcpy ?p (int f) (buffer_ptr rb) 0 (int (m - f)) =
        Some (take f (drop (unat r) (buffer_ptr rb)) @ take (m - f) (buffer_ptr rb) @ drop m ptr)"
      using f(1,2) r(2,4) m(3) lp memcpy_nat [of f "m - f" ?p 0 "buffer_ptr rb"] by simp
    moreover have "ring_contents (take N (buffer_ptr rb)) (unat r) m =
        take f (drop (unat r) (buffer_ptr rb)) @ take (m - f) (buffer_ptr rb)"
      using ring_contents_wrap [of "unat r" "take N (buffer_ptr rb)" m, unfolded len, folded f_def, OF r(1) f(1) r(4)] r(4)
      by (simp add: drop_take f_def [symmetric] min_def)
    moreover have "unat (word_of_int (int m - (int N - uint r)) :: 15 word) = m - f"
      using index_adv(2) [OF r(1,3,4)] c i(1,2) by (simp add: f_def)
    ultimately show ?thesis unfolding i(1,2) f(3) f(4) using f(1) by (simp add: pos_adv_def r_def f_def)
  qed
qed

lemma get_ok:
  assumes wf: "rb_wf rb" and len: "unat len \<le> length ptr"
  defines "m \<equiv> min (unat len) (length (rb_contents rb))"
  shows "\<exists>rb'. rt_ringbuffer_get ptr len rb = Some (of_nat m, take m (rb_contents rb) @ drop m ptr, rb') \<and> rb_wf rb' \<and>
     rb_contents rb' = drop m (rb_contents rb) \<and> rb_capacity rb' = rb_capacity rb"
proof -
  let ?sz = "rt_ringbuffer_data_len rb"
  define L where "L = (if ?sz < ucast len then ucast ?sz else len)"
  have sz: "unat ?sz = length (rb_contents rb)" by (simp add: rb_contents_length)
  have "unat ?sz < 2 ^ 16" using sz rb_within [OF wf] rb_wf_bsize(3) [OF wf] by simp
  then have u: "unat (ucast ?sz :: u16) = unat ?sz" "unat (ucast len :: u32) = unat len"
    by (simp_all add: unat_ucast_16_32 unsigned_ucast_eq take_bit_nat_eq_self)
  have L: "unat L = m" using sz u by (simp add: L_def m_def word_less_nat_alt min_def)
  then have Lw: "ucast L = (of_nat m :: u32)" by (simp flip: L)
  have mN: "m \<le> rb_capacity rb" "m \<le> length ptr" "m \<le> length (rb_contents rb)"
    using len rb_within [OF wf] by (auto simp: m_def)
  show ?thesis
  proof (cases "?sz = 0")
    case True
    then have "m = 0" using sz by (simp add: m_def)
    then show ?thesis using True wf by (simp add: rt_ringbuffer_get_def)
  next
    case ne: False
    note blk = read_block [OF wf L mN(1,2)]
    show ?thesis
    proof (cases "bsize rb - uint (read_index rb) > uint L")
      case True
      note p = blk(1) [OF this] and adv = rb_read_adv [OF wf mN(3) blk(1) [OF this, THEN conjunct2]]
      have "rt_ringbuffer_get ptr len rb = Some (of_nat m, take m (rb_contents rb) @ drop m ptr,
          rb\<lparr>read_mirror := read_mirror rb, read_index := read_index rb + ucast L\<rparr>)"
        using ne True p Lw adv(4) unfolding rt_ringbuffer_get_def Let_def L_def [symmetric] by simp
      then show ?thesis using adv(1-3) by blast
    next
      case False
      from blk(2) [OF this] obtain p where p:
        "memcpy ptr 0 (buffer_ptr rb) (uint (read_index rb)) (bsize rb - uint (read_index rb)) = Some p"
        "memcpy p (bsize rb - uint (read_index rb)) (buffer_ptr rb) 0 (uint L - (bsize rb - uint (read_index rb))) =
           Some (ring_contents (take (rb_capacity rb) (buffer_ptr rb)) (unat (read_index rb)) m @ drop m ptr)"
        "(\<not> read_mirror rb, unat (word_of_int (uint L - (bsize rb - uint (read_index rb))) :: 15 word)) =
           pos_adv (rb_capacity rb) m (rb_read rb)" by auto
      note adv = rb_read_adv [OF wf mN(3) p(3)]
      have "rt_ringbuffer_get ptr len rb = Some (of_nat m, take m (rb_contents rb) @ drop m ptr,
          rb\<lparr>read_mirror := \<not> read_mirror rb, read_index := word_of_int (uint L - (bsize rb - uint (read_index rb)))\<rparr>)"
        using ne False p(1,2) Lw adv(4) unfolding rt_ringbuffer_get_def Let_def L_def [symmetric] by simp
      then show ?thesis using adv(1-3) by blast
    qed
  qed
qed

section \<open>Overwriting\<close>

text \<open>
  Positions after the forced write of \<open>m\<close> bytes that overwrites: when the mirror bits differed
  before, the read position ends where dropping the excess would put it, one full turn behind the write position.
\<close>

lemma pos_force:
  assumes "pos_ok N r w" "fst r \<noteq> fst w" "m \<le> N" "N < pos_gap N r w + m"
  shows "pos_adv N (pos_gap N r w + m - N) r = (\<not> fst (pos_adv N m w), snd (pos_adv N m w))"
proof -
  let ?e = "pos_gap N r w + m - N"
  have 1: "pos_ok N (pos_adv N ?e r) w" "pos_gap N (pos_adv N ?e r) w = N - m"
    using pos_read [OF assms(1), of ?e] pos_gap_le [OF assms(1)] assms(3,4) by auto
  have "pos_ok N (pos_adv N ?e r) (pos_adv N m w)" "pos_gap N (pos_adv N ?e r) (pos_adv N m w) = N"
    using pos_write [OF 1(1), of m] 1(2) assms(3) by auto
  from pos_full [OF this(1)] this(2) show ?thesis by (intro prod_eqI) auto
qed

text \<open>The call in terms of the positions: what is copied, and whether the read position follows.\<close>

lemma put_force_eq:
  assumes wf: "rb_wf rb" and len: "unat len \<le> length ptr"
  defines "N \<equiv> rb_capacity rb" and "m \<equiv> min (unat len) (rb_capacity rb)"
  shows "\<exists>pool b i. (b, unat i) = pos_adv N m (rb_write rb) \<and>
     take N pool = ring_put (take N (buffer_ptr rb)) (unat (write_index rb)) (drop (unat len - m) (take (unat len) ptr)) \<and>
     rt_ringbuffer_put_force ptr len rb = Some (of_nat m,
       let rb' = rb\<lparr>buffer_ptr := pool, write_mirror := b, write_index := i\<rparr> in
       if length (rb_contents rb) + m > N
       then rb'\<lparr>read_mirror := (if b = write_mirror rb then read_mirror rb else \<not> read_mirror rb), read_index := i\<rparr>
       else rb')"
proof -
  note b = rb_wf_bsize [OF wf]
  define L where "L = (if uint len > bsize rb then buffer_size rb else len)"
  define k where "k = unat len - m"
  let ?space = "ucast (rt_ringbuffer_space_len rb) :: u16"
  have ul: "uint len > bsize rb \<longleftrightarrow> unat len > N" unfolding b(1) N_def uint_nat by linarith
  have "uint (buffer_size rb) = bsize rb"
    unfolding uint_sint b(1) using b(3) by (intro take_bit_int_eq_self) simp_all
  then have "unat (buffer_size rb) = N" using b(1) unfolding N_def uint_nat by linarith
  then have L: "unat L = m" using ul by (auto simp: L_def m_def N_def)
  then have Lw: "ucast L = (of_nat m :: u32)" by (simp flip: L)
  have skip: "(if uint len > bsize rb then (uint len - bsize rb, buffer_size rb) else (0, len)) = (int k, L)"
    using ul unfolding L_def k_def m_def b(1) N_def uint_nat by (auto simp: min_def)
  have sp: "L > ?space \<longleftrightarrow> length (rb_contents rb) + m > N"
    using space_word [OF wf] L rb_within [OF wf] by (auto simp: word_less_nat_alt N_def)
  have km: "m \<le> N" "k + m \<le> length ptr" using len by (auto simp: k_def m_def N_def)
  have bs: "take m (drop k ptr) = drop (unat len - m) (take (unat len) ptr)"
    by (simp add: k_def drop_take m_def min_def)
  note blk = write_block [OF wf L km [unfolded N_def], unfolded bs, folded N_def]
  show ?thesis
  proof (cases "bsize rb - uint (write_index rb) > uint L")
    case True
    from blk(1) [OF this] obtain pool where p:
      "memcpy (buffer_ptr rb) (uint (write_index rb)) ptr (int k) (uint L) = Some pool"
      "take N pool = ring_put (take N (buffer_ptr rb)) (unat (write_index rb)) (drop (unat len - m) (take (unat len) ptr))"
      "(write_mirror rb, unat (write_index rb + ucast L)) = pos_adv N m (rb_write rb)" by blast
    show ?thesis
      unfolding rt_ringbuffer_put_force_def skip using True p Lw sp
      by (intro exI [of _ pool] exI [of _ "write_mirror rb"] exI [of _ "write_index rb + ucast L"]) (simp add: Let_def)
  next
    case False
    from blk(2) [OF this] obtain p pool where p:
      "memcpy (buffer_ptr rb) (uint (write_index rb)) ptr (int k) (bsize rb - uint (write_index rb)) = Some p"
      "memcpy p 0 ptr (int k + (bsize rb - uint (write_index rb))) (uint L - (bsize rb - uint (write_index rb))) = Some pool"
      "take N pool = ring_put (take N (buffer_ptr rb)) (unat (write_index rb)) (drop (unat len - m) (take (unat len) ptr))"
      "(\<not> write_mirror rb, unat (word_of_int (uint L - (bsize rb - uint (write_index rb))) :: 15 word)) =
         pos_adv N m (rb_write rb)" by blast
    show ?thesis
      unfolding rt_ringbuffer_put_force_def skip using False p Lw sp
      by (intro exI [of _ pool] exI [of _ "\<not> write_mirror rb"]
          exI [of _ "word_of_int (uint L - (bsize rb - uint (write_index rb)))"]) (simp add: Let_def)
  qed
qed

lemma put_force_ok:
  assumes wf: "rb_wf rb" and len: "unat len \<le> length ptr"
  defines "N \<equiv> rb_capacity rb" and "m \<equiv> min (unat len) (rb_capacity rb)" and "new \<equiv> rb_contents rb @ take (unat len) ptr"
  assumes turn: "length (rb_contents rb) + m \<le> N \<or> read_mirror rb \<noteq> write_mirror rb"
  shows "\<exists>rb'. rt_ringbuffer_put_force ptr len rb = Some (of_nat m, rb') \<and> rb_wf rb' \<and> rb_capacity rb' = N \<and>
     rb_contents rb' = drop (length new - N) new"
proof -
  define bs where "bs = drop (unat len - m) (take (unat len) ptr)"
  let ?e = "length (rb_contents rb) + m - N"
  have mN: "m \<le> N" "length bs = m" using len by (auto simp: bs_def m_def N_def)
  have le: "length (rb_contents rb) \<le> N" using rb_within [OF wf] by (simp add: N_def)
  have new: "drop (length new - N) new = drop ?e (rb_contents rb) @ bs"
    using len le by (cases "unat len \<le> N") (auto simp: new_def bs_def m_def N_def)
  obtain pool b i where adv: "(b, unat i) = pos_adv N m (rb_write rb)"
    and pool: "take N pool = ring_put (take N (buffer_ptr rb)) (unat (write_index rb)) bs"
    and call: "rt_ringbuffer_put_force ptr len rb = Some (of_nat m,
       let rb' = rb\<lparr>buffer_ptr := pool, write_mirror := b, write_index := i\<rparr> in
       if length (rb_contents rb) + m > N
       then rb'\<lparr>read_mirror := (if b = write_mirror rb then read_mirror rb else \<not> read_mirror rb), read_index := i\<rparr>
       else rb')"
    using put_force_eq [OF wf len] unfolding m_def N_def bs_def by blast
  show ?thesis
  proof (cases "length (rb_contents rb) + m > N")
    case False
    then show ?thesis
      using call new rb_write_adv [OF wf, of m bs b i pool] mN adv pool by (simp add: N_def Let_def)
  next
    case True
    note d = rb_wfD [OF wf]
    let ?rb = "rb\<lparr>read_mirror := \<not> b, read_index := i\<rparr>"
    have mir: "read_mirror rb \<noteq> write_mirror rb" using turn True by simp
    have "(\<not> b, unat i) = pos_adv N ?e (rb_read rb)"
      using pos_force [OF d(4), of m] mir mN(1) True adv [symmetric] d(5) by (simp add: N_def)
    then have r: "rb_wf ?rb" "rb_contents ?rb = drop ?e (rb_contents rb)" "rb_capacity ?rb = N"
      using rb_read_adv [OF wf, of ?e "\<not> b" i] True mN(1) by (simp_all add: N_def)
    have "length (rb_contents ?rb) + m \<le> N" using r(2) True mN(1) by simp
    from rb_write_adv [OF r(1), of m bs b i pool] this r(2,3) mN(2) adv pool
    have "rb_wf (?rb\<lparr>buffer_ptr := pool, write_mirror := b, write_index := i\<rparr>)"
      "rb_contents (?rb\<lparr>buffer_ptr := pool, write_mirror := b, write_index := i\<rparr>) = drop ?e (rb_contents rb) @ bs"
      by simp_all
    moreover have "(if b = write_mirror rb then read_mirror rb else \<not> read_mirror rb) = (\<not> b)" using mir by auto
    moreover have "?rb\<lparr>buffer_ptr := pool, write_mirror := b, write_index := i\<rparr> =
        rb\<lparr>buffer_ptr := pool, write_mirror := b, write_index := i, read_mirror := \<not> b, read_index := i\<rparr>" by simp
    ultimately show ?thesis using call new True r(3) by (simp add: Let_def N_def)
  qed
qed

lemma put_force_empties:
  assumes wf: "rb_wf rb" and len: "unat len \<le> length ptr" and mir: "read_mirror rb = write_mirror rb"
    and over: "length (rb_contents rb) + min (unat len) (rb_capacity rb) > rb_capacity rb"
  shows "\<exists>rb'. rt_ringbuffer_put_force ptr len rb = Some (of_nat (min (unat len) (rb_capacity rb)), rb') \<and> rb_contents rb' = []"
proof -
  note d = rb_wfD [OF wf]
  let ?m = "min (unat len) (rb_capacity rb)"
  have "length (rb_contents rb) = unat (write_index rb) - unat (read_index rb)" using d(5) mir by (simp add: pos_gap_def)
  then have "\<not> rb_capacity rb - unat (write_index rb) > ?m" using over d(2) by linarith
  then have "fst (pos_adv (rb_capacity rb) ?m (rb_write rb)) \<noteq> write_mirror rb" by (simp add: pos_adv_def)
  moreover obtain pool b i where "(b, unat i) = pos_adv (rb_capacity rb) ?m (rb_write rb)"
    "rt_ringbuffer_put_force ptr len rb = Some (of_nat ?m, rb\<lparr>buffer_ptr := pool, write_mirror := b, write_index := i,
       read_mirror := (if b = write_mirror rb then read_mirror rb else \<not> read_mirror rb), read_index := i\<rparr>)"
    using put_force_eq [OF wf len] over by (auto simp: Let_def)
  ultimately show ?thesis
    using mir by (auto simp: rb_contents_def rt_ringbuffer_data_len_def rt_ringbuffer_status_def simp flip: fst_conv)
qed

section \<open>Initialisation\<close>

lemma init_ok:
  assumes "0 < sint sz" "unat sz \<le> length pool" "4 \<le> unat sz"
  shows "\<exists>rb. rt_ringbuffer_init pool sz = Some rb \<and> rb_wf rb \<and> rb_contents rb = [] \<and> rb_capacity rb = 4 * (unat sz div 4)"
proof -
  let ?x = "ucast (RT_ALIGN_DOWN (word_of_int (sint sz)) (of_nat RT_ALIGN_SIZE)) :: u16"
  have hi: "sint sz < 0x8000" using sint_lt [of sz] by simp
  then have u: "uint sz = sint sz" unfolding uint_sint using assms(1) by (intro take_bit_int_eq_self) simp_all
  have "uint sz < 0x8000" using hi u by simp
  then have us: "unat sz < 0x8000" unfolding uint_nat by linarith
  have w: "word_of_int (sint sz) = (of_nat (unat sz) :: u32)" by (simp flip: u)
  have "unat ?x = 4 * (unat sz div 4)"
    using us w by (simp add: unsigned_ucast_eq RT_ALIGN_DOWN_unat unat_ucast_16_32 take_bit_nat_eq_self)
  then have "uint ?x = int (4 * (unat sz div 4))" by (metis uint_nat)
  moreover have "4 * (unat sz div 4) < 0x8000" using us by linarith
  ultimately have s: "sint ?x = int (4 * (unat sz div 4))"
    unfolding sint_uint by (simp add: signed_take_bit_int_eq_self)
  have n: "4 * (unat sz div 4) \<le> length pool" "0 < unat sz div 4" "nat (sint ?x) = 4 * (unat sz div 4)"
    using assms(2,3) unfolding s by auto
  with assms(1) show ?thesis
    by (simp add: rt_ringbuffer_init_def rb_wf_def rb_capacity_def pos_ok_def rb_contents_def
        rt_ringbuffer_data_len_def rt_ringbuffer_status_def)
qed

section \<open>Properties\<close>


definition rb_demo :: rt_ringbuffer where
  "rb_demo = \<lparr>buffer_ptr = [9, 0, 7, 8], read_mirror = False, read_index = 2, write_mirror = True, write_index = 1,
     buffer_size = 4\<rparr>"

lemma rb_demo_facts: "rb_wf rb_demo" "rb_contents rb_demo = [7, 8, 9]" "rb_capacity rb_demo = 4"
  by (simp_all add: rb_demo_def rb_wf_def rb_capacity_def pos_ok_def rb_contents_def ring_contents_def
      rt_ringbuffer_data_len_def rt_ringbuffer_status_def upt_rec)


text \<open>
  \<^verbatim>\<open>rt_ringbuffer_put\<close> appends as many bytes of the block as there is room for and
  \<^verbatim>\<open>rt_ringbuffer_get\<close> delivers as many of the oldest bytes as there are, in order; both return the number of
  bytes and keep the rest of the contents and of the caller's buffer.
\<close>

lemma ringbuffer_blocks:
  assumes "rb_wf rb" "unat len \<le> length ptr"
  shows "\<exists>rb1 rb2. let n = min (unat len) (rb_capacity rb - length (rb_contents rb));
       m = min (unat len) (length (rb_contents rb)) in
     rt_ringbuffer_put ptr len rb = Some (of_nat n, rb1) \<and> rb_wf rb1 \<and> rb_contents rb1 = rb_contents rb @ take n ptr \<and>
     rt_ringbuffer_get ptr len rb = Some (of_nat m, take m (rb_contents rb) @ drop m ptr, rb2) \<and> rb_wf rb2 \<and>
     rb_contents rb2 = drop m (rb_contents rb)"
  using put_ok [OF assms] get_ok [OF assms] unfolding Let_def by blast

lemma ringbuffer_blocks_witness:
  "\<exists>rb1 rb2. rt_ringbuffer_put [1, 2] 2 rb_demo = Some (1, rb1) \<and> rb_contents rb1 = [7, 8, 9, 1] \<and>
     rt_ringbuffer_get [1, 2] 2 rb_demo = Some (2, [7, 8], rb2) \<and> rb_contents rb2 = [9]"
  using ringbuffer_blocks [OF rb_demo_facts(1), of 2 "[1, 2]"] by (simp add: rb_demo_facts) blast

text \<open>
  \<^verbatim>\<open>rt_ringbuffer_put_force\<close> keeps the latest bytes of the old contents followed by the block, as many as
  fit, with one exception: when it must overwrite and the mirror bits agree, that is when the data does not go round the
  end, it flips both mirror bits and leaves the buffer empty.
\<close>

lemma put_force_branches:
  assumes "rb_wf rb" "unat len \<le> length ptr"
  shows "\<exists>rb'. let n = min (unat len) (rb_capacity rb); new = rb_contents rb @ take (unat len) ptr in
     rt_ringbuffer_put_force ptr len rb = Some (of_nat n, rb') \<and>
     rb_contents rb' =
       (if length (rb_contents rb) + n > rb_capacity rb \<and> read_mirror rb = write_mirror rb then []
        else drop (length new - rb_capacity rb) new)"
proof (cases "length (rb_contents rb) + min (unat len) (rb_capacity rb) > rb_capacity rb \<and> read_mirror rb = write_mirror rb")
  case True
  then show ?thesis using put_force_empties [OF assms] unfolding Let_def by simp
next
  case False
  then have "length (rb_contents rb) + min (unat len) (rb_capacity rb) \<le> rb_capacity rb \<or> read_mirror rb \<noteq> write_mirror rb"
    by (simp add: not_less)
  from put_force_ok [OF assms this] False show ?thesis unfolding Let_def by (simp only: if_False) blast
qed

lemma put_force_branches_witness:
  "(\<exists>rb'. rt_ringbuffer_put_force [1, 2] 2 rb_demo = Some (2, rb') \<and> rb_contents rb' = [8, 9, 1, 2]) \<and>
   (\<exists>rb'. rt_ringbuffer_put_force [1, 2, 3, 4] 4 (rb_demo\<lparr>read_mirror := True, read_index := 0\<rparr>) = Some (4, rb') \<and>
     rb_contents rb' = [])"
proof
  have "read_mirror rb_demo \<noteq> write_mirror rb_demo" by (simp add: rb_demo_def)
  then show "\<exists>rb'. rt_ringbuffer_put_force [1, 2] 2 rb_demo = Some (2, rb') \<and> rb_contents rb' = [8, 9, 1, 2]"
    using put_force_branches [OF rb_demo_facts(1), of 2 "[1, 2]"] by (simp add: rb_demo_facts)
  let ?rb = "rb_demo\<lparr>read_mirror := True, read_index := 0\<rparr>"
  have "rb_wf ?rb" "length (rb_contents ?rb) = 1" "read_mirror ?rb = write_mirror ?rb" "rb_capacity ?rb = 4"
    by (simp_all add: rb_demo_def rb_wf_def rb_capacity_def pos_ok_def rb_contents_def
        rt_ringbuffer_data_len_def rt_ringbuffer_status_def)
  with put_force_branches [of ?rb 4 "[1, 2, 3, 4]"]
  show "\<exists>rb'. rt_ringbuffer_put_force [1, 2, 3, 4] 4 ?rb = Some (4, rb') \<and> rb_contents rb' = []" by simp
qed

end
