(* ===== verification/Rt_Spinlock.thy ===== *)
theory Rt_Spinlock
  imports Rt_Prelude
begin

text \<open>
  The ticket lock under the CPUs lock: \<^verbatim>\<open>rt_hw_spin_lock\<close> and \<^verbatim>\<open>rt_hw_spin_unlock\<close> of
  \<^verbatim>\<open>bsp/qemu-vexpress-a9/drivers/board.c\<close>. A lock is one 32-bit word, the ticket being served in the low
  half and the next ticket in the high half. Each atomic access of a CPU is a step; steps of different
  CPUs interleave freely, and the tickets wrap around at 16 bits. The theory justifies the model of the
  lock as a flag in \<open>Rt_Kernel\<close>: at most one CPU is inside, tickets are served in the order they were
  taken, and a lock that somebody waits for never comes to rest free.
\<close>

section \<open>The lock word\<close>

definition lk_owner :: "u32 \<Rightarrow> u16" where
  "lk_owner l = ucast l"

definition lk_next :: "u32 \<Rightarrow> u16" where
  "lk_next l = ucast (drop_bit 16 l)"

definition set_lk_owner :: "u16 \<Rightarrow> u32 \<Rightarrow> u32" where
  "set_lk_owner v l = push_bit 16 (drop_bit 16 l) OR ucast v"

text \<open>The loop of \<^verbatim>\<open>ldrex\<close> and \<^verbatim>\<open>strex\<close>: the old word is the caller's, the new one has one more ticket.\<close>

definition spin_ticket :: "u32 \<Rightarrow> u32 \<times> u32" where
  "spin_ticket l = (l, l + 0x10000)"

definition spin_unlock :: "u32 \<Rightarrow> u32" where
  "spin_unlock l = set_lk_owner (lk_owner l + 1) l"

section \<open>Steps of a CPU\<close>

text \<open>
  Where a CPU is: outside, in the loop with its local copy of the lock word, or inside with the copy
  it left the loop with. The loop tests the copy and reloads its owner half.
\<close>

datatype spin_pc = Outside | Spinning u32 | Inside u32

definition spin_reload :: "u32 \<Rightarrow> u32 \<Rightarrow> spin_pc" where
  "spin_reload l lockval =
     (if lk_next lockval \<noteq> lk_owner lockval then Spinning (set_lk_owner (lk_owner l) lockval) else Inside lockval)"

inductive spin_step :: "nat \<Rightarrow> u32 \<times> (cpu_id \<Rightarrow> spin_pc) \<Rightarrow> u32 \<times> (cpu_id \<Rightarrow> spin_pc) \<Rightarrow> bool" for n where
  ticket: "c < n \<Longrightarrow> pc c = Outside \<Longrightarrow> spin_ticket l = (v, l') \<Longrightarrow> spin_step n (l, pc) (l', pc(c := Spinning v))"
| reload: "pc c = Spinning v \<Longrightarrow> spin_step n (l, pc) (l, pc(c := spin_reload l v))"
| unlock: "pc c = Inside v \<Longrightarrow> spin_step n (l, pc) (spin_unlock l, pc(c := Outside))"

inductive spin_reachable :: "nat \<Rightarrow> u32 \<times> (cpu_id \<Rightarrow> spin_pc) \<Rightarrow> bool" for n where
  start: "lk_owner l = lk_next l \<Longrightarrow> spin_reachable n (l, \<lambda>_. Outside)"
| step: "spin_reachable n s \<Longrightarrow> spin_step n s s' \<Longrightarrow> spin_reachable n s'"

section \<open>Halves of the word\<close>

lemma set_lk_owner_halves [simp]:
  "lk_owner (set_lk_owner v l) = v" "lk_next (set_lk_owner v l) = lk_next l"
  unfolding lk_owner_def lk_next_def set_lk_owner_def
  by (rule bit_word_eqI; auto simp: bit_simps dest: bit_imp_le_length)+

lemma halves_unat: "unat (lk_owner l) = unat l mod 0x10000" "unat (lk_next l) = unat l div 0x10000"
proof -
  show "unat (lk_owner l) = unat l mod 0x10000" by (simp add: lk_owner_def unsigned_ucast_eq take_bit_eq_mod)
  have "unat l < 2 ^ LENGTH(32)" by (rule unsigned_less)
  then have "unat l div 0x10000 < 2 ^ 16" by (simp add: less_mult_imp_div_less)
  then show "unat (lk_next l) = unat l div 0x10000"
    by (simp add: lk_next_def unsigned_ucast_eq drop_bit_eq_div unat_div take_bit_nat_eq_self)
qed

lemma ticket_halves: "lk_owner (l + 0x10000) = lk_owner l" "lk_next (l + 0x10000) = lk_next l + 1"
proof -
  let ?x = "unat l"
  have s: "unat (l + 0x10000) = (?x + 0x10000) mod 0x100000000" by (simp add: unat_word_ariths)
  have "unat (lk_owner (l + 0x10000)) = unat (lk_owner l)"
    unfolding halves_unat s by (simp add: mod_mod_cancel)
  then show "lk_owner (l + 0x10000) = lk_owner l" by (simp add: word_unat_eq_iff)
  have "(?x + 0x10000) mod 0x100000000 div 0x10000 = (?x div 0x10000 + 1) mod 0x10000"
    using mod_mult2_eq [of "?x + 0x10000" "0x10000" "0x10000"] div_add_self2 [of "0x10000 :: nat" ?x] by simp
  then have "unat (lk_next (l + 0x10000)) = (unat (lk_next l) + 1) mod 0x10000"
    unfolding halves_unat s by simp
  then show "lk_next (l + 0x10000) = lk_next l + 1" by (simp add: word_unat_eq_iff unat_word_ariths)
qed

section \<open>Queue of tickets\<close>

text \<open>The local copy of a CPU that has taken a ticket.\<close>

fun pc_copy :: "spin_pc \<Rightarrow> u32 option" where
  "pc_copy Outside = None"
| "pc_copy (Spinning v) = Some v"
| "pc_copy (Inside v) = Some v"

text \<open>
  \<open>spin_rel n q s\<close>: the CPUs \<open>q\<close> hold tickets, in the order of their tickets, which start at the ticket
  being served. Only the first can be inside, and a local copy in which both halves agree is up to date.
\<close>

definition spin_rel :: "nat \<Rightarrow> cpu_id list \<Rightarrow> u32 \<times> (cpu_id \<Rightarrow> spin_pc) \<Rightarrow> bool" where
  "spin_rel n q s \<longleftrightarrow> (let (l, pc) = s in
     distinct q \<and> set q \<subseteq> {0..<n} \<and> (\<forall>c. pc c = Outside \<longleftrightarrow> c \<notin> set q) \<and>
     lk_next l = lk_owner l + of_nat (length q) \<and>
     (\<forall>j < length q. \<forall>v. pc_copy (pc (q ! j)) = Some v \<longrightarrow> lk_next v = lk_owner l + of_nat j) \<and>
     (\<forall>c v. pc c = Inside v \<longrightarrow> lk_next v = lk_owner v) \<and>
     (\<forall>c v. pc_copy (pc c) = Some v \<longrightarrow> lk_next v = lk_owner v \<longrightarrow> lk_next v = lk_owner l))"

lemma spin_relD:
  assumes "spin_rel n q (l, pc)" "n < 0x10000"
  shows "distinct q" "set q \<subseteq> {0..<n}" "pc c = Outside \<longleftrightarrow> c \<notin> set q" "lk_next l = lk_owner l + of_nat (length q)"
    "j < length q \<Longrightarrow> pc_copy (pc (q ! j)) = Some v \<Longrightarrow> lk_next v = lk_owner l + of_nat j"
    "pc_copy (pc c) = Some v \<Longrightarrow> lk_next v = lk_owner v \<Longrightarrow> lk_next v = lk_owner l"
    "pc c = Inside v \<Longrightarrow> lk_next v = lk_owner v" "length q < 0x10000"
proof -
  show r: "distinct q" "set q \<subseteq> {0..<n}" "pc c = Outside \<longleftrightarrow> c \<notin> set q" "lk_next l = lk_owner l + of_nat (length q)"
    "j < length q \<Longrightarrow> pc_copy (pc (q ! j)) = Some v \<Longrightarrow> lk_next v = lk_owner l + of_nat j"
    "pc_copy (pc c) = Some v \<Longrightarrow> lk_next v = lk_owner v \<Longrightarrow> lk_next v = lk_owner l"
    "pc c = Inside v \<Longrightarrow> lk_next v = lk_owner v"
    using assms(1) unfolding spin_rel_def by (auto simp: Let_def)
  have "length q = card (set q)" using r(1) by (simp add: distinct_card)
  also have "\<dots> \<le> n" using card_mono [OF _ r(2)] by simp
  finally show "length q < 0x10000" using assms(2) by simp
qed

text \<open>A CPU whose copy says it is its turn is the first of the queue.\<close>

lemma served_is_first:
  assumes rel: "spin_rel n q (l, pc)" and n: "n < 0x10000"
    and v: "pc_copy (pc c) = Some v" "lk_next v = lk_owner v"
  shows "q \<noteq> []" "c = hd q"
proof -
  note d = spin_relD [OF rel n]
  have "c \<in> set q" using v(1) d(3) [of c] by auto
  then obtain j where j: "j < length q" "q ! j = c" by (auto simp: in_set_conv_nth)
  then show ne: "q \<noteq> []" by auto
  have "lk_owner l + of_nat j = lk_owner l" using d(5) [OF j(1)] d(6) [OF v] j(2) v(1) by simp
  then have "(of_nat j :: u16) = 0" by simp
  moreover have "unat (of_nat j :: u16) = j" using j(1) d(8) by (intro unat_of_nat_small) simp
  ultimately have "j = 0" by simp
  then show "c = hd q" using j(2) ne by (simp add: hd_conv_nth)
qed

lemma spin_relI:
  assumes "distinct q" "set q \<subseteq> {0..<n}" "\<And>c. pc c = Outside \<longleftrightarrow> c \<notin> set q" "lk_next l = lk_owner l + of_nat (length q)"
    and "\<And>j v. j < length q \<Longrightarrow> pc_copy (pc (q ! j)) = Some v \<Longrightarrow> lk_next v = lk_owner l + of_nat j"
    and "\<And>c v. pc_copy (pc c) = Some v \<Longrightarrow> lk_next v = lk_owner v \<Longrightarrow> lk_next v = lk_owner l"
    and "\<And>c v. pc c = Inside v \<Longrightarrow> lk_next v = lk_owner v"
  shows "spin_rel n q (l, pc)"
  using assms unfolding spin_rel_def by (simp add: Let_def)

lemma ticket_rel:
  assumes rel: "spin_rel n q (l, pc)" and n: "n < 0x10000" and c: "c < n" "pc c = Outside"
  shows "spin_rel n (q @ [c]) (l + 0x10000, pc(c := Spinning l))"
proof (rule spin_relI)
  note d = spin_relD [OF rel n]
  have cq: "c \<notin> set q" using d(3) c(2) by simp
  then show "distinct (q @ [c])" "set (q @ [c]) \<subseteq> {0..<n}" using d(1,2) c(1) by auto
  show "(pc(c := Spinning l)) e = Outside \<longleftrightarrow> e \<notin> set (q @ [c])" for e using d(3) by auto
  show "lk_next (l + 0x10000) = lk_owner (l + 0x10000) + of_nat (length (q @ [c]))"
    unfolding ticket_halves d(4) by simp
  show "lk_next v = lk_owner (l + 0x10000) + of_nat j"
    if "j < length (q @ [c])" "pc_copy ((pc(c := Spinning l)) ((q @ [c]) ! j)) = Some v" for j v
  proof (cases "j = length q")
    case False
    then have "j < length q" "q ! j \<noteq> c" using that(1) cq by auto
    then show ?thesis unfolding ticket_halves using that d(5) by (simp add: nth_append)
  qed (use that d(4) ticket_halves in simp)
  show "lk_next v = lk_owner (l + 0x10000)" if "pc_copy ((pc(c := Spinning l)) e) = Some v" "lk_next v = lk_owner v" for e v
    unfolding ticket_halves using that d(6) [of e v] by (cases "e = c") auto
  show "lk_next v = lk_owner v" if "(pc(c := Spinning l)) e = Inside v" for e v
    using that d(7) by (auto split: if_splits)
qed

lemma reload_rel:
  assumes rel: "spin_rel n q (l, pc)" and n: "n < 0x10000" and c: "pc c = Spinning v"
  shows "spin_rel n q (l, pc(c := spin_reload l v))"
proof (rule spin_relI)
  note d = spin_relD [OF rel n]
  show "distinct q" "set q \<subseteq> {0..<n}" "lk_next l = lk_owner l + of_nat (length q)" using d(1,2,4) by simp_all
  show "(pc(c := spin_reload l v)) e = Outside \<longleftrightarrow> e \<notin> set q" for e
    using d(3) [of e] c by (auto simp: spin_reload_def)
  have copy: "\<exists>u. pc_copy (pc e) = Some u \<and> lk_next u = lk_next w \<and> (lk_owner w = lk_owner u \<or> lk_owner w = lk_owner l)"
    if "pc_copy ((pc(c := spin_reload l v)) e) = Some w" for e w
    using that c by (cases "e = c") (auto simp: spin_reload_def split: if_splits)
  show "lk_next w = lk_owner l + of_nat j" if "j < length q" "pc_copy ((pc(c := spin_reload l v)) (q ! j)) = Some w" for j w
    using copy [OF that(2)] d(5) [OF that(1)] by auto
  show "lk_next w = lk_owner l" if "pc_copy ((pc(c := spin_reload l v)) e) = Some w" "lk_next w = lk_owner w" for e w
    using copy [OF that(1)] that(2) d(6) [of e] by auto
  show "lk_next w = lk_owner w" if "(pc(c := spin_reload l v)) e = Inside w" for e w
    using that d(7) [of e w] by (auto simp: spin_reload_def split: if_splits)
qed

lemma unlock_rel:
  assumes rel: "spin_rel n q (l, pc)" and n: "n < 0x10000" and c: "pc c = Inside v"
  shows "spin_rel n (tl q) (spin_unlock l, pc(c := Outside))" "q \<noteq> []" "c = hd q"
proof -
  note d = spin_relD [OF rel n]
  show ne: "q \<noteq> []" "c = hd q" using served_is_first [OF rel n, of c v] c d(7) [OF c] by simp_all
  then obtain r where q: "q = c # r" by (cases q) auto
  show "spin_rel n (tl q) (spin_unlock l, pc(c := Outside))"
  proof (rule spin_relI)
    show "distinct (tl q)" "set (tl q) \<subseteq> {0..<n}" using d(1,2) q by auto
    show "(pc(c := Outside)) e = Outside \<longleftrightarrow> e \<notin> set (tl q)" for e using d(1) d(3) [of e] q by auto
    show "lk_next (spin_unlock l) = lk_owner (spin_unlock l) + of_nat (length (tl q))"
      using d(4) q by (simp add: spin_unlock_def)
    show "lk_next w = lk_owner (spin_unlock l) + of_nat j"
      if "j < length (tl q)" "pc_copy ((pc(c := Outside)) (tl q ! j)) = Some w" for j w
      using that d(5) [of "Suc j" w] q by (auto simp: spin_unlock_def split: if_splits)
    show "lk_next w = lk_owner (spin_unlock l)" if "pc_copy ((pc(c := Outside)) e) = Some w" "lk_next w = lk_owner w" for e w
      using served_is_first(2) [OF rel n, of e w] that ne(2) by (auto split: if_splits)
    show "lk_next w = lk_owner w" if "(pc(c := Outside)) e = Inside w" for e w
      using that d(7) by (auto split: if_splits)
  qed
qed

text \<open>The abstract lock: a queue of CPUs, joined at the end and left by the first.\<close>

inductive queue_step :: "cpu_id list \<Rightarrow> cpu_id list \<Rightarrow> bool" where
  join: "c \<notin> set q \<Longrightarrow> queue_step q (q @ [c])"
| stay: "queue_step q q"
| leave: "queue_step (c # q) q"

lemma spin_simulation:
  assumes "spin_step n s s'" "spin_rel n q s" "n < 0x10000"
  shows "\<exists>q'. spin_rel n q' s' \<and> queue_step q q'"
  using assms(1,2)
proof (cases rule: spin_step.cases)
  case (ticket c pc l v l')
  then show ?thesis
    using ticket_rel [of n q l pc c] spin_relD(3) [of n q l pc c] assms(2,3) queue_step.join
    by (fastforce simp: spin_ticket_def)
next
  case (reload pc c v l)
  then show ?thesis using reload_rel [of n q l pc c v] assms(2,3) queue_step.stay by blast
next
  case (unlock pc c v l)
  then have r: "spin_rel n (tl q) s'" "q \<noteq> []" using unlock_rel [of n q l pc c v] assms(2,3) by simp_all
  then have "queue_step q (tl q)" using queue_step.leave [of "hd q" "tl q"] by simp
  with r(1) show ?thesis by blast
qed

lemma spin_start: "lk_owner l = lk_next l \<Longrightarrow> spin_rel n [] (l, \<lambda>_. Outside)"
  by (simp add: spin_rel_def)

lemma spin_reachable_rel:
  assumes "spin_reachable n s" "n < 0x10000"
  shows "\<exists>q. spin_rel n q s"
  using assms(1)
proof (induction rule: spin_reachable.induct)
  case (start l)
  then show ?case using spin_start by blast
next
  case (step s s')
  then show ?case using spin_simulation assms(2) by blast
qed

lemma first_enters:
  assumes rel: "spin_rel n q (l, pc)" and n: "n < 0x10000" and q: "q \<noteq> []" "pc (hd q) = Spinning v"
  shows "spin_reload l v = Inside v \<or> (\<exists>w. spin_reload l v = Spinning w \<and> spin_reload l w = Inside w)"
proof -
  have "lk_next v = lk_owner l" using spin_relD(5) [OF rel n, of 0 v] q by (simp add: hd_conv_nth)
  then show ?thesis by (simp add: spin_reload_def)
qed

section \<open>Properties\<close>

text \<open>
  C11. With fewer than 65536 CPUs and for every interleaving of their steps, wrap-around of the tickets
  included, the CPUs that have called \<^verbatim>\<open>rt_hw_spin_lock\<close> and not yet left \<^verbatim>\<open>rt_hw_spin_unlock\<close> form a
  queue in the order of their tickets such that only the first can be inside, so that no two are, and the first,
  when it still spins, is inside after at most two turns of its loop.
\<close>

theorem ticket_lock_safe:
  assumes "spin_reachable n (l, pc)" "n < 0x10000"
  shows "\<exists>q. distinct q \<and> (\<forall>c. c \<in> set q \<longleftrightarrow> pc c \<noteq> Outside) \<and> (\<forall>c v. pc c = Inside v \<longrightarrow> c = hd q) \<and>
     (\<forall>j < length q. \<forall>v. pc_copy (pc (q ! j)) = Some v \<longrightarrow> lk_next v = lk_owner l + of_nat j) \<and>
     (\<forall>v. q \<noteq> [] \<longrightarrow> pc (hd q) = Spinning v \<longrightarrow>
        spin_reload l v = Inside v \<or> (\<exists>w. spin_reload l v = Spinning w \<and> spin_reload l w = Inside w))"
proof -
  obtain q where rel: "spin_rel n q (l, pc)" using spin_reachable_rel [OF assms] by blast
  note d = spin_relD [OF rel assms(2)]
  have "c = hd q" if "pc c = Inside v" for c v
    using served_is_first(2) [OF rel assms(2), of c v] that d(7) [OF that] by simp
  then show ?thesis using d(1,3,5) first_enters [OF rel assms(2)] by (intro exI [of _ q]) auto
qed

theorem ticket_lock_safe_witness:
  "\<exists>pc q. spin_reachable 2 (0x20000, pc) \<and> pc 0 = Inside 0 \<and> pc 1 = Spinning 0x10000 \<and>
     distinct q \<and> (\<forall>c. c \<in> set q \<longleftrightarrow> pc c \<noteq> Outside) \<and> hd q = 0"
proof -
  have "spin_reachable 2 (0, \<lambda>_. Outside)" by (rule spin_reachable.start) (simp add: lk_owner_def lk_next_def)
  from spin_reachable.step [OF this spin_step.ticket [of 0 2 "\<lambda>_. Outside" 0 0 "0x10000"]]
  have "spin_reachable 2 (0x10000, (\<lambda>_. Outside)(0 := Spinning 0))" by (simp add: spin_ticket_def)
  from spin_reachable.step [OF this spin_step.ticket [of 1 2 _ "0x10000" "0x10000" "0x20000"]]
  have "spin_reachable 2 (0x20000, (\<lambda>_. Outside)(0 := Spinning 0, 1 := Spinning 0x10000))" by (simp add: spin_ticket_def)
  from spin_reachable.step [OF this spin_step.reload [of _ 0 0]]
  have r: "spin_reachable 2 (0x20000, (\<lambda>_. Outside)(1 := Spinning 0x10000, 0 := Inside 0))"
    by (simp add: spin_reload_def lk_owner_def lk_next_def fun_upd_twist)
  let ?pc = "(\<lambda>_. Outside)(1 := Spinning 0x10000, 0 := Inside 0) :: cpu_id \<Rightarrow> spin_pc"
  obtain q where "distinct q" "\<forall>c. c \<in> set q \<longleftrightarrow> ?pc c \<noteq> Outside" "\<forall>c v. ?pc c = Inside v \<longrightarrow> c = hd q"
    using ticket_lock_safe [OF r] by force
  then show ?thesis using r by (intro exI [of _ ?pc] exI [of _ q]) auto
qed

end
