(* ===== verification/Rt_Printf.thy ===== *)
theory Rt_Printf
  imports Rt_Kservice
begin

text \<open>
  Formatted output of \<^verbatim>\<open>src/kservice.c\<close>: \<^verbatim>\<open>print_number\<close> and \<^verbatim>\<open>rt_vsnprintf\<close>, with \<^verbatim>\<open>RT_PRINTF_PRECISION\<close> and without
  \<^verbatim>\<open>RT_PRINTF_LONGLONG\<close> and \<^verbatim>\<open>RT_PRINTF_SPECIAL\<close>, as the file is configured. The buffer is a function from offsets, the
  current position \<^verbatim>\<open>str\<close> an offset, and \<open>e\<close> the last offset that may be written (\<^verbatim>\<open>end\<close>). A loop that writes the same
  character until a counter has run down is the writing of that many characters. The variable arguments are a
  list; fetching one that is missing or of another kind is undefined and gives \<open>None\<close>.
\<close>

section \<open>Writing characters\<close>

record out_state =
  p_str :: nat
  p_buf :: "nat \<Rightarrow> u8"

definition emit :: "nat \<Rightarrow> u8 \<Rightarrow> out_state \<Rightarrow> out_state" where
  "emit e c st = (if p_str st \<le> e then st\<lparr>p_buf := (p_buf st)(p_str st := c), p_str := p_str st + 1\<rparr>
                  else st\<lparr>p_str := p_str st + 1\<rparr>)"

primrec emits :: "nat \<Rightarrow> u8 list \<Rightarrow> out_state \<Rightarrow> out_state" where
  "emits e [] st = st"
| "emits e (c # cs) st = emits e cs (emit e c st)"

definition times :: "int \<Rightarrow> u8 \<Rightarrow> u8 list" where "times n c = replicate (nat n) c"

section \<open>Numbers\<close>

definition ZEROPAD :: u8 where "ZEROPAD = 1"
definition SIGN :: u8 where "SIGN = 2"
definition PLUS :: u8 where "PLUS = 4"
definition SPACE :: u8 where "SPACE = 8"
definition LEFT :: u8 where "LEFT = 16"
definition SPECIAL :: u8 where "SPECIAL = 32"
definition LARGE :: u8 where "LARGE = 64"

definition isdigit :: "u8 \<Rightarrow> bool" where "isdigit c \<longleftrightarrow> (ucast c - 48 :: u32) < 10"

fun skip_atoi :: "u32 \<Rightarrow> u8 list \<Rightarrow> u32 \<times> u8 list" where
  "skip_atoi i (c # s) = (if isdigit c then skip_atoi (i * 10 + ucast c - 48) s else (i, c # s))"
| "skip_atoi i [] = (i, [])"

text \<open>\<^verbatim>\<open>divide\<close> gives the digit and the rest; every base but ten counts as sixteen.\<close>

definition divide :: "nat \<Rightarrow> u32 \<Rightarrow> u32 \<times> u32" where
  "divide base n = (if base = 10 then (n mod 10, n div 10) else (n mod 16, n div 16))"

definition digits_table :: "bool \<Rightarrow> u8 list" where
  "digits_table large =
     [48, 49, 50, 51, 52, 53, 54, 55, 56, 57] @
     (if large then [65, 66, 67, 68, 69, 70] else [97, 98, 99, 100, 101, 102])"

lemma divide_less: "n \<noteq> 0 \<Longrightarrow> unat (snd (divide base n)) < unat n"
  by (simp add: divide_def unat_div unat_gt_0)

function number_tmp :: "nat \<Rightarrow> bool \<Rightarrow> u32 \<Rightarrow> u8 list" where
  "number_tmp base large n =
     (if n = 0 then []
      else let (d, n') = divide base n in digits_table large ! unat d # number_tmp base large n')"
  by pat_completeness auto
termination
  by (relation "measure (\<lambda>(_, _, n). unat n)") (auto dest: divide_less [of _ base for base] simp: prod_eq_iff)

declare number_tmp.simps [simp del]

text \<open>The value of a counter after a loop \<^verbatim>\<open>while (size-- > 0)\<close>.\<close>

definition run_down :: "int \<Rightarrow> int" where "run_down n = (if n > 0 then - 1 else n - 1)"

definition number_sign :: "u8 \<Rightarrow> u32 \<Rightarrow> u8 \<times> u32" where
  "number_sign type num =
     (if type AND SIGN \<noteq> 0 then
        if sint num < 0 then (45, - num)
        else if type AND PLUS \<noteq> 0 then (43, num)
        else if type AND SPACE \<noteq> 0 then (32, num)
        else (0, num)
      else (0, num))"

text \<open>The part of \<^verbatim>\<open>print_number\<close> after the digits are in \<^verbatim>\<open>tmp\<close>, the last digit first.\<close>

definition print_padded :: "nat \<Rightarrow> int \<Rightarrow> int \<Rightarrow> u8 \<Rightarrow> u8 \<Rightarrow> u8 list \<Rightarrow> out_state \<Rightarrow> out_state" where
  "print_padded e s precision type sign tmp st =
     (let c = (if type AND ZEROPAD \<noteq> 0 then 48 else 32);
          i = int (length tmp);
          precision = (if i > precision then i else precision);
          sz = s - precision;
          (st, sz) = (if type AND (ZEROPAD OR LEFT) = 0 then
                        let sz = (if sign \<noteq> 0 \<and> sz > 0 then sz - 1 else sz) in (emits e (times sz 32) st, run_down sz)
                      else (st, sz));
          (st, sz) = (if sign \<noteq> 0 then (emit e sign st, if p_str st \<le> e then sz - 1 else sz) else (st, sz));
          (st, sz) = (if type AND LEFT = 0 then (emits e (times sz c) st, run_down sz) else (st, sz));
          st = emits e (times (precision - i) 48) st;
          st = emits e (rev tmp) st
      in emits e (times sz 32) st)"

definition print_number :: "nat \<Rightarrow> u32 \<Rightarrow> nat \<Rightarrow> int \<Rightarrow> int \<Rightarrow> u8 \<Rightarrow> out_state \<Rightarrow> out_state" where
  "print_number e num base s precision type st =
     (let type = (if type AND LEFT \<noteq> 0 then type AND NOT ZEROPAD else type);
          (sign, num) = number_sign type num;
          tmp = (if num = 0 then [48] else number_tmp base (type AND LARGE \<noteq> 0) num)
      in print_padded e s precision type sign tmp st)"

section \<open>Formats\<close>

datatype va = VInt u32 | VStr "u8 list option"

fun va_int :: "va list \<Rightarrow> (u32 \<times> va list) option" where
  "va_int (VInt v # args) = Some (v, args)"
| "va_int _ = None"

fun va_str :: "va list \<Rightarrow> (u8 list option \<times> va list) option" where
  "va_str (VStr v # args) = Some (v, args)"
| "va_str _ = None"

fun fmt_flags :: "u8 \<Rightarrow> u8 list \<Rightarrow> u8 \<times> u8 list" where
  "fmt_flags fl (c # s) =
     (if c = 45 then fmt_flags (fl OR LEFT) s
      else if c = 43 then fmt_flags (fl OR PLUS) s
      else if c = 32 then fmt_flags (fl OR SPACE) s
      else if c = 35 then fmt_flags (fl OR SPECIAL) s
      else if c = 48 then fmt_flags (fl OR ZEROPAD) s
      else (fl, c # s))"
| "fmt_flags fl [] = (fl, [])"

definition fmt_width :: "u8 \<Rightarrow> u8 list \<Rightarrow> va list \<Rightarrow> (int \<times> u8 \<times> u8 list \<times> va list) option" where
  "fmt_width fl fmt args =
     (if isdigit (first_byte fmt) then let (w, fmt) = skip_atoi 0 fmt in Some (sint w, fl, fmt, args)
      else if first_byte fmt = 42 then
        do { (w, args) \<leftarrow> va_int args;
             if sint w < 0 then Some (sint (- w), fl OR LEFT, tl fmt, args) else Some (sint w, fl, tl fmt, args) }
      else Some (- 1, fl, fmt, args))"

definition fmt_precision :: "u8 list \<Rightarrow> va list \<Rightarrow> (int \<times> u8 list \<times> va list) option" where
  "fmt_precision fmt args =
     (if first_byte fmt = 46 then
        do { let fmt = tl fmt;
             (p, fmt, args) \<leftarrow>
               (if isdigit (first_byte fmt) then let (p, fmt) = skip_atoi 0 fmt in Some (sint p, fmt, args)
                else if first_byte fmt = 42 then do { (p, args) \<leftarrow> va_int args; Some (sint p, tl fmt, args) }
                else Some (- 1, fmt, args));
             Some (if p < 0 then 0 else p, fmt, args) }
      else Some (- 1, fmt, args))"

text \<open>\<^verbatim>\<open>%c\<close> and \<^verbatim>\<open>%s\<close>: the two padding loops share the counter.\<close>

definition print_char :: "nat \<Rightarrow> u8 \<Rightarrow> int \<Rightarrow> u8 \<Rightarrow> out_state \<Rightarrow> out_state" where
  "print_char e fl w c st =
     (let (st, w) = (if fl AND LEFT = 0 then (emits e (times (w - 1) 32) st, if w - 1 > 0 then 0 else w - 1) else (st, w));
          st = emit e c st
      in emits e (times (w - 1) 32) st)"

definition print_string :: "nat \<Rightarrow> u8 \<Rightarrow> int \<Rightarrow> int \<Rightarrow> u8 list option \<Rightarrow> out_state \<Rightarrow> out_state" where
  "print_string e fl w precision s st =
     (let s = (case s of None \<Rightarrow> [40, 78, 85, 76, 76, 41] | Some s \<Rightarrow> s);
          len = int (rt_strlen s);
          len = (if precision > 0 \<and> len > precision then precision else len);
          (st, w) = (if fl AND LEFT = 0 then (emits e (times (w - len) 32) st, min w len - 1) else (st, w));
          st = emits e (take (nat len) s) st
      in emits e (times (w - len) 32) st)"

text \<open>The argument of an integer conversion, at the width of its qualifier, as the 32 bits given to \<^verbatim>\<open>print_number\<close>.\<close>

definition number_arg :: "u8 \<Rightarrow> u8 \<Rightarrow> u32 \<Rightarrow> u32" where
  "number_arg qualifier fl v =
     (if qualifier = 104 then
        if fl AND SIGN \<noteq> 0 then scast (ucast v :: u16) else ucast (ucast v :: u16)
      else v)"

definition print_conv ::
  "nat \<Rightarrow> u8 \<Rightarrow> int \<Rightarrow> int \<Rightarrow> u8 \<Rightarrow> u8 \<Rightarrow> va list \<Rightarrow> out_state \<Rightarrow> (va list \<times> out_state) option" where
  "print_conv e fl w precision qualifier c args st =
     (if c = 99 then do { (v, args) \<leftarrow> va_int args; Some (args, print_char e fl w (ucast v) st) }
      else if c = 115 then do { (s, args) \<leftarrow> va_str args; Some (args, print_string e fl w precision s st) }
      else if c = 112 then
        do { let (w, fl) = (if w = - 1 then (8, fl OR ZEROPAD) else (w, fl));
             (v, args) \<leftarrow> va_int args;
             Some (args, print_number e v 16 w precision fl st) }
      else if c = 37 then Some (args, emit e 37 st)
      else if c \<in> {111, 88, 120, 100, 105, 117} then
        do { let base = (if c = 111 then 8 else if c = 88 \<or> c = 120 then 16 else 10);
             let fl = (if c = 88 then fl OR LARGE else if c = 100 \<or> c = 105 then fl OR SIGN else fl);
             (v, args) \<leftarrow> va_int args;
             Some (args, print_number e (number_arg qualifier fl v) base w precision fl st) }
      else Some (args, if c \<noteq> 0 then emit e c (emit e 37 st) else emit e 37 st))"

definition print_directive ::
  "nat \<Rightarrow> u8 list \<Rightarrow> va list \<Rightarrow> out_state \<Rightarrow> (u8 list \<times> va list \<times> out_state) option" where
  "print_directive e fmt args st =
     do { let (fl, fmt) = fmt_flags 0 fmt;
          (w, fl, fmt, args) \<leftarrow> fmt_width fl fmt args;
          (precision, fmt, args) \<leftarrow> fmt_precision fmt args;
          let (qualifier, fmt) = (if first_byte fmt = 104 \<or> first_byte fmt = 108 then (first_byte fmt, tl fmt) else (0, fmt));
          (args, st) \<leftarrow> print_conv e fl w precision qualifier (first_byte fmt) args st;
          Some (tl fmt, args, st) }"

lemma skip_atoi_length: "length (snd (skip_atoi i s)) \<le> length s"
  by (induction i s rule: skip_atoi.induct) auto

lemma fmt_flags_length: "length (snd (fmt_flags fl s)) \<le> length s"
  by (induction fl s rule: fmt_flags.induct) auto

lemma fmt_width_length: "fmt_width fl s args = Some (w, fl', s', args') \<Longrightarrow> length s' \<le> length s"
  using skip_atoi_length [of 0 s]
  by (auto simp: fmt_width_def split: if_splits prod.splits bind_splits)

lemma fmt_precision_length: "fmt_precision s args = Some (p, s', args') \<Longrightarrow> length s' \<le> length s"
  using skip_atoi_length [of 0 "tl s"]
  by (auto simp: fmt_precision_def Let_def bind_eq_Some_conv split: if_splits prod.splits)

lemma print_directive_length: "print_directive e s args st = Some (s', args', st') \<Longrightarrow> length s' \<le> length s"
  using fmt_flags_length [of 0 s]
  by (fastforce simp: print_directive_def Let_def bind_eq_Some_conv split: if_splits prod.splits
      dest!: fmt_width_length fmt_precision_length)

function vsn_loop :: "nat \<Rightarrow> u8 list \<Rightarrow> va list \<Rightarrow> out_state \<Rightarrow> out_state option" where
  "vsn_loop e fmt args st =
     (case fmt of
        [] \<Rightarrow> Some st
      | c # fmt \<Rightarrow>
          if c \<noteq> 37 then vsn_loop e fmt args (emit e c st)
          else case print_directive e fmt args st of
                 None \<Rightarrow> None
               | Some (fmt, args, st) \<Rightarrow> vsn_loop e fmt args st)"
  by pat_completeness auto
termination
  by (relation "measure (\<lambda>(_, fmt, _, _). length fmt)") (auto dest: print_directive_length)

declare vsn_loop.simps [simp del]

text \<open>\<open>b\<close> is the address of the buffer. A size of 0 or one past the address space lets \<^verbatim>\<open>end\<close> be the last address.\<close>

definition vsn_end :: "nat \<Rightarrow> nat \<Rightarrow> nat" where
  "vsn_end b sz = (let en = (b + sz + (2 ^ 32 - 1)) mod 2 ^ 32 in if en < b then 2 ^ 32 - 1 - b else en - b)"

definition rt_vsnprintf :: "nat \<Rightarrow> nat \<Rightarrow> u8 list \<Rightarrow> va list \<Rightarrow> (nat \<Rightarrow> u8) \<Rightarrow> (nat \<times> (nat \<Rightarrow> u8)) option" where
  "rt_vsnprintf b sz fmt args buf =
     do { let e = vsn_end b sz;
          st \<leftarrow> vsn_loop e (cstr fmt) args \<lparr>p_str = 0, p_buf = buf\<rparr>;
          Some (p_str st, if p_str st \<le> e then (p_buf st)(p_str st := 0) else (p_buf st)(e := 0)) }"

definition rt_snprintf :: "nat \<Rightarrow> nat \<Rightarrow> u8 list \<Rightarrow> va list \<Rightarrow> (nat \<Rightarrow> u8) \<Rightarrow> (nat \<times> (nat \<Rightarrow> u8)) option" where
  "rt_snprintf b sz fmt args buf = rt_vsnprintf b sz fmt args buf"

definition rt_vsprintf :: "nat \<Rightarrow> u8 list \<Rightarrow> va list \<Rightarrow> (nat \<Rightarrow> u8) \<Rightarrow> (nat \<times> (nat \<Rightarrow> u8)) option" where
  "rt_vsprintf b fmt args buf = rt_vsnprintf b (2 ^ 32 - 1) fmt args buf"

definition rt_sprintf :: "nat \<Rightarrow> u8 list \<Rightarrow> va list \<Rightarrow> (nat \<Rightarrow> u8) \<Rightarrow> (nat \<times> (nat \<Rightarrow> u8)) option" where
  "rt_sprintf b fmt args buf = rt_vsprintf b fmt args buf"

text \<open>
  \<^verbatim>\<open>rt_kprintf\<close>: the bytes given to the write function of the console device, or without one to the output function of
  the board, which reads up to the null byte. The buffer is the static \<^verbatim>\<open>rt_log_buf\<close> at address \<open>b\<close>.
\<close>

definition RT_CONSOLEBUF_SIZE :: nat where "RT_CONSOLEBUF_SIZE = 128"

definition rt_kprintf ::
  "nat \<Rightarrow> bool \<Rightarrow> u8 list \<Rightarrow> va list \<Rightarrow> (nat \<Rightarrow> u8) \<Rightarrow> (u8 list \<times> (nat \<Rightarrow> u8)) option" where
  "rt_kprintf b device fmt args log_buf =
     do { (len, log_buf) \<leftarrow> rt_vsnprintf b (RT_CONSOLEBUF_SIZE - 1) fmt args log_buf;
          let len = (if len > RT_CONSOLEBUF_SIZE - 1 then RT_CONSOLEBUF_SIZE - 1 else len);
          Some (if device then map log_buf [0..<len] else cstr (map log_buf [0..<RT_CONSOLEBUF_SIZE]), log_buf) }"

section \<open>The text a format stands for\<close>

text \<open>
  The reference: each conversion as a list of characters, without a buffer. A number is its digits, filled
  up with zeros to the precision, with its sign, and blanks or zeros up to the width.
\<close>

definition padded_text :: "int \<Rightarrow> int \<Rightarrow> u8 \<Rightarrow> u8 \<Rightarrow> u8 list \<Rightarrow> u8 list" where
  "padded_text s precision type sign tmp =
     (let body = replicate (nat precision - length tmp) 48 @ rev tmp;
          sg = (if sign \<noteq> 0 then [sign] else []);
          pad = nat s - length body - length sg
      in if type AND LEFT \<noteq> 0 then sg @ body @ replicate pad 32
         else if type AND ZEROPAD \<noteq> 0 then sg @ replicate pad 48 @ body
         else replicate pad 32 @ sg @ body)"

definition number_text :: "u32 \<Rightarrow> nat \<Rightarrow> int \<Rightarrow> int \<Rightarrow> u8 \<Rightarrow> u8 list" where
  "number_text num base s precision type =
     (let (sign, n) = number_sign type num
      in padded_text s precision type sign (if n = 0 then [48] else number_tmp base (type AND LARGE \<noteq> 0) n))"

definition field_text :: "u8 \<Rightarrow> int \<Rightarrow> u8 list \<Rightarrow> u8 list" where
  "field_text fl w t =
     (if fl AND LEFT \<noteq> 0 then t @ replicate (nat w - length t) 32 else replicate (nat w - length t) 32 @ t)"

definition string_text :: "int \<Rightarrow> u8 list option \<Rightarrow> u8 list" where
  "string_text precision s =
     (let t = cstr (case s of None \<Rightarrow> [40, 78, 85, 76, 76, 41] | Some s \<Rightarrow> s)
      in if precision > 0 then take (nat precision) t else t)"

definition conv_text :: "u8 \<Rightarrow> int \<Rightarrow> int \<Rightarrow> u8 \<Rightarrow> u8 \<Rightarrow> va list \<Rightarrow> (va list \<times> u8 list) option" where
  "conv_text fl w precision qualifier c args =
     (if c = 99 then do { (v, args) \<leftarrow> va_int args; Some (args, field_text fl w [ucast v]) }
      else if c = 115 then do { (s, args) \<leftarrow> va_str args; Some (args, field_text fl w (string_text precision s)) }
      else if c = 112 then
        do { (v, args) \<leftarrow> va_int args;
             Some (args, if w = - 1 then number_text v 16 8 precision (fl OR ZEROPAD) else number_text v 16 w precision fl) }
      else if c = 37 then Some (args, [37])
      else if c \<in> {111, 88, 120, 100, 105, 117} then
        do { let base = (if c = 111 then 8 else if c = 88 \<or> c = 120 then 16 else 10);
             let fl = (if c = 88 then fl OR LARGE else if c = 100 \<or> c = 105 then fl OR SIGN else fl);
             (v, args) \<leftarrow> va_int args;
             Some (args, number_text (number_arg qualifier fl v) base w precision fl) }
      else Some (args, if c \<noteq> 0 then [37, c] else [37]))"

definition directive_text :: "u8 list \<Rightarrow> va list \<Rightarrow> (u8 list \<times> va list \<times> u8 list) option" where
  "directive_text fmt args =
     do { let (fl, fmt) = fmt_flags 0 fmt;
          (w, fl, fmt, args) \<leftarrow> fmt_width fl fmt args;
          (precision, fmt, args) \<leftarrow> fmt_precision fmt args;
          let (qualifier, fmt) = (if first_byte fmt = 104 \<or> first_byte fmt = 108 then (first_byte fmt, tl fmt) else (0, fmt));
          (args, t) \<leftarrow> conv_text fl w precision qualifier (first_byte fmt) args;
          Some (tl fmt, args, t) }"

lemma directive_text_length: "directive_text s args = Some (s', args', t) \<Longrightarrow> length s' \<le> length s"
  using fmt_flags_length [of 0 s]
  by (fastforce simp: directive_text_def Let_def bind_eq_Some_conv split: if_splits prod.splits
      dest!: fmt_width_length fmt_precision_length)

function format_text :: "u8 list \<Rightarrow> va list \<Rightarrow> u8 list option" where
  "format_text fmt args =
     (case fmt of
        [] \<Rightarrow> Some []
      | c # fmt \<Rightarrow>
          if c \<noteq> 37 then map_option ((#) c) (format_text fmt args)
          else case directive_text fmt args of
                 None \<Rightarrow> None
               | Some (fmt, args, t) \<Rightarrow> map_option ((@) t) (format_text fmt args))"
  by pat_completeness auto
termination
  by (relation "measure (\<lambda>(fmt, _). length fmt)") (auto dest: directive_text_length)

declare format_text.simps [simp del]

section \<open>The buffer holds the beginning of the text\<close>

lemma emits_append: "emits e (v @ w) st = emits e w (emits e v st)"
  by (induction v arbitrary: st) simp_all

lemma p_str_emits [simp]: "p_str (emits e w st) = p_str st + length w" "p_str (emit e c st) = p_str st + 1"
  by (induction w arbitrary: st) (simp_all add: emit_def)

lemma p_buf_emits:
  "p_buf (emits e w st) i =
     (if p_str st \<le> i \<and> i < p_str st + length w \<and> i \<le> e then w ! (i - p_str st) else p_buf st i)"
proof (induction w arbitrary: st)
  case (Cons c w)
  have e: "p_buf (emit e c st) i = (if i = p_str st \<and> i \<le> e then c else p_buf st i)" by (auto simp: emit_def)
  consider "i < p_str st" | "i = p_str st" | "p_str st < i" by linarith
  thus ?case
  proof cases
    case 3
    have "i - p_str st = Suc (i - (p_str st + 1))" using 3 by simp
    hence "(c # w) ! (i - p_str st) = w ! (i - (p_str st + 1))" by simp
    thus ?thesis unfolding emits.simps Cons.IH e using 3 by simp
  next
    case 2 thus ?thesis unfolding emits.simps Cons.IH e by simp
  qed (simp_all add: Cons.IH e)
qed auto

lemma emit_emits: "emit e c st = emits e [c] st"
  by simp

text \<open>
  What was written agrees with the text as far as there was room, and is the text when that fits. Past the end
  the code may count one blank more, since it corrects the width for the sign only when the sign was stored.
\<close>

definition agree :: "nat \<Rightarrow> u8 list \<Rightarrow> u8 list \<Rightarrow> bool" where
  "agree k w t \<longleftrightarrow> take k w = take k t \<and> length t \<le> length w \<and> (length t \<le> k \<longrightarrow> w = t)"

definition writes :: "nat \<Rightarrow> out_state \<Rightarrow> out_state \<Rightarrow> u8 list \<Rightarrow> bool" where
  "writes e st st' t \<longleftrightarrow> (\<exists>w. st' = emits e w st \<and> agree (e + 1 - p_str st) w t)"

lemma writesI: "agree (e + 1 - p_str st) w t \<Longrightarrow> writes e st (emits e w st) t"
  unfolding writes_def by blast

lemma agree_refl: "agree k t t"
  by (simp add: agree_def)

lemma agree_append:
  assumes "agree k w t" "agree (k - length w) w' t'" shows "agree k (w @ w') (t @ t')"
proof (cases "length t \<le> k")
  case True
  thus ?thesis using assms by (auto simp: agree_def)
next
  case False
  hence "take k w = take k t" "length t \<le> length w" "k < length w" using assms(1) by (auto simp: agree_def)
  thus ?thesis using assms(2) False by (auto simp: agree_def)
qed

lemma writes_emits: "writes e st (emits e t st) t"
  unfolding writes_def using agree_refl by blast

lemma writes_trans:
  assumes "writes e st st1 t" "writes e st1 st2 t'" shows "writes e st st2 (t @ t')"
proof -
  obtain w w' where w: "st1 = emits e w st" "agree (e + 1 - p_str st) w t" "st2 = emits e w' st1"
    "agree (e + 1 - p_str st1) w' t'" using assms by (auto simp: writes_def)
  have "agree (e + 1 - p_str st - length w) w' t'" using w by (simp add: algebra_simps)
  thus ?thesis using w agree_append emits_append unfolding writes_def by metis
qed

subsection \<open>Conversions\<close>

lemma type_bits:
  "(type AND NOT ZEROPAD) AND LEFT = type AND LEFT" "(type AND NOT ZEROPAD) AND LARGE = type AND LARGE"
  "(type AND NOT ZEROPAD) AND ZEROPAD = 0" "number_sign (type AND NOT ZEROPAD) num = number_sign type num"
  "type AND (ZEROPAD OR LEFT) = 0 \<longleftrightarrow> type AND ZEROPAD = 0 \<and> type AND LEFT = 0"
  "(type AND NOT ZEROPAD) AND (ZEROPAD OR LEFT) = 0 \<longleftrightarrow> type AND LEFT = 0"
proof -
  have b: "NOT ZEROPAD AND x = x" if "x AND ZEROPAD = 0" for x :: u8
  proof (rule bit_eqI)
    fix n assume n: "possible_bit TYPE(8 word) n"
    have "\<not> (bit x n \<and> bit ZEROPAD n)" using arg_cong [OF that, of "\<lambda>y. bit y n"] by (simp add: bit_and_iff)
    thus "bit (NOT ZEROPAD AND x) n = bit x n" using n by (auto simp: bit_and_iff bit_not_iff)
  qed
  show 1: "(type AND NOT ZEROPAD) AND LEFT = type AND LEFT" "(type AND NOT ZEROPAD) AND LARGE = type AND LARGE"
    "(type AND NOT ZEROPAD) AND ZEROPAD = 0"
    by (simp_all add: and.assoc b LEFT_def LARGE_def ZEROPAD_def)
  show "number_sign (type AND NOT ZEROPAD) num = number_sign type num"
    by (simp add: number_sign_def and.assoc b SIGN_def PLUS_def SPACE_def ZEROPAD_def)
  show 2: "x AND (ZEROPAD OR LEFT) = 0 \<longleftrightarrow> x AND ZEROPAD = 0 \<and> x AND LEFT = 0" for x
    by (simp add: bit.conj_disj_distrib or_eq_0_iff)
  show "(type AND NOT ZEROPAD) AND (ZEROPAD OR LEFT) = 0 \<longleftrightarrow> type AND LEFT = 0"
    using 1 2 by simp
qed

lemma replicate_cong: "m = n \<Longrightarrow> replicate m c = replicate n c"
  by simp

lemma print_padded_writes:
  assumes ne: "type AND LEFT \<noteq> 0 \<Longrightarrow> type AND ZEROPAD = 0"
  shows "writes e st (print_padded e s precision type sign tmp st) (padded_text s precision type sign tmp)"
proof -
  define i where "i = int (length tmp)"
  define pr where "pr = (if i > precision then i else precision)"
  define body where "body = replicate (nat precision - length tmp) 48 @ rev tmp"
  let ?sg = "(if sign \<noteq> 0 then [sign] else [])"
  let ?pad = "nat s - length body - length ?sg"
  let ?k = "(if sign \<noteq> 0 \<and> p_str st \<le> e then s - pr - 1 else s - pr)"
  have body: "int (length body) = pr" "times (pr - i) 48 @ rev tmp = body"
    by (auto simp: body_def pr_def i_def times_def nat_diff_distrib')
  have emb: "emits e (rev tmp) (emits e (times (pr - i) 48) g) = emits e body g" for g
    using body(2) by (simp add: emits_append [symmetric])
  have full: "p_str st \<le> e \<Longrightarrow> times ?k c = replicate ?pad c" for c
    using body(1) by (auto simp: times_def intro!: replicate_cong)
  have longer: "?pad \<le> length (times ?k c)" for c using body(1) by (auto simp: times_def)
  have rd: "times (run_down x) c = []" "times (run_down x - 1) c = []" "times (run_down (run_down x - 1)) c = []"
    "times (run_down (run_down x)) c = []" for x c
    by (simp_all add: times_def run_down_def)
  consider (left) "type AND LEFT \<noteq> 0" "type AND ZEROPAD = 0" | (zero) "type AND LEFT = 0" "type AND ZEROPAD \<noteq> 0"
    | (plain) "type AND LEFT = 0" "type AND ZEROPAD = 0" using ne by blast
  thus ?thesis
  proof cases
    case left
    have p: "print_padded e s precision type sign tmp st = emits e (?sg @ body @ times ?k 32) st"
      unfolding print_padded_def Let_def i_def [symmetric] pr_def [symmetric] using left
      by (simp add: type_bits emb emits_append)
    have t: "padded_text s precision type sign tmp = ?sg @ body @ replicate ?pad 32"
      unfolding padded_text_def Let_def body_def [symmetric] using left by simp
    have "agree (e + 1 - p_str st) (?sg @ body @ times ?k 32) (?sg @ body @ replicate ?pad 32)"
      using full longer [of 32] body(1) by (cases "p_str st \<le> e") (auto simp: agree_refl, auto simp: agree_def times_def)
    thus ?thesis unfolding p t by (rule writesI)
  next
    case zero
    have p: "print_padded e s precision type sign tmp st = emits e (?sg @ times ?k 48 @ body) st"
      unfolding print_padded_def Let_def i_def [symmetric] pr_def [symmetric] using zero
      by (simp add: type_bits emb emits_append rd)
    have t: "padded_text s precision type sign tmp = ?sg @ replicate ?pad 48 @ body"
      unfolding padded_text_def Let_def body_def [symmetric] using zero by simp
    have "agree (e + 1 - p_str st) (?sg @ times ?k 48 @ body) (?sg @ replicate ?pad 48 @ body)"
      using full longer [of 48] body(1) by (cases "p_str st \<le> e") (auto simp: agree_refl, auto simp: agree_def times_def)
    thus ?thesis unfolding p t by (rule writesI)
  next
    case plain
    let ?j = "(if sign \<noteq> 0 \<and> s - pr > 0 then s - pr - 1 else s - pr)"
    have "print_padded e s precision type sign tmp st = emits e (times ?j 32 @ ?sg @ body) st"
      unfolding print_padded_def Let_def i_def [symmetric] pr_def [symmetric] using plain
      by (simp add: type_bits emb emits_append rd)
    moreover have "padded_text s precision type sign tmp = replicate ?pad 32 @ ?sg @ body"
      unfolding padded_text_def Let_def body_def [symmetric] using plain by simp
    moreover have "times ?j 32 = replicate ?pad 32"
      using body(1) by (auto simp: times_def intro!: replicate_cong)
    ultimately show ?thesis using writes_emits by metis
  qed
qed

lemma padded_text_zeropad:
  "type AND LEFT \<noteq> 0 \<Longrightarrow> padded_text s p (type AND NOT ZEROPAD) sign tmp = padded_text s p type sign tmp"
  by (simp add: padded_text_def type_bits)

lemma print_number_writes: "writes e st (print_number e num base s precision type st) (number_text num base s precision type)"
proof (cases "type AND LEFT = 0")
  case True
  thus ?thesis by (auto simp: print_number_def number_text_def split: prod.splits intro: print_padded_writes)
next
  case False
  thus ?thesis
    using print_padded_writes [of "type AND NOT ZEROPAD"]
    by (auto simp: print_number_def number_text_def type_bits padded_text_zeropad split: prod.splits)
qed

lemma print_char_writes: "writes e st (print_char e fl w c st) (field_text fl w [c])"
proof -
  have t: "times (w - 1) 32 = replicate (nat w - 1) 32" by (simp add: times_def nat_diff_distrib')
  have z: "n \<le> 0 \<Longrightarrow> times n 32 = []" for n by (simp add: times_def)
  have "print_char e fl w c st = emits e (field_text fl w [c]) st"
    by (simp add: print_char_def field_text_def emits_append t z)
  thus ?thesis using writes_emits by simp
qed

lemma print_string_writes: "writes e st (print_string e fl w precision s st) (field_text fl w (string_text precision s))"
proof -
  define t where "t = (case s of None \<Rightarrow> [40, 78, 85, 76, 76, 41] | Some s \<Rightarrow> s)"
  define len where "len = (if precision > 0 \<and> int (rt_strlen t) > precision then precision else int (rt_strlen t))"
  have tk: "take (rt_strlen t) t = cstr t" by (metis cstr_def rt_strlen_cstr takeWhile_eq_take)
  have tp: "take (nat precision) t = take (nat precision) (cstr t)" if "precision < int (rt_strlen t)"
    using that tk [symmetric] by (auto simp: min_def nat_le_iff)
  have st: "take (nat len) t = string_text precision s"
    using tk tp by (auto simp: string_text_def Let_def t_def [symmetric] len_def rt_strlen_cstr)
  have ln: "int (length (string_text precision s)) = len"
    by (auto simp: string_text_def Let_def t_def [symmetric] len_def rt_strlen_cstr)
  have p: "times (w - len) 32 = replicate (nat w - length (string_text precision s)) 32" "times (min w len - 1 - len) 32 = []"
    using ln by (auto simp: times_def intro!: replicate_cong)
  have "print_string e fl w precision s st = emits e (field_text fl w (string_text precision s)) st"
    unfolding print_string_def Let_def t_def [symmetric] len_def [symmetric] st
    by (simp add: field_text_def emits_append p)
  thus ?thesis using writes_emits by simp
qed

text \<open>A run that gives a result corresponds to a text, and the other way round.\<close>

lemma print_conv_writes:
  "rel_option (\<lambda>(args1, st1) (args2, t). args1 = args2 \<and> writes e st st1 t)
     (print_conv e fl w precision q c args st) (conv_text fl w precision q c args)"
proof -
  note wr = print_char_writes print_string_writes print_number_writes writes_emits [of e st "[x]" for x, simplified]
    writes_emits [of e st "[x, y]" for x y, simplified]
  show ?thesis
    unfolding print_conv_def conv_text_def Let_def
    by (cases "va_int args"; cases "va_str args") (auto simp: wr)
qed

lemma print_directive_writes:
  "rel_option (\<lambda>(s1, args1, st1) (s2, args2, t). s1 = s2 \<and> args1 = args2 \<and> writes e st st1 t)
     (print_directive e fmt args st) (directive_text fmt args)"
proof -
  have step: "rel_option (\<lambda>(s1, args1, st1) (s2, args2, t). s1 = s2 \<and> args1 = args2 \<and> writes e st st1 t)
     (do { (args, st) \<leftarrow> print_conv e fl w p q c as st; Some (s, args, st) })
     (do { (args, t) \<leftarrow> conv_text fl w p q c as; Some (s, args, t) })" for fl w p q c as s
    using print_conv_writes [of e st fl w p q c as]
    by (cases "print_conv e fl w p q c as st"; cases "conv_text fl w p q c as") auto
  obtain fl fmt1 where 1: "fmt_flags 0 fmt = (fl, fmt1)" by fastforce
  show ?thesis
  proof (cases "fmt_width fl fmt1 args")
    case None thus ?thesis by (simp add: print_directive_def directive_text_def 1)
  next
    case (Some r)
    then obtain w fl2 fmt2 args2 where 2: "fmt_width fl fmt1 args = Some (w, fl2, fmt2, args2)" by (cases r) auto
    show ?thesis
    proof (cases "fmt_precision fmt2 args2")
      case None thus ?thesis by (simp add: print_directive_def directive_text_def 1 2)
    next
      case (Some r)
      then obtain p fmt3 args3 where 3: "fmt_precision fmt2 args2 = Some (p, fmt3, args3)" by (cases r) auto
      show ?thesis
        by (cases "first_byte fmt3 = 104 \<or> first_byte fmt3 = 108")
          (use step in \<open>simp_all add: print_directive_def directive_text_def 1 2 3\<close>)
    qed
  qed
qed

lemma vsn_loop_writes:
  "rel_option (writes e st) (vsn_loop e fmt args st) (format_text fmt args)"
proof (induction "length fmt" arbitrary: fmt args st rule: less_induct)
  case less
  show ?case
  proof (cases fmt)
    case Nil
    thus ?thesis using writes_emits [of e st "[]"] by (simp add: vsn_loop.simps format_text.simps)
  next
    case (Cons c fmt')
    show ?thesis
    proof (cases "c = 37")
      case False
      note unf = vsn_loop.simps [of e "c # fmt'"] format_text.simps [of "c # fmt'"]
      have "writes e st (emit e c st) [c]" using writes_emits [of e st "[c]"] by simp
      hence "writes e (emit e c st) x t \<Longrightarrow> writes e st x (c # t)" for x t using writes_trans by fastforce
      thus ?thesis
        using less.hyps [of fmt' "emit e c st" args] Cons False
        by (auto simp: unf option_rel_Some1 option_rel_Some2 elim!: option.rel_cases)
    next
      case True
      note unf = vsn_loop.simps [of e "37 # fmt'"] format_text.simps [of "37 # fmt'"]
      show ?thesis
      proof (cases "directive_text fmt' args")
        case None
        hence "print_directive e fmt' args st = None" using print_directive_writes [of e st fmt' args] by simp
        thus ?thesis using None Cons True by (simp add: unf)
      next
        case (Some r)
        then obtain s2 a2 t where r: "directive_text fmt' args = Some (s2, a2, t)" by (cases r) auto
        then obtain st1 where p: "print_directive e fmt' args st = Some (s2, a2, st1)" "writes e st st1 t"
          using print_directive_writes [of e st fmt' args] by (auto simp: option_rel_Some2)
        have "length s2 < length fmt" using directive_text_length [OF r] Cons by simp
        from less.hyps [OF this, of st1 a2] show ?thesis
          using Cons True r p writes_trans [OF p(2)]
          by (auto simp: unf elim!: option.rel_cases)
      qed
    qed
  qed
qed

section \<open>Digits\<close>

text \<open>The digits fit into the sixteen characters of \<^verbatim>\<open>tmp\<close>.\<close>

lemma number_tmp_length: "unat n < 10 ^ k \<Longrightarrow> length (number_tmp base large n) \<le> k"
proof (induction k arbitrary: n)
  case 0 thus ?case by (simp add: number_tmp.simps unat_eq_0)
next
  case (Suc k)
  show ?case
  proof (cases "n = 0")
    case True thus ?thesis by (simp add: number_tmp.simps)
  next
    case False
    have "unat (snd (divide base n)) \<le> unat n div 10" by (auto simp: divide_def unat_div intro: div_le_mono2)
    also have "unat n div 10 < 10 ^ k" using Suc.prems by (simp add: div_less_iff_less_mult mult.commute)
    finally show ?thesis using Suc.IH [of "snd (divide base n)"] False by (subst number_tmp.simps) (simp add: case_prod_beta)
  qed
qed

lemma number_tmp_fits: "length (number_tmp base large n) \<le> 10"
proof -
  have "unat n < 2 ^ LENGTH(32)" by (rule unsigned_less)
  thus ?thesis by (intro number_tmp_length) simp
qed

text \<open>Reading the decimal digits gives the number back.\<close>

lemma skip_atoi_append:
  "list_all isdigit ds \<Longrightarrow> skip_atoi i (ds @ s) = skip_atoi (foldl (\<lambda>i c. i * 10 + ucast c - 48) i ds) s"
  by (induction ds arbitrary: i) simp_all

lemma decimal_digit:
  assumes "d < (10 :: u32)"
  shows "isdigit (digits_table large ! unat d)" "ucast (digits_table large ! unat d) - 48 = d"
proof -
  have "k < 10 \<Longrightarrow> k = 0 \<or> k = 1 \<or> k = 2 \<or> k = 3 \<or> k = 4 \<or> k = 5 \<or> k = 6 \<or> k = 7 \<or> k = 8 \<or> k = 9" for k :: nat by arith
  moreover have "unat d < 10" using assms by (simp add: word_less_nat_alt)
  ultimately consider "unat d = 0" | "unat d = 1" | "unat d = 2" | "unat d = 3" | "unat d = 4" | "unat d = 5" | "unat d = 6"
    | "unat d = 7" | "unat d = 8" | "unat d = 9" by metis
  thus "isdigit (digits_table large ! unat d)" "ucast (digits_table large ! unat d) - 48 = d"
    by (cases; simp add: digits_table_def isdigit_def; simp add: word_unat_eq_iff)+
qed

lemma number_tmp_decimal:
  "list_all isdigit (number_tmp 10 large n) \<and> foldr (\<lambda>c i. i * 10 + ucast c - 48) (number_tmp 10 large n) 0 = n"
proof (induction "unat n" arbitrary: n rule: less_induct)
  case less
  show ?case
  proof (cases "n = 0")
    case True thus ?thesis by (simp add: number_tmp.simps)
  next
    case False
    let ?d = "n mod 10" let ?n = "n div 10"
    have u: "number_tmp 10 large n = digits_table large ! unat ?d # number_tmp 10 large ?n"
      using False by (subst number_tmp.simps) (simp add: divide_def)
    have "unat ?n < unat n" using divide_less [OF False, of 10] by (simp add: divide_def)
    note IH = less [OF this]
    have d: "?d < 10" by (simp add: word_mod_less_divisor)
    note dg = decimal_digit [OF d, of large]
    have "?n * 10 + ucast (digits_table large ! unat ?d) - 48 = ?n * 10 + ?d" using dg(2) by (simp add: algebra_simps)
    also have "\<dots> = n" by (rule div_mult_mod_eq)
    finally show ?thesis using IH dg(1) u by simp
  qed
qed

lemma vsnprintf_output:
  assumes sz: "0 < sz" "b + sz \<le> 2 ^ 32" and t: "format_text (cstr fmt) args = Some t"
  shows "\<exists>n buf'. rt_vsnprintf b sz fmt args buf = Some (n, buf') \<and>
    (\<forall>i<min (length t) (sz - 1). buf' i = t ! i) \<and> buf' (min (length t) (sz - 1)) = 0 \<and>
    (\<forall>i\<ge>sz. buf' i = buf i) \<and> (if length t < sz then n = length t else sz \<le> n)"
proof -
  have e: "vsn_end b sz = sz - 1"
  proof -
    have "(b + sz + (2 ^ 32 - 1)) mod 2 ^ 32 = (b + sz - 1 + 2 ^ 32) mod 2 ^ 32" using sz by (simp add: add.commute)
    also have "\<dots> = b + sz - 1" using sz by (simp only: mod_add_self2) simp
    finally show ?thesis unfolding vsn_end_def using sz by (simp add: Let_def)
  qed
  let ?st = "\<lparr>p_str = 0, p_buf = buf\<rparr>"
  obtain st' where st': "vsn_loop (sz - 1) (cstr fmt) args ?st = Some st'" "writes (sz - 1) ?st st' t"
    using vsn_loop_writes [of "sz - 1" ?st "cstr fmt" args] t by (auto simp: option_rel_Some2)
  then obtain w where w: "st' = emits (sz - 1) w ?st" "agree sz w t" using sz(1) by (auto simp: writes_def)
  let ?buf = "if length w \<le> sz - 1 then (p_buf st')(length w := 0) else (p_buf st')(sz - 1 := 0)"
  have run: "rt_vsnprintf b sz fmt args buf = Some (length w, ?buf)"
    using st'(1) w(1) by (simp add: rt_vsnprintf_def e Let_def)
  have buf: "p_buf st' i = (if i < length w \<and> i < sz then w ! i else buf i)" for i
    using sz(1) by (auto simp: w(1) p_buf_emits)
  have eq: "w ! i = t ! i" if "i < length t" "i < sz" for i
    using that w(2) nth_take [of i sz w] nth_take [of i sz t] by (simp add: agree_def)
  have "length t \<le> length w" "length t \<le> sz \<Longrightarrow> length w = length t" using w(2) by (auto simp: agree_def)
  thus ?thesis using run buf eq sz(1) by (intro exI [of _ "length w"] exI [of _ ?buf]) auto
qed

section \<open>Properties\<close>



text \<open>
  C34. \<^verbatim>\<open>rt_kprintf\<close> never writes outside of its static buffer. A text of at most 126 characters reaches the console device
  unchanged; of a longer one the device gets the first 126 characters and then a null byte, which the
  board's output function does not get.
\<close>

theorem kprintf_output:
  assumes "b + RT_CONSOLEBUF_SIZE \<le> 2 ^ 32" "format_text (cstr fmt) args = Some t" "0 \<notin> set t"
  shows "\<exists>log'. rt_kprintf b True fmt args log = Some (if length t < 127 then t else take 126 t @ [0], log') \<and>
      rt_kprintf b False fmt args log = Some (take 126 t, log') \<and> (\<forall>i\<ge>RT_CONSOLEBUF_SIZE. log' i = log i)"
proof -
  obtain n log' where r: "rt_vsnprintf b 127 fmt args log = Some (n, log')"
    "\<forall>i<min (length t) 126. log' i = t ! i" "log' (min (length t) 126) = 0"
    "\<forall>i\<ge>127. log' i = log i" "if length t < 127 then n = length t else 127 \<le> n"
    using vsnprintf_output [OF _ _ assms(2), of 127 b log] assms(1) by (auto simp: RT_CONSOLEBUF_SIZE_def)
  let ?k = "min (length t) 126"
  have t: "map log' [0..<?k] = take 126 t" using r(2) by (intro nth_equalityI) auto
  have "[0..<128] = [0..<?k] @ ?k # [Suc ?k..<128]" 
    using upt_add_eq_append [of 0 ?k "128 - ?k"] by (simp add: upt_conv_Cons)
  hence "cstr (map log' [0..<128]) = take 126 t"
    using t r(3) assms(3) set_take_subset [of 126 t] by (auto simp: cstr_def takeWhile_append)
  moreover have "map log' [0..<min n 127] = (if length t < 127 then t else take 126 t @ [0])"
  proof (cases "length t < 127")
    case False
    hence "[0..<min n 127] = [0..<126] @ [126]" using r(5) upt_add_eq_append [of 0 126 1] by (simp add: min_def upt_conv_Cons)
    thus ?thesis using False t r(3) by simp
  qed (use t r(5) in simp)
  ultimately show ?thesis using r(1,4) by (cases "127 < n") (simp_all add: rt_kprintf_def RT_CONSOLEBUF_SIZE_def Let_def)
qed

theorem kprintf_output_witness:
  "\<exists>log'. rt_kprintf 0x1000 True [37, 49, 53, 48, 100] [VInt 7] (\<lambda>_. 0) = Some (replicate 126 32 @ [0], log')"
proof -
  have "format_text (cstr [37, 49, 53, 48, 100]) [VInt 7] = Some (replicate 149 32 @ [55])" by code_simp
  from kprintf_output [OF _ this, of "0x1000" "\<lambda>_. 0"] show ?thesis by (auto simp: RT_CONSOLEBUF_SIZE_def)
qed

text \<open>
  The digits \<^verbatim>\<open>print_number\<close> produces in base ten never overrun its temporary array, and \<^verbatim>\<open>skip_atoi\<close> reads the number
  back from them.
\<close>

lemma number_roundtrip:
  assumes "n \<noteq> 0" "\<not> isdigit (first_byte s)"
  shows "length (number_tmp 10 large n) \<le> 10 \<and> skip_atoi 0 (rev (number_tmp 10 large n) @ s) = (n, s)"
proof -
  have "skip_atoi 0 (rev (number_tmp 10 large n) @ s) = skip_atoi n s"
    using number_tmp_decimal [of large n] by (subst skip_atoi_append) (simp_all add: foldl_conv_foldr)
  moreover have "skip_atoi n s = (n, s)" using assms(2) by (cases s) (auto simp: first_byte_def)
  ultimately show ?thesis using number_tmp_fits by simp
qed

lemma number_roundtrip_witness: "skip_atoi 0 (rev (number_tmp 10 False 4294967295) @ [46, 53]) = (4294967295, [46, 53])"
proof -
  have "\<not> isdigit (first_byte [46, 53])" by (simp add: isdigit_def first_byte_def)
  from number_roundtrip [OF _ this, of 4294967295 False] show ?thesis by simp
qed

text \<open>
  \<^verbatim>\<open>divide\<close> treats every base but ten as sixteen: the conversion \<^verbatim>\<open>%o\<close> prints the same as \<^verbatim>\<open>%x\<close>, not octal digits.
\<close>

lemma octal_prints_hexadecimal:
  "print_conv e fl w precision q 111 args st = print_conv e fl w precision q 120 args st"
proof -
  have "number_tmp 8 large n = number_tmp 16 large n" for large n
  proof (induction "unat n" arbitrary: n rule: less_induct)
    case less
    have "divide 8 n = divide 16 n" by (simp add: divide_def)
    thus ?case using less [of "snd (divide 16 n)"] divide_less [of n 16]
      by (subst (1 2) number_tmp.simps) (auto split: prod.splits)
  qed
  hence "print_number e n 8 = print_number e n 16" for n unfolding print_number_def by (simp cong: if_cong)
  thus ?thesis by (simp add: print_conv_def)
qed

text \<open>
  The result of a cut text need not be the length of the whole text: when the sign of a number falls past the end,
  the width is not corrected for it and one blank too many is counted.
\<close>

lemma snprintf_counts_too_much:
  "format_text [97, 37, 43, 45, 51, 100] [VInt 5] = Some [97, 43, 53, 32]"
  "\<exists>buf. rt_snprintf 0x1000 1 [97, 37, 43, 45, 51, 100] [VInt 5] (\<lambda>_. 0) = Some (5, buf)"
proof -
  show "format_text [97, 37, 43, 45, 51, 100] [VInt 5] = Some [97, 43, 53, 32]" by code_simp
  have e: "vsn_end 0x1000 1 = 0" by (simp add: vsn_end_def)
  have "map_option p_str (vsn_loop 0 (cstr [97, 37, 43, 45, 51, 100]) [VInt 5] \<lparr>p_str = 0, p_buf = \<lambda>_. 0\<rparr>) = Some 5" by code_simp
  thus "\<exists>buf. rt_snprintf 0x1000 1 [97, 37, 43, 45, 51, 100] [VInt 5] (\<lambda>_. 0) = Some (5, buf)"
    unfolding rt_snprintf_def rt_vsnprintf_def e Let_def by (auto simp: map_option_eq_Some)
qed

text \<open>With a size of 0 the end of the buffer is taken to be the end of the address space.\<close>

lemma snprintf_size_0: "0 < b \<Longrightarrow> b < 2 ^ 32 \<Longrightarrow> b + vsn_end b 0 = 2 ^ 32 - 1"
proof -
  assume b: "0 < b" "b < 2 ^ 32"
  have "(b + 0 + (2 ^ 32 - 1)) mod 2 ^ 32 = (b - 1 + 2 ^ 32) mod 2 ^ 32" using b by (simp add: add.commute)
  also have "\<dots> = b - 1" using b by (simp only: mod_add_self2) simp
  finally show ?thesis using b by (simp add: vsn_end_def)
qed

end
