(* ===== verification/Rt_Memory.thy ===== *)
theory Rt_Memory
  imports Rt_Kservice
begin

text \<open>
  The memory and the remaining string functions of \<^verbatim>\<open>src/kservice.c\<close> without \<^verbatim>\<open>RT_USING_TINY_SIZE\<close>: filling and copying by
  words, moving with overlap, comparing, searching. Memory is a function from addresses to bytes, words are
  stored with the low byte first.
\<close>

section \<open>Words in memory\<close>

type_synonym mem = "nat \<Rightarrow> u8"

definition byte_of :: "nat \<Rightarrow> u32 \<Rightarrow> u8" where "byte_of k v = ucast (drop_bit (8 * k) v)"

definition store_word :: "nat \<Rightarrow> u32 \<Rightarrow> mem \<Rightarrow> mem" where
  "store_word a v m = m(a := byte_of 0 v, a + 1 := byte_of 1 v, a + 2 := byte_of 2 v, a + 3 := byte_of 3 v)"

definition load_word :: "nat \<Rightarrow> mem \<Rightarrow> u32" where
  "load_word a m =
     ucast (m a) OR push_bit 8 (ucast (m (a + 1))) OR push_bit 16 (ucast (m (a + 2))) OR push_bit 24 (ucast (m (a + 3)))"

section \<open>Filling\<close>

fun memset_bytes :: "u8 \<Rightarrow> nat \<Rightarrow> nat \<Rightarrow> mem \<Rightarrow> mem" where
  "memset_bytes d a 0 m = m"
| "memset_bytes d a (Suc n) m = memset_bytes d (a + 1) n (m(a := d))"

fun memset_words :: "u32 \<Rightarrow> nat \<Rightarrow> nat \<Rightarrow> mem \<Rightarrow> nat \<times> nat \<times> mem" where
  "memset_words v a n m = (if n \<ge> 4 then memset_words v (a + 4) (n - 4) (store_word a v m) else (a, n, m))"

fun memset_blocks :: "u32 \<Rightarrow> nat \<Rightarrow> nat \<Rightarrow> mem \<Rightarrow> nat \<times> nat \<times> mem" where
  "memset_blocks v a n m =
     (if n \<ge> 16 then
        memset_blocks v (a + 16) (n - 16)
          (store_word (a + 12) v (store_word (a + 8) v (store_word (a + 4) v (store_word a v m))))
      else (a, n, m))"

declare memset_words.simps [simp del] memset_blocks.simps [simp del]

definition rt_memset :: "nat \<Rightarrow> u32 \<Rightarrow> nat \<Rightarrow> mem \<Rightarrow> mem" where
  "rt_memset s c n m =
     (let d = c AND 0xff;
          (a, n, m) =
            (if \<not> n < 4 \<and> s mod 4 = 0 then
               let buffer = push_bit 8 d OR d;
                   buffer = buffer OR push_bit 16 buffer;
                   (a, n, m) = memset_blocks buffer s n m
               in memset_words buffer a n m
             else (s, n, m))
      in memset_bytes (ucast d) a n m)"

section \<open>Copying\<close>

fun memcpy_bytes :: "nat \<Rightarrow> nat \<Rightarrow> nat \<Rightarrow> mem \<Rightarrow> mem" where
  "memcpy_bytes dst src 0 m = m"
| "memcpy_bytes dst src (Suc n) m = memcpy_bytes (dst + 1) (src + 1) n (m(dst := m src))"

definition copy_word :: "nat \<Rightarrow> nat \<Rightarrow> mem \<Rightarrow> mem" where "copy_word dst src m = store_word dst (load_word src m) m"

fun memcpy_words :: "nat \<Rightarrow> nat \<Rightarrow> nat \<Rightarrow> mem \<Rightarrow> nat \<times> nat \<times> nat \<times> mem" where
  "memcpy_words dst src n m =
     (if n \<ge> 4 then memcpy_words (dst + 4) (src + 4) (n - 4) (copy_word dst src m) else (dst, src, n, m))"

fun memcpy_blocks :: "nat \<Rightarrow> nat \<Rightarrow> nat \<Rightarrow> mem \<Rightarrow> nat \<times> nat \<times> nat \<times> mem" where
  "memcpy_blocks dst src n m =
     (if n \<ge> 16 then
        memcpy_blocks (dst + 16) (src + 16) (n - 16)
          (copy_word (dst + 12) (src + 12) (copy_word (dst + 8) (src + 8) (copy_word (dst + 4) (src + 4) (copy_word dst src m))))
      else (dst, src, n, m))"

declare memcpy_words.simps [simp del] memcpy_blocks.simps [simp del]

definition rt_memcpy :: "nat \<Rightarrow> nat \<Rightarrow> nat \<Rightarrow> mem \<Rightarrow> mem" where
  "rt_memcpy dst src n m =
     (let (dst, src, n, m) =
            (if \<not> n < 16 \<and> src mod 4 = 0 \<and> dst mod 4 = 0 then
               let (dst, src, n, m) = memcpy_blocks dst src n m in memcpy_words dst src n m
             else (dst, src, n, m))
      in memcpy_bytes dst src n m)"

text \<open>The downward loop of \<^verbatim>\<open>rt_memmove\<close>, with the two pointers at the end of the areas.\<close>

fun memmove_down :: "nat \<Rightarrow> nat \<Rightarrow> nat \<Rightarrow> mem \<Rightarrow> mem" where
  "memmove_down tmp s 0 m = m"
| "memmove_down tmp s (Suc n) m = memmove_down (tmp - 1) (s - 1) n (m(tmp - 1 := m (s - 1)))"

definition rt_memmove :: "nat \<Rightarrow> nat \<Rightarrow> nat \<Rightarrow> mem \<Rightarrow> mem" where
  "rt_memmove dest src n m =
     (if src < dest \<and> dest < src + n then memmove_down (dest + n) (src + n) n m else memcpy_bytes dest src n m)"

section \<open>Comparing and searching\<close>

text \<open>On the bytes from the two addresses on.\<close>

fun rt_memcmp :: "u8 list \<Rightarrow> u8 list \<Rightarrow> nat \<Rightarrow> int" where
  "rt_memcmp cs ct 0 = 0"
| "rt_memcmp cs ct (Suc n) =
     (let res = uint (first_byte cs) - uint (first_byte ct) in if res \<noteq> 0 then res else rt_memcmp (tl cs) (tl ct) n)"

text \<open>The result of \<^verbatim>\<open>rt_strstr\<close> is the offset of the match.\<close>

function strstr_loop :: "u8 list \<Rightarrow> u8 list \<Rightarrow> nat \<Rightarrow> nat \<Rightarrow> nat \<Rightarrow> nat option" where
  "strstr_loop s1 s2 l1 l2 k =
     (if l1 \<ge> l2 \<and> l1 > 0 then
        if rt_memcmp s1 s2 l2 = 0 then Some k else strstr_loop (tl s1) s2 (l1 - 1) l2 (k + 1)
      else None)"
  by pat_completeness auto
termination by (relation "measure (\<lambda>(_, _, l1, _, _). l1)") auto

declare strstr_loop.simps [simp del]

definition rt_strstr :: "u8 list \<Rightarrow> u8 list \<Rightarrow> nat option" where
  "rt_strstr s1 s2 =
     (let l2 = rt_strlen s2 in
      if l2 = 0 then Some 0 else strstr_loop s1 s2 (rt_strlen s1) l2 0)"

definition lower :: "int \<Rightarrow> int" where "lower c = (if c \<ge> 65 \<and> c \<le> 90 then c + 32 else c)"

text \<open>At the end of the first string its character is 0, which ends the loop.\<close>

fun strcasecmp_loop :: "u8 list \<Rightarrow> u8 list \<Rightarrow> int" where
  "strcasecmp_loop (x # a) b =
     (let ca = lower (uint x); cb = lower (uint (first_byte b)) in
      if ca = cb \<and> ca \<noteq> 0 then strcasecmp_loop a (tl b) else ca - cb)"
| "strcasecmp_loop [] b = 0 - lower (uint (first_byte b))"

definition rt_strcasecmp :: "u8 list \<Rightarrow> u8 list \<Rightarrow> u32" where
  "rt_strcasecmp a b = word_of_int (strcasecmp_loop a b)"

lemma add_mod4: "x mod 4 = 0 \<Longrightarrow> k mod 4 = 0 \<Longrightarrow> (x + k) mod 4 = (0 :: nat)"
  by presburger

section \<open>Reference definitions\<close>

definition fill :: "nat \<Rightarrow> nat \<Rightarrow> u8 \<Rightarrow> mem \<Rightarrow> mem" where
  "fill s n d m = (\<lambda>a. if s \<le> a \<and> a < s + n then d else m a)"

definition moved :: "nat \<Rightarrow> nat \<Rightarrow> nat \<Rightarrow> mem \<Rightarrow> mem" where
  "moved dst src n m = (\<lambda>a. if dst \<le> a \<and> a < dst + n then m (src + (a - dst)) else m a)"

lemma fill_0 [simp]: "fill a 0 d m = m"
  by (auto simp: fill_def fun_eq_iff)

lemma moved_0 [simp]: "moved dst src 0 m = m"
  by (auto simp: moved_def fun_eq_iff)

lemma fill_append: "fill (a + i) j d (fill a i d m) = fill a (i + j) d m"
  by (auto simp: fill_def fun_eq_iff)

lemma memset_bytes_fill: "memset_bytes d a n m = fill a n d m"
proof (induction n arbitrary: a m)
  case (Suc n)
  show ?case by (auto simp: Suc fill_def fun_eq_iff)
qed simp

lemma store_word_fill:
  assumes "\<And>k. k < 4 \<Longrightarrow> byte_of k v = d" shows "store_word a v m = fill a 4 d m"
proof -
  have "store_word a v m = memset_bytes d a 4 m"
    using assms [of 0] assms [of 1] assms [of 2] assms [of 3] by (simp add: store_word_def eval_nat_numeral)
  thus ?thesis by (simp add: memset_bytes_fill)
qed

lemma memset_words_fill:
  assumes "\<And>k. k < 4 \<Longrightarrow> byte_of k v = d"
  shows "memset_words v a n m = (a + 4 * (n div 4), n mod 4, fill a (4 * (n div 4)) d m)"
proof (induction n arbitrary: a m rule: less_induct)
  case (less n)
  show ?case
  proof (cases "n \<ge> 4")
    case True
    hence "n = 4 + (n - 4)" by simp
    then obtain n' where n: "n = 4 + n'" by blast
    have "memset_words v a n m = memset_words v (a + 4) n' (fill a 4 d m)"
      by (subst memset_words.simps) (simp add: n store_word_fill [OF assms])
    moreover have "4 * ((4 + n') div 4) = 4 + 4 * (n' div 4)" by (simp add: div_add_self1)
    ultimately show ?thesis using less [of n'] by (simp add: n fill_append)
  next
    case False thus ?thesis by (subst memset_words.simps) simp
  qed
qed

lemma memset_blocks_fill:
  assumes "\<And>k. k < 4 \<Longrightarrow> byte_of k v = d"
  shows "memset_blocks v a n m = (a + 16 * (n div 16), n mod 16, fill a (16 * (n div 16)) d m)"
proof (induction n arbitrary: a m rule: less_induct)
  case (less n)
  have four: "store_word (a + 12) v (store_word (a + 8) v (store_word (a + 4) v (store_word a v m))) = fill a 16 d m"
    using fill_append [of a 4 4] fill_append [of a 8 4] fill_append [of a 12 4] by (simp add: store_word_fill [OF assms])
  show ?case
  proof (cases "n \<ge> 16")
    case True
    hence "n = 16 + (n - 16)" by simp
    then obtain n' where n: "n = 16 + n'" by blast
    have "memset_blocks v a n m = memset_blocks v (a + 16) n' (fill a 16 d m)"
      by (subst memset_blocks.simps) (simp add: n four)
    moreover have "16 * ((16 + n') div 16) = 16 + 16 * (n' div 16)" by (simp add: div_add_self1)
    ultimately show ?thesis using less [of n'] by (simp add: n fill_append)
  next
    case False thus ?thesis by (subst memset_blocks.simps) simp
  qed
qed

lemma bit_byte_of: "k < 4 \<Longrightarrow> bit (byte_of k v) i \<longleftrightarrow> i < 8 \<and> bit v (8 * k + i)"
  by (auto simp: byte_of_def bit_unsigned_iff bit_drop_bit_eq dest: bit_imp_le_length)

lemma memset_buffer:
  fixes d :: u32
  assumes d: "d = c AND 0xff" and k: "k < 4"
  defines "b \<equiv> push_bit 8 d OR d"
  shows "byte_of k (b OR push_bit 16 b) = ucast d"
proof (rule bit_eqI)
  fix i assume "possible_bit TYPE(8 word) i"
  hence i: "i < 8" by simp
  have bd: "bit d j \<longleftrightarrow> j < 8 \<and> bit c j" for j
    by (auto simp: d byte_masks(1) bit_and_iff bit_mask_iff dest: bit_imp_le_length)
  consider "k = 0" | "k = 1" | "k = 2" | "k = 3" using k by linarith
  thus "bit (byte_of k (b OR push_bit 16 b)) i = bit (ucast d :: u8) i"
    by cases (use i in \<open>auto simp: bit_byte_of b_def bit_or_iff bit_push_bit_iff bd bit_unsigned_iff dest: bit_imp_le_length\<close>)
qed

lemma rt_memset_fill: "rt_memset s c n m = fill s n (ucast (c AND 0xff)) m"
proof -
  define d where "d = c AND 0xff"
  define b where "b = push_bit 8 d OR d"
  define v where "v = b OR push_bit 16 b"
  have bytes: "byte_of k v = ucast d" if "k < 4" for k using memset_buffer [OF d_def that] by (simp add: v_def b_def)
  have "16 * (n div 16) + (4 * (n mod 16 div 4) + n mod 16 mod 4) = n" by (simp only: mult_div_mod_eq)
  hence "16 * (n div 16) + 4 * (n mod 16 div 4) + n mod 16 mod 4 = n" by (simp only: add.assoc)
  thus ?thesis
    unfolding rt_memset_def Let_def d_def [symmetric] b_def [symmetric] v_def [symmetric]
    by (simp add: memset_blocks_fill [OF bytes] memset_words_fill [OF bytes] memset_bytes_fill fill_append add.assoc)
qed

section \<open>Copying by words\<close>

lemma memcpy_bytes_append:
  "memcpy_bytes dst src (i + j) m = memcpy_bytes (dst + i) (src + i) j (memcpy_bytes dst src i m)"
  by (induction i arbitrary: dst src m) simp_all

lemma byte_of_load_word: "k < 4 \<Longrightarrow> byte_of k (load_word a m) = m (a + k)"
proof (rule bit_eqI)
  fix i assume k: "k < 4" and "possible_bit TYPE(8 word) i"
  hence i: "i < 8" by simp
  have w: "bit (ucast (m j) :: u32) n \<longleftrightarrow> n < 8 \<and> bit (m j) n" for j n
    by (auto simp: bit_unsigned_iff dest: bit_imp_le_length)
  consider "k = 0" | "k = 1" | "k = 2" | "k = 3" using k by linarith
  thus "bit (byte_of k (load_word a m)) i = bit (m (a + k)) i"
    by cases (use i in \<open>auto simp: bit_byte_of load_word_def bit_or_iff bit_push_bit_iff w\<close>)
qed

lemma load_word_bytes:
  assumes "\<And>k. k < 4 \<Longrightarrow> m (a + k) = byte_of k v" shows "load_word a m = v"
proof (rule bit_eqI)
  fix i assume "possible_bit TYPE(32 word) i"
  hence i: "i < 32" by simp
  define k where "k = i div 8"
  have k: "k < 4" "i = 8 * k + i mod 8" using i by (auto simp: k_def)
  have "bit (load_word a m) i = bit (byte_of k (load_word a m)) (i mod 8)" using k bit_byte_of [OF k(1)] by simp
  also have "\<dots> = bit (byte_of k v) (i mod 8)" using byte_of_load_word [OF k(1)] assms [OF k(1)] by simp
  also have "\<dots> = bit v i" using k bit_byte_of [OF k(1)] by simp
  finally show "bit (load_word a m) i = bit v i" .
qed

lemma load_store_word: "load_word a (store_word a v m) = v"
proof (rule load_word_bytes)
  fix j :: nat assume "j < 4"
  then consider "j = 0" | "j = 1" | "j = 2" | "j = 3" by linarith
  thus "store_word a v m (a + j) = byte_of j v" by cases (simp_all add: store_word_def)
qed

text \<open>Between aligned addresses a word is never copied onto part of itself, so copying words is copying bytes in order.\<close>

lemma copy_word_bytes:
  assumes "dst mod 4 = 0" "src mod 4 = 0"
  shows "copy_word dst src m = memcpy_bytes dst src 4 m"
proof -
  have "dst = src \<or> dst + 4 \<le> src \<or> src + 4 \<le> dst" using assms by presburger
  thus ?thesis
    using byte_of_load_word [of 0 src m] byte_of_load_word [of 1 src m] byte_of_load_word [of 2 src m] byte_of_load_word [of 3 src m]
    by (auto simp: copy_word_def store_word_def numeral_eq_Suc fun_eq_iff)
qed

lemma memcpy_words_bytes:
  assumes "dst mod 4 = 0" "src mod 4 = 0"
  shows "memcpy_words dst src n m = (dst + 4 * (n div 4), src + 4 * (n div 4), n mod 4, memcpy_bytes dst src (4 * (n div 4)) m)"
  using assms
proof (induction n arbitrary: dst src m rule: less_induct)
  case (less n)
  show ?case
  proof (cases "n \<ge> 4")
    case True
    hence "n = 4 + (n - 4)" by simp
    then obtain n' where n: "n = 4 + n'" by blast
    have "memcpy_words dst src n m = memcpy_words (dst + 4) (src + 4) n' (memcpy_bytes dst src 4 m)"
      using less.prems by (subst memcpy_words.simps) (simp add: n copy_word_bytes)
    moreover have "4 * ((4 + n') div 4) = 4 + 4 * (n' div 4)" by (simp add: div_add_self1)
    moreover have "(dst + 4) mod 4 = 0" "(src + 4) mod 4 = 0" using less.prems by simp_all
    ultimately show ?thesis using less.IH [of n' "dst + 4" "src + 4"] by (simp add: n memcpy_bytes_append [of dst src 4])
  next
    case False thus ?thesis by (subst memcpy_words.simps) simp
  qed
qed

lemma memcpy_blocks_bytes:
  assumes "dst mod 4 = 0" "src mod 4 = 0"
  shows "memcpy_blocks dst src n m =
    (dst + 16 * (n div 16), src + 16 * (n div 16), n mod 16, memcpy_bytes dst src (16 * (n div 16)) m)"
  using assms
proof (induction n arbitrary: dst src m rule: less_induct)
  case (less n)
  have al: "(dst + 4) mod 4 = 0" "(src + 4) mod 4 = 0" "(dst + 8) mod 4 = 0" "(src + 8) mod 4 = 0"
    "(dst + 12) mod 4 = 0" "(src + 12) mod 4 = 0" "(dst + 16) mod 4 = 0" "(src + 16) mod 4 = 0" using less.prems by (simp_all add: add_mod4)
  have four: "copy_word (dst + 12) (src + 12) (copy_word (dst + 8) (src + 8) (copy_word (dst + 4) (src + 4) (copy_word dst src m))) =
      memcpy_bytes dst src 16 m"
    using memcpy_bytes_append [of dst src 4 4 m] memcpy_bytes_append [of dst src 8 4 m] memcpy_bytes_append [of dst src 12 4 m]
    by (simp add: copy_word_bytes less.prems al)
  show ?case
  proof (cases "n \<ge> 16")
    case True
    hence "n = 16 + (n - 16)" by simp
    then obtain n' where n: "n = 16 + n'" by blast
    have "memcpy_blocks dst src n m = memcpy_blocks (dst + 16) (src + 16) n' (memcpy_bytes dst src 16 m)"
      by (subst memcpy_blocks.simps) (simp add: n four)
    moreover have "16 * ((16 + n') div 16) = 16 + 16 * (n' div 16)" by (simp add: div_add_self1)
    ultimately show ?thesis using less.IH [of n' "dst + 16" "src + 16"] al by (simp add: n memcpy_bytes_append [of dst src 16])
  next
    case False thus ?thesis by (subst memcpy_blocks.simps) simp
  qed
qed

lemma rt_memcpy_bytes: "rt_memcpy dst src n m = memcpy_bytes dst src n m"
proof (cases "\<not> n < 16 \<and> src mod 4 = 0 \<and> dst mod 4 = 0")
  case True
  have n: "16 * (n div 16) + (4 * (n mod 16 div 4) + n mod 16 mod 4) = n" by (simp only: mult_div_mod_eq)
  have "(dst + 16 * (n div 16)) mod 4 = 0" "(src + 16 * (n div 16)) mod 4 = 0" using True by (simp_all add: add_mod4 mod_mult_left_eq [of 16, symmetric])
  hence "rt_memcpy dst src n m =
      memcpy_bytes (dst + 16 * (n div 16) + 4 * (n mod 16 div 4)) (src + 16 * (n div 16) + 4 * (n mod 16 div 4)) (n mod 16 mod 4)
        (memcpy_bytes (dst + 16 * (n div 16)) (src + 16 * (n div 16)) (4 * (n mod 16 div 4)) (memcpy_bytes dst src (16 * (n div 16)) m))"
    using True by (simp add: rt_memcpy_def memcpy_blocks_bytes memcpy_words_bytes)
  also have "\<dots> = memcpy_bytes dst src (16 * (n div 16) + (4 * (n mod 16 div 4) + n mod 16 mod 4)) m"
    by (simp only: memcpy_bytes_append)
  finally show ?thesis unfolding n .
qed (auto simp: rt_memcpy_def)

section \<open>Overlap\<close>

lemma memcpy_bytes_moved:
  assumes "dst \<le> src \<or> src + n \<le> dst" shows "memcpy_bytes dst src n m = moved dst src n m"
  using assms
proof (induction n arbitrary: dst src m)
  case (Suc n)
  have "memcpy_bytes dst src (Suc n) m = moved (dst + 1) (src + 1) n (m(dst := m src))"
    using Suc.IH [of "dst + 1" "src + 1"] Suc.prems by auto
  also have "\<dots> = moved dst src (Suc n) m"
  proof
    fix a
    show "moved (dst + 1) (src + 1) n (m(dst := m src)) a = moved dst src (Suc n) m a"
      using Suc.prems by (cases "a = dst") (auto simp: moved_def Suc_diff_Suc)
  qed
  finally show ?case .
qed simp

lemma memmove_down_moved:
  assumes "src < dst" shows "memmove_down (dst + n) (src + n) n m = moved dst src n m"
proof (induction n arbitrary: m)
  case (Suc n)
  show ?case using assms by (auto simp: Suc moved_def fun_eq_iff not_less less_Suc_eq)
qed simp

section \<open>Strings\<close>

lemma rt_memcmp_eq_0:
  assumes "n \<le> length cs" "n \<le> length ct" shows "rt_memcmp cs ct n = 0 \<longleftrightarrow> take n cs = take n ct"
  using assms
proof (induction n arbitrary: cs ct)
  case (Suc n)
  obtain c cs' d ct' where cs: "cs = c # cs'" "ct = d # ct'" using Suc.prems by (cases cs; cases ct) auto
  have "uint c - uint d = 0 \<longleftrightarrow> c = d" by (simp add: word_uint_eq_iff)
  thus ?case using Suc cs by (auto simp: first_byte_def Let_def)
qed simp

lemma take_length_cstr: "length (cstr s) = l \<Longrightarrow> take l s = cstr s"
  by (metis cstr_def takeWhile_eq_take)

text \<open>The search tries the offsets in order.\<close>

lemma strstr_loop_find:
  assumes "0 < l2" "l2 \<le> length s2" "k + l1 \<le> length s1"
  shows "strstr_loop (drop k s1) s2 l1 l2 k = find (\<lambda>j. take l2 (drop j s1) = take l2 s2) [k..<k + (Suc l1 - l2)]"
  using assms
proof (induction l1 arbitrary: k)
  case 0 thus ?case by (subst strstr_loop.simps) simp
next
  case (Suc l1)
  show ?case
  proof (cases "l2 \<le> Suc l1")
    case False thus ?thesis by (subst strstr_loop.simps) simp
  next
    case True
    have "rt_memcmp (drop k s1) s2 l2 = 0 \<longleftrightarrow> take l2 (drop k s1) = take l2 s2" using True Suc.prems by (intro rt_memcmp_eq_0) auto
    moreover have "[k..<k + (Suc (Suc l1) - l2)] = k # [k + 1..<k + 1 + (Suc l1 - l2)]" using True by (simp add: upt_conv_Cons Suc_diff_le del: upt_Suc)
    moreover have "tl (drop k s1) = drop (k + 1) s1" by (simp add: drop_Suc tl_drop)
    ultimately show ?thesis
      using Suc.IH [of "k + 1"] Suc.prems True by (subst strstr_loop.simps) simp
  qed
qed

lemma lower_facts: "lower (uint c) = 0 \<longleftrightarrow> c = 0" "0 \<le> lower (uint c) \<and> lower (uint c) < 256" for c :: u8
  using uint_ge_0 [of c] uint_lt2p [of c] by (auto simp: lower_def word_uint_eq_iff)

lemma strcasecmp_loop_eq_0:
  "strcasecmp_loop a b = 0 \<longleftrightarrow> map (lower \<circ> uint) (cstr a) = map (lower \<circ> uint) (cstr b)"
proof (induction a b rule: strcasecmp_loop.induct)
  case (1 x a b)
  let ?y = "first_byte b"
  have ca: "cstr (x # a) = (if x = 0 then [] else x # cstr a)" by (simp add: cstr_def)
  show ?case
  proof (cases "lower (uint x) = lower (uint ?y) \<and> lower (uint x) \<noteq> 0")
    case True
    hence "x \<noteq> 0" "?y \<noteq> 0" using lower_facts(1) by metis+
    thus ?thesis using True 1 [OF refl refl True] ca cstr_unfold [of b] by simp
  next
    case False
    hence "strcasecmp_loop (x # a) b = lower (uint x) - lower (uint ?y)" by auto
    thus ?thesis using False ca cstr_unfold [of b] lower_facts(1) [of x] lower_facts(1) [of ?y] by (auto split: if_splits)
  qed
next
  case (2 b)
  show ?case using cstr_unfold [of b] lower_facts(1) [of "first_byte b"] by (auto simp: cstr_def)
qed

lemma strcasecmp_loop_bound: "\<bar>strcasecmp_loop a b\<bar> < 300"
proof (induction a b rule: strcasecmp_loop.induct)
  case (1 x a b)
  thus ?case using lower_facts(2) [of x] lower_facts(2) [of "first_byte b"] by (auto simp: Let_def)
next
  case (2 b) thus ?case using lower_facts(2) [of "first_byte b"] by simp
qed

section \<open>Properties\<close>

text \<open>
  C35. The word-wise \<^verbatim>\<open>rt_memset\<close> and \<^verbatim>\<open>rt_memcpy\<close> equal their byte-wise definitions whatever the alignment and the length:
  filling sets exactly the bytes of the area to the low byte of the value; copying gives every byte of the destination the
  old byte of the source when the destination does not lie inside the source area above its start, and
  \<^verbatim>\<open>rt_memmove\<close> does so for every overlap. Nothing outside the destination changes.
\<close>

theorem memory_functions_correct:
  "rt_memset s c n m = fill s n (ucast (c AND 0xff)) m \<and>
   rt_memcpy dst src n m = memcpy_bytes dst src n m \<and>
   (dst \<le> src \<or> src + n \<le> dst \<longrightarrow> rt_memcpy dst src n m = moved dst src n m) \<and>
   rt_memmove dst src n m = moved dst src n m"
proof -
  have "rt_memmove dst src n m = moved dst src n m"
    using memmove_down_moved [of src dst n m] memcpy_bytes_moved [of dst src n m] by (auto simp: rt_memmove_def not_less)
  thus ?thesis by (simp add: rt_memset_fill rt_memcpy_bytes memcpy_bytes_moved)
qed

theorem memory_functions_correct_witness:
  "rt_memcpy 0x100 0x104 40 (\<lambda>a. of_nat a) = moved 0x100 0x104 40 (\<lambda>a. of_nat a)"
  using memory_functions_correct [of 0 0 40 "\<lambda>a. of_nat a" "0x100" "0x104"]
  by (elim conjE mp) simp

text \<open>
  \<^verbatim>\<open>rt_strstr\<close> returns the first offset at which the second string occurs in the first, and nothing when there is
  none. \<^verbatim>\<open>rt_strcasecmp\<close> is 0 exactly for strings that agree up to the case of letters.
\<close>

lemma string_search_correct:
  "rt_strstr s1 s2 =
     find (\<lambda>j. take (length (cstr s2)) (drop j (cstr s1)) = cstr s2) [0..<Suc (length (cstr s1)) - length (cstr s2)] \<and>
   (rt_strcasecmp a b = 0 \<longleftrightarrow> map (lower \<circ> uint) (cstr a) = map (lower \<circ> uint) (cstr b))"
proof -
  let ?l1 = "length (cstr s1)" let ?l2 = "length (cstr s2)"
  have "rt_strstr s1 s2 = find (\<lambda>j. take ?l2 (drop j (cstr s1)) = cstr s2) [0..<Suc ?l1 - ?l2]"
  proof (cases "cstr s2 = []")
    case True thus ?thesis by (simp add: rt_strstr_def rt_strlen_cstr upt_conv_Cons del: upt_Suc)
  next
    case False
    have le: "?l2 \<le> length s2" "?l1 \<le> length s1" by (simp_all add: cstr_def length_takeWhile_le)
    have "rt_strstr s1 s2 = find (\<lambda>j. take ?l2 (drop j s1) = take ?l2 s2) [0..<Suc ?l1 - ?l2]"
      using strstr_loop_find [of ?l2 s2 0 ?l1 s1] False le by (simp add: rt_strstr_def rt_strlen_cstr Let_def del: upt_Suc)
    also have "\<dots> = find (\<lambda>j. take ?l2 (drop j (cstr s1)) = cstr s2) [0..<Suc ?l1 - ?l2]"
    proof (rule find_cong [OF refl])
      fix j assume "j \<in> set [0..<Suc ?l1 - ?l2]"
      hence "take ?l2 (drop j (take ?l1 s1)) = take ?l2 (drop j s1)" by (simp add: drop_take)
      thus "(take ?l2 (drop j s1) = take ?l2 s2) = (take ?l2 (drop j (cstr s1)) = cstr s2)"
        using take_length_cstr [OF refl, of s1] take_length_cstr [OF refl, of s2] by simp
    qed
    finally show ?thesis .
  qed
  moreover have "rt_strcasecmp a b = 0 \<longleftrightarrow> strcasecmp_loop a b = 0"
  proof -
    have "\<bar>strcasecmp_loop a b\<bar> < 2 ^ 32" using strcasecmp_loop_bound [of a b] by simp
    thus ?thesis unfolding rt_strcasecmp_def by (auto simp: word_of_int_eq_0_iff zdvd_not_zless abs_less_iff dest: zdvd_imp_le)
  qed
  ultimately show ?thesis using strcasecmp_loop_eq_0 by simp
qed

end
