(* ===== verification/Rt_Mem.thy ===== *)
theory Rt_Mem
  imports Rt_Memory
begin

text \<open>
  The small memory heap, \<^verbatim>\<open>src/mem.c\<close>: one region cut into blocks, each after a header with the
  offsets of its neighbours. Allocation is first fit from the lowest free block; releasing a block
  merges it with free neighbours. The code between taking and releasing the heap's semaphore is modelled;
  the semaphore makes it exclusive and is the subject of \<open>Rt_Sem\<close>. Pointers into the heap are offsets from
  \<^verbatim>\<open>heap_ptr\<close>, pointers given to and by the user are addresses, both below $2^{32}$ with the C code's wrap-around
  written out. The build has \<^verbatim>\<open>RT_USING_MEMTRACE\<close>, so that a header has 16 bytes.
\<close>

section \<open>Data\<close>

definition add32 :: "nat \<Rightarrow> nat \<Rightarrow> nat" where "add32 a b = (a + b) mod 2 ^ 32"
definition sub32 :: "nat \<Rightarrow> nat \<Rightarrow> nat" where "sub32 a b = (a + (2 ^ 32 - b mod 2 ^ 32)) mod 2 ^ 32"

record heap_mem =
  hm_magic :: u16
  hm_used :: u16
  hm_next :: nat
  hm_prev :: nat
  hm_thread :: "u8 list"

definition HEAP_MAGIC :: u16 where "HEAP_MAGIC = 0x1ea0"
definition MIN_SIZE_ALIGNED :: nat where "MIN_SIZE_ALIGNED = 12"
definition SIZEOF_STRUCT_MEM :: nat where "SIZEOF_STRUCT_MEM = 16"

record rt_heap =
  heap_ptr :: nat
  heap_end :: nat
  mem_at :: "nat \<Rightarrow> heap_mem"
  lfree :: nat
  mem_size_aligned :: nat
  used_mem :: nat
  max_mem :: nat
  heap_data :: "nat \<Rightarrow> u8"

definition upd_mem :: "nat \<Rightarrow> (heap_mem \<Rightarrow> heap_mem) \<Rightarrow> rt_heap \<Rightarrow> rt_heap" where
  "upd_mem p f h = h\<lparr>mem_at := (mem_at h)(p := f (mem_at h p))\<rparr>"

section \<open>Operations\<close>

text \<open>\<^verbatim>\<open>rt_mem_setname\<close>: at most four characters, padded with spaces.\<close>

definition rt_mem_setname :: "u8 list \<Rightarrow> heap_mem \<Rightarrow> heap_mem" where
  "rt_mem_setname name m =
     (let ch = take 4 (cstr name) in m\<lparr>hm_thread := ch @ replicate (4 - length ch) 32\<rparr>)"

text \<open>Both halves of \<^verbatim>\<open>plug_holes\<close> join a block with the free block after it.\<close>

definition join_blocks :: "nat \<Rightarrow> nat \<Rightarrow> rt_heap \<Rightarrow> rt_heap" where
  "join_blocks mem nmem h =
     (let h = (if lfree h = nmem then h\<lparr>lfree := mem\<rparr> else h);
          h = upd_mem mem (\<lambda>m. m\<lparr>hm_next := hm_next (mem_at h nmem)\<rparr>) h
      in upd_mem (hm_next (mem_at h nmem)) (\<lambda>m. m\<lparr>hm_prev := mem\<rparr>) h)"

definition plug_forward :: "nat \<Rightarrow> rt_heap \<Rightarrow> rt_heap" where
  "plug_forward mem h =
     (let nmem = hm_next (mem_at h mem) in
      if mem \<noteq> nmem \<and> hm_used (mem_at h nmem) = 0 \<and> nmem \<noteq> heap_end h then join_blocks mem nmem h else h)"

definition plug_backward :: "nat \<Rightarrow> rt_heap \<Rightarrow> rt_heap" where
  "plug_backward mem h =
     (let pmem = hm_prev (mem_at h mem) in
      if pmem \<noteq> mem \<and> hm_used (mem_at h pmem) = 0 then join_blocks pmem mem h else h)"

definition plug_holes :: "nat \<Rightarrow> rt_heap \<Rightarrow> rt_heap option" where
  "plug_holes mem h =
     do { RT_ASSERT (mem < heap_end h);
          RT_ASSERT (hm_used (mem_at h mem) = 0);
          Some (plug_backward mem (plug_forward mem h)) }"

text \<open>A region too small for two headers leaves the heap as it is.\<close>

definition rt_system_heap_init :: "u32 \<Rightarrow> u32 \<Rightarrow> rt_heap \<Rightarrow> rt_heap" where
  "rt_system_heap_init begin_addr end_addr h =
     (let begin_align = unat (RT_ALIGN begin_addr (of_nat RT_ALIGN_SIZE));
          end_align = unat (RT_ALIGN_DOWN end_addr (of_nat RT_ALIGN_SIZE))
      in
      if end_align > 2 * SIZEOF_STRUCT_MEM \<and> end_align - 2 * SIZEOF_STRUCT_MEM \<ge> begin_align then
        let h = h\<lparr>mem_size_aligned := end_align - begin_align - 2 * SIZEOF_STRUCT_MEM, heap_ptr := begin_align\<rparr>;
            next = add32 (mem_size_aligned h) SIZEOF_STRUCT_MEM;
            h = upd_mem 0 (\<lambda>m. rt_mem_setname [73, 78, 73, 84]
                  (m\<lparr>hm_magic := HEAP_MAGIC, hm_next := next, hm_prev := 0, hm_used := 0\<rparr>)) h;
            h = h\<lparr>heap_end := hm_next (mem_at h 0)\<rparr>;
            h = upd_mem (heap_end h) (\<lambda>m. rt_mem_setname [73, 78, 73, 84]
                  (m\<lparr>hm_magic := HEAP_MAGIC, hm_used := 1, hm_next := next, hm_prev := next\<rparr>)) h
        in h\<lparr>lfree := 0\<rparr>
      else h)"

text \<open>
  The loop of \<^verbatim>\<open>rt_malloc\<close> up to the block it takes, the block being taken, and the loop that moves the
  lowest free pointer.
\<close>

partial_function (option) malloc_find :: "rt_heap \<Rightarrow> nat \<Rightarrow> nat \<Rightarrow> nat option option" where
  "malloc_find h sz ptr =
     (if ptr < sub32 (mem_size_aligned h) sz then
        if hm_used (mem_at h ptr) = 0 \<and> sub32 (hm_next (mem_at h ptr)) (add32 ptr SIZEOF_STRUCT_MEM) \<ge> sz
        then Some (Some ptr)
        else malloc_find h sz (hm_next (mem_at h ptr))
      else Some None)"

definition add_used :: "nat \<Rightarrow> rt_heap \<Rightarrow> rt_heap" where
  "add_used n h =
     (let h = h\<lparr>used_mem := add32 (used_mem h) n\<rparr> in
      if max_mem h < used_mem h then h\<lparr>max_mem := used_mem h\<rparr> else h)"

definition split_block :: "nat \<Rightarrow> nat \<Rightarrow> rt_heap \<Rightarrow> rt_heap" where
  "split_block ptr ptr2 h =
     (let h = upd_mem ptr2 (\<lambda>m. rt_mem_setname [32, 32, 32, 32]
                (m\<lparr>hm_magic := HEAP_MAGIC, hm_used := 0, hm_next := hm_next (mem_at h ptr), hm_prev := ptr\<rparr>)) h
      in upd_mem ptr (\<lambda>m. m\<lparr>hm_next := ptr2\<rparr>) h)"

definition link_back :: "nat \<Rightarrow> rt_heap \<Rightarrow> rt_heap" where
  "link_back ptr2 h =
     (let next = hm_next (mem_at h ptr2) in
      if next \<noteq> add32 (mem_size_aligned h) SIZEOF_STRUCT_MEM then upd_mem next (\<lambda>m. m\<lparr>hm_prev := ptr2\<rparr>) h else h)"

definition malloc_take :: "nat \<Rightarrow> nat \<Rightarrow> rt_heap \<Rightarrow> rt_heap" where
  "malloc_take sz ptr h =
     (if sub32 (hm_next (mem_at h ptr)) (add32 ptr SIZEOF_STRUCT_MEM) \<ge> add32 sz (SIZEOF_STRUCT_MEM + MIN_SIZE_ALIGNED) then
        let ptr2 = add32 ptr (SIZEOF_STRUCT_MEM + sz);
            h = upd_mem ptr (\<lambda>m. m\<lparr>hm_used := 1\<rparr>) (split_block ptr ptr2 h)
        in add_used (add32 sz SIZEOF_STRUCT_MEM) (link_back ptr2 h)
      else
        let h = upd_mem ptr (\<lambda>m. m\<lparr>hm_used := 1\<rparr>) h
        in add_used (sub32 (hm_next (mem_at h ptr)) ptr) h)"

partial_function (option) lfree_next :: "rt_heap \<Rightarrow> nat \<Rightarrow> nat option" where
  "lfree_next h p =
     (if hm_used (mem_at h p) \<noteq> 0 \<and> p \<noteq> heap_end h then lfree_next h (hm_next (mem_at h p)) else Some p)"

definition malloc_finish :: "nat \<Rightarrow> nat \<Rightarrow> rt_heap \<Rightarrow> (nat \<times> rt_heap) option" where
  "malloc_finish n ptr h =
     do { h \<leftarrow> (if ptr = lfree h then
                  do { p \<leftarrow> lfree_next h (lfree h);
                       RT_ASSERT (p = heap_end h \<or> hm_used (mem_at h p) = 0);
                       Some (h\<lparr>lfree := p\<rparr>) }
                else Some h);
          RT_ASSERT (heap_ptr h + ptr + SIZEOF_STRUCT_MEM + n \<le> heap_ptr h + heap_end h);
          RT_ASSERT ((heap_ptr h + ptr + SIZEOF_STRUCT_MEM) mod RT_ALIGN_SIZE = 0);
          RT_ASSERT ((heap_ptr h + ptr) mod RT_ALIGN_SIZE = 0);
          Some (heap_ptr h + ptr + SIZEOF_STRUCT_MEM, h) }"

text \<open>The name is that of the calling thread, or \<^verbatim>\<open>"NONE"\<close>. A null pointer is 0.\<close>

definition rt_malloc :: "u8 list \<Rightarrow> u32 \<Rightarrow> rt_heap \<Rightarrow> (nat \<times> rt_heap) option" where
  "rt_malloc name sz h =
     (if sz = 0 then Some (0, h)
      else
        let n = unat (RT_ALIGN sz (of_nat RT_ALIGN_SIZE)) in
        if n > mem_size_aligned h then Some (0, h)
        else
          do { let n = (if n < MIN_SIZE_ALIGNED then MIN_SIZE_ALIGNED else n);
               found \<leftarrow> malloc_find h n (lfree h);
               case found of
                 None \<Rightarrow> Some (0, h)
               | Some ptr \<Rightarrow>
                   malloc_finish n ptr
                     (upd_mem ptr (\<lambda>m. rt_mem_setname name (m\<lparr>hm_magic := HEAP_MAGIC\<rparr>)) (malloc_take n ptr h)) })"

definition free_mark :: "nat \<Rightarrow> rt_heap \<Rightarrow> rt_heap" where
  "free_mark mem h =
     (let h = upd_mem mem (\<lambda>m. rt_mem_setname [32, 32, 32, 32] (m\<lparr>hm_used := 0, hm_magic := HEAP_MAGIC\<rparr>)) h;
          h = (if mem < lfree h then h\<lparr>lfree := mem\<rparr> else h)
      in h\<lparr>used_mem := sub32 (used_mem h) (sub32 (hm_next (mem_at h mem)) mem)\<rparr>)"

definition rt_free :: "nat \<Rightarrow> rt_heap \<Rightarrow> rt_heap option" where
  "rt_free rmem h =
     (if rmem = 0 then Some h
      else
        do { RT_ASSERT (rmem mod RT_ALIGN_SIZE = 0);
             RT_ASSERT (rmem \<ge> heap_ptr h \<and> rmem < heap_ptr h + heap_end h);
             let mem = sub32 (sub32 rmem SIZEOF_STRUCT_MEM) (heap_ptr h);
             RT_ASSERT (hm_used (mem_at h mem) \<noteq> 0);
             RT_ASSERT (hm_magic (mem_at h mem) = HEAP_MAGIC);
             plug_holes mem (free_mark mem h) })"

text \<open>\<^verbatim>\<open>rt_memcpy\<close> and \<^verbatim>\<open>rt_memset\<close> on the bytes of the heap.\<close>

definition copy_data :: "nat \<Rightarrow> nat \<Rightarrow> nat \<Rightarrow> rt_heap \<Rightarrow> rt_heap" where
  "copy_data dst src n h = h\<lparr>heap_data := rt_memcpy dst src n (heap_data h)\<rparr>"

definition zero_data :: "nat \<Rightarrow> nat \<Rightarrow> rt_heap \<Rightarrow> rt_heap" where
  "zero_data dst n h = h\<lparr>heap_data := rt_memset dst 0 n (heap_data h)\<rparr>"

definition rt_realloc :: "u8 list \<Rightarrow> nat \<Rightarrow> u32 \<Rightarrow> rt_heap \<Rightarrow> (nat \<times> rt_heap) option" where
  "rt_realloc name rmem newsz h =
     (let n = unat (RT_ALIGN newsz (of_nat RT_ALIGN_SIZE)) in
      if n > mem_size_aligned h then Some (0, h)
      else if n = 0 then do { h \<leftarrow> rt_free rmem h; Some (0, h) }
      else if rmem = 0 then rt_malloc name (of_nat n) h
      else if rmem < heap_ptr h \<or> rmem \<ge> heap_ptr h + heap_end h then Some (rmem, h)
      else
        let ptr = sub32 (sub32 rmem SIZEOF_STRUCT_MEM) (heap_ptr h);
            sz = sub32 (sub32 (hm_next (mem_at h ptr)) ptr) SIZEOF_STRUCT_MEM
        in
        if sz = n then Some (rmem, h)
        else if add32 n (SIZEOF_STRUCT_MEM + 12) < sz then
          do { let h = h\<lparr>used_mem := sub32 (used_mem h) (sub32 sz n)\<rparr>;
               let ptr2 = add32 ptr (SIZEOF_STRUCT_MEM + n);
               h \<leftarrow> plug_holes ptr2 (link_back ptr2 (split_block ptr ptr2 h));
               Some (rmem, h) }
        else
          do { (nmem, h) \<leftarrow> rt_malloc name (of_nat n) h;
               if nmem \<noteq> 0 then
                 do { h \<leftarrow> rt_free rmem (copy_data nmem rmem (if sz < n then sz else n) h); Some (nmem, h) }
               else Some (nmem, h) })"

definition rt_calloc :: "u8 list \<Rightarrow> u32 \<Rightarrow> u32 \<Rightarrow> rt_heap \<Rightarrow> (nat \<times> rt_heap) option" where
  "rt_calloc name count sz h =
     do { (p, h) \<leftarrow> rt_malloc name (count * sz) h;
          Some (p, if p \<noteq> 0 then zero_data p (unat (count * sz)) h else h) }"

definition rt_memory_info :: "rt_heap \<Rightarrow> nat \<times> nat \<times> nat" where
  "rt_memory_info h = (mem_size_aligned h, used_mem h, max_mem h)"



section \<open>The shape of the heap\<close>

text \<open>
  The headers from offset \<open>a\<close> to \<open>e\<close> are those of the list: each points to the next and back to the one
  before, and leaves room for data. Only four bytes are certain: \<^verbatim>\<open>rt_realloc\<close> does not apply the minimum.
\<close>

definition hdr_ok :: "(nat \<Rightarrow> heap_mem) \<Rightarrow> nat \<Rightarrow> nat \<Rightarrow> bool" where
  "hdr_ok m p a \<longleftrightarrow> a mod 4 = 0 \<and> a + 20 \<le> hm_next (m a) \<and> hm_prev (m a) = p \<and>
     hm_magic (m a) = HEAP_MAGIC \<and> hm_used (m a) \<in> {0, 1}"

primrec seg :: "(nat \<Rightarrow> heap_mem) \<Rightarrow> nat \<Rightarrow> nat \<Rightarrow> nat list \<Rightarrow> nat \<Rightarrow> bool" where
  "seg m p a [] e \<longleftrightarrow> a = e"
| "seg m p a (b # bs) e \<longleftrightarrow> b = a \<and> hdr_ok m p a \<and> seg m a (hm_next (m a)) bs e"

definition free_at :: "rt_heap \<Rightarrow> nat \<Rightarrow> bool" where "free_at h a \<longleftrightarrow> hm_used (mem_at h a) = 0"

definition blk_len :: "rt_heap \<Rightarrow> nat \<Rightarrow> nat" where "blk_len h a = hm_next (mem_at h a) - a"

text \<open>
  A heap with the blocks \<open>bs\<close>: the headers, a used header at the end, the lowest-free pointer at a block
  or the end, and everything within the address space. The invariant adds that no two neighbours are both
  free and that the bytes in use are counted.
\<close>

definition heap_shape :: "nat list \<Rightarrow> rt_heap \<Rightarrow> bool" where
  "heap_shape bs h \<longleftrightarrow>
     bs \<noteq> [] \<and> seg (mem_at h) 0 0 bs (heap_end h) \<and> \<not> free_at h (heap_end h) \<and>
     lfree h \<in> set bs \<union> {heap_end h} \<and>
     mem_size_aligned h + SIZEOF_STRUCT_MEM = heap_end h \<and> heap_end h mod 4 = 0 \<and> heap_ptr h mod 4 = 0 \<and>
     28 \<le> heap_end h \<and>
     heap_ptr h + heap_end h + SIZEOF_STRUCT_MEM \<le> 2 ^ 32"

definition no_adjacent :: "nat list \<Rightarrow> rt_heap \<Rightarrow> bool" where
  "no_adjacent bs h \<longleftrightarrow> successively (\<lambda>a b. \<not> (free_at h a \<and> free_at h b)) bs"

definition used_sum :: "nat list \<Rightarrow> rt_heap \<Rightarrow> nat" where
  "used_sum bs h = (\<Sum>a\<leftarrow>bs. if free_at h a then 0 else blk_len h a)"

definition heap_inv :: "nat list \<Rightarrow> rt_heap \<Rightarrow> bool" where
  "heap_inv bs h \<longleftrightarrow> heap_shape bs h \<and> no_adjacent bs h \<and> used_mem h = used_sum bs h"

text \<open>The lowest-free pointer lives up to its name.\<close>

definition lowest_free :: "nat list \<Rightarrow> rt_heap \<Rightarrow> bool" where
  "lowest_free bs h \<longleftrightarrow> (\<forall>b\<in>set bs. free_at h b \<longrightarrow> lfree h \<le> b)"

text \<open>The blocks handed out: address and length.\<close>

definition live :: "nat list \<Rightarrow> rt_heap \<Rightarrow> (nat \<times> nat) set" where
  "live bs h = {(heap_ptr h + a + SIZEOF_STRUCT_MEM, blk_len h a - SIZEOF_STRUCT_MEM) | a. a \<in> set bs \<and> \<not> free_at h a}"

subsection \<open>Segments\<close>

lemma seg_append:
  "seg m p a (xs @ ys) e \<longleftrightarrow> (\<exists>c. seg m p a xs c \<and> seg m (last (p # xs)) c ys e)"
  by (induction xs arbitrary: p a) auto

lemma seg_cong:
  assumes "\<And>b. b \<in> set bs \<Longrightarrow> m' b = m b" shows "seg m' p a bs e = seg m p a bs e"
  using assms by (induction bs arbitrary: p a) (auto simp: hdr_ok_def)

lemma seg_le: "seg m p a bs e \<Longrightarrow> a \<le> e"
  by (induction bs arbitrary: p a) (fastforce simp: hdr_ok_def)+

lemma seg_bounds: "seg m p a bs e \<Longrightarrow> b \<in> set bs \<Longrightarrow> a \<le> b \<and> b + 20 \<le> hm_next (m b) \<and> hm_next (m b) \<le> e"
  by (induction bs arbitrary: p a) (fastforce simp: hdr_ok_def dest: seg_le)+

lemma seg_hdr: "seg m p a bs e \<Longrightarrow> b \<in> set bs \<Longrightarrow> \<exists>q. hdr_ok m q b"
  by (induction bs arbitrary: p a) auto

lemma seg_next:
  assumes "seg m p a bs e" "b \<in> set bs" shows "hm_next (m b) \<in> set bs \<union> {e}"
  using assms
proof (induction bs arbitrary: p a)
  case (Cons c cs) thus ?case by (cases cs) auto
qed simp

lemma seg_order:
  assumes "seg m p a bs e" "b \<in> set bs" "c \<in> set bs" "b < c" shows "hm_next (m b) \<le> c"
  using assms
proof (induction bs arbitrary: p a)
  case (Cons d ds) thus ?case by (fastforce simp: hdr_ok_def dest: seg_bounds)
qed simp

lemma seg_split:
  assumes "seg m p a bs e" "b \<in> set bs"
  obtains xs ys where "bs = xs @ b # ys" "seg m p a xs b" "hdr_ok m (last (p # xs)) b" "seg m b (hm_next (m b)) ys e"
proof -
  obtain xs ys where "bs = xs @ b # ys" using assms(2) by (meson split_list)
  thus thesis using assms(1) that by (auto simp: seg_append)
qed

lemma seg_len: "seg m p a bs e \<Longrightarrow> a + 20 * length bs \<le> e"
  by (induction bs arbitrary: p a) (fastforce simp: hdr_ok_def)+

lemma seg_outside: "seg m p a bs e \<Longrightarrow> b < a \<or> e \<le> b \<Longrightarrow> b \<notin> set bs"
  by (auto dest: seg_bounds)

lemma seg_relink:
  assumes "seg m b n ys e"
    and "\<And>d. d \<in> set ys \<Longrightarrow> d \<noteq> n \<Longrightarrow> m' d = m d"
    and "ys \<noteq> [] \<Longrightarrow> m' n = (m n)\<lparr>hm_prev := c\<rparr>"
  shows "seg m' c n ys e"
proof (cases ys)
  case (Cons y ys')
  hence "seg m n (hm_next (m n)) ys' e" "hdr_ok m b n" using assms(1) by auto
  moreover have "n \<notin> set ys'" using calculation by (auto simp: hdr_ok_def dest: seg_bounds)
  ultimately have "seg m' n (hm_next (m n)) ys' e"
    using assms(2) Cons by (subst seg_cong [where m = m]) auto
  thus ?thesis using assms Cons by (simp add: hdr_ok_def)
qed (use assms in simp)

lemma seg_prefix_not_in:
  assumes "seg m p a (xs @ b # ys) e"
  shows "\<And>d. d \<in> set xs \<Longrightarrow> d < b" "\<And>d. d \<in> set ys \<Longrightarrow> hm_next (m b) \<le> d"
  using assms by (fastforce simp: seg_append dest: seg_bounds)+

lemma add32_exact: "a + b < 2 ^ 32 \<Longrightarrow> add32 a b = a + b"
  by (simp add: add32_def)

lemma sub32_exact: "b \<le> a \<Longrightarrow> a < 2 ^ 32 \<Longrightarrow> sub32 a b = a - b"
  by (simp add: sub32_def mod_if)

lemma heap_shape_seg: "heap_shape bs h \<Longrightarrow> seg (mem_at h) 0 0 bs (heap_end h)"
  unfolding heap_shape_def by blast

lemma heap_shape_at:
  assumes "heap_shape bs h" "a \<in> set bs"
  shows "a mod 4 = 0" "a + 20 \<le> hm_next (mem_at h a)" "hm_next (mem_at h a) \<le> heap_end h"
    "hm_magic (mem_at h a) = HEAP_MAGIC" "hm_used (mem_at h a) \<in> {0, 1}" "hm_next (mem_at h a) \<in> set bs \<union> {heap_end h}"
    "hm_next (mem_at h a) mod 4 = 0" "a < heap_end h"
proof -
  note sg = heap_shape_seg [OF assms(1)]
  show "a mod 4 = 0" "a + 20 \<le> hm_next (mem_at h a)" "hm_next (mem_at h a) \<le> heap_end h"
    "hm_magic (mem_at h a) = HEAP_MAGIC" "hm_used (mem_at h a) \<in> {0, 1}"
    using seg_hdr [OF sg assms(2)] seg_bounds [OF sg assms(2)] by (auto simp: hdr_ok_def)
  thus "a < heap_end h" by linarith
  show nx: "hm_next (mem_at h a) \<in> set bs \<union> {heap_end h}" using seg_next [OF sg assms(2)] .
  show "hm_next (mem_at h a) mod 4 = 0"
    using nx seg_hdr [OF sg] assms(1) by (fastforce simp: hdr_ok_def heap_shape_def)
qed

lemma heap_shape_end: "heap_shape bs h \<Longrightarrow> heap_end h < 2 ^ 32"
  by (simp add: heap_shape_def SIZEOF_STRUCT_MEM_def)

lemma heap_shape_size: "heap_shape bs h \<Longrightarrow> mem_size_aligned h + SIZEOF_STRUCT_MEM = heap_end h"
  unfolding heap_shape_def by blast

subsection \<open>Joining two free blocks\<close>

lemma join_blocks_simps [simp]:
  "heap_ptr (join_blocks a b h) = heap_ptr h" "heap_end (join_blocks a b h) = heap_end h"
  "mem_size_aligned (join_blocks a b h) = mem_size_aligned h" "used_mem (join_blocks a b h) = used_mem h"
  "max_mem (join_blocks a b h) = max_mem h" "heap_data (join_blocks a b h) = heap_data h"
  "lfree (join_blocks a b h) = (if lfree h = b then a else lfree h)"
  "mem_at (join_blocks a b h) =
     (let m = (mem_at h)(a := (mem_at h a)\<lparr>hm_next := hm_next (mem_at h b)\<rparr>); n = hm_next (m b)
      in m(n := (m n)\<lparr>hm_prev := a\<rparr>))"
  by (auto simp: join_blocks_def upd_mem_def Let_def)

lemma join_free_at [simp]: "free_at (join_blocks a b h) d = free_at h d"
  by (simp add: free_at_def Let_def)

lemma join_blocks_shape:
  assumes shape: "heap_shape (xs @ a # b # ys) h" and fr: "free_at h a" "free_at h b"
  shows "heap_shape (xs @ a # ys) (join_blocks a b h)"
    and "\<And>d. d \<in> set (xs @ ys) \<Longrightarrow> blk_len (join_blocks a b h) d = blk_len h d"
proof -
  let ?m = "mem_at h" let ?m' = "mem_at (join_blocks a b h)" let ?n = "hm_next (?m b)"
  note sg = heap_shape_seg [OF shape]
  obtain 1: "seg ?m 0 0 xs a" and 2: "hdr_ok ?m (last (0 # xs)) a" and nx: "hm_next (?m a) = b"
    and 3: "hdr_ok ?m a b" and 4: "seg ?m b ?n ys (heap_end h)"
    using sg by (auto simp: seg_append)
  have ord: "a + 20 \<le> b" "b + 20 \<le> ?n" using 2 3 nx by (auto simp: hdr_ok_def)
  have m'a: "?m' a = (?m a)\<lparr>hm_next := ?n\<rparr>" using ord by (simp add: Let_def)
  have m'n: "?m' ?n = (?m ?n)\<lparr>hm_prev := a\<rparr>" using ord by (simp add: Let_def)
  have frame: "?m' d = ?m d" if "d \<noteq> a" "d \<noteq> ?n" for d using that ord by (simp add: Let_def)
  have xs: "d < a" if "d \<in> set xs" for d using that 1 by (auto dest: seg_bounds)
  have ys: "?n \<le> d" if "d \<in> set ys" for d using that 4 by (auto dest: seg_bounds)
  have "seg ?m' 0 0 xs a" using 1 xs ord frame by (subst seg_cong [where m = ?m]) fastforce+
  moreover have "hdr_ok ?m' (last (0 # xs)) a" using 2 3 nx ord by (auto simp: hdr_ok_def m'a simp del: join_blocks_simps)
  moreover have "seg ?m' a ?n ys (heap_end h)"
    using 4 by (rule seg_relink) (use ys ord frame m'n in \<open>fastforce simp del: join_blocks_simps\<close>)+
  ultimately have "seg ?m' 0 0 (xs @ a # ys) (heap_end h)"
    by (auto simp: seg_append m'a simp del: join_blocks_simps(8))
  moreover have "lfree h \<noteq> b \<Longrightarrow> lfree h \<in> set (xs @ a # ys) \<union> {heap_end h}"
    using shape by (auto simp: heap_shape_def)
  ultimately show "heap_shape (xs @ a # ys) (join_blocks a b h)"
    using shape by (auto simp: heap_shape_def simp del: join_blocks_simps(8))
  show "blk_len (join_blocks a b h) d = blk_len h d" if "d \<in> set (xs @ ys)" for d
  proof -
    have "d \<noteq> a" using that xs ys ord by fastforce
    thus ?thesis by (auto simp: blk_len_def Let_def)
  qed
qed

lemma used_sum_simps [simp]:
  "used_sum [] h = 0" "used_sum (a # bs) h = (if free_at h a then 0 else blk_len h a) + used_sum bs h"
  "used_sum (xs @ ys) h = used_sum xs h + used_sum ys h"
  by (simp_all add: used_sum_def)

lemma used_sum_cong:
  assumes "\<And>a. a \<in> set bs \<Longrightarrow> free_at h' a = free_at h a"
    and "\<And>a. a \<in> set bs \<Longrightarrow> \<not> free_at h a \<Longrightarrow> blk_len h' a = blk_len h a"
  shows "used_sum bs h' = used_sum bs h"
  using assms by (induction bs) auto

lemma live_cong:
  assumes "heap_ptr h' = heap_ptr h"
    and "\<And>a. (a \<in> set bs' \<and> \<not> free_at h' a) = (a \<in> set bs \<and> \<not> free_at h a)"
    and "\<And>a. a \<in> set bs \<Longrightarrow> \<not> free_at h a \<Longrightarrow> blk_len h' a = blk_len h a"
  shows "live bs' h' = live bs h"
  unfolding live_def assms(1, 2) using assms(3) by (intro Collect_cong ex_cong) auto

text \<open>Two heaps that differ in how their free space is cut only.\<close>

definition same_use :: "nat list \<Rightarrow> rt_heap \<Rightarrow> nat list \<Rightarrow> rt_heap \<Rightarrow> bool" where
  "same_use bs h bs' h' \<longleftrightarrow>
     heap_ptr h' = heap_ptr h \<and> heap_end h' = heap_end h \<and> used_mem h' = used_mem h \<and> max_mem h' = max_mem h \<and>
     heap_data h' = heap_data h \<and> mem_size_aligned h' = mem_size_aligned h \<and> (\<forall>d. free_at h' d = free_at h d) \<and>
     used_sum bs' h' = used_sum bs h \<and> live bs' h' = live bs h \<and> set bs' \<subseteq> set bs \<and>
     (lowest_free bs h \<longrightarrow> lowest_free bs' h')"

lemma same_use_refl: "same_use bs h bs h"
  by (simp add: same_use_def)

lemma same_use_trans: "same_use bs h bs' h' \<Longrightarrow> same_use bs' h' bs'' h'' \<Longrightarrow> same_use bs h bs'' h''"
  by (auto simp: same_use_def)

lemma same_use_no_adjacent: "same_use bs h bs' h' \<Longrightarrow> no_adjacent cs h' = no_adjacent cs h"
  by (simp add: same_use_def no_adjacent_def)

lemma join_same_use:
  assumes "heap_shape (xs @ a # b # ys) h" "free_at h a" "free_at h b"
  shows "same_use (xs @ a # b # ys) h (xs @ a # ys) (join_blocks a b h)"
proof -
  note len = join_blocks_shape(2) [OF assms]
  have "live (xs @ a # ys) (join_blocks a b h) = live (xs @ a # b # ys) h"
    by (rule live_cong; use assms(2, 3) len in auto)
  moreover have "used_sum (xs @ a # ys) (join_blocks a b h) = used_sum (xs @ a # b # ys) h"
    using assms(2, 3) len used_sum_cong [of xs "join_blocks a b h" h] used_sum_cong [of ys "join_blocks a b h" h]
    by simp
  moreover have "lowest_free (xs @ a # ys) (join_blocks a b h)" if "lowest_free (xs @ a # b # ys) h"
  proof -
    have "a < b" using heap_shape_seg [OF assms(1)] by (auto simp: seg_append hdr_ok_def)
    hence "lfree h \<noteq> b" using that assms(2) by (auto simp: lowest_free_def)
    thus ?thesis using that by (auto simp: lowest_free_def)
  qed
  ultimately show ?thesis by (simp add: same_use_def) auto
qed

lemma plug_forward_inv:
  assumes shape: "heap_shape (xs @ a # ys) h" and fr: "free_at h a" and adj: "no_adjacent ys h"
  obtains ys' where "heap_shape (xs @ a # ys') (plug_forward a h)" "no_adjacent (a # ys') h"
    "same_use (xs @ a # ys) h (xs @ a # ys') (plug_forward a h)"
proof (cases "ys \<noteq> [] \<and> free_at h (hd ys)")
  case True
  then obtain b zs where ys: "ys = b # zs" and b: "free_at h b" by (cases ys) auto
  have nx: "hm_next (mem_at h a) = b" using heap_shape_seg [OF shape] ys by (auto simp: seg_append)
  have "a \<noteq> b" "b \<noteq> heap_end h"
    using heap_shape_at(2, 8) [OF shape, of a] heap_shape_at(8) [OF shape, of b] nx ys by auto
  hence "plug_forward a h = join_blocks a b h" using b by (simp add: plug_forward_def nx free_at_def)
  thus thesis
    using that [of zs] join_blocks_shape(1) [of xs a b zs h] join_same_use [of xs a b zs h] shape fr b adj
    by (cases zs) (auto simp: ys no_adjacent_def)
next
  case False
  have nx: "ys = [] \<and> hm_next (mem_at h a) = heap_end h \<or> ys \<noteq> [] \<and> hm_next (mem_at h a) = hd ys"
    using heap_shape_seg [OF shape] by (cases ys) (auto simp: seg_append)
  hence "plug_forward a h = h" using False by (auto simp: plug_forward_def free_at_def)
  moreover have "no_adjacent (a # ys) h" using adj False by (cases ys) (auto simp: no_adjacent_def)
  ultimately show thesis using that [of ys] shape same_use_refl by simp
qed

lemma plug_backward_inv:
  assumes shape: "heap_shape (xs @ a # ys) h" and fr: "free_at h a"
    and adj: "no_adjacent xs h" "no_adjacent (a # ys) h"
  obtains bs' where "heap_shape bs' (plug_backward a h)" "no_adjacent bs' h"
    "same_use (xs @ a # ys) h bs' (plug_backward a h)"
proof (cases "xs \<noteq> [] \<and> free_at h (last xs)")
  case True
  then obtain b zs where xs: "xs = zs @ [b]" and b: "free_at h b" by (cases xs rule: rev_cases) auto
  have sg: "seg (mem_at h) 0 0 (zs @ b # a # ys) (heap_end h)" using heap_shape_seg [OF shape] xs by simp
  have pv: "hm_prev (mem_at h a) = b" "b \<noteq> a"
    using sg by (auto simp: seg_append hdr_ok_def)
  hence "plug_backward a h = join_blocks b a h" using b by (simp add: plug_backward_def free_at_def)
  moreover have "no_adjacent (zs @ b # ys) h"
    using adj fr b by (cases ys) (auto simp: xs no_adjacent_def successively_append_iff)
  ultimately show thesis
    using that [of "zs @ b # ys"] join_blocks_shape(1) [of zs b a ys h] join_same_use [of zs b a ys h] shape fr b
    by (simp add: xs)
next
  case False
  have "hdr_ok (mem_at h) (last (0 # xs)) a" and x0: "seg (mem_at h) 0 0 xs a"
    using heap_shape_seg [OF shape] by (auto simp: seg_append)
  hence pv: "xs = [] \<and> hm_prev (mem_at h a) = a \<or> xs \<noteq> [] \<and> hm_prev (mem_at h a) = last xs"
    by (auto simp: hdr_ok_def)
  hence "plug_backward a h = h" using False by (auto simp: plug_backward_def free_at_def)
  moreover have "no_adjacent (xs @ a # ys) h"
    using adj False by (auto simp: no_adjacent_def successively_append_iff)
  ultimately show thesis using that shape same_use_refl by simp
qed

lemma plug_holes_inv:
  assumes shape: "heap_shape (xs @ a # ys) h" and fr: "free_at h a"
    and adj: "no_adjacent xs h" "no_adjacent ys h"
  obtains bs' h' where "plug_holes a h = Some h'" "heap_shape bs' h'" "no_adjacent bs' h'"
    "same_use (xs @ a # ys) h bs' h'"
proof -
  let ?h1 = "plug_forward a h"
  have "a < heap_end h" using heap_shape_at(8) [OF shape] by simp
  hence run: "plug_holes a h = Some (plug_backward a ?h1)" using fr by (simp add: plug_holes_def free_at_def RT_ASSERT_def)
  from plug_forward_inv [OF shape fr adj(2)] obtain ys' where
    1: "heap_shape (xs @ a # ys') ?h1" "no_adjacent (a # ys') h" "same_use (xs @ a # ys) h (xs @ a # ys') ?h1" .
  note eq = same_use_no_adjacent [OF 1(3)]
  have "free_at ?h1 a" using 1(3) fr by (simp add: same_use_def)
  then obtain bs' where 2: "heap_shape bs' (plug_backward a ?h1)" "no_adjacent bs' ?h1"
    "same_use (xs @ a # ys') ?h1 bs' (plug_backward a ?h1)"
    using plug_backward_inv [OF 1(1)] 1(2) adj(1) eq by blast
  show thesis
    using that [OF run 2(1)] same_use_no_adjacent [OF 2(3)] 2(2) same_use_trans [OF 1(3) 2(3)] by blast
qed

subsection \<open>Marking a block\<close>

lemma upd_mem_simps [simp]:
  "heap_ptr (upd_mem a f h) = heap_ptr h" "heap_end (upd_mem a f h) = heap_end h" "lfree (upd_mem a f h) = lfree h"
  "mem_size_aligned (upd_mem a f h) = mem_size_aligned h" "used_mem (upd_mem a f h) = used_mem h"
  "max_mem (upd_mem a f h) = max_mem h" "heap_data (upd_mem a f h) = heap_data h"
  "mem_at (upd_mem a f h) = (mem_at h)(a := f (mem_at h a))"
  by (simp_all add: upd_mem_def)

lemma setname_simps [simp]:
  "hm_next (rt_mem_setname nm m) = hm_next m" "hm_prev (rt_mem_setname nm m) = hm_prev m"
  "hm_magic (rt_mem_setname nm m) = hm_magic m" "hm_used (rt_mem_setname nm m) = hm_used m"
  by (simp_all add: rt_mem_setname_def Let_def)

lemma seg_mark:
  assumes "seg m p a bs e"
    and "\<And>b. b \<in> set bs \<Longrightarrow> hm_next (m' b) = hm_next (m b) \<and> hm_prev (m' b) = hm_prev (m b) \<and>
           hm_magic (m' b) = HEAP_MAGIC \<and> hm_used (m' b) \<in> {0, 1}"
  shows "seg m' p a bs e"
  using assms by (induction bs arbitrary: p a) (auto simp: hdr_ok_def)

text \<open>A header that keeps its links and gets a use mark keeps the shape.\<close>

definition marks :: "(heap_mem \<Rightarrow> heap_mem) \<Rightarrow> u16 \<Rightarrow> bool" where
  "marks f u \<longleftrightarrow> u \<in> {0, 1} \<and> (\<forall>m. hm_next (f m) = hm_next m \<and> hm_prev (f m) = hm_prev m \<and>
     (hm_magic m = HEAP_MAGIC \<longrightarrow> hm_magic (f m) = HEAP_MAGIC) \<and> hm_used (f m) = u)"

lemma mark_shape:
  assumes shape: "heap_shape bs h" and a: "a \<in> set bs" and f: "marks f u"
  shows "heap_shape bs (upd_mem a f h)"
proof -
  have "seg (mem_at (upd_mem a f h)) 0 0 bs (heap_end h)"
    using heap_shape_seg [OF shape]
    by (rule seg_mark) (use f heap_shape_at(4, 5) [OF shape] in \<open>auto simp: marks_def\<close>)
  moreover have "a \<noteq> heap_end h" using heap_shape_at(8) [OF shape a] by simp
  ultimately show ?thesis using shape by (simp add: heap_shape_def free_at_def)
qed

lemma mark_free_at: "marks f u \<Longrightarrow> free_at (upd_mem a f h) b = (if b = a then u = 0 else free_at h b)"
  by (simp add: free_at_def marks_def)

lemma mark_blk_len: "marks f u \<Longrightarrow> blk_len (upd_mem a f h) b = blk_len h b"
  by (simp add: blk_len_def marks_def)

lemma shape_distinct: "heap_shape (xs @ a # ys) h \<Longrightarrow> a \<notin> set xs \<and> a \<notin> set ys"
  using seg_prefix_not_in [OF heap_shape_seg, of xs a ys h] heap_shape_at(2) [of "xs @ a # ys" h a] by fastforce

lemma no_adjacent_cong:
  "(\<And>b. b \<in> set bs \<Longrightarrow> free_at h' b = free_at h b) \<Longrightarrow> no_adjacent bs h' = no_adjacent bs h"
  unfolding no_adjacent_def by (rule successively_cong) auto

lemma live_block_length:
  assumes "heap_shape bs h" "(q, len) \<in> live bs h" shows "4 \<le> len" "q + len \<le> heap_ptr h + heap_end h"
  using assms heap_shape_at(2, 3) by (fastforce simp: live_def blk_len_def SIZEOF_STRUCT_MEM_def)+

lemma used_sum_le:
  assumes "seg m p a bs e" "mem_at h = m" shows "used_sum bs h \<le> e - a"
  using assms
proof (induction bs arbitrary: p a)
  case (Cons b bs)
  hence "used_sum bs h \<le> e - hm_next (m a)" "a + 20 \<le> hm_next (m a)" "hm_next (m a) \<le> e" "b = a"
    by (auto simp: hdr_ok_def dest: seg_le)
  thus ?case using Cons.prems(2) by (auto simp: blk_len_def)
qed simp

lemma used_mem_bound: "heap_inv bs h \<Longrightarrow> used_mem h \<le> heap_end h"
  using used_sum_le [OF heap_shape_seg] by (fastforce simp: heap_inv_def)

section \<open>Releasing a block\<close>

lemma free_at_address:
  assumes shape: "heap_shape bs h" and a: "a \<in> set bs"
  defines "q \<equiv> heap_ptr h + a + SIZEOF_STRUCT_MEM"
  shows "q mod 4 = 0" "heap_ptr h \<le> q" "q < heap_ptr h + heap_end h" "q \<noteq> 0" "q < 2 ^ 32"
    "sub32 (sub32 q SIZEOF_STRUCT_MEM) (heap_ptr h) = a"
proof -
  note b = heap_shape_at(1, 2, 3) [OF shape a]
  have s: "heap_ptr h mod 4 = 0" "heap_ptr h + heap_end h + 16 \<le> 2 ^ 32"
    using shape by (simp_all add: heap_shape_def SIZEOF_STRUCT_MEM_def)
  show 1: "heap_ptr h \<le> q" "q < heap_ptr h + heap_end h" "q \<noteq> 0"
    using b by (auto simp: q_def SIZEOF_STRUCT_MEM_def)
  show "q mod 4 = 0" using b(1) s(1) by (simp add: q_def SIZEOF_STRUCT_MEM_def) presburger
  show lt: "q < 2 ^ 32" using 1 s by linarith
  have "sub32 q SIZEOF_STRUCT_MEM = heap_ptr h + a" using lt by (simp add: sub32_exact q_def)
  thus "sub32 (sub32 q SIZEOF_STRUCT_MEM) (heap_ptr h) = a" using lt by (simp add: sub32_exact q_def)
qed

lemma rt_free_at:
  assumes "heap_shape bs h" "a \<in> set bs"
  shows "rt_free (heap_ptr h + a + SIZEOF_STRUCT_MEM) h = (if free_at h a then None else plug_holes a (free_mark a h))"
    (is "rt_free ?q h = _")
proof -
  note q = free_at_address [OF assms]
  show ?thesis
    unfolding rt_free_def using q(1-3) heap_shape_at(4) [OF assms]
    by (simp add: q(6) free_at_def RT_ALIGN_SIZE_def) (simp add: SIZEOF_STRUCT_MEM_def)
qed

lemma free_mark_facts:
  assumes inv: "heap_inv bs h" and a: "a \<in> set bs" and used: "\<not> free_at h a"
  defines "h1 \<equiv> free_mark a h" and "q \<equiv> heap_ptr h + a + SIZEOF_STRUCT_MEM" and "len \<equiv> blk_len h a - SIZEOF_STRUCT_MEM"
  shows "heap_shape bs h1" "\<And>b. free_at h1 b = (b = a \<or> free_at h b)" "\<And>b. blk_len h1 b = blk_len h b"
    "used_mem h1 = used_sum bs h1" "used_mem h1 = used_mem h - (len + SIZEOF_STRUCT_MEM)"
    "live bs h1 = live bs h - {(q, len)}" "heap_data h1 = heap_data h" "max_mem h1 = max_mem h"
    "lowest_free bs h \<Longrightarrow> lowest_free bs h1"
proof -
  let ?f = "\<lambda>m. rt_mem_setname [32, 32, 32, 32] (m\<lparr>hm_used := 0, hm_magic := HEAP_MAGIC\<rparr>)"
  have shape: "heap_shape bs h" and u: "used_mem h = used_sum bs h" using inv by (auto simp: heap_inv_def)
  have f: "marks ?f 0" by (simp add: marks_def)
  have m: "mem_at h1 = mem_at (upd_mem a ?f h)" "heap_ptr h1 = heap_ptr h" by (simp_all add: h1_def free_mark_def Let_def)
  show "heap_shape bs h1"
    using mark_shape [OF shape a f] a by (auto simp: h1_def free_mark_def heap_shape_def free_at_def Let_def)
  show fr: "free_at h1 b = (b = a \<or> free_at h b)" for b using mark_free_at [OF f] m by (simp add: free_at_def)
  show bl: "blk_len h1 b = blk_len h b" for b using mark_blk_len [OF f] m by (simp add: blk_len_def)
  obtain xs ys where bs: "bs = xs @ a # ys" using a by (meson split_list)
  have na: "a \<notin> set xs" "a \<notin> set ys" using shape_distinct shape bs by blast+
  note b = heap_shape_at(2, 3) [OF shape a]
  have sum: "used_sum bs h = blk_len h a + used_sum bs h1"
  proof -
    have "used_sum xs h1 = used_sum xs h" "used_sum ys h1 = used_sum ys h"
      by (rule used_sum_cong; use fr na bl in auto)+
    thus ?thesis using used fr by (simp add: bs)
  qed
  have "used_mem h1 = sub32 (used_mem h) (sub32 (hm_next (mem_at h a)) a)" by (simp add: h1_def free_mark_def Let_def)
  also have "sub32 (hm_next (mem_at h a)) a = blk_len h a"
    using b heap_shape_end [OF shape] by (simp add: blk_len_def sub32_exact)
  also have "sub32 (used_mem h) (blk_len h a) = used_mem h - blk_len h a"
    using sum u used_mem_bound [OF inv] heap_shape_end [OF shape] by (intro sub32_exact) auto
  finally have "used_mem h1 = used_mem h - blk_len h a" .
  thus "used_mem h1 = used_sum bs h1" "used_mem h1 = used_mem h - (len + SIZEOF_STRUCT_MEM)"
    using sum u b by (simp_all add: len_def blk_len_def SIZEOF_STRUCT_MEM_def)
  show "live bs h1 = live bs h - {(q, len)}"
    unfolding live_def fr bl m(2) q_def len_def using used by auto
  show "heap_data h1 = heap_data h" "max_mem h1 = max_mem h" by (simp_all add: h1_def free_mark_def Let_def)
  have "lfree h1 = min a (lfree h)" by (auto simp: h1_def free_mark_def Let_def)
  thus "lowest_free bs h1" if "lowest_free bs h" using that fr by (auto simp: lowest_free_def)
qed

lemma rt_free_live:
  assumes inv: "heap_inv bs h" and q: "(q, len) \<in> live bs h"
  obtains bs' h' where "rt_free q h = Some h'" "heap_inv bs' h'" "live bs' h' = live bs h - {(q, len)}"
    "used_mem h' = used_mem h - (len + SIZEOF_STRUCT_MEM)" "heap_data h' = heap_data h" "heap_ptr h' = heap_ptr h"
    "heap_end h' = heap_end h" "set bs' \<subseteq> set bs" "lowest_free bs h \<Longrightarrow> lowest_free bs' h'"
proof -
  obtain a where a: "a \<in> set bs" "\<not> free_at h a" and
    ql: "q = heap_ptr h + a + SIZEOF_STRUCT_MEM" "len = blk_len h a - SIZEOF_STRUCT_MEM"
    using q by (auto simp: live_def)
  have shape: "heap_shape bs h" using inv by (simp add: heap_inv_def)
  note fm = free_mark_facts [OF inv a]
  obtain xs ys where bs: "bs = xs @ a # ys" using a by (meson split_list)
  have na: "a \<notin> set xs" "a \<notin> set ys" using shape_distinct shape bs by blast+
  have "no_adjacent xs h" "no_adjacent ys h"
    using inv by (auto simp: heap_inv_def no_adjacent_def bs successively_append_iff successively_Cons)
  hence "no_adjacent xs (free_mark a h)" "no_adjacent ys (free_mark a h)"
    using na fm(2) no_adjacent_cong [of xs "free_mark a h" h] no_adjacent_cong [of ys "free_mark a h" h] by auto
  moreover have "free_at (free_mark a h) a" using fm(2) by simp
  ultimately obtain bs' h' where h': "plug_holes a (free_mark a h) = Some h'" "heap_shape bs' h'" "no_adjacent bs' h'"
    "same_use bs (free_mark a h) bs' h'"
    using plug_holes_inv fm(1) bs by metis
  have "rt_free q h = Some h'" using rt_free_at [OF shape a(1)] a(2) h'(1) ql by simp
  thus thesis
    using that [of h' bs'] h' fm(4-7, 9) ql by (simp add: heap_inv_def same_use_def free_mark_def Let_def)
qed

section \<open>Taking a block\<close>

subsection \<open>Cutting a block in two\<close>

definition cut_block :: "nat \<Rightarrow> nat \<Rightarrow> rt_heap \<Rightarrow> rt_heap" where
  "cut_block a c h = link_back c (split_block a c h)"

lemma cut_simps [simp]:
  "heap_ptr (cut_block a c h) = heap_ptr h" "heap_end (cut_block a c h) = heap_end h"
  "lfree (cut_block a c h) = lfree h" "mem_size_aligned (cut_block a c h) = mem_size_aligned h"
  "used_mem (cut_block a c h) = used_mem h" "max_mem (cut_block a c h) = max_mem h"
  "heap_data (cut_block a c h) = heap_data h"
  by (simp_all add: cut_block_def link_back_def split_block_def Let_def)

lemma cut_mem_at:
  assumes "a + 20 \<le> c" "c + 20 \<le> hm_next (mem_at h a)" "mem_size_aligned h + SIZEOF_STRUCT_MEM = heap_end h" "heap_end h < 2 ^ 32"
  defines "m' \<equiv> mem_at (cut_block a c h)" and "n \<equiv> hm_next (mem_at h a)"
  shows "m' a = (mem_at h a)\<lparr>hm_next := c\<rparr>"
    "hm_next (m' c) = n" "hm_prev (m' c) = a" "hm_magic (m' c) = HEAP_MAGIC" "hm_used (m' c) = 0"
    "n \<noteq> heap_end h \<Longrightarrow> m' n = (mem_at h n)\<lparr>hm_prev := c\<rparr>" "n = heap_end h \<Longrightarrow> m' n = mem_at h n"
    "\<And>d. d \<notin> {a, c, n} \<Longrightarrow> m' d = mem_at h d"
  using assms(1-4)
  by (auto simp: m'_def n_def cut_block_def link_back_def split_block_def Let_def add32_exact)

lemma cut_shape:
  assumes shape: "heap_shape (xs @ a # ys) h"
    and c: "a + 20 \<le> c" "c + 20 \<le> hm_next (mem_at h a)" "c mod 4 = 0"
  defines "h' \<equiv> cut_block a c h"
  shows "heap_shape (xs @ a # c # ys) h'" "\<And>d. free_at h' d = (d = c \<or> free_at h d)"
    "blk_len h' a = c - a" "\<And>d. d \<notin> {a, c} \<Longrightarrow> blk_len h' d = blk_len h d"
proof -
  let ?m = "mem_at h" let ?m' = "mem_at h'" let ?n = "hm_next (?m a)"
  obtain 1: "seg ?m 0 0 xs a" and 2: "hdr_ok ?m (last (0 # xs)) a" and 3: "seg ?m a ?n ys (heap_end h)"
    using heap_shape_seg [OF shape] by (auto simp: seg_append)
  have he: "mem_size_aligned h + SIZEOF_STRUCT_MEM = heap_end h" "heap_end h < 2 ^ 32"
    using heap_shape_size heap_shape_end shape by blast+
  note m' = cut_mem_at [OF c(1, 2) he, folded h'_def]
  have ne: "ys \<noteq> [] \<Longrightarrow> ?n < heap_end h" using 3 by (cases ys) (auto simp: hdr_ok_def dest!: seg_le)
  have xs: "?m' d = ?m d" if "d \<in> set xs" for d using that seg_bounds [OF 1] c by (intro m'(8)) fastforce
  have ys: "?m' d = ?m d" if "d \<in> set ys" "d \<noteq> ?n" for d using that seg_bounds [OF 3, of d] c by (intro m'(8)) auto
  have "seg ?m' 0 0 xs a" using 1 xs by (subst seg_cong [where m = ?m]) auto
  moreover have "hdr_ok ?m' (last (0 # xs)) a" using 2 c by (simp add: hdr_ok_def m'(1))
  moreover have "hdr_ok ?m' a c" using c by (simp add: hdr_ok_def m'(2-5))
  moreover have "seg ?m' c ?n ys (heap_end h)"
    using 3 ys by (rule seg_relink) (use ne m'(6) in auto)
  ultimately have sg: "seg ?m' 0 0 (xs @ a # c # ys) (heap_end h)" by (auto simp: seg_append m'(1, 2))
  have used: "hm_used (?m' d) = hm_used (?m d)" if "d \<noteq> c" for d
  proof (cases "d = a \<or> d = ?n")
    case True thus ?thesis using m'(1, 6, 7) by (cases "?n = heap_end h") auto
  next
    case False thus ?thesis using that by (subst m'(8)) auto
  qed
  show fr: "free_at h' d = (d = c \<or> free_at h d)" for d using used m'(5) by (cases "d = c") (simp_all add: free_at_def)
  have "c \<noteq> heap_end h" using c seg_le [OF 3] by simp
  thus "heap_shape (xs @ a # c # ys) h'"
    using sg shape fr unfolding heap_shape_def by (simp add: h'_def) blast
  show "blk_len h' a = c - a" by (simp add: blk_len_def m'(1))
  show "blk_len h' d = blk_len h d" if "d \<notin> {a, c}" for d
  proof (cases "d = ?n")
    case True thus ?thesis using m'(6, 7) by (cases "?n = heap_end h") (auto simp: blk_len_def)
  next
    case False thus ?thesis using that m'(8) [of d] by (simp add: blk_len_def)
  qed
qed

lemma cut_live:
  assumes shape: "heap_shape (xs @ a # ys) h" and fr: "free_at h a"
    and c: "a + 20 \<le> c" "c + 20 \<le> hm_next (mem_at h a)" "c mod 4 = 0"
  shows "live (xs @ a # c # ys) (cut_block a c h) = live (xs @ a # ys) h"
    and "used_sum (xs @ a # c # ys) (cut_block a c h) = used_sum (xs @ a # ys) h"
proof -
  note cs = cut_shape [OF shape c]
  have na: "a \<notin> set xs" "a \<notin> set ys" using shape_distinct shape by blast+
  have nc: "c \<notin> set xs" "c \<notin> set ys"
    using shape_distinct [of "xs @ [a]" c ys] cs(1) by auto
  have len: "blk_len (cut_block a c h) d = blk_len h d" if "d \<in> set xs \<union> set ys" for d
    using that na nc by (intro cs(4)) blast
  show "live (xs @ a # c # ys) (cut_block a c h) = live (xs @ a # ys) h"
    by (rule live_cong; use fr nc cs(2) len in auto)
  have "used_sum xs (cut_block a c h) = used_sum xs h" "used_sum ys (cut_block a c h) = used_sum ys h"
    by (rule used_sum_cong; use nc cs(2) len in auto)+
  thus "used_sum (xs @ a # c # ys) (cut_block a c h) = used_sum (xs @ a # ys) h" using fr cs(2) by simp
qed

subsection \<open>The two loops\<close>

lemma room_at:
  assumes "heap_shape bs h" "a \<in> set bs"
  shows "sub32 (hm_next (mem_at h a)) (add32 a SIZEOF_STRUCT_MEM) = blk_len h a - SIZEOF_STRUCT_MEM"
  using heap_shape_at(2, 3) [OF assms] heap_shape_end [OF assms(1)]
  by (simp add: add32_exact sub32_exact blk_len_def SIZEOF_STRUCT_MEM_def)

text \<open>What the search may return: the first free block with room among those it looks at.\<close>

definition fits :: "rt_heap \<Rightarrow> nat \<Rightarrow> nat \<Rightarrow> bool" where
  "fits h n b \<longleftrightarrow> b < mem_size_aligned h - n \<and> free_at h b \<and> n + SIZEOF_STRUCT_MEM \<le> blk_len h b"

lemma malloc_find_spec:
  assumes shape: "heap_shape bs h" and n: "n \<le> mem_size_aligned h" and p: "p \<in> set bs \<union> {heap_end h}"
  shows "\<exists>r. malloc_find h n p = Some r \<and>
    (case r of None \<Rightarrow> \<forall>b\<in>set bs. p \<le> b \<longrightarrow> \<not> fits h n b
     | Some q \<Rightarrow> q \<in> set bs \<and> p \<le> q \<and> fits h n q \<and> (\<forall>b\<in>set bs. p \<le> b \<and> b < q \<longrightarrow> \<not> fits h n b))"
  using p
proof (induction "heap_end h - p" arbitrary: p rule: less_induct)
  case less
  note sg = heap_shape_seg [OF shape]
  have lim: "sub32 (mem_size_aligned h) n = mem_size_aligned h - n"
    using n heap_shape_size [OF shape] heap_shape_end [OF shape] by (simp add: sub32_exact)
  show ?case
  proof (cases "p < mem_size_aligned h - n")
    case False
    thus ?thesis by (subst malloc_find.simps) (auto simp: lim fits_def)
  next
    case True
    hence "p \<noteq> heap_end h" using heap_shape_size [OF shape] by simp
    hence pb: "p \<in> set bs" using less.prems by blast
    let ?nx = "hm_next (mem_at h p)"
    note at = heap_shape_at(2, 3, 6, 8) [OF shape pb]
    have less_nx: "heap_end h - ?nx < heap_end h - p" using at by simp
    have fit: "(hm_used (mem_at h p) = 0 \<and> n \<le> blk_len h p - SIZEOF_STRUCT_MEM) = fits h n p"
      using True at(1) by (auto simp: fits_def free_at_def blk_len_def SIZEOF_STRUCT_MEM_def)
    have step: "malloc_find h n p = (if fits h n p then Some (Some p) else malloc_find h n ?nx)"
      by (subst malloc_find.simps) (simp add: True lim room_at [OF shape pb] fit)
    show ?thesis
    proof (cases "fits h n p")
      case True thus ?thesis using step pb by auto
    next
      case False
      have above: "?nx \<le> b" if "b \<in> set bs" "p \<le> b" "fits h n b" for b
        using that False seg_order [OF sg pb, of b] by (cases "b = p") auto
      obtain r where r: "malloc_find h n ?nx = Some r"
        "case r of None \<Rightarrow> \<forall>b\<in>set bs. ?nx \<le> b \<longrightarrow> \<not> fits h n b
         | Some q \<Rightarrow> q \<in> set bs \<and> ?nx \<le> q \<and> fits h n q \<and> (\<forall>b\<in>set bs. ?nx \<le> b \<and> b < q \<longrightarrow> \<not> fits h n b)"
        using less.hyps [OF less_nx at(3)] by blast
      have "p \<le> ?nx" using at(1) by simp
      thus ?thesis using r above False step by (cases r) (auto dest: order_trans [of p ?nx])
    qed
  qed
qed

lemma lfree_next_spec:
  assumes shape: "heap_shape bs h" and p: "p \<in> set bs \<union> {heap_end h}"
  shows "\<exists>q. lfree_next h p = Some q \<and> q \<in> set bs \<union> {heap_end h} \<and> (q = heap_end h \<or> free_at h q) \<and>
    (\<forall>b\<in>set bs. p \<le> b \<and> b < q \<longrightarrow> \<not> free_at h b)"
  using p
proof (induction "heap_end h - p" arbitrary: p rule: less_induct)
  case less
  note sg = heap_shape_seg [OF shape]
  show ?case
  proof (cases "p = heap_end h \<or> free_at h p")
    case True thus ?thesis using less.prems by (subst lfree_next.simps) (auto simp: free_at_def)
  next
    case False
    hence pb: "p \<in> set bs" and np: "p \<noteq> heap_end h" "\<not> free_at h p" using less.prems by auto
    let ?nx = "hm_next (mem_at h p)"
    note at = heap_shape_at(2, 3, 6, 8) [OF shape pb]
    have above: "?nx \<le> b" if "b \<in> set bs" "p \<le> b" "free_at h b" for b
      using that np seg_order [OF sg pb, of b] by (cases "b = p") auto
    have "lfree_next h p = lfree_next h ?nx" using np by (subst lfree_next.simps) (simp add: free_at_def)
    moreover have "heap_end h - ?nx < heap_end h - p" using at by simp
    note less.hyps [OF this at(3)]
    ultimately show ?thesis using above by metis
  qed
qed

subsection \<open>The block taken\<close>

lemma add_used_simps [simp]:
  "heap_ptr (add_used n h) = heap_ptr h" "heap_end (add_used n h) = heap_end h" "lfree (add_used n h) = lfree h"
  "mem_at (add_used n h) = mem_at h" "mem_size_aligned (add_used n h) = mem_size_aligned h"
  "used_mem (add_used n h) = add32 (used_mem h) n" "heap_data (add_used n h) = heap_data h"
  by (simp_all add: add_used_def Let_def)

lemma malloc_take_cases:
  assumes shape: "heap_shape bs h" and a: "a \<in> set bs" and n: "12 \<le> n" "n + SIZEOF_STRUCT_MEM \<le> blk_len h a"
  shows "malloc_take n a h =
    (if n + 2 * SIZEOF_STRUCT_MEM + 12 \<le> blk_len h a
     then add_used (n + SIZEOF_STRUCT_MEM) (upd_mem a (\<lambda>m. m\<lparr>hm_used := 1\<rparr>) (cut_block a (a + (SIZEOF_STRUCT_MEM + n)) h))
     else add_used (blk_len h a) (upd_mem a (\<lambda>m. m\<lparr>hm_used := 1\<rparr>) h))"
proof -
  let ?c = "a + (SIZEOF_STRUCT_MEM + n)" let ?nx = "hm_next (mem_at h a)"
  note at = heap_shape_at(2, 3) [OF shape a] and he = heap_shape_end [OF shape]
  have bl: "blk_len h a \<le> heap_end h" "heap_end h + 16 \<le> 2 ^ 32"
    using at shape by (auto simp: blk_len_def heap_shape_def SIZEOF_STRUCT_MEM_def)
  have c: "add32 a (SIZEOF_STRUCT_MEM + n) = ?c" "add32 n SIZEOF_STRUCT_MEM = n + SIZEOF_STRUCT_MEM"
    "sub32 ?nx a = blk_len h a"
    using n at he by (auto intro!: add32_exact simp: sub32_exact blk_len_def SIZEOF_STRUCT_MEM_def)
  have "add32 n 28 = n + 28" using bl n by (intro add32_exact) (simp add: SIZEOF_STRUCT_MEM_def)
  hence cond: "add32 n (SIZEOF_STRUCT_MEM + MIN_SIZE_ALIGNED) \<le> blk_len h a - SIZEOF_STRUCT_MEM \<longleftrightarrow>
      n + 2 * SIZEOF_STRUCT_MEM + 12 \<le> blk_len h a"
    using at by (auto simp: SIZEOF_STRUCT_MEM_def MIN_SIZE_ALIGNED_def blk_len_def)
  have comm: "link_back ?c (upd_mem a (\<lambda>m. m\<lparr>hm_used := 1\<rparr>) (split_block a ?c h)) =
      upd_mem a (\<lambda>m. m\<lparr>hm_used := 1\<rparr>) (cut_block a ?c h)"
    using at by (auto simp: cut_block_def link_back_def split_block_def upd_mem_def Let_def SIZEOF_STRUCT_MEM_def fun_eq_iff)
  show ?thesis
    unfolding malloc_take_def room_at [OF shape a] cond Let_def c comm by (simp add: c)
qed

text \<open>
  The block is cut when it has room for another; then it is marked. Up to the mark nothing in use changes.
\<close>

definition take_mark :: "u8 list \<Rightarrow> heap_mem \<Rightarrow> heap_mem" where
  "take_mark name m = rt_mem_setname name (m\<lparr>hm_used := 1, hm_magic := HEAP_MAGIC\<rparr>)"

lemma marks_take: "marks (take_mark name) 1"
  by (simp add: marks_def take_mark_def)

lemma malloc_cut:
  assumes inv: "heap_inv bs h" and a: "a \<in> set bs" "free_at h a"
    and n: "12 \<le> n" "n mod 4 = 0" "n + SIZEOF_STRUCT_MEM \<le> blk_len h a"
  obtains h0 xs zs where
    "upd_mem a (\<lambda>m. rt_mem_setname name (m\<lparr>hm_magic := HEAP_MAGIC\<rparr>)) (malloc_take n a h) =
       add_used (blk_len h0 a) (upd_mem a (take_mark name) h0)"
    "heap_shape (xs @ a # zs) h0" "no_adjacent xs h0" "no_adjacent zs h0" "free_at h0 a"
    "live (xs @ a # zs) h0 = live bs h" "used_sum (xs @ a # zs) h0 = used_sum bs h"
    "n + SIZEOF_STRUCT_MEM \<le> blk_len h0 a" "used_mem h0 = used_mem h" "heap_data h0 = heap_data h"
    "heap_ptr h0 = heap_ptr h" "heap_end h0 = heap_end h" "lfree h0 = lfree h"
    "lowest_free bs h \<Longrightarrow> lowest_free (xs @ a # zs) h0"
proof -
  have shape: "heap_shape bs h" and adj: "no_adjacent bs h" using inv by (auto simp: heap_inv_def)
  obtain xs ys where bs: "bs = xs @ a # ys" using a by (meson split_list)
  have adj': "no_adjacent xs h" "no_adjacent ys h" "ys \<noteq> [] \<Longrightarrow> \<not> free_at h (hd ys)"
    using adj a(2) by (auto simp: bs no_adjacent_def successively_append_iff successively_Cons)
  have eq: "upd_mem a (\<lambda>m. rt_mem_setname name (m\<lparr>hm_magic := HEAP_MAGIC\<rparr>)) (add_used k (upd_mem a (\<lambda>m. m\<lparr>hm_used := 1\<rparr>) g)) =
      add_used k (upd_mem a (take_mark name) g)" for k g
    by (simp add: upd_mem_def add_used_def take_mark_def Let_def)
  note mt = malloc_take_cases [OF shape a(1) n(1, 3)]
  show thesis
  proof (cases "n + 2 * SIZEOF_STRUCT_MEM + 12 \<le> blk_len h a")
    case False
    thus thesis
      using that [of h xs ys] n(3) mt eq shape adj' a bs by simp
  next
    case True
    let ?c = "a + (SIZEOF_STRUCT_MEM + n)" let ?h0 = "cut_block a ?c h"
    have c: "a + 20 \<le> ?c" "?c + 20 \<le> hm_next (mem_at h a)" "?c mod 4 = 0"
      using True n heap_shape_at(1, 2) [OF shape a(1)] by (auto simp: SIZEOF_STRUCT_MEM_def blk_len_def mod_add_eq)
    note cs = cut_shape [OF shape [unfolded bs] c] and cl = cut_live [OF shape [unfolded bs] a(2) c]
    have nc: "?c \<notin> set xs" "?c \<notin> set ys" using shape_distinct [of "xs @ [a]" ?c ys] cs(1) by auto
    have ad: "no_adjacent xs ?h0" "no_adjacent ys ?h0"
      using nc cs(2) adj' no_adjacent_cong [of xs ?h0 h] no_adjacent_cong [of ys ?h0 h] by auto
    hence "no_adjacent (?c # ys) ?h0"
      using adj'(3) cs(2) nc by (cases ys) (auto simp: no_adjacent_def)
    moreover have "lowest_free (xs @ a # ?c # ys) ?h0" if "lowest_free bs h"
      using that cs(2) a by (auto simp: lowest_free_def bs)
    ultimately show thesis
      using that [of ?h0 xs "?c # ys"] True mt eq cs cl ad a bs by (simp add: add.commute)
  qed
qed

lemma take_facts:
  fixes name :: "u8 list"
  assumes shape: "heap_shape (xs @ a # zs) h0" and adj: "no_adjacent xs h0" "no_adjacent zs h0" and fr: "free_at h0 a"
    and u: "used_mem h0 = used_sum (xs @ a # zs) h0"
  defines "h1 \<equiv> add_used (blk_len h0 a) (upd_mem a (take_mark name) h0)"
  shows "heap_inv (xs @ a # zs) h1" "\<And>d. free_at h1 d = (d \<noteq> a \<and> free_at h0 d)"
    "live (xs @ a # zs) h1 =
       insert (heap_ptr h0 + a + SIZEOF_STRUCT_MEM, blk_len h0 a - SIZEOF_STRUCT_MEM) (live (xs @ a # zs) h0)"
    "used_mem h1 = used_mem h0 + blk_len h0 a"
proof -
  let ?bs = "xs @ a # zs"
  have a: "a \<in> set ?bs" by simp
  have na: "a \<notin> set xs" "a \<notin> set zs" using shape_distinct [OF shape] by auto
  have m: "mem_at h1 = mem_at (upd_mem a (take_mark name) h0)" "heap_ptr h1 = heap_ptr h0" by (simp_all add: h1_def)
  show f1: "free_at h1 d = (d \<noteq> a \<and> free_at h0 d)" for d
    using mark_free_at [OF marks_take, of a name h0 d] m by (simp add: free_at_def)
  have bl: "blk_len h1 d = blk_len h0 d" for d using mark_blk_len [OF marks_take, of a name h0 d] m by (simp add: blk_len_def)
  have s1: "heap_shape ?bs h1"
    using mark_shape [OF shape a marks_take, of name] by (simp add: h1_def heap_shape_def free_at_def)
  have "used_sum xs h1 = used_sum xs h0" "used_sum zs h1 = used_sum zs h0"
    by (rule used_sum_cong; use na f1 bl in auto)+
  hence sum: "used_sum ?bs h1 = used_sum ?bs h0 + blk_len h0 a" using fr f1 bl by simp
  have "used_sum ?bs h1 \<le> heap_end h1" using used_sum_le [OF heap_shape_seg [OF s1]] by simp
  hence "used_mem h0 + blk_len h0 a < 2 ^ 32" using sum u heap_shape_end [OF s1] by simp
  thus um: "used_mem h1 = used_mem h0 + blk_len h0 a" by (simp add: h1_def add32_exact)
  have "no_adjacent xs h1" "no_adjacent zs h1"
    using na f1 adj no_adjacent_cong [of xs h1 h0] no_adjacent_cong [of zs h1 h0] by auto
  hence "no_adjacent ?bs h1"
    using f1 by (cases zs) (auto simp: no_adjacent_def successively_append_iff)
  thus "heap_inv ?bs h1" using s1 um sum u by (simp add: heap_inv_def)
  show "live ?bs h1 = insert (heap_ptr h0 + a + SIZEOF_STRUCT_MEM, blk_len h0 a - SIZEOF_STRUCT_MEM) (live ?bs h0)"
    unfolding live_def f1 bl m(2) using fr by auto
qed

subsection \<open>Blocks in use do not overlap\<close>

lemma live_disjoint:
  assumes shape: "heap_shape bs h" and q: "(q, len) \<in> live bs h" "(q', len') \<in> live bs h" "(q, len) \<noteq> (q', len')"
  shows "q + len + SIZEOF_STRUCT_MEM \<le> q' \<or> q' + len' + SIZEOF_STRUCT_MEM \<le> q"
proof -
  obtain a b where ab: "a \<in> set bs" "b \<in> set bs" and qs: "q = heap_ptr h + a + SIZEOF_STRUCT_MEM"
    "len = blk_len h a - SIZEOF_STRUCT_MEM" "q' = heap_ptr h + b + SIZEOF_STRUCT_MEM" "len' = blk_len h b - SIZEOF_STRUCT_MEM"
    using q by (auto simp: live_def)
  have "a \<noteq> b" using q(3) qs by auto
  hence "hm_next (mem_at h a) \<le> b \<or> hm_next (mem_at h b) \<le> a"
    using seg_order [OF heap_shape_seg [OF shape]] ab by (meson linorder_neqE_nat)
  thus ?thesis using heap_shape_at(2) [OF shape] ab by (fastforce simp: qs blk_len_def SIZEOF_STRUCT_MEM_def)
qed

text \<open>No header lies inside a block in use.\<close>

lemma live_header:
  assumes shape: "heap_shape bs h" and q: "(q, len) \<in> live bs h" and b: "b \<in> set bs \<union> {heap_end h}"
  shows "heap_ptr h + b + SIZEOF_STRUCT_MEM \<le> q \<or> q + len \<le> heap_ptr h + b"
proof -
  obtain a where a: "a \<in> set bs" and qs: "q = heap_ptr h + a + SIZEOF_STRUCT_MEM" "len = blk_len h a - SIZEOF_STRUCT_MEM"
    using q by (auto simp: live_def)
  note at = heap_shape_at(2, 3) [OF shape a]
  have "b \<le> a \<or> hm_next (mem_at h a) \<le> b"
    using b at seg_order [OF heap_shape_seg [OF shape] a] by (cases "b \<le> a") auto
  thus ?thesis using at by (auto simp: qs blk_len_def SIZEOF_STRUCT_MEM_def)
qed

lemma heap_inv_lfree: "heap_inv bs h \<Longrightarrow> p \<in> set bs \<union> {heap_end h} \<Longrightarrow> heap_inv bs (h\<lparr>lfree := p\<rparr>)"
  using used_sum_cong [of bs "h\<lparr>lfree := p\<rparr>" h]
  by (simp add: heap_inv_def heap_shape_def no_adjacent_def free_at_def blk_len_def)

subsection \<open>rt_malloc\<close>

definition malloc_size :: "u32 \<Rightarrow> nat" where
  "malloc_size sz = max MIN_SIZE_ALIGNED (unat (RT_ALIGN sz (of_nat RT_ALIGN_SIZE)))"

lemma malloc_size_facts:
  "12 \<le> malloc_size sz" "malloc_size sz mod 4 = 0" "sz \<le> 0xfffffffc \<Longrightarrow> unat sz \<le> malloc_size sz"
proof -
  show "12 \<le> malloc_size sz" "malloc_size sz mod 4 = 0"
    by (simp_all add: malloc_size_def MIN_SIZE_ALIGNED_def RT_ALIGN_unat max_def)
  assume "sz \<le> 0xfffffffc"
  hence "unat sz \<le> unat (0xfffffffc :: u32)" by (simp only: word_le_nat_alt)
  hence "unat sz + unat (3 :: u32) < 2 ^ LENGTH(32)" by simp
  hence "unat (sz + 3) = unat sz + unat (3 :: u32)" by (simp only: unat_add_lem)
  hence "unat (sz + 3) = unat sz + 3" by simp
  thus "unat sz \<le> malloc_size sz" unfolding malloc_size_def RT_ALIGN_unat by linarith
qed

lemma malloc_found:
  assumes inv: "heap_inv bs h" and a: "a \<in> set bs" and fit: "fits h (malloc_size sz) a"
  defines "q \<equiv> heap_ptr h + a + SIZEOF_STRUCT_MEM" and "n \<equiv> malloc_size sz"
  assumes find: "malloc_find h n (lfree h) = Some (Some a)"
    and sz: "sz \<noteq> 0" "unat (RT_ALIGN sz (of_nat RT_ALIGN_SIZE)) \<le> mem_size_aligned h"
  obtains h' bs' len where "rt_malloc name sz h = Some (q, h')" "heap_inv bs' h'"
    "live bs' h' = insert (q, len) (live bs h)" "(q, len) \<notin> live bs h" "n \<le> len" "q mod 4 = 0" "q \<noteq> 0"
    "used_mem h' = used_mem h + len + SIZEOF_STRUCT_MEM" "heap_data h' = heap_data h" "heap_ptr h' = heap_ptr h"
    "heap_end h' = heap_end h" "lowest_free bs h \<longrightarrow> lowest_free bs' h'"
proof -
  have fr: "free_at h a" and room: "n + SIZEOF_STRUCT_MEM \<le> blk_len h a" using fit by (auto simp: fits_def n_def)
  note n = malloc_size_facts(1, 2) [of sz, folded n_def]
  obtain h0 xs zs where c: "upd_mem a (\<lambda>m. rt_mem_setname name (m\<lparr>hm_magic := HEAP_MAGIC\<rparr>)) (malloc_take n a h) =
       add_used (blk_len h0 a) (upd_mem a (take_mark name) h0)"
    and s0: "heap_shape (xs @ a # zs) h0" "no_adjacent xs h0" "no_adjacent zs h0" "free_at h0 a"
    and l0: "live (xs @ a # zs) h0 = live bs h" "used_sum (xs @ a # zs) h0 = used_sum bs h"
    and room0: "n + SIZEOF_STRUCT_MEM \<le> blk_len h0 a"
    and f0: "used_mem h0 = used_mem h" "heap_data h0 = heap_data h" "heap_ptr h0 = heap_ptr h"
      "heap_end h0 = heap_end h" "lfree h0 = lfree h"
    and low0: "lowest_free bs h \<Longrightarrow> lowest_free (xs @ a # zs) h0"
    using malloc_cut [OF inv a fr n room, where name = name] by blast
  let ?bs = "xs @ a # zs"
  define h1 where "h1 = add_used (blk_len h0 a) (upd_mem a (take_mark name) h0)"
  have u0: "used_mem h0 = used_sum ?bs h0" using f0(1) l0(2) inv by (simp add: heap_inv_def)
  note t = take_facts [OF s0 u0, where name = name, folded h1_def]
  have f1: "heap_data h1 = heap_data h" "heap_ptr h1 = heap_ptr h" "heap_end h1 = heap_end h" "lfree h1 = lfree h"
    using f0 by (simp_all add: h1_def)
  have shape: "heap_shape bs h" and s1: "heap_shape ?bs h1" using inv t(1) by (simp_all add: heap_inv_def)
  obtain p where p: "lfree_next h1 a = Some p" "p \<in> set ?bs \<union> {heap_end h1}" "p = heap_end h1 \<or> free_at h1 p"
    "\<forall>b\<in>set ?bs. a \<le> b \<and> b < p \<longrightarrow> \<not> free_at h1 b"
    using lfree_next_spec [OF s1, of a] by auto
  define h' where "h' = (if lfree h = a then h1\<lparr>lfree := p\<rparr> else h1)"
  have m': "mem_at h' = mem_at h1" by (simp add: h'_def)
  have al: "(if unat (RT_ALIGN sz (of_nat RT_ALIGN_SIZE)) < MIN_SIZE_ALIGNED then MIN_SIZE_ALIGNED
      else unat (RT_ALIGN sz (of_nat RT_ALIGN_SIZE))) = n" by (simp add: n_def malloc_size_def)
  have "a + SIZEOF_STRUCT_MEM + n \<le> heap_end h"
    using room heap_shape_at(3) [OF shape a] by (simp add: blk_len_def SIZEOF_STRUCT_MEM_def)
  moreover have "(heap_ptr h + a) mod 4 = 0"
    using heap_shape_at(1) [OF shape a] shape by (auto simp: heap_shape_def mod_add_eq)
  ultimately have "malloc_finish n a h1 = Some (q, h')"
    using free_at_address(1) [OF shape a] p(1, 3) f1
    by (cases "lfree h = a") (simp_all add: malloc_finish_def h'_def q_def free_at_def RT_ALIGN_SIZE_def)
  hence run: "rt_malloc name sz h = Some (q, h')"
    unfolding rt_malloc_def Let_def al using sz find by (simp add: c [folded h1_def] not_less)
  have inv': "heap_inv ?bs h'" using t(1) heap_inv_lfree [OF t(1) p(2)] by (simp add: h'_def)
  have live': "live ?bs h' = insert (q, blk_len h0 a - SIZEOF_STRUCT_MEM) (live bs h)"
    using t(3) l0(1) f0(3) by (simp add: h'_def q_def live_def free_at_def blk_len_def)
  have new: "(q, len) \<notin> live bs h" for len
    using fr by (auto simp: live_def q_def)
  have low': "lowest_free ?bs h'" if "lowest_free bs h"
    unfolding lowest_free_def
  proof safe
    fix b assume b: "b \<in> set ?bs" "free_at h' b"
    hence "free_at h1 b" "lfree h \<le> b"
      using low0 [OF that] t(2) f0(5) m' unfolding lowest_free_def free_at_def by auto
    thus "lfree h' \<le> b" using p(4) b(1) f1(4) by (cases "lfree h = a") (auto simp: h'_def not_less [symmetric])
  qed
  have len: "blk_len h0 a = (blk_len h0 a - SIZEOF_STRUCT_MEM) + SIZEOF_STRUCT_MEM" using room0 by simp
  show thesis
    using that [OF run inv' live' new] room0 free_at_address(1, 4) [OF shape a] low' t(4) f0(1) f1 len
    by (simp add: h'_def q_def)
qed

section \<open>The heap as its users see it\<close>

text \<open>
  The blocks of a heap, by following the headers (a block has at least 20 bytes, so that the fuel is enough);
  the blocks in use; the invariant.
\<close>

primrec heap_walk :: "nat \<Rightarrow> rt_heap \<Rightarrow> nat \<Rightarrow> nat list" where
  "heap_walk 0 h p = []"
| "heap_walk (Suc k) h p = (if p = heap_end h then [] else p # heap_walk k h (hm_next (mem_at h p)))"

definition heap_blocks :: "rt_heap \<Rightarrow> nat list" where "heap_blocks h = heap_walk (heap_end h div 20) h 0"
definition heap_live :: "rt_heap \<Rightarrow> (nat \<times> nat) set" where "heap_live h = live (heap_blocks h) h"
definition heap_wf :: "rt_heap \<Rightarrow> bool" where "heap_wf h \<longleftrightarrow> heap_inv (heap_blocks h) h"
definition heap_lowest :: "rt_heap \<Rightarrow> bool" where "heap_lowest h \<longleftrightarrow> lowest_free (heap_blocks h) h"

lemma seg_walk: "seg (mem_at h) p a bs (heap_end h) \<Longrightarrow> length bs \<le> k \<Longrightarrow> heap_walk k h a = bs"
proof (induction bs arbitrary: k p a)
  case Nil thus ?case by (cases k) auto
next
  case (Cons b bs)
  then obtain k' where k: "k = Suc k'" by (cases k) auto
  have "a < heap_end h" using Cons.prems(1) seg_le by (fastforce simp: hdr_ok_def)
  thus ?case using Cons k by auto
qed

lemma heap_inv_blocks: "heap_inv bs h \<Longrightarrow> heap_blocks h = bs"
  using seg_walk [OF heap_shape_seg] seg_len [OF heap_shape_seg] by (fastforce simp: heap_blocks_def heap_inv_def)

lemma heap_inv_wf:
  assumes "heap_inv bs h"
  shows "heap_wf h" "heap_live h = live bs h" "heap_lowest h = lowest_free bs h"
  using assms heap_inv_blocks [OF assms] by (simp_all add: heap_wf_def heap_live_def heap_lowest_def)

lemma heap_wf_shape: "heap_wf h \<Longrightarrow> heap_shape (heap_blocks h) h"
  by (simp add: heap_wf_def heap_inv_def)

lemma heap_live_disjoint:
  assumes "heap_wf h" "(q, len) \<in> heap_live h" "(q', len') \<in> heap_live h" "(q, len) \<noteq> (q', len')"
  shows "q + len \<le> q' \<or> q' + len' \<le> q"
  using live_disjoint [OF heap_wf_shape [OF assms(1)]] assms(2-4) by (fastforce simp: heap_live_def)

lemma heap_malloc:
  assumes wf: "heap_wf h" and sz: "sz \<noteq> 0"
  obtains q h' where "rt_malloc name sz h = Some (q, h')"
    "q = 0 \<longrightarrow> h' = h \<and> (mem_size_aligned h < unat (RT_ALIGN sz (of_nat RT_ALIGN_SIZE)) \<or>
       (\<forall>b\<in>set (heap_blocks h). lfree h \<le> b \<longrightarrow> \<not> fits h (malloc_size sz) b))"
    "q \<noteq> 0 \<longrightarrow> (\<exists>len. heap_wf h' \<and> heap_live h' = insert (q, len) (heap_live h) \<and> (q, len) \<notin> heap_live h \<and>
       malloc_size sz \<le> len \<and> q mod 4 = 0 \<and> used_mem h' = used_mem h + len + SIZEOF_STRUCT_MEM \<and>
       (heap_lowest h \<longrightarrow> heap_lowest h'))"
    "heap_data h' = heap_data h" "heap_ptr h' = heap_ptr h" "heap_end h' = heap_end h"
proof -
  let ?al = "unat (RT_ALIGN sz (of_nat RT_ALIGN_SIZE))" let ?bs = "heap_blocks h"
  have inv: "heap_inv ?bs h" and shape: "heap_shape ?bs h" using wf heap_wf_shape by (auto simp: heap_wf_def)
  show thesis
  proof (cases "?al \<le> mem_size_aligned h")
    case False
    thus thesis using that [of 0 h] sz by (simp add: rt_malloc_def)
  next
    case al: True
    have n: "malloc_size sz \<le> mem_size_aligned h"
      using al shape heap_shape_size [OF shape]
      by (auto simp: malloc_size_def MIN_SIZE_ALIGNED_def heap_shape_def SIZEOF_STRUCT_MEM_def)
    have nn: "(if ?al < MIN_SIZE_ALIGNED then MIN_SIZE_ALIGNED else ?al) = malloc_size sz" by (simp add: malloc_size_def)
    have "lfree h \<in> set ?bs \<union> {heap_end h}" using shape unfolding heap_shape_def by blast
    from malloc_find_spec [OF shape n this] obtain r where r: "malloc_find h (malloc_size sz) (lfree h) = Some r"
      "case r of None \<Rightarrow> \<forall>b\<in>set ?bs. lfree h \<le> b \<longrightarrow> \<not> fits h (malloc_size sz) b
       | Some q \<Rightarrow> q \<in> set ?bs \<and> lfree h \<le> q \<and> fits h (malloc_size sz) q \<and>
           (\<forall>b\<in>set ?bs. lfree h \<le> b \<and> b < q \<longrightarrow> \<not> fits h (malloc_size sz) b)"
      by blast
    show thesis
    proof (cases r)
      case None
      have "rt_malloc name sz h = Some (0, h)"
        unfolding rt_malloc_def Let_def nn using r(1) None sz al by (simp add: not_less)
      thus thesis using that [of 0 h] r(2) None by simp
    next
      case (Some a)
      with r have a: "a \<in> set ?bs" "fits h (malloc_size sz) a" "malloc_find h (malloc_size sz) (lfree h) = Some (Some a)"
        by auto
      obtain h' bs' len where 1: "rt_malloc name sz h = Some (heap_ptr h + a + SIZEOF_STRUCT_MEM, h')" and
        2: "heap_inv bs' h'" and 3: "live bs' h' = insert (heap_ptr h + a + SIZEOF_STRUCT_MEM, len) (live ?bs h)"
           "(heap_ptr h + a + SIZEOF_STRUCT_MEM, len) \<notin> live ?bs h"
           "malloc_size sz \<le> len" "(heap_ptr h + a + SIZEOF_STRUCT_MEM) mod 4 = 0"
           "heap_ptr h + a + SIZEOF_STRUCT_MEM \<noteq> 0"
           "used_mem h' = used_mem h + len + SIZEOF_STRUCT_MEM" "heap_data h' = heap_data h" "heap_ptr h' = heap_ptr h"
           "heap_end h' = heap_end h" and 4: "lowest_free ?bs h \<longrightarrow> lowest_free bs' h'"
        by (rule malloc_found [OF inv a sz al, where name = name])
      note wf' = heap_inv_wf [OF 2]
      show thesis
        by (rule that [OF 1])
           (use 3 4 wf' heap_live_def [of h] heap_lowest_def [of h] in \<open>auto simp del: add_is_0\<close>)
    qed
  qed
qed

lemma heap_free:
  assumes wf: "heap_wf h" and q: "(q, len) \<in> heap_live h"
  obtains h' where "rt_free q h = Some h'" "heap_wf h'" "heap_live h' = heap_live h - {(q, len)}"
    "used_mem h' + len + SIZEOF_STRUCT_MEM = used_mem h" "heap_data h' = heap_data h" "heap_ptr h' = heap_ptr h"
    "heap_end h' = heap_end h" "heap_lowest h \<longrightarrow> heap_lowest h'"
proof -
  let ?bs = "heap_blocks h"
  have inv: "heap_inv ?bs h" and ql: "(q, len) \<in> live ?bs h" using wf q by (simp_all add: heap_wf_def heap_live_def)
  obtain bs' h' where 1: "rt_free q h = Some h'" and 2: "heap_inv bs' h'" and 3: "live bs' h' = live ?bs h - {(q, len)}"
    "used_mem h' = used_mem h - (len + SIZEOF_STRUCT_MEM)" "heap_data h' = heap_data h" "heap_ptr h' = heap_ptr h"
    "heap_end h' = heap_end h" "lowest_free ?bs h \<longrightarrow> lowest_free bs' h'"
    using rt_free_live [OF inv ql] by metis
  obtain a where a: "a \<in> set ?bs" "\<not> free_at h a" "len = blk_len h a - SIZEOF_STRUCT_MEM" using ql by (auto simp: live_def)
  obtain xs ys where bs: "?bs = xs @ a # ys" using a by (meson split_list)
  have "len + SIZEOF_STRUCT_MEM = blk_len h a"
    using a(3) heap_shape_at(2) [OF heap_wf_shape [OF wf] a(1)] by (simp add: blk_len_def SIZEOF_STRUCT_MEM_def)
  hence "len + SIZEOF_STRUCT_MEM \<le> used_mem h" using inv a(2) by (simp add: heap_inv_def bs)
  thus thesis
    using that [OF 1] heap_inv_wf [OF 2] 3 by (simp add: heap_live_def [of h] heap_lowest_def [of h])
qed

section \<open>Resizing a block\<close>

lemma cut_used:
  assumes inv: "heap_inv bs h" and a: "a \<in> set bs" "\<not> free_at h a"
    and c: "a + 20 \<le> c" "c + 20 \<le> hm_next (mem_at h a)" "c mod 4 = 0"
  defines "g \<equiv> h\<lparr>used_mem := used_mem h - (hm_next (mem_at h a) - c)\<rparr>"
  obtains h' where "plug_holes c (cut_block a c g) = Some h'" "heap_wf h'"
    "heap_live h' = insert (heap_ptr h + a + SIZEOF_STRUCT_MEM, c - a - SIZEOF_STRUCT_MEM)
      (live bs h - {(heap_ptr h + a + SIZEOF_STRUCT_MEM, blk_len h a - SIZEOF_STRUCT_MEM)})"
    "used_mem h' = used_mem g" "heap_data h' = heap_data h"
proof -
  obtain xs ys where bs: "bs = xs @ a # ys" using a by (meson split_list)
  have gs: "mem_at g = mem_at h" "free_at g d = free_at h d" "blk_len g d = blk_len h d" for d
    by (simp_all add: g_def free_at_def blk_len_def)
  have shape: "heap_shape (xs @ a # ys) g" and adj: "no_adjacent xs h" "no_adjacent ys h" "no_adjacent (xs @ [a]) h"
    using inv a(2) by (auto simp: bs g_def heap_inv_def heap_shape_def free_at_def no_adjacent_def successively_append_iff successively_Cons)
  let ?h0 = "cut_block a c g" let ?bs = "xs @ a # c # ys"
  note cs = cut_shape [OF shape c [folded gs(1)], unfolded gs]
  have nc: "c \<notin> set xs" "c \<notin> set ys" "c \<noteq> a" using shape_distinct [of "xs @ [a]" c ys] cs(1) by auto
  have na: "a \<notin> set xs" "a \<notin> set ys" using shape_distinct [OF shape] by auto
  have len: "blk_len ?h0 d = blk_len h d" if "d \<in> set xs \<union> set ys" for d using that nc na by (intro cs(4)) blast
  have "used_sum xs ?h0 = used_sum xs h" "used_sum ys ?h0 = used_sum ys h"
    by (rule used_sum_cong; use nc cs(2) len in auto)+
  hence sum: "used_sum ?bs ?h0 = used_mem g"
    using inv a(2) cs(2, 3) nc(3) c by (simp add: g_def heap_inv_def bs blk_len_def)
  have "no_adjacent (xs @ [a]) ?h0" "no_adjacent ys ?h0"
    using nc cs(2) adj no_adjacent_cong [of "xs @ [a]" ?h0 h] no_adjacent_cong [of ys ?h0 h] by auto
  moreover have "heap_shape ((xs @ [a]) @ c # ys) ?h0" "free_at ?h0 c" using cs(1, 2) by simp_all
  ultimately obtain bs' h' where p: "plug_holes c ?h0 = Some h'" "heap_shape bs' h'" "no_adjacent bs' h'"
    "same_use ((xs @ [a]) @ c # ys) ?h0 bs' h'"
    using plug_holes_inv by metis
  have l0: "live ?bs ?h0 = insert (heap_ptr h + a + SIZEOF_STRUCT_MEM, c - a - SIZEOF_STRUCT_MEM)
      (live bs h - {(heap_ptr h + a + SIZEOF_STRUCT_MEM, blk_len h a - SIZEOF_STRUCT_MEM)})"
    unfolding live_def using cs(2, 3) len a(2) nc na by (auto simp: bs g_def)
  have inv': "heap_inv bs' h'" using p sum by (simp add: heap_inv_def same_use_def)
  show thesis
    using that [OF p(1)] heap_inv_wf [OF inv'] p(4) l0 by (simp add: same_use_def g_def)
qed

lemma heap_walk_data [simp]: "heap_walk k (h\<lparr>heap_data := d\<rparr>) p = heap_walk k h p"
  by (induction k arbitrary: p) simp_all

lemma heap_data_wf [simp]:
  "heap_wf (h\<lparr>heap_data := d\<rparr>) = heap_wf h" "heap_live (h\<lparr>heap_data := d\<rparr>) = heap_live h"
  "heap_lowest (h\<lparr>heap_data := d\<rparr>) = heap_lowest h"
proof -
  have "used_sum bs (h\<lparr>heap_data := d\<rparr>) = used_sum bs h" for bs
    by (rule used_sum_cong) (simp_all add: free_at_def blk_len_def)
  thus "heap_wf (h\<lparr>heap_data := d\<rparr>) = heap_wf h"
    by (simp add: heap_wf_def heap_blocks_def heap_inv_def heap_shape_def no_adjacent_def free_at_def)
  show "heap_live (h\<lparr>heap_data := d\<rparr>) = heap_live h" "heap_lowest (h\<lparr>heap_data := d\<rparr>) = heap_lowest h"
    by (simp_all add: heap_live_def heap_lowest_def lowest_free_def live_def heap_blocks_def free_at_def blk_len_def)
qed

lemma heap_live_at:
  assumes wf: "heap_wf h" and q: "(q, len) \<in> heap_live h"
  obtains a where "a \<in> set (heap_blocks h)" "\<not> free_at h a" "q = heap_ptr h + a + SIZEOF_STRUCT_MEM"
    "len = blk_len h a - SIZEOF_STRUCT_MEM" "hm_next (mem_at h a) = a + SIZEOF_STRUCT_MEM + len" "4 \<le> len"
    "hm_next (mem_at h a) < 2 ^ 32" "sub32 (sub32 q SIZEOF_STRUCT_MEM) (heap_ptr h) = a"
    "sub32 (sub32 (hm_next (mem_at h a)) a) SIZEOF_STRUCT_MEM = len"
proof -
  obtain a where a: "a \<in> set (heap_blocks h)" "\<not> free_at h a" "q = heap_ptr h + a + SIZEOF_STRUCT_MEM"
    "len = blk_len h a - SIZEOF_STRUCT_MEM" using q by (auto simp: heap_live_def live_def)
  note shape = heap_wf_shape [OF wf]
  note at = heap_shape_at(2, 3) [OF shape a(1)] and e = heap_shape_end [OF shape]
  have nx: "hm_next (mem_at h a) = a + SIZEOF_STRUCT_MEM + len" "4 \<le> len"
    using at a(4) by (auto simp: blk_len_def SIZEOF_STRUCT_MEM_def)
  moreover have lt: "hm_next (mem_at h a) < 2 ^ 32" using at e by linarith
  moreover have "sub32 (sub32 (hm_next (mem_at h a)) a) SIZEOF_STRUCT_MEM = len"
    using nx lt by (simp add: sub32_exact)
  ultimately show thesis using that [OF a] free_at_address(6) [OF shape a(1)] a(3) by simp
qed

text \<open>The three ways of \<^verbatim>\<open>rt_realloc\<close> with a block in use and a size that is neither zero nor too large.\<close>

lemma rt_realloc_live:
  assumes wf: "heap_wf h" and q: "(q, len) \<in> heap_live h"
    and n: "n = unat (RT_ALIGN newsz (of_nat RT_ALIGN_SIZE))" "n \<noteq> 0" "n \<le> mem_size_aligned h"
  obtains "n = len" "rt_realloc name q newsz h = Some (q, h)"
  | h' where "n < len" "rt_realloc name q newsz h = Some (q, h')" "heap_wf h'"
      "heap_live h' = insert (q, n) (heap_live h - {(q, len)})" "heap_data h' = heap_data h"
  | "n \<noteq> len" "rt_realloc name q newsz h =
      do { (p, h1) \<leftarrow> rt_malloc name (of_nat n) h;
           if p \<noteq> 0 then do { h2 \<leftarrow> rt_free q (copy_data p q (min len n) h1); Some (p, h2) } else Some (p, h1) }"
proof -
  let ?bs = "heap_blocks h"
  have inv: "heap_inv ?bs h" and shape: "heap_shape ?bs h" using wf heap_wf_shape by (auto simp: heap_wf_def)
  obtain a where a: "a \<in> set ?bs" "\<not> free_at h a" "q = heap_ptr h + a + SIZEOF_STRUCT_MEM"
    "len = blk_len h a - SIZEOF_STRUCT_MEM" and nx: "hm_next (mem_at h a) = a + SIZEOF_STRUCT_MEM + len"
    "hm_next (mem_at h a) < 2 ^ 32" and sub: "sub32 (sub32 q SIZEOF_STRUCT_MEM) (heap_ptr h) = a"
    "sub32 (sub32 (hm_next (mem_at h a)) a) SIZEOF_STRUCT_MEM = len"
    by (rule heap_live_at [OF wf q])
  note qa = free_at_address(2-4) [OF shape a(1), folded a(3)]
  have n4: "n mod 4 = 0" "4 \<le> n" using n(1, 2) by (auto simp: RT_ALIGN_unat)
  have nb: "n + 28 < 2 ^ 32"
    using n(3) shape by (auto simp: heap_shape_def SIZEOF_STRUCT_MEM_def)
  have big: "add32 n (SIZEOF_STRUCT_MEM + 12) = n + 28" using nb by (simp add: add32_exact SIZEOF_STRUCT_MEM_def)
  have run: "rt_realloc name q newsz h =
     (if len = n then Some (q, h)
      else if n + 28 < len then
        do { let g = h\<lparr>used_mem := sub32 (used_mem h) (sub32 len n)\<rparr>;
             let c = add32 a (SIZEOF_STRUCT_MEM + n);
             h' \<leftarrow> plug_holes c (cut_block a c g); Some (q, h') }
      else do { (p, h1) \<leftarrow> rt_malloc name (of_nat n) h;
                if p \<noteq> 0 then do { h2 \<leftarrow> rt_free q (copy_data p q (if len < n then len else n) h1); Some (p, h2) } else Some (p, h1) })"
    unfolding rt_realloc_def n(1) [symmetric] Let_def sub big cut_block_def using n(2, 3) qa by (simp add: not_less)
  show thesis
  proof (cases "len = n"; cases "n + 28 < len")
    assume ne: "len \<noteq> n" and lt: "n + 28 < len"
    let ?c = "a + (SIZEOF_STRUCT_MEM + n)" let ?u = "hm_next (mem_at h a) - ?c"
    have c: "a + 20 \<le> ?c" "?c + 20 \<le> hm_next (mem_at h a)" "?c mod 4 = 0"
      using n4 lt nx heap_shape_at(1) [OF shape a(1)] by (auto simp: SIZEOF_STRUCT_MEM_def mod_add_eq)
    have "len \<le> used_mem h"
    proof -
      obtain xs ys where "?bs = xs @ a # ys" using a by (meson split_list)
      thus ?thesis using inv a(2, 4) by (simp add: heap_inv_def)
    qed
    hence g: "sub32 (used_mem h) (sub32 len n) = used_mem h - ?u" "add32 a (SIZEOF_STRUCT_MEM + n) = ?c"
      using lt nx used_mem_bound [OF inv] heap_shape_end [OF shape]
      by (auto simp: sub32_exact intro!: add32_exact)
    obtain h' where "plug_holes ?c (cut_block a ?c (h\<lparr>used_mem := used_mem h - ?u\<rparr>)) = Some h'" "heap_wf h'"
      "heap_live h' = insert (q, ?c - a - SIZEOF_STRUCT_MEM) (live ?bs h - {(q, len)})" "heap_data h' = heap_data h"
      using cut_used [OF inv a(1, 2) c] a(3, 4) by metis
    thus thesis using that(2) [of h'] run ne lt by (simp add: g heap_live_def)
  qed (use run that(1, 3) in \<open>auto simp: min_def cong: if_cong\<close>)
qed

section \<open>Initialisation and the check of the shell\<close>

lemma heap_init_fields:
  fixes h :: rt_heap
  assumes b: "begin_addr \<le> 0xfffffffc" and b': "b = 4 * ((unat begin_addr + 3) div 4)"
    and w: "4 * (unat end_addr div 4) = b + (32 + w)" and nz: "b + w \<noteq> 0"
  defines "h' \<equiv> rt_system_heap_init begin_addr end_addr h"
  shows "heap_ptr h' = b" "mem_size_aligned h' = w" "heap_end h' = w + 16" "lfree h' = 0" "used_mem h' = used_mem h"
    "hm_next (mem_at h' 0) = w + 16" "hm_prev (mem_at h' 0) = 0" "hm_magic (mem_at h' 0) = HEAP_MAGIC"
    "hm_used (mem_at h' 0) = 0" "hm_used (mem_at h' (w + 16)) = 1" "hm_next (mem_at h' (w + 16)) = w + 16"
    "b + w + 32 < 2 ^ 32" "b mod 4 = 0" "w mod 4 = 0"
proof -
  let ?e = "4 * (unat end_addr div 4)"
  have "unat begin_addr \<le> unat (0xfffffffc :: u32)" using b by (simp only: word_le_nat_alt)
  hence "unat begin_addr + unat (3 :: u32) < 2 ^ LENGTH(32)" by simp
  hence "unat (begin_addr + 3) = unat begin_addr + unat (3 :: u32)" by (simp only: unat_add_lem)
  hence al: "unat (RT_ALIGN begin_addr (of_nat RT_ALIGN_SIZE)) = b"
    "unat (RT_ALIGN_DOWN end_addr (of_nat RT_ALIGN_SIZE)) = b + (32 + w)"
    by (simp_all add: RT_ALIGN_unat RT_ALIGN_DOWN_unat b' w)
  have "unat end_addr < 2 ^ LENGTH(32)" by (rule unsigned_less)
  hence e: "?e < 2 ^ 32" using order_le_less_trans [of ?e "unat end_addr"] by simp
  thus lt: "b + w + 32 < 2 ^ 32" using w by simp
  show "b mod 4 = 0" by (simp add: b')
  have "4 * x = 4 * y + (32 + w) \<Longrightarrow> w mod 4 = 0" for x y by presburger
  thus "w mod 4 = 0" using w b' by blast
  have a: "add32 w 16 = w + 16" using lt by (simp add: add32_exact)
  show "heap_ptr h' = b" "mem_size_aligned h' = w" "heap_end h' = w + 16" "lfree h' = 0" "used_mem h' = used_mem h"
    "hm_next (mem_at h' 0) = w + 16" "hm_prev (mem_at h' 0) = 0" "hm_magic (mem_at h' 0) = HEAP_MAGIC"
    "hm_used (mem_at h' 0) = 0" "hm_used (mem_at h' (w + 16)) = 1" "hm_next (mem_at h' (w + 16)) = w + 16"
    using nz unfolding h'_def rt_system_heap_init_def Let_def al SIZEOF_STRUCT_MEM_def by (auto simp: a)
qed

lemma heap_init_run:
  assumes "begin_addr \<le> 0xfffffffc" "b = 4 * ((unat begin_addr + 3) div 4)"
    "4 * (unat end_addr div 4) = b + (32 + w)" "12 \<le> w" "used_mem h = 0"
  defines "h' \<equiv> rt_system_heap_init begin_addr end_addr h"
  shows "heap_inv [0] h'" "live [0] h' = {}" "lowest_free [0] h'"
proof -
  have nz: "b + w \<noteq> 0" using assms(4) by simp
  note m = heap_init_fields(1-11) [OF assms(1-3) nz, where h = h, folded h'_def] heap_init_fields(12-14) [OF assms(1-3) nz]
  show "heap_inv [0] h'"
    unfolding heap_inv_def heap_shape_def no_adjacent_def
    using m assms(4, 5) by (simp add: hdr_ok_def free_at_def SIZEOF_STRUCT_MEM_def mod_add_eq) presburger
  show "live [0] h' = {}" "lowest_free [0] h'" using m by (simp_all add: live_def free_at_def lowest_free_def)
qed


text \<open>
  A heap of four or eight bytes: the search wraps around, walks past the end and stays there.
\<close>

lemma malloc_find_end:
  assumes e: "hm_next (mem_at h e) = e" "hm_used (mem_at h e) \<noteq> 0" "e < sub32 (mem_size_aligned h) n"
  shows "malloc_find h n e = None"
proof (rule ccontr)
  assume "malloc_find h n e \<noteq> None"
  then obtain r where "malloc_find h n e = Some r" by blast
  moreover have "malloc_find h' n' p = Some r \<Longrightarrow> (h', n', p) \<noteq> (h, n, e)" for h' n' p r
    by (erule malloc_find.raw_induct [rotated]) (use e in \<open>auto split: if_splits\<close>)
  ultimately show False by blast
qed

section \<open>Properties\<close>

text \<open>A heap of 96 bytes with one block of 12 bytes in use at the bottom.\<close>

definition demo_heap0 :: rt_heap where
  "demo_heap0 = rt_system_heap_init 0x1000 0x1080
     \<lparr>heap_ptr = 0, heap_end = 0, mem_at = (\<lambda>_. \<lparr>hm_magic = 0, hm_used = 0, hm_next = 0, hm_prev = 0, hm_thread = []\<rparr>),
      lfree = 0, mem_size_aligned = 0, used_mem = 0, max_mem = 0, heap_data = (\<lambda>_. 0)\<rparr>"

definition demo_heap1 :: rt_heap where
  "demo_heap1 = \<lparr>heap_ptr = 0x1000, heap_end = 112,
      mem_at = (\<lambda>_. \<lparr>hm_magic = 0, hm_used = 1, hm_next = 0, hm_prev = 0, hm_thread = []\<rparr>)
        (0 := \<lparr>hm_magic = HEAP_MAGIC, hm_used = 1, hm_next = 80, hm_prev = 0, hm_thread = []\<rparr>,
         80 := \<lparr>hm_magic = HEAP_MAGIC, hm_used = 0, hm_next = 112, hm_prev = 0, hm_thread = []\<rparr>),
      lfree = 80, mem_size_aligned = 96, used_mem = 80, max_mem = 80, heap_data = of_nat\<rparr>"

lemma demo_heap0_wf: "heap_wf demo_heap0"
  unfolding demo_heap0_def by (rule heap_inv_wf(1) [OF heap_init_run(1) [OF _ refl, where w = 96]]) simp_all

lemma demo_heap1_inv: "heap_inv [0, 80] demo_heap1"
  by (simp add: heap_inv_def heap_shape_def no_adjacent_def demo_heap1_def hdr_ok_def free_at_def blk_len_def SIZEOF_STRUCT_MEM_def)

lemma demo_heap1_live: "(0x1010, 64) \<in> heap_live demo_heap1"
  unfolding heap_inv_wf(2) [OF demo_heap1_inv]
  by (simp add: live_def demo_heap1_def free_at_def blk_len_def SIZEOF_STRUCT_MEM_def)

text \<open>
  C18. \<^verbatim>\<open>rt_malloc\<close> returns on every well-formed heap. A null result leaves the heap as it was, and comes
  only when the request is larger than the heap or no free block the search looks at has room for it. Any other
  result is the address of a new block, aligned, at least as long as asked for and apart from every block in
  use; those stay in use, the heap stays well-formed, the count of bytes in use grows by the block and its header.
\<close>

theorem malloc_correct:
  assumes wf: "heap_wf h" and sz: "sz \<noteq> 0" "sz \<le> 0xfffffffc"
  shows "\<exists>q h'. rt_malloc name sz h = Some (q, h') \<and>
    (q = 0 \<longrightarrow> h' = h \<and> (mem_size_aligned h < unat (RT_ALIGN sz (of_nat RT_ALIGN_SIZE)) \<or>
       (\<forall>b\<in>set (heap_blocks h). lfree h \<le> b \<longrightarrow> \<not> fits h (malloc_size sz) b))) \<and>
    (q \<noteq> 0 \<longrightarrow> (\<exists>len. heap_wf h' \<and> heap_live h' = insert (q, len) (heap_live h) \<and> unat sz \<le> len \<and> q mod 4 = 0 \<and>
       (\<forall>(q', len')\<in>heap_live h. q + len \<le> q' \<or> q' + len' \<le> q) \<and>
       used_mem h' = used_mem h + len + SIZEOF_STRUCT_MEM \<and> heap_data h' = heap_data h \<and>
       (heap_lowest h \<longrightarrow> heap_lowest h')))"
proof -
  obtain q h' where 1: "rt_malloc name sz h = Some (q, h')" and
    2: "q = 0 \<longrightarrow> h' = h \<and> (mem_size_aligned h < unat (RT_ALIGN sz (of_nat RT_ALIGN_SIZE)) \<or>
       (\<forall>b\<in>set (heap_blocks h). lfree h \<le> b \<longrightarrow> \<not> fits h (malloc_size sz) b))" and
    3: "q \<noteq> 0 \<longrightarrow> (\<exists>len. heap_wf h' \<and> heap_live h' = insert (q, len) (heap_live h) \<and> (q, len) \<notin> heap_live h \<and>
       malloc_size sz \<le> len \<and> q mod 4 = 0 \<and> used_mem h' = used_mem h + len + SIZEOF_STRUCT_MEM \<and>
       (heap_lowest h \<longrightarrow> heap_lowest h'))" and 4: "heap_data h' = heap_data h"
    by (rule heap_malloc [OF wf sz(1), where name = name])
  have "q \<noteq> 0 \<longrightarrow> (\<exists>len. heap_wf h' \<and> heap_live h' = insert (q, len) (heap_live h) \<and> unat sz \<le> len \<and> q mod 4 = 0 \<and>
       (\<forall>(q', len')\<in>heap_live h. q + len \<le> q' \<or> q' + len' \<le> q) \<and>
       used_mem h' = used_mem h + len + SIZEOF_STRUCT_MEM \<and> heap_data h' = heap_data h \<and>
       (heap_lowest h \<longrightarrow> heap_lowest h'))"
  proof
    assume q: "q \<noteq> 0"
    obtain len where len: "heap_wf h'" "heap_live h' = insert (q, len) (heap_live h)" "(q, len) \<notin> heap_live h"
       "malloc_size sz \<le> len" "q mod 4 = 0" "used_mem h' = used_mem h + len + SIZEOF_STRUCT_MEM"
       "heap_lowest h \<longrightarrow> heap_lowest h'" using 3 [THEN mp, OF q] by (elim exE conjE) (rule that)
    have "q + len \<le> q' \<or> q' + len' \<le> q" if "(q', len') \<in> heap_live h" for q' len'
      using heap_live_disjoint [OF len(1), of q len q' len'] that len(2, 3) by auto
    thus "\<exists>len. heap_wf h' \<and> heap_live h' = insert (q, len) (heap_live h) \<and> unat sz \<le> len \<and> q mod 4 = 0 \<and>
       (\<forall>(q', len')\<in>heap_live h. q + len \<le> q' \<or> q' + len' \<le> q) \<and>
       used_mem h' = used_mem h + len + SIZEOF_STRUCT_MEM \<and> heap_data h' = heap_data h \<and> (heap_lowest h \<longrightarrow> heap_lowest h')"
      using len 4 malloc_size_facts(3) [OF sz(2)] by (intro exI [of _ len]) auto
  qed
  note conjI [OF 1 conjI [OF 2 this]]
  thus ?thesis by (intro exI)
qed

theorem malloc_correct_witness:
  "\<exists>q h'. rt_malloc [] 20 demo_heap0 = Some (q, h') \<and>
    (q \<noteq> 0 \<longrightarrow> (\<exists>len. heap_wf h' \<and> heap_live h' = insert (q, len) (heap_live demo_heap0) \<and> 20 \<le> len))"
  using malloc_correct [OF demo_heap0_wf, of 20 "[]"] by (simp add: word_le_nat_alt) blast

text \<open>
  C19. \<^verbatim>\<open>rt_free\<close> of a block in use returns; exactly this block is no longer in use, the heap stays well-formed,
  so that no two neighbouring blocks are both free, and the count of bytes in use falls by the block and its
  header. A second release of a header marked free stops at the assertion.
\<close>

theorem free_correct:
  assumes wf: "heap_wf h" and q: "(q, len) \<in> heap_live h"
  shows "(\<exists>h'. rt_free q h = Some h' \<and> heap_wf h' \<and> heap_live h' = heap_live h - {(q, len)} \<and>
      used_mem h' + len + SIZEOF_STRUCT_MEM = used_mem h \<and> heap_data h' = heap_data h \<and> (heap_lowest h \<longrightarrow> heap_lowest h')) \<and>
    (\<forall>b\<in>set (heap_blocks h). free_at h b \<longrightarrow> rt_free (heap_ptr h + b + SIZEOF_STRUCT_MEM) h = None)"
proof -
  obtain h' where "rt_free q h = Some h'" "heap_wf h'" "heap_live h' = heap_live h - {(q, len)}"
    "used_mem h' + len + SIZEOF_STRUCT_MEM = used_mem h" "heap_data h' = heap_data h" "heap_lowest h \<longrightarrow> heap_lowest h'"
    by (rule heap_free [OF wf q])
  thus ?thesis using rt_free_at [OF heap_wf_shape [OF wf]] by auto
qed

theorem free_correct_witness:
  "\<exists>h'. rt_free 0x1010 demo_heap1 = Some h' \<and> heap_wf h' \<and> heap_live h' = heap_live demo_heap1 - {(0x1010, 64)}"
  using free_correct [OF heap_inv_wf(1) [OF demo_heap1_inv] demo_heap1_live] by blast

text \<open>
  The block \<open>(q, len)\<close> has become a block at \<open>p\<close> of at least \<open>n\<close> bytes: the common bytes are kept, and so are
  those of every other block in use.
\<close>

definition resized :: "rt_heap \<Rightarrow> nat \<Rightarrow> nat \<Rightarrow> nat \<Rightarrow> nat \<Rightarrow> rt_heap \<Rightarrow> bool" where
  "resized h q len n p h' \<longleftrightarrow>
     (\<exists>len'. n \<le> len' \<and> heap_live h' = insert (p, len') (heap_live h - {(q, len)})) \<and> heap_wf h' \<and>
     (\<forall>i<min len n. heap_data h' (p + i) = heap_data h (q + i)) \<and>
     (\<forall>(r, l)\<in>heap_live h - {(q, len)}. \<forall>i<l. heap_data h' (r + i) = heap_data h (r + i))"

lemma resized_copy:
  assumes l: "heap_wf h1" "heap_live h1 = insert (p, len') (heap_live h)" "(p, len') \<notin> heap_live h" "n \<le> len'"
    and dt: "heap_data h1 = heap_data h" and q: "(q, len) \<in> heap_live h"
  obtains h2 where "rt_free q (copy_data p q (min len n) h1) = Some h2" "resized h q len n p h2"
proof -
  let ?h1 = "copy_data p q (min len n) h1"
  have c: "heap_wf ?h1" "heap_live ?h1 = insert (p, len') (heap_live h)" using l by (simp_all add: copy_data_def)
  have apart: "p + len' \<le> r \<or> r + k \<le> p" if "(r, k) \<in> heap_live h" for r k
    using heap_live_disjoint [OF l(1), of p len' r k] that l(2, 3) by auto
  have q1: "(q, len) \<in> heap_live ?h1" using q c(2) by simp
  obtain h2 where h2: "rt_free q ?h1 = Some h2" "heap_wf h2" "heap_live h2 = heap_live ?h1 - {(q, len)}"
    "heap_data h2 = heap_data ?h1" by (rule heap_free [OF c(1) q1])
  have "p \<le> q \<or> q + min len n \<le> p" using apart [OF q] by auto
  hence mv: "heap_data h2 = moved p q (min len n) (heap_data h)"
    using h2(4) dt by (simp add: copy_data_def rt_memcpy_bytes memcpy_bytes_moved)
  have "heap_live h2 = insert (p, len') (heap_live h - {(q, len)})" using h2(3) c(2) l(3) q by auto
  moreover have "heap_data h2 (p + i) = heap_data h (q + i)" if "i < min len n" for i
    using that mv by (simp add: moved_def)
  moreover have "heap_data h2 (r + i) = heap_data h (r + i)" if "(r, k) \<in> heap_live h" "i < k" for r k i
    using apart [OF that(1)] that(2) l(4) mv by (auto simp: moved_def)
  ultimately have "resized h q len n p h2" using l(4) h2(2) unfolding resized_def by auto
  thus thesis using that h2(1) by blast
qed

lemma realloc_moves:
  assumes wf: "heap_wf h" and q: "(q, len) \<in> heap_live h" and n: "n \<noteq> 0" "n \<le> mem_size_aligned h"
  obtains p h' where
    "do { (p, h1) \<leftarrow> rt_malloc name (of_nat n) h;
          if p \<noteq> 0 then do { h2 \<leftarrow> rt_free q (copy_data p q (min len n) h1); Some (p, h2) } else Some (p, h1) } = Some (p, h')"
    "p = 0 \<and> h' = h \<or> resized h q len n p h'"
proof -
  have sm: "n < 2 ^ 32 - 16" using n(2) heap_wf_shape [OF wf] by (auto simp: heap_shape_def SIZEOF_STRUCT_MEM_def)
  hence nw: "unat (of_nat n :: u32) = n" by (simp add: unat_of_nat_small)
  have sz: "(of_nat n :: u32) \<noteq> 0" "(of_nat n :: u32) \<le> 0xfffffffc"
    using nw sm n(1) by (auto simp: word_le_nat_alt)
  obtain p h1 where m: "rt_malloc name (of_nat n) h = Some (p, h1)" and
    m0: "p = 0 \<longrightarrow> h1 = h \<and> (mem_size_aligned h < unat (RT_ALIGN (of_nat n) (of_nat RT_ALIGN_SIZE)) \<or>
      (\<forall>b\<in>set (heap_blocks h). lfree h \<le> b \<longrightarrow> \<not> fits h (malloc_size (of_nat n)) b))" and
    m1: "p \<noteq> 0 \<longrightarrow> (\<exists>len'. heap_wf h1 \<and> heap_live h1 = insert (p, len') (heap_live h) \<and> (p, len') \<notin> heap_live h \<and>
      malloc_size (of_nat n) \<le> len' \<and> p mod 4 = 0 \<and> used_mem h1 = used_mem h + len' + SIZEOF_STRUCT_MEM \<and>
      (heap_lowest h \<longrightarrow> heap_lowest h1))" and dt: "heap_data h1 = heap_data h"
    by (rule heap_malloc [OF wf sz(1), where name = name])
  show thesis
  proof (cases "p = 0")
    case True thus thesis using that [of 0 h] m m0 by simp
  next
    case p0: False
    obtain len' where l: "heap_wf h1" "heap_live h1 = insert (p, len') (heap_live h)" "(p, len') \<notin> heap_live h"
      "malloc_size (of_nat n) \<le> len'" using m1 [THEN mp, OF p0] by (elim exE conjE) (rule that)
    have "n \<le> len'" using malloc_size_facts(3) [OF sz(2)] l(4) nw by simp
    from resized_copy [OF l(1-3) this dt q] obtain h2 where
      "rt_free q (copy_data p q (min len n) h1) = Some h2" "resized h q len n p h2" .
    thus thesis using that [of p h2] m p0 by simp
  qed
qed

text \<open>
  C20. \<^verbatim>\<open>rt_realloc\<close> of a block in use returns. A size above that of the heap gives null and changes nothing; a
  size of zero releases the block. Otherwise either there is no room, the result is null and the block is kept,
  or the result is a block of at least the size asked for in place of the old one, with the bytes the two
  have in common; the bytes of every other block in use are unchanged.
\<close>

theorem realloc_correct:
  assumes wf: "heap_wf h" and q: "(q, len) \<in> heap_live h"
    and n: "n = unat (RT_ALIGN newsz (of_nat RT_ALIGN_SIZE))"
  shows "\<exists>p h'. rt_realloc name q newsz h = Some (p, h') \<and>
    (if n > mem_size_aligned h then p = 0 \<and> h' = h
     else if n = 0 then p = 0 \<and> heap_wf h' \<and> heap_live h' = heap_live h - {(q, len)}
     else p = 0 \<and> h' = h \<or> resized h q len n p h')"
proof -
  obtain hf where hf: "rt_free q h = Some hf" "heap_wf hf" "heap_live hf = heap_live h - {(q, len)}"
    by (rule heap_free [OF wf q])
  consider "n > mem_size_aligned h" | "n = 0" "n \<le> mem_size_aligned h" | (resize) "n \<noteq> 0" "n \<le> mem_size_aligned h" by linarith
  thus ?thesis
  proof cases
    case resize
    have "\<exists>p h'. rt_realloc name q newsz h = Some (p, h') \<and> (p = 0 \<and> h' = h \<or> resized h q len n p h')"
    proof (rule rt_realloc_live [OF wf q n resize, of name])
      assume "n = len" "rt_realloc name q newsz h = Some (q, h)"
      moreover have "resized h q len len q h" using wf q unfolding resized_def by (auto simp: insert_absorb)
      ultimately show ?thesis by auto
    next
      fix h' assume h': "n < len" "rt_realloc name q newsz h = Some (q, h')" "heap_wf h'"
        "heap_live h' = insert (q, n) (heap_live h - {(q, len)})" "heap_data h' = heap_data h"
      hence "resized h q len n q h'" unfolding resized_def by auto
      thus ?thesis using h'(2) by auto
    next
      obtain p h' where "do { (p, h1) \<leftarrow> rt_malloc name (of_nat n) h;
          if p \<noteq> 0 then do { h2 \<leftarrow> rt_free q (copy_data p q (min len n) h1); Some (p, h2) } else Some (p, h1) } = Some (p, h')"
        "p = 0 \<and> h' = h \<or> resized h q len n p h'" by (rule realloc_moves [OF wf q resize, of name])
      moreover assume "rt_realloc name q newsz h = do { (p, h1) \<leftarrow> rt_malloc name (of_nat n) h;
          if p \<noteq> 0 then do { h2 \<leftarrow> rt_free q (copy_data p q (min len n) h1); Some (p, h2) } else Some (p, h1) }"
      ultimately show ?thesis by (intro exI [of _ p] exI [of _ h']) simp
    qed
    thus ?thesis using resize by auto
  qed (use n hf in \<open>simp_all add: rt_realloc_def\<close>)
qed

theorem realloc_correct_witness:
  "\<exists>p h'. rt_realloc [] 0x1010 8 demo_heap1 = Some (p, h') \<and>
     (p = 0 \<and> h' = demo_heap1 \<or> resized demo_heap1 0x1010 64 8 p h')"
proof -
  have "8 = unat (RT_ALIGN 8 (of_nat RT_ALIGN_SIZE))" by (simp add: RT_ALIGN_unat)
  from realloc_correct [OF heap_inv_wf(1) [OF demo_heap1_inv] demo_heap1_live this, of "[]"]
  show ?thesis by (simp add: demo_heap1_def)
qed

text \<open>
  \<^verbatim>\<open>rt_system_heap_init\<close> on a region that has room for two headers and at least twelve bytes leaves a well-formed
  heap over the aligned region, with nothing in use and the lowest free block at its start.
\<close>

lemma heap_init_establishes:
  assumes "begin_addr \<le> 0xfffffffc" "b = 4 * ((unat begin_addr + 3) div 4)"
    "4 * (unat end_addr div 4) = b + (32 + w)" "12 \<le> w" "used_mem h = 0"
  shows "heap_wf (rt_system_heap_init begin_addr end_addr h) \<and> heap_live (rt_system_heap_init begin_addr end_addr h) = {} \<and>
    heap_lowest (rt_system_heap_init begin_addr end_addr h) \<and> heap_ptr (rt_system_heap_init begin_addr end_addr h) = b \<and>
    mem_size_aligned (rt_system_heap_init begin_addr end_addr h) = w"
  using heap_init_run [OF assms] heap_init_fields [OF assms(1-3)] assms(4) by (simp add: heap_inv_wf)

lemma heap_init_establishes_witness:
  "heap_wf (rt_system_heap_init 0x1001 0x1087 (demo_heap1\<lparr>used_mem := 0\<rparr>)) \<and>
   heap_ptr (rt_system_heap_init 0x1001 0x1087 (demo_heap1\<lparr>used_mem := 0\<rparr>)) = 0x1004"
  using heap_init_establishes [of "0x1001" "0x1004" "0x1087" 96 "demo_heap1\<lparr>used_mem := 0\<rparr>"] by simp



text \<open>
  \<^verbatim>\<open>rt_calloc\<close> whose product does not wrap around returns null and leaves the heap, or a new block with room for the
  product whose bytes are zero.
\<close>

lemma calloc_correct:
  assumes wf: "heap_wf h" and nz: "count * sz \<noteq> 0" and p: "unat count * unat sz \<le> 0xfffffffc"
  shows "\<exists>q h'. rt_calloc name count sz h = Some (q, h') \<and> (q = 0 \<longrightarrow> h' = h) \<and>
    (q \<noteq> 0 \<longrightarrow> (\<exists>len. heap_wf h' \<and> heap_live h' = insert (q, len) (heap_live h) \<and> unat count * unat sz \<le> len \<and>
       (\<forall>i<unat count * unat sz. heap_data h' (q + i) = 0)))"
proof -
  have un: "unat (count * sz) = unat count * unat sz" using p by (subst unat_mult_lem [symmetric]) simp
  hence le: "count * sz \<le> 0xfffffffc" using p by (simp add: word_le_nat_alt)
  obtain q h1 where 1: "rt_malloc name (count * sz) h = Some (q, h1)" and 2: "q = 0 \<longrightarrow> h1 = h \<and> (mem_size_aligned h < unat (RT_ALIGN (count * sz) (of_nat RT_ALIGN_SIZE)) \<or>
       (\<forall>b\<in>set (heap_blocks h). lfree h \<le> b \<longrightarrow> \<not> fits h (malloc_size (count * sz)) b))" and
    3: "q \<noteq> 0 \<longrightarrow> (\<exists>len. heap_wf h1 \<and> heap_live h1 = insert (q, len) (heap_live h) \<and> (q, len) \<notin> heap_live h \<and>
       malloc_size (count * sz) \<le> len \<and> q mod 4 = 0 \<and> used_mem h1 = used_mem h + len + SIZEOF_STRUCT_MEM \<and>
       (heap_lowest h \<longrightarrow> heap_lowest h1))"
    by (rule heap_malloc [OF wf nz, where name = name])
  show ?thesis
  proof (cases "q = 0")
    case True thus ?thesis using 1 2 by (simp add: rt_calloc_def)
  next
    case False
    obtain len where l: "heap_wf h1" "heap_live h1 = insert (q, len) (heap_live h)" "malloc_size (count * sz) \<le> len"
      using 3 [THEN mp, OF False] by (elim exE conjE) (rule that)
    have "unat count * unat sz \<le> len" using malloc_size_facts(3) [OF le] l(3) un by simp
    thus ?thesis using 1 False l un by (simp add: rt_calloc_def zero_data_def rt_memset_fill fill_def) blast
  qed
qed

lemma calloc_correct_witness:
  "\<exists>q h'. rt_calloc [] 4 5 demo_heap0 = Some (q, h') \<and> (q \<noteq> 0 \<longrightarrow> (\<forall>i<20. heap_data h' (q + i) = 0))"
  using calloc_correct [OF demo_heap0_wf, of 4 5 "[]"] by simp blast

text \<open>The product is not checked: asking for $2^{30} + 1$ words gives the same as asking for one.\<close>

lemma calloc_wraps: "rt_calloc name 0x40000001 4 h = rt_calloc name 1 4 h"
proof -
  have "(0x40000001 :: u32) * 4 = 1 * 4" by simp
  thus ?thesis by (simp only: rt_calloc_def)
qed

text \<open>
  On a heap of four or eight bytes \<^verbatim>\<open>rt_malloc\<close> does not return: the bound of its loop wraps around, the loop
  leaves the last block and the header at the end points to itself.
\<close>

lemma small_heap_malloc_hangs:
  assumes "begin_addr \<le> 0xfffffffc" "b = 4 * ((unat begin_addr + 3) div 4)"
    "4 * (unat end_addr div 4) = b + (32 + w)" "w = 4 \<or> w = 8"
  shows "rt_malloc name 1 (rt_system_heap_init begin_addr end_addr h) = None"
proof -
  let ?h = "rt_system_heap_init begin_addr end_addr h"
  have nz: "b + w \<noteq> 0" using assms(4) by auto
  note m = heap_init_fields(1-11) [OF assms(1-3) nz, where h = h]
  have al: "unat (RT_ALIGN 1 (of_nat RT_ALIGN_SIZE)) = 4" by (simp add: RT_ALIGN_unat)
  have s: "sub32 w 12 = 2 ^ 32 - (12 - w)" using assms(4) by (auto simp: sub32_def)
  have "malloc_find ?h 12 (w + 16) = None"
    by (rule malloc_find_end) (use m s assms(4) in auto)
  moreover have "malloc_find ?h 12 0 = malloc_find ?h 12 (w + 16)"
    by (subst malloc_find.simps) (use m s assms(4) in \<open>auto simp: SIZEOF_STRUCT_MEM_def add32_def sub32_def\<close>)
  ultimately show ?thesis using m(2, 4) assms(4) unfolding rt_malloc_def Let_def al MIN_SIZE_ALIGNED_def by auto
qed

lemma small_heap_malloc_hangs_witness: "rt_malloc [] 1 (rt_system_heap_init 0x1000 0x1028 demo_heap1) = None"
  by (rule small_heap_malloc_hangs [OF _ refl, where w = 8]) simp_all

section \<open>The allocator as an interface\<close>

text \<open>
  A client that allocates, and releases only what it holds: the operations of a program in order, with
  the addresses held. The state is that of the allocator.
\<close>

datatype 'r mem_op = Alloc 'r | Release nat

fun client :: "('r \<Rightarrow> 's \<Rightarrow> (nat \<times> 's) option) \<Rightarrow> (nat \<Rightarrow> 's \<Rightarrow> 's option) \<Rightarrow> 'r mem_op list \<Rightarrow> nat list \<Rightarrow> 's \<Rightarrow>
    (nat list \<times> 's) option" where
  "client al rel [] held s = Some (held, s)"
| "client al rel (Alloc r # ops) held s =
     do { (q, s) \<leftarrow> al r s; client al rel ops (if q = 0 then held else q # held) s }"
| "client al rel (Release k # ops) held s =
     (if k < length held then do { s \<leftarrow> rel (held ! k) s; client al rel ops (remove1 (held ! k) held) s }
      else client al rel ops held s)"

locale allocator =
  fixes ok :: "'s \<Rightarrow> bool" and blocks :: "'s \<Rightarrow> (nat \<times> nat) set" and need :: "'r \<Rightarrow> nat"
    and al :: "'r \<Rightarrow> 's \<Rightarrow> (nat \<times> 's) option" and rel :: "nat \<Rightarrow> 's \<Rightarrow> 's option"
  assumes alloc: "ok s \<Longrightarrow> \<exists>q s'. al r s = Some (q, s') \<and> ok s' \<and>
      (if q = 0 then blocks s' = blocks s
       else \<exists>len. need r \<le> len \<and> (q, len) \<notin> blocks s \<and> blocks s' = insert (q, len) (blocks s))"
    and release: "ok s \<Longrightarrow> (q, len) \<in> blocks s \<Longrightarrow> \<exists>s'. rel q s = Some s' \<and> ok s' \<and> blocks s' = blocks s - {(q, len)}"
    and apart: "ok s \<Longrightarrow> (q, len) \<in> blocks s \<Longrightarrow> (q', len') \<in> blocks s \<Longrightarrow> (q, len) \<noteq> (q', len') \<Longrightarrow>
      q + len \<le> q' \<or> q' + len' \<le> q"
    and room: "ok s \<Longrightarrow> (q, len) \<in> blocks s \<Longrightarrow> 0 < len"
begin

lemma one_length: "ok s \<Longrightarrow> (q, len) \<in> blocks s \<Longrightarrow> (q, len') \<in> blocks s \<Longrightarrow> len = len'"
  using apart [of s q len q len'] room [of s q len] room [of s q len'] by fastforce

lemma new_address:
  assumes "ok s'" "blocks s' = insert (q, len) (blocks s)" "(q, len) \<notin> blocks s" shows "q \<notin> fst ` blocks s"
proof
  assume "q \<in> fst ` blocks s"
  then obtain len' where "(q, len') \<in> blocks s" by auto
  thus False using one_length [OF assms(1), of q len len'] assms(2, 3) by auto
qed

lemma release_address:
  assumes "ok s" "(q, len) \<in> blocks s" shows "fst ` (blocks s - {(q, len)}) = fst ` blocks s - {q}"
  using one_length [OF assms] by force

lemma client_runs:
  assumes "ok s" "distinct held" "set held = fst ` blocks s"
  shows "\<exists>held' s'. client al rel ops held s = Some (held', s') \<and> ok s' \<and> distinct held' \<and> set held' = fst ` blocks s'"
  using assms
proof (induction ops arbitrary: held s)
  case (Cons op ops)
  show ?case
  proof (cases op)
    case (Alloc r)
    obtain q s' where a: "al r s = Some (q, s')" "ok s'" "if q = 0 then blocks s' = blocks s
       else \<exists>len. need r \<le> len \<and> (q, len) \<notin> blocks s \<and> blocks s' = insert (q, len) (blocks s)"
      using alloc [OF Cons.prems(1)] by blast
    let ?held = "if q = 0 then held else q # held"
    have "distinct ?held \<and> set ?held = fst ` blocks s'"
    proof (cases "q = 0")
      case False
      then obtain len where l: "(q, len) \<notin> blocks s" "blocks s' = insert (q, len) (blocks s)" using a(3) by auto
      show ?thesis using False Cons.prems(2, 3) l(2) new_address [OF a(2) l(2, 1)] by simp
    qed (use a(3) Cons.prems in simp)
    thus ?thesis using Cons.IH [OF a(2)] a(1) Alloc by simp
  next
    case (Release k)
    show ?thesis
    proof (cases "k < length held")
      case True
      hence "held ! k \<in> fst ` blocks s" using Cons.prems(3) nth_mem by metis
      then obtain len where len: "(held ! k, len) \<in> blocks s" by auto
      then obtain s' where r: "rel (held ! k) s = Some s'" "ok s'" "blocks s' = blocks s - {(held ! k, len)}"
        using release [OF Cons.prems(1)] by blast
      have "set (remove1 (held ! k) held) = fst ` blocks s'"
        using Cons.prems(2, 3) release_address [OF Cons.prems(1) len] r(3) by (simp add: set_remove1_eq)
      thus ?thesis using Cons.IH [OF r(2), of "remove1 (held ! k) held"] Cons.prems(2) r(1) Release True
        by (simp add: distinct_remove1)
    qed (use Cons Release in simp)
  qed
qed simp

end

interpretation heap: allocator heap_wf heap_live malloc_size "rt_malloc name" rt_free
proof
  fix h sz assume wf: "heap_wf h"
  show "\<exists>q h'. rt_malloc name sz h = Some (q, h') \<and> heap_wf h' \<and> (if q = 0 then heap_live h' = heap_live h
       else \<exists>len. malloc_size sz \<le> len \<and> (q, len) \<notin> heap_live h \<and> heap_live h' = insert (q, len) (heap_live h))"
  proof (cases "sz = 0")
    case True thus ?thesis using wf by (simp add: rt_malloc_def)
  next
    case False
    show ?thesis by (rule heap_malloc [OF wf False, of name]) (use wf in \<open>fastforce split: if_splits\<close>)
  qed
next
  fix h q len assume "heap_wf h" "(q, len) \<in> heap_live h"
  thus "\<exists>h'. rt_free q h = Some h' \<and> heap_wf h' \<and> heap_live h' = heap_live h - {(q, len)}" by (metis heap_free)
  show "0 < len" using live_block_length(1) heap_wf_shape \<open>heap_wf h\<close> \<open>(q, len) \<in> heap_live h\<close>
    unfolding heap_live_def by fastforce
qed (rule heap_live_disjoint)

text \<open>
  C21. A program that starts on an initialised heap and calls \<^verbatim>\<open>rt_malloc\<close> and \<^verbatim>\<open>rt_free\<close> in any order, releasing only
  what it holds, runs to its end: no assertion fails and no search goes on for ever. At the end the heap is well-formed
  and its blocks in use are those the program holds.
\<close>

theorem heap_client_safe:
  assumes "begin_addr \<le> 0xfffffffc" "b = 4 * ((unat begin_addr + 3) div 4)"
    "4 * (unat end_addr div 4) = b + (32 + w)" "12 \<le> w" "used_mem h = 0"
  shows "\<exists>held h'. client (rt_malloc name) rt_free ops [] (rt_system_heap_init begin_addr end_addr h) = Some (held, h') \<and>
    heap_wf h' \<and> distinct held \<and> set held = fst ` heap_live h'"
  by (rule heap.client_runs) (simp_all add: heap_inv_wf [OF heap_init_run(1) [OF assms]] heap_init_run(2) [OF assms])

theorem heap_client_safe_witness:
  "\<exists>held h'. client (rt_malloc []) rt_free [Alloc 20, Alloc 0x1000, Alloc 4, Release 1, Alloc 24] []
     (rt_system_heap_init 0x1000 0x1080 (demo_heap1\<lparr>used_mem := 0\<rparr>)) = Some (held, h') \<and> heap_wf h'"
  using heap_client_safe [of "0x1000" "0x1000" "0x1080" 96 "demo_heap1\<lparr>used_mem := 0\<rparr>" "[]" "[Alloc 20, Alloc 0x1000, Alloc 4, Release 1, Alloc 24]"]
  by simp blast

end
