(* ===== verification/Rt_Align.thy ===== *)
theory Rt_Align
  imports Rt_Mem
begin

text \<open>
  The services of \<^verbatim>\<open>src/kservice.c\<close> that rest on the heap: aligned allocation, which hides the address of the block in
  the word before the aligned one, and duplication of strings.
\<close>

section \<open>Operations\<close>

definition rt_malloc_align :: "u8 list \<Rightarrow> u32 \<Rightarrow> u32 \<Rightarrow> rt_heap \<Rightarrow> (nat \<times> rt_heap) option" where
  "rt_malloc_align name sz align h =
     do { let align = (align + 3) AND NOT 3;
          let align_size = ((sz + 3) AND NOT 3) + align;
          (ptr, h) \<leftarrow> rt_malloc name align_size h;
          if ptr \<noteq> 0 then
            do { let p = (of_nat ptr :: u32);
                 let align_ptr = (if p AND (align - 1) = 0 then p + align else (p + (align - 1)) AND NOT (align - 1));
                 Some (unat align_ptr, h\<lparr>heap_data := store_word (unat (align_ptr - 4)) p (heap_data h)\<rparr>) }
          else Some (ptr, h) }"

definition rt_free_align :: "nat \<Rightarrow> rt_heap \<Rightarrow> rt_heap option" where
  "rt_free_align ptr h = rt_free (unat (load_word (unat (of_nat ptr - 4 :: u32)) (heap_data h))) h"

text \<open>The string to copy lies outside of the heap; its bytes and the final null byte are stored.\<close>

definition write_bytes :: "nat \<Rightarrow> u8 list \<Rightarrow> mem \<Rightarrow> mem" where
  "write_bytes a bs m = (\<lambda>i. if a \<le> i \<and> i < a + length bs then bs ! (i - a) else m i)"

definition rt_strdup :: "u8 list \<Rightarrow> u8 list \<Rightarrow> rt_heap \<Rightarrow> (nat \<times> rt_heap) option" where
  "rt_strdup name s h =
     do { let len = rt_strlen s + 1;
          (tmp, h) \<leftarrow> rt_malloc name (of_nat len) h;
          if tmp = 0 then Some (0, h)
          else Some (tmp, h\<lparr>heap_data := write_bytes tmp (take len (s @ [0])) (heap_data h)\<rparr>) }"

section \<open>Alignment on words\<close>

lemma and_mask_mod: "unat (x AND (2 ^ k - 1 :: u32)) = unat x mod 2 ^ k"
proof -
  have "x AND (2 ^ k - 1) = take_bit k x" by (simp add: take_bit_eq_mask mask_eq_exp_minus_1)
  hence "unat (x AND (2 ^ k - 1)) = take_bit k (unat x)" by (simp only: unsigned_take_bit_eq)
  thus ?thesis by (simp only: take_bit_eq_mod)
qed

lemma and_not_mask: "unat (x AND NOT (2 ^ k - 1 :: u32)) = unat x - unat x mod 2 ^ k"
proof -
  let ?y = "x AND NOT (2 ^ k - 1)" let ?z = "x AND (2 ^ k - 1)"
  have "x = ?y + ?z"
    by (subst disjunctive_add) (auto simp: bit_and_iff bit_not_iff bit_or_iff intro!: bit_eqI)
  moreover have "unat (?y + ?z) = unat ?y + unat ?z"
  proof -
    have "?y + ?z = ?y OR ?z" by (rule disjunctive_add) (simp add: bit_and_iff bit_not_iff)
    hence le: "?y \<le> ?y + ?z" using \<open>x = ?y + ?z\<close> by (metis word_and_le2 and.commute)
    thus ?thesis by (metis le unat_plus_simple)
  qed
  ultimately show ?thesis using and_mask_mod [of x k] by simp
qed

lemma align4: "unat ((x + 3) AND NOT 3 :: u32) = 4 * (unat (x + 3) div 4)"
  using and_not_mask [of "x + 3" 2] by (simp add: minus_mod_eq_mult_div)

text \<open>The address \<^verbatim>\<open>rt_malloc_align\<close> returns for a block at \<open>p\<close>: the next multiple of the alignment above it.\<close>

lemma align_ptr:
  fixes p k :: nat
  assumes k: "2 \<le> k" "k < 32" and p: "p mod 4 = 0" "p + 2 ^ k < 2 ^ 32"
  defines "al \<equiv> 2 ^ k :: u32" and "w \<equiv> of_nat p :: u32"
  defines "a \<equiv> (if w AND (al - 1) = 0 then w + al else (w + (al - 1)) AND NOT (al - 1))"
  shows "unat a = 2 ^ k * (p div 2 ^ k + 1)" "p + 4 \<le> unat a" "unat a \<le> p + 2 ^ k"
proof -
  let ?m = "2 ^ k :: nat"
  have lt: "p < 2 ^ 32" using p(2) by simp
  have w: "unat w = p" using lt by (simp add: w_def unat_of_nat_small)
  have m: "?m \<le> 2 ^ 31" using k by (intro power_increasing) auto
  have "al = of_nat ?m" by (simp add: al_def)
  hence al: "unat al = ?m" using m by (simp add: unat_of_nat_small del: of_nat_power)
  have r: "p mod ?m < ?m" "?m * (p div ?m) + p mod ?m = p" by simp_all
  have "(4 :: nat) dvd ?m" using k(1) by (metis le_imp_power_dvd numeral_Bit0 power2_eq_square mult_2 numeral_eq_iff)
  hence r4: "p mod ?m mod 4 = 0" using p(1) by (metis mod_mod_cancel)
  have z: "(w AND (al - 1) = 0) = (p mod ?m = 0)" using and_mask_mod [of w k] w by (simp add: al_def unat_eq_0 [symmetric])
  show res: "unat a = ?m * (p div ?m + 1)"
  proof (cases "p mod ?m = 0")
    case True
    have "unat (w + al) = p + ?m" using w al p(2) by (subst unat_add_lem [THEN iffD1]) auto
    thus ?thesis using True z r(2) by (simp add: a_def algebra_simps)
  next
    case False
    have "unat (al - 1) = ?m - 1" using al by (simp add: unat_sub_if' al_def)
    hence s: "unat (w + (al - 1)) = p + (?m - 1)" using w p(2) m by (subst unat_add_lem [THEN iffD1]) auto
    have "(p + (?m - 1)) mod ?m = p mod ?m - 1"
    proof -
      have "p + (?m - 1) = (p mod ?m - 1) + ?m * (p div ?m + 1)" using r False unfolding distrib_left mult_1_right by linarith
      thus ?thesis using r(1) by (metis less_imp_diff_less mod_less mod_mult_self2)
    qed
    hence "unat a = p + (?m - 1) - (p mod ?m - 1)" using False z s and_not_mask [of "w + (al - 1)" k] by (simp add: a_def al_def)
    thus ?thesis using r False unfolding distrib_left mult_1_right by linarith
  qed
  have "4 \<le> ?m - p mod ?m"
  proof -
    have "(?m - p mod ?m) mod 4 = 0" using r4 \<open>4 dvd ?m\<close> by (metis dvd_diff_nat dvd_imp_mod_0 mod_0_imp_dvd)
    thus ?thesis using r(1) by (cases "?m - p mod ?m < 4") auto
  qed
  moreover have "?m * (p div ?m + 1) = p + (?m - p mod ?m)" using r unfolding distrib_left mult_1_right by linarith
  ultimately show "p + 4 \<le> unat a" "unat a \<le> p + ?m" using res r(1) by simp_all
qed

section \<open>Properties\<close>

text \<open>
  \<^verbatim>\<open>rt_malloc_align\<close> with a power of two returns null and leaves the heap, or an address that is a multiple of
  it inside a new block, with room for the word before it and for the size asked for after it; given to
  \<^verbatim>\<open>rt_free_align\<close> this address releases exactly that block.
\<close>

lemma malloc_align_correct:
  assumes wf: "heap_wf h" and k: "2 \<le> k" "k < 31" and sz: "unat sz + 3 + 2 ^ k < 0xfffffff0"
  shows "\<exists>q h'. rt_malloc_align name sz (2 ^ k) h = Some (q, h') \<and> (q = 0 \<longrightarrow> h' = h) \<and>
    (q \<noteq> 0 \<longrightarrow> (\<exists>p len. heap_wf h' \<and> heap_live h' = insert (p, len) (heap_live h) \<and> (p, len) \<notin> heap_live h \<and>
       q mod 2 ^ k = 0 \<and> p + 4 \<le> q \<and> q + unat sz \<le> p + len \<and>
       (\<exists>h''. rt_free_align q h' = Some h'' \<and> heap_wf h'' \<and> heap_live h'' = heap_live h)))"
proof -
  let ?al = "2 ^ k :: u32" let ?asz = "4 * ((unat sz + 3) div 4)"
  have m: "(2 :: nat) ^ k \<le> 2 ^ 30" using k by (intro power_increasing) auto
  have "?al = of_nat (2 ^ k)" by simp
  hence al: "unat ?al = 2 ^ k" using m by (simp add: unat_of_nat_small del: of_nat_power)
  have d4: "(4 :: nat) dvd 2 ^ k" using k(1) by (metis le_imp_power_dvd numeral_Bit0 power2_eq_square mult_2 numeral_eq_iff)
  have a1: "(?al + 3) AND NOT 3 = ?al"
  proof -
    have "unat (?al + 3) = 2 ^ k + 3" using al m by (subst unat_add_lem [THEN iffD1]) auto
    moreover obtain c where "(2 :: nat) ^ k = 4 * c" using d4 by blast
    ultimately have "unat ((?al + 3) AND NOT 3) = unat ?al" using align4 [of ?al] al by simp
    thus ?thesis by (rule unsigned_word_eqI)
  qed
  have us: "unat (sz + 3) = unat sz + 3" using sz by (subst unat_add_lem [THEN iffD1]) auto
  hence u1: "unat ((sz + 3) AND NOT 3) = ?asz" using align4 [of sz] by simp
  hence u2: "unat (((sz + 3) AND NOT 3) + ?al) = ?asz + 2 ^ k" using sz al by (subst unat_add_lem [THEN iffD1]) auto
  let ?n = "((sz + 3) AND NOT 3) + ?al"
  have n0: "?n \<noteq> 0" using u2 by (metis add_is_0 power_not_zero unat_0 zero_neq_numeral)
  have nb: "?n \<le> 0xfffffffc" unfolding word_le_nat_alt u2 using sz by simp
  obtain p h1 where 1: "rt_malloc name ?n h = Some (p, h1)" and
    2: "p = 0 \<longrightarrow> h1 = h \<and> (mem_size_aligned h < unat (RT_ALIGN ?n (of_nat RT_ALIGN_SIZE)) \<or>
       (\<forall>b\<in>set (heap_blocks h). lfree h \<le> b \<longrightarrow> \<not> fits h (malloc_size ?n) b))" and
    3: "p \<noteq> 0 \<longrightarrow> (\<exists>len. heap_wf h1 \<and> heap_live h1 = insert (p, len) (heap_live h) \<and> (p, len) \<notin> heap_live h \<and>
       malloc_size ?n \<le> len \<and> p mod 4 = 0 \<and> used_mem h1 = used_mem h + len + SIZEOF_STRUCT_MEM \<and>
       (heap_lowest h \<longrightarrow> heap_lowest h1))"
    by (rule heap_malloc [OF wf n0, where name = name])
  show ?thesis
  proof (cases "p = 0")
    case True thus ?thesis using 1 2 unfolding rt_malloc_align_def Let_def a1 by simp
  next
    case p0: False
    obtain len where l: "heap_wf h1" "heap_live h1 = insert (p, len) (heap_live h)" "(p, len) \<notin> heap_live h"
      "malloc_size ?n \<le> len" "p mod 4 = 0" using 3 [THEN mp, OF p0] by (elim exE conjE) (rule that)
    have len: "?asz + 2 ^ k \<le> len" using malloc_size_facts(3) [OF nb] u2 l(4) by simp
    have "p + len \<le> heap_ptr h1 + heap_end h1"
      using live_block_length(2) [OF heap_wf_shape [OF l(1)], of p len] l(2) by (simp add: heap_live_def)
    hence pl: "p + len < 2 ^ 32" using heap_wf_shape [OF l(1)] by (simp add: heap_shape_def SIZEOF_STRUCT_MEM_def)
    define a where "a = (if of_nat p AND (?al - 1) = 0 then of_nat p + ?al else (of_nat p + (?al - 1)) AND NOT (?al - 1) :: u32)"
    have k32: "k < 32" and pk: "p + 2 ^ k < 2 ^ 32" using k(2) pl len by simp_all
    note ap = align_ptr [OF k(1) k32 l(5) pk, folded a_def]
    let ?h' = "h1\<lparr>heap_data := store_word (unat (a - 4)) (of_nat p) (heap_data h1)\<rparr>"
    have run: "rt_malloc_align name sz ?al h = Some (unat a, ?h')"
      using 1 p0 unfolding rt_malloc_align_def Let_def a1 by (simp add: a_def)
    have "unat sz \<le> ?asz" by linarith
    hence q4: "unat a + unat sz \<le> p + len" using ap(3) len by linarith
    have q: "unat a \<noteq> 0" "unat a mod 2 ^ k = 0" "p + 4 \<le> unat a" "unat a + unat sz \<le> p + len"
      using ap(1, 2) q4 by auto
    have pn: "unat (of_nat p :: u32) = p" using pl by (simp add: unat_of_nat_small)
    have "rt_free_align (unat a) ?h' = rt_free p ?h'" by (simp add: rt_free_align_def load_store_word pn)
    moreover have wf': "heap_wf ?h'" "heap_live ?h' = insert (p, len) (heap_live h)" using l by simp_all
    ultimately have "\<exists>h''. rt_free_align (unat a) ?h' = Some h'' \<and> heap_wf h'' \<and> heap_live h'' = heap_live h"
      using heap_free [of ?h' p len] l(3) by (metis Diff_insert_absorb insertI1)
    hence "unat a \<noteq> 0 \<longrightarrow> (\<exists>p len. heap_wf ?h' \<and> heap_live ?h' = insert (p, len) (heap_live h) \<and> (p, len) \<notin> heap_live h \<and>
       unat a mod 2 ^ k = 0 \<and> p + 4 \<le> unat a \<and> unat a + unat sz \<le> p + len \<and>
       (\<exists>h''. rt_free_align (unat a) ?h' = Some h'' \<and> heap_wf h'' \<and> heap_live h'' = heap_live h))"
      using q wf' l(3) by (intro impI exI [of _ p] exI [of _ len] conjI)
    moreover have "unat a = 0 \<longrightarrow> ?h' = h" using q(1) by (intro impI) (rule notE)
    ultimately show ?thesis using run by (intro exI [of _ "unat a"] exI [of _ ?h'] conjI)
  qed
qed

lemma malloc_align_correct_witness:
  "\<exists>q h'. rt_malloc_align [] 20 (2 ^ 4) demo_heap0 = Some (q, h') \<and> (q \<noteq> 0 \<longrightarrow> q mod 2 ^ 4 = 0)"
proof -
  have k: "(2 :: nat) \<le> 4" "(4 :: nat) < 31" "unat (20 :: u32) + 3 + 2 ^ 4 < 0xfffffff0" by simp_all
  obtain q h' where r: "rt_malloc_align [] 20 (2 ^ 4) demo_heap0 = Some (q, h')" and x: "q \<noteq> 0 \<longrightarrow>
      (\<exists>p len. heap_wf h' \<and> heap_live h' = insert (p, len) (heap_live demo_heap0) \<and> (p, len) \<notin> heap_live demo_heap0 \<and>
       q mod 2 ^ 4 = 0 \<and> p + 4 \<le> q \<and> q + unat (20 :: u32) \<le> p + len \<and>
       (\<exists>h''. rt_free_align q h' = Some h'' \<and> heap_wf h'' \<and> heap_live h'' = heap_live demo_heap0))"
    using malloc_align_correct [OF demo_heap0_wf k, of "[]"] by (elim exE conjE) (rule that)
  have "q mod 2 ^ 4 = 0" if "q \<noteq> 0" using x [THEN mp, OF that] by (elim exE conjE)
  thus ?thesis using r by (intro exI [of _ q] exI [of _ h']) simp
qed

text \<open>\<^verbatim>\<open>rt_strdup\<close> returns null and leaves the heap, or the address of a new block that holds the string.\<close>

lemma take_cstr_0: "take (length (cstr s) + 1) (s @ [0]) = cstr s @ [0]"
  by (induction s) (simp_all add: cstr_def)

lemma strdup_correct:
  assumes wf: "heap_wf h" and s: "length (cstr s) < 0xfffffff0"
  shows "\<exists>q h'. rt_strdup name s h = Some (q, h') \<and> (q = 0 \<longrightarrow> h' = h) \<and>
    (q \<noteq> 0 \<longrightarrow> (\<exists>len. heap_wf h' \<and> heap_live h' = insert (q, len) (heap_live h) \<and> (q, len) \<notin> heap_live h \<and>
       length (cstr s) < len \<and> map (\<lambda>i. heap_data h' (q + i)) [0..<length (cstr s) + 1] = cstr s @ [0]))"
proof -
  let ?l = "length (cstr s) + 1" let ?n = "of_nat ?l :: u32"
  have un: "unat ?n = ?l" using s by (intro unat_of_nat_small) simp
  have n: "?n \<noteq> 0" "?n \<le> 0xfffffffc" using un s by (auto simp: word_le_nat_alt)
  note tk = take_cstr_0 [of s]
  obtain q h1 where 1: "rt_malloc name ?n h = Some (q, h1)" and 2: "q = 0 \<longrightarrow> h1 = h \<and> (mem_size_aligned h < unat (RT_ALIGN ?n (of_nat RT_ALIGN_SIZE)) \<or>
       (\<forall>b\<in>set (heap_blocks h). lfree h \<le> b \<longrightarrow> \<not> fits h (malloc_size ?n) b))" and
    3: "q \<noteq> 0 \<longrightarrow> (\<exists>len. heap_wf h1 \<and> heap_live h1 = insert (q, len) (heap_live h) \<and> (q, len) \<notin> heap_live h \<and>
       malloc_size ?n \<le> len \<and> q mod 4 = 0 \<and> used_mem h1 = used_mem h + len + SIZEOF_STRUCT_MEM \<and>
       (heap_lowest h \<longrightarrow> heap_lowest h1))"
    by (rule heap_malloc [OF wf n(1), where name = name])
  show ?thesis
  proof (cases "q = 0")
    case True thus ?thesis using 1 2 by (simp add: rt_strdup_def rt_strlen_cstr)
  next
    case False
    obtain len where l: "heap_wf h1" "heap_live h1 = insert (q, len) (heap_live h)" "(q, len) \<notin> heap_live h"
      "malloc_size ?n \<le> len" using 3 [THEN mp, OF False] by (elim exE conjE) (rule that)
    let ?h' = "h1\<lparr>heap_data := write_bytes q (cstr s @ [0]) (heap_data h1)\<rparr>"
    have "rt_strdup name s h = Some (q, ?h')" using 1 False tk by (simp add: rt_strdup_def rt_strlen_cstr)
    moreover have "map (\<lambda>i. heap_data ?h' (q + i)) [0..<?l] = cstr s @ [0]"
      by (rule nth_equalityI) (simp_all add: write_bytes_def del: upt_Suc)
    moreover have "length (cstr s) < len" using malloc_size_facts(3) [OF n(2)] un l(4) by simp
    ultimately show ?thesis using False l by auto
  qed
qed

end
