(* ===== verification/Rt_Finsh_Vm.thy ===== *)
theory Rt_Finsh_Vm
  imports Rt_Memory "HOL-Library.Signed_Division"
begin

text \<open>
  The virtual machine of the shell's C interpreter: \<^verbatim>\<open>components/finsh/finsh_vm.c\<close>, \<^verbatim>\<open>finsh_ops.c\<close> and \<^verbatim>\<open>finsh_ops.h\<close>. A stack entry is the
  union \<^verbatim>\<open>finsh_value\<close>: its \<^verbatim>\<open>char_value\<close> and \<^verbatim>\<open>short_value\<close> are the low bits of \<^verbatim>\<open>long_value\<close>, and writing one of them keeps the other
  bits. The machine's own arrays lie apart from the memory that programs reach through addresses. Functions
  called by a program are the parameter \<open>sys\<close>: from address, arguments and memory to result and
  memory. Leaving an array, an unknown opcode and arithmetic that C leaves undefined give \<open>None\<close>.
  \<^verbatim>\<open>char\<close> is unsigned as on the ARM boards.
\<close>

section \<open>State\<close>

definition FINSH_STACK_MAX :: nat where "FINSH_STACK_MAX = 64"
definition FINSH_TEXT_MAX :: nat where "FINSH_TEXT_MAX = 128"

record finsh_vm =
  finsh_vm_stack :: "nat \<Rightarrow> u32"
  finsh_sp :: nat
  finsh_pc :: nat
  text_segment :: mem
  vm_mem :: mem

type_synonym syscalls = "u32 \<Rightarrow> u32 list \<Rightarrow> mem \<Rightarrow> (u32 \<times> mem) option"

definition char_value :: "u32 \<Rightarrow> u8" where "char_value v = ucast v"
definition short_value :: "u32 \<Rightarrow> u16" where "short_value v = ucast v"
definition set_char_value :: "u8 \<Rightarrow> u32 \<Rightarrow> u32" where "set_char_value c v = push_bit 8 (drop_bit 8 v) OR ucast c"
definition set_short_value :: "u16 \<Rightarrow> u32 \<Rightarrow> u32" where "set_short_value c v = push_bit 16 (drop_bit 16 v) OR ucast c"

section \<open>Operations\<close>

text \<open>An access within the bounds of an array.\<close>

abbreviation inside :: "bool \<Rightarrow> unit option" where "inside \<equiv> RT_ASSERT"

datatype c_operator = Add | Sub | Div | Mod | Mul | And | Or | Xor | Shl | Shr

text \<open>A binary operator on promoted operands; the result is cut to the type it is assigned to.\<close>

fun c_op :: "c_operator \<Rightarrow> int \<Rightarrow> int \<Rightarrow> int option" where
  "c_op Add a b = Some (a + b)"
| "c_op Sub a b = Some (a - b)"
| "c_op Div a b = (if b = 0 \<or> (a = - (2 ^ 31) \<and> b = - 1) then None else Some (a sdiv b))"
| "c_op Mod a b = (if b = 0 \<or> (a = - (2 ^ 31) \<and> b = - 1) then None else Some (a smod b))"
| "c_op Mul a b = Some (a * b)"
| "c_op And a b = Some (a AND b)"
| "c_op Or a b = Some (a OR b)"
| "c_op Xor a b = Some (a XOR b)"
| "c_op Shl a b = (if b < 0 \<or> b \<ge> 32 then None else Some (a * 2 ^ nat b))"
| "c_op Shr a b = (if b < 0 \<or> b \<ge> 32 then None else Some (a div 2 ^ nat b))"

text \<open>The entry \<^verbatim>\<open>finsh_sp - n\<close>, and an update of it.\<close>

definition slot :: "nat \<Rightarrow> finsh_vm \<Rightarrow> u32" where "slot n st = finsh_vm_stack st (finsh_sp st - n)"

definition upd_slot :: "nat \<Rightarrow> (u32 \<Rightarrow> u32) \<Rightarrow> finsh_vm \<Rightarrow> finsh_vm" where
  "upd_slot n f st = st\<lparr>finsh_vm_stack := (finsh_vm_stack st)(finsh_sp st - n := f (slot n st))\<rparr>"

definition OP_BIN_BYTE :: "c_operator \<Rightarrow> finsh_vm \<Rightarrow> finsh_vm option" where
  "OP_BIN_BYTE x st =
     do { inside (2 \<le> finsh_sp st);
          r \<leftarrow> c_op x (uint (char_value (slot 2 st))) (uint (char_value (slot 1 st)));
          Some ((upd_slot 2 (set_char_value (word_of_int r)) st)\<lparr>finsh_sp := finsh_sp st - 1\<rparr>) }"

definition OP_BIN_WORD :: "c_operator \<Rightarrow> finsh_vm \<Rightarrow> finsh_vm option" where
  "OP_BIN_WORD x st =
     do { inside (2 \<le> finsh_sp st);
          r \<leftarrow> c_op x (sint (short_value (slot 2 st))) (sint (short_value (slot 1 st)));
          Some ((upd_slot 2 (set_short_value (word_of_int r)) st)\<lparr>finsh_sp := finsh_sp st - 1\<rparr>) }"

definition OP_BIN_DWORD :: "c_operator \<Rightarrow> finsh_vm \<Rightarrow> finsh_vm option" where
  "OP_BIN_DWORD x st =
     do { inside (2 \<le> finsh_sp st);
          r \<leftarrow> c_op x (sint (slot 2 st)) (sint (slot 1 st));
          Some ((upd_slot 2 (\<lambda>_. word_of_int r) st)\<lparr>finsh_sp := finsh_sp st - 1\<rparr>) }"

definition OP_no_op :: "finsh_vm \<Rightarrow> finsh_vm option" where "OP_no_op st = Some st"

definition OP_bw_byte :: "finsh_vm \<Rightarrow> finsh_vm option" where
  "OP_bw_byte st = do { inside (1 \<le> finsh_sp st); Some (upd_slot 1 (\<lambda>v. set_char_value (NOT (char_value v)) v) st) }"

definition OP_bw_word :: "finsh_vm \<Rightarrow> finsh_vm option" where
  "OP_bw_word st = do { inside (1 \<le> finsh_sp st); Some (upd_slot 1 (\<lambda>v. set_short_value (NOT (short_value v)) v) st) }"

definition OP_bw_dword :: "finsh_vm \<Rightarrow> finsh_vm option" where
  "OP_bw_dword st = do { inside (1 \<le> finsh_sp st); Some (upd_slot 1 (\<lambda>v. NOT v) st) }"

text \<open>Pushing a constant of the text segment, or the value at an address that stands there.\<close>

definition push_slot :: "nat \<Rightarrow> (u32 \<Rightarrow> u32) \<Rightarrow> finsh_vm \<Rightarrow> finsh_vm option" where
  "push_slot operand f st =
     do { inside (finsh_pc st + operand \<le> FINSH_TEXT_MAX);
          inside (finsh_sp st < FINSH_STACK_MAX);
          Some ((upd_slot 0 f st)\<lparr>finsh_sp := finsh_sp st + 1, finsh_pc := finsh_pc st + operand\<rparr>) }"

definition FINSH_GET16 :: "nat \<Rightarrow> mem \<Rightarrow> u16" where "FINSH_GET16 x t = ucast (t x) OR push_bit 8 (ucast (t (x + 1)))"
definition FINSH_GET32 :: "nat \<Rightarrow> mem \<Rightarrow> u32" where "FINSH_GET32 x t = load_word x t"

definition OP_ld_byte :: "finsh_vm \<Rightarrow> finsh_vm option" where
  "OP_ld_byte st = push_slot 1 (set_char_value (text_segment st (finsh_pc st))) st"

definition OP_ld_word :: "finsh_vm \<Rightarrow> finsh_vm option" where
  "OP_ld_word st = push_slot 2 (set_short_value (FINSH_GET16 (finsh_pc st) (text_segment st))) st"

definition OP_ld_dword :: "finsh_vm \<Rightarrow> finsh_vm option" where
  "OP_ld_dword st = push_slot 4 (\<lambda>_. FINSH_GET32 (finsh_pc st) (text_segment st)) st"

definition load_short :: "nat \<Rightarrow> mem \<Rightarrow> u16" where "load_short a m = ucast (m a) OR push_bit 8 (ucast (m (a + 1)))"

definition store_short :: "nat \<Rightarrow> u16 \<Rightarrow> mem \<Rightarrow> mem" where
  "store_short a v m = m(a := ucast v, a + 1 := ucast (drop_bit 8 v))"

definition OP_ld_value_byte :: "finsh_vm \<Rightarrow> finsh_vm option" where
  "OP_ld_value_byte st =
     (let c = unat (FINSH_GET32 (finsh_pc st) (text_segment st)) in push_slot 4 (set_char_value (vm_mem st c)) st)"

definition OP_ld_value_byte_stack :: "finsh_vm \<Rightarrow> finsh_vm option" where
  "OP_ld_value_byte_stack st =
     do { inside (1 \<le> finsh_sp st); Some (upd_slot 1 (\<lambda>v. set_char_value (vm_mem st (unat v)) v) st) }"

definition OP_ld_value_word :: "finsh_vm \<Rightarrow> finsh_vm option" where
  "OP_ld_value_word st =
     (let s = unat (FINSH_GET32 (finsh_pc st) (text_segment st)) in push_slot 4 (set_short_value (load_short s (vm_mem st))) st)"

definition OP_ld_value_word_stack :: "finsh_vm \<Rightarrow> finsh_vm option" where
  "OP_ld_value_word_stack st =
     do { inside (1 \<le> finsh_sp st); Some (upd_slot 1 (\<lambda>v. set_short_value (load_short (unat v) (vm_mem st)) v) st) }"

definition OP_ld_value_dword :: "finsh_vm \<Rightarrow> finsh_vm option" where
  "OP_ld_value_dword st =
     (let l = unat (FINSH_GET32 (finsh_pc st) (text_segment st)) in push_slot 4 (\<lambda>_. load_word l (vm_mem st)) st)"

definition OP_ld_value_dword_stack :: "finsh_vm \<Rightarrow> finsh_vm option" where
  "OP_ld_value_dword_stack st =
     do { inside (1 \<le> finsh_sp st); Some (upd_slot 1 (\<lambda>v. load_word (unat v) (vm_mem st)) st) }"

definition OP_st_byte :: "finsh_vm \<Rightarrow> finsh_vm option" where
  "OP_st_byte st =
     do { inside (2 \<le> finsh_sp st);
          Some (st\<lparr>vm_mem := (vm_mem st)(unat (slot 2 st) := char_value (slot 1 st)), finsh_sp := finsh_sp st - 1\<rparr>) }"

definition OP_st_word :: "finsh_vm \<Rightarrow> finsh_vm option" where
  "OP_st_word st =
     do { inside (2 \<le> finsh_sp st);
          Some (st\<lparr>vm_mem := store_short (unat (slot 2 st)) (short_value (slot 1 st)) (vm_mem st), finsh_sp := finsh_sp st - 1\<rparr>) }"

definition OP_st_dword :: "finsh_vm \<Rightarrow> finsh_vm option" where
  "OP_st_dword st =
     do { inside (2 \<le> finsh_sp st);
          Some (st\<lparr>vm_mem := store_word (unat (slot 2 st)) (slot 1 st) (vm_mem st), finsh_sp := finsh_sp st - 1\<rparr>) }"

definition OP_pop :: "finsh_vm \<Rightarrow> finsh_vm option" where
  "OP_pop st = do { inside (1 \<le> finsh_sp st); Some (st\<lparr>finsh_sp := finsh_sp st - 1\<rparr>) }"

text \<open>
  More than sixteen parameters overrun the array \<^verbatim>\<open>parameterv\<close>. Without parameters the function is called with 0. The function is below the parameters.
\<close>

definition OP_call :: "syscalls \<Rightarrow> finsh_vm \<Rightarrow> finsh_vm option" where
  "OP_call sys st =
     do { inside (finsh_pc st < FINSH_TEXT_MAX);
          let parameters = unat (text_segment st (finsh_pc st));
          inside (parameters \<le> 16 \<and> parameters + 1 \<le> finsh_sp st);
          let base = finsh_sp st - parameters;
          let parameterv = map (finsh_vm_stack st) [base..<finsh_sp st];
          let f = finsh_vm_stack st (base - 1);
          (r, m) \<leftarrow> sys f (if parameters = 0 then [0] else parameterv) (vm_mem st);
          Some (st\<lparr>finsh_vm_stack := (finsh_vm_stack st)(base - 1 := r), finsh_sp := base,
                   finsh_pc := finsh_pc st + 1, vm_mem := m\<rparr>) }"

definition op_table :: "syscalls \<Rightarrow> (finsh_vm \<Rightarrow> finsh_vm option) list" where
  "op_table sys =
     [OP_no_op,
      OP_BIN_BYTE Add, OP_BIN_WORD Add, OP_BIN_DWORD Add,
      OP_BIN_BYTE Sub, OP_BIN_WORD Sub, OP_BIN_DWORD Sub,
      OP_BIN_BYTE Div, OP_BIN_WORD Div, OP_BIN_DWORD Div,
      OP_BIN_BYTE Mod, OP_BIN_WORD Mod, OP_BIN_DWORD Mod,
      OP_BIN_BYTE Mul, OP_BIN_WORD Mul, OP_BIN_DWORD Mul,
      OP_BIN_BYTE And, OP_BIN_WORD And, OP_BIN_DWORD And,
      OP_BIN_BYTE Or, OP_BIN_WORD Or, OP_BIN_DWORD Or,
      OP_BIN_BYTE Xor, OP_BIN_WORD Xor, OP_BIN_DWORD Xor,
      OP_bw_byte, OP_bw_word, OP_bw_dword,
      OP_BIN_BYTE Shl, OP_BIN_WORD Shl, OP_BIN_DWORD Shl,
      OP_BIN_BYTE Shr, OP_BIN_WORD Shr, OP_BIN_DWORD Shr,
      OP_ld_byte, OP_ld_word, OP_ld_dword,
      OP_ld_value_byte, OP_ld_value_word, OP_ld_value_dword,
      OP_st_byte, OP_st_word, OP_st_dword,
      OP_pop, OP_call sys,
      OP_ld_value_byte_stack, OP_ld_value_word_stack, OP_ld_value_dword_stack]"

section \<open>Running\<close>

definition vm_step :: "syscalls \<Rightarrow> finsh_vm \<Rightarrow> finsh_vm option" where
  "vm_step sys st =
     (let opc = unat (text_segment st (finsh_pc st)); st = st\<lparr>finsh_pc := finsh_pc st + 1\<rparr>
      in if opc < length (op_table sys) then (op_table sys ! opc) st else None)"

named_theorems op_defs

lemmas [op_defs] =
  OP_no_op_def OP_BIN_BYTE_def OP_BIN_WORD_def OP_BIN_DWORD_def OP_bw_byte_def OP_bw_word_def OP_bw_dword_def
  OP_ld_byte_def OP_ld_word_def OP_ld_dword_def OP_ld_value_byte_def OP_ld_value_word_def OP_ld_value_dword_def
  OP_st_byte_def OP_st_word_def OP_st_dword_def OP_pop_def OP_call_def OP_ld_value_byte_stack_def
  OP_ld_value_word_stack_def OP_ld_value_dword_stack_def push_slot_def upd_slot_def slot_def Let_def

text \<open>No operation moves the program counter back, which is why the machine always stops.\<close>

lemma op_pc: "f \<in> set (op_table sys) \<Longrightarrow> f st = Some st' \<Longrightarrow> finsh_pc st \<le> finsh_pc st'"
  unfolding op_table_def by (auto simp: op_defs bind_eq_Some_conv split: if_splits)

lemma vm_step_pc: "vm_step sys st = Some st' \<Longrightarrow> finsh_pc st < finsh_pc st'"
  using op_pc [OF nth_mem, of "unat (text_segment st (finsh_pc st))" sys "st\<lparr>finsh_pc := finsh_pc st + 1\<rparr>" st']
  by (simp add: vm_step_def Let_def split: if_splits)

function vm_loop :: "syscalls \<Rightarrow> finsh_vm \<Rightarrow> finsh_vm option" where
  "vm_loop sys st =
     (if finsh_pc st < FINSH_TEXT_MAX
      then case vm_step sys st of None \<Rightarrow> None | Some st' \<Rightarrow> vm_loop sys st'
      else Some st)"
  by pat_completeness auto
termination
  by (relation "measure (\<lambda>(_, st). FINSH_TEXT_MAX - finsh_pc st)") (auto dest: vm_step_pc)

declare vm_loop.simps [simp del]

definition finsh_vm_run :: "syscalls \<Rightarrow> finsh_vm \<Rightarrow> finsh_vm option" where
  "finsh_vm_run sys st = vm_loop sys (st\<lparr>finsh_sp := 0, finsh_pc := 0\<rparr>)"

definition finsh_stack_bottom :: "finsh_vm \<Rightarrow> u32" where "finsh_stack_bottom st = finsh_vm_stack st 0"

end
