(* ===== verification/Rt_Finsh_Compiler.thy ===== *)
theory Rt_Finsh_Compiler
  imports Rt_Finsh_Vm
begin

text \<open>
  The compiler of the shell's C interpreter: \<^verbatim>\<open>components/finsh/finsh_compiler.c\<close> on the nodes of \<^verbatim>\<open>finsh_node.h\<close> and \<^verbatim>\<open>finsh.h\<close>. A node
  with its child and its sibling is a value of a data type, since the compiler reaches nodes along these two
  links only. The bytes written through \<^verbatim>\<open>finsh_compile_pc\<close> are a list.
\<close>

section \<open>Nodes\<close>

datatype finsh_type =
  finsh_type_unknown | finsh_type_void | finsh_type_voidp | finsh_type_char | finsh_type_uchar | finsh_type_charp |
  finsh_type_short | finsh_type_ushort | finsh_type_shortp | finsh_type_int | finsh_type_uint | finsh_type_intp |
  finsh_type_long | finsh_type_ulong | finsh_type_longp

datatype node_type =
  FINSH_NODE_UNKNOWN | FINSH_NODE_ID | FINSH_NODE_VALUE_CHAR | FINSH_NODE_VALUE_INT | FINSH_NODE_VALUE_LONG |
  FINSH_NODE_VALUE_STRING | FINSH_NODE_VALUE_NULL | FINSH_NODE_SYS_ADD | FINSH_NODE_SYS_SUB | FINSH_NODE_SYS_MUL |
  FINSH_NODE_SYS_DIV | FINSH_NODE_SYS_MOD | FINSH_NODE_SYS_AND | FINSH_NODE_SYS_OR | FINSH_NODE_SYS_XOR |
  FINSH_NODE_SYS_BITWISE | FINSH_NODE_SYS_SHL | FINSH_NODE_SYS_SHR | FINSH_NODE_SYS_FUNC | FINSH_NODE_SYS_ASSIGN |
  FINSH_NODE_SYS_CAST | FINSH_NODE_SYS_PREINC | FINSH_NODE_SYS_PREDEC | FINSH_NODE_SYS_INC | FINSH_NODE_SYS_DEC |
  FINSH_NODE_SYS_GETVALUE | FINSH_NODE_SYS_GETADDR | FINSH_NODE_SYS_NULL

definition FINSH_DATA_TYPE_VOID :: nat where "FINSH_DATA_TYPE_VOID = 0"
definition FINSH_DATA_TYPE_BYTE :: nat where "FINSH_DATA_TYPE_BYTE = 1"
definition FINSH_DATA_TYPE_WORD :: nat where "FINSH_DATA_TYPE_WORD = 2"
definition FINSH_DATA_TYPE_DWORD :: nat where "FINSH_DATA_TYPE_DWORD = 3"

lemmas data_type_defs = FINSH_DATA_TYPE_VOID_def FINSH_DATA_TYPE_BYTE_def FINSH_DATA_TYPE_WORD_def FINSH_DATA_TYPE_DWORD_def

definition FINSH_IDTYPE_VAR :: u8 where "FINSH_IDTYPE_VAR = 1"
definition FINSH_IDTYPE_SYSVAR :: u8 where "FINSH_IDTYPE_SYSVAR = 2"
definition FINSH_IDTYPE_SYSCALL :: u8 where "FINSH_IDTYPE_SYSCALL = 4"
definition FINSH_IDTYPE_ADDRESS :: u8 where "FINSH_IDTYPE_ADDRESS = 8"

lemmas idtype_defs = FINSH_IDTYPE_VAR_def FINSH_IDTYPE_SYSVAR_def FINSH_IDTYPE_SYSCALL_def FINSH_IDTYPE_ADDRESS_def

definition FINSH_ERROR_UNKNOWN_TYPE :: nat where "FINSH_ERROR_UNKNOWN_TYPE = 3"
definition FINSH_ERROR_UNKNOWN_NODE :: nat where "FINSH_ERROR_UNKNOWN_NODE = 8"

text \<open>
  The union \<^verbatim>\<open>id\<close>: the address of the structure that describes the symbol, and what is read from it, the type of a variable,
  the type and the address of a system variable, or the address of a function.
\<close>

datatype symbol = SymNone | SymVar u32 finsh_type | SymSysvar u32 finsh_type u32 | SymSyscall u32 u32

text \<open>The member \<^verbatim>\<open>value\<close> of \<^verbatim>\<open>struct finsh_var\<close> follows the 17 bytes of the name, the type and two bytes of padding.\<close>

fun var_value :: "symbol \<Rightarrow> u32" where
  "var_value SymNone = 20"
| "var_value (SymVar p _) = p + 20"
| "var_value (SymSysvar p _ _) = p + 20"
| "var_value (SymSyscall p _) = p + 20"

record node_info =
  node_type :: node_type
  data_type :: nat
  idtype :: u8
  node_value :: u32
  node_id :: symbol

datatype finsh_node = NULL | Node node_info finsh_node finsh_node

section \<open>Types\<close>

text \<open>The data type of a variable of a given type; \<open>None\<close> sets the error.\<close>

fun var_data_type :: "finsh_type \<Rightarrow> nat option" where
  "var_data_type finsh_type_void = Some FINSH_DATA_TYPE_VOID"
| "var_data_type finsh_type_char = Some FINSH_DATA_TYPE_BYTE"
| "var_data_type finsh_type_uchar = Some FINSH_DATA_TYPE_BYTE"
| "var_data_type finsh_type_short = Some FINSH_DATA_TYPE_WORD"
| "var_data_type finsh_type_ushort = Some FINSH_DATA_TYPE_WORD"
| "var_data_type finsh_type_unknown = None"
| "var_data_type _ = Some FINSH_DATA_TYPE_DWORD"

fun id_type :: "symbol \<Rightarrow> finsh_type" where
  "id_type (SymVar _ t) = t"
| "id_type (SymSysvar _ t _) = t"
| "id_type _ = finsh_type_unknown"

definition type_leaf :: "node_info \<Rightarrow> nat \<Rightarrow> node_info \<times> nat" where
  "type_leaf n err =
     (if node_type n = FINSH_NODE_ID then
        if idtype n AND (FINSH_IDTYPE_VAR OR FINSH_IDTYPE_SYSVAR) \<noteq> 0 \<and> node_id n \<noteq> SymNone then
          case var_data_type (id_type (node_id n)) of
            Some d \<Rightarrow> (n\<lparr>data_type := d\<rparr>, err)
          | None \<Rightarrow> (n, FINSH_ERROR_UNKNOWN_TYPE)
        else (n, err)
      else if node_type n = FINSH_NODE_VALUE_CHAR then (n\<lparr>data_type := FINSH_DATA_TYPE_BYTE\<rparr>, err)
      else if node_type n \<in> {FINSH_NODE_VALUE_INT, FINSH_NODE_VALUE_LONG, FINSH_NODE_VALUE_STRING, FINSH_NODE_VALUE_NULL}
      then (n\<lparr>data_type := FINSH_DATA_TYPE_DWORD\<rparr>, err)
      else (n, err))"

fun finsh_type_check :: "finsh_node \<Rightarrow> u8 \<Rightarrow> nat \<Rightarrow> finsh_node \<times> nat" where
  "finsh_type_check NULL is_addr err = (NULL, err)"
| "finsh_type_check (Node n child sibling) is_addr err =
     (let child_addr =
            (if node_type n \<in> {FINSH_NODE_SYS_ASSIGN, FINSH_NODE_SYS_PREINC, FINSH_NODE_SYS_PREDEC, FINSH_NODE_SYS_GETADDR}
             then FINSH_IDTYPE_ADDRESS
             else if node_type n = FINSH_NODE_SYS_GETVALUE \<and> is_addr \<noteq> 0 then 0
             else is_addr);
          (child, err) = finsh_type_check child child_addr err;
          (sibling, err) = finsh_type_check sibling 0 err;
          n = (if idtype n \<noteq> FINSH_IDTYPE_SYSCALL then n\<lparr>idtype := idtype n OR is_addr\<rparr> else n)
      in case child of
           Node c _ _ \<Rightarrow> (Node (n\<lparr>data_type := data_type c\<rparr>) child sibling, err)
         | NULL \<Rightarrow> let (n, err) = type_leaf n err in (Node n child sibling, err))"

section \<open>Code\<close>

definition FINSH_OP_ADD_BYTE :: u8 where "FINSH_OP_ADD_BYTE = 0x01"
definition FINSH_OP_SUB_BYTE :: u8 where "FINSH_OP_SUB_BYTE = 0x04"
definition FINSH_OP_DIV_BYTE :: u8 where "FINSH_OP_DIV_BYTE = 0x07"
definition FINSH_OP_MOD_BYTE :: u8 where "FINSH_OP_MOD_BYTE = 0x0A"
definition FINSH_OP_MUL_BYTE :: u8 where "FINSH_OP_MUL_BYTE = 0x0D"
definition FINSH_OP_AND_BYTE :: u8 where "FINSH_OP_AND_BYTE = 0x10"
definition FINSH_OP_OR_BYTE :: u8 where "FINSH_OP_OR_BYTE = 0x13"
definition FINSH_OP_XOR_BYTE :: u8 where "FINSH_OP_XOR_BYTE = 0x16"
definition FINSH_OP_BITWISE_BYTE :: u8 where "FINSH_OP_BITWISE_BYTE = 0x19"
definition FINSH_OP_SHL_BYTE :: u8 where "FINSH_OP_SHL_BYTE = 0x1C"
definition FINSH_OP_SHR_BYTE :: u8 where "FINSH_OP_SHR_BYTE = 0x1F"
definition FINSH_OP_LD_BYTE :: u8 where "FINSH_OP_LD_BYTE = 0x22"
definition FINSH_OP_LD_VALUE_BYTE :: u8 where "FINSH_OP_LD_VALUE_BYTE = 0x25"
definition FINSH_OP_ST_BYTE :: u8 where "FINSH_OP_ST_BYTE = 0x28"
definition FINSH_OP_POP :: u8 where "FINSH_OP_POP = 0x2B"
definition FINSH_OP_SYSCALL :: u8 where "FINSH_OP_SYSCALL = 0x2C"
definition FINSH_OP_LD_VALUE_BYTE_STACK :: u8 where "FINSH_OP_LD_VALUE_BYTE_STACK = 0x2D"

lemmas opcode_defs =
  FINSH_OP_ADD_BYTE_def FINSH_OP_SUB_BYTE_def FINSH_OP_DIV_BYTE_def FINSH_OP_MOD_BYTE_def FINSH_OP_MUL_BYTE_def
  FINSH_OP_AND_BYTE_def FINSH_OP_OR_BYTE_def FINSH_OP_XOR_BYTE_def FINSH_OP_BITWISE_BYTE_def FINSH_OP_SHL_BYTE_def
  FINSH_OP_SHR_BYTE_def FINSH_OP_LD_BYTE_def FINSH_OP_LD_VALUE_BYTE_def FINSH_OP_ST_BYTE_def FINSH_OP_POP_def
  FINSH_OP_SYSCALL_def FINSH_OP_LD_VALUE_BYTE_STACK_def

text \<open>
  The opcodes of an operation for bytes, words and double words follow each other; the choice by the data type
  yields nothing for any other data type.
\<close>

definition sized_op :: "u8 \<Rightarrow> nat \<Rightarrow> u8 list" where
  "sized_op byte_op d =
     (if d = FINSH_DATA_TYPE_BYTE then [byte_op]
      else if d = FINSH_DATA_TYPE_WORD then [byte_op + 1]
      else if d = FINSH_DATA_TYPE_DWORD then [byte_op + 2]
      else [])"

definition code_word :: "u16 \<Rightarrow> u8 list" where "code_word x = [ucast x, ucast (drop_bit 8 x)]"
definition code_dword :: "u32 \<Rightarrow> u8 list" where "code_dword x = [byte_of 0 x, byte_of 1 x, byte_of 2 x, byte_of 3 x]"

text \<open>The code for a variable: its address, or its value at the width of its type. A pointer to void is not among the cases.\<close>

definition code_var :: "bool \<Rightarrow> finsh_type \<Rightarrow> u32 \<Rightarrow> u8 list" where
  "code_var address t a =
     (case t of
        finsh_type_unknown \<Rightarrow> [] | finsh_type_void \<Rightarrow> [] | finsh_type_voidp \<Rightarrow> []
      | _ \<Rightarrow> (if address then [FINSH_OP_LD_BYTE + 2] else sized_op FINSH_OP_LD_VALUE_BYTE (the (var_data_type t))) @ code_dword a)"

definition code_id :: "node_info \<Rightarrow> u8 list option" where
  "code_id n =
     (if idtype n AND FINSH_IDTYPE_SYSCALL \<noteq> 0 then
        case node_id n of SymSyscall _ func \<Rightarrow> Some ([FINSH_OP_LD_BYTE + 2] @ code_dword func) | _ \<Rightarrow> None
      else if idtype n AND FINSH_IDTYPE_SYSVAR \<noteq> 0 then
        case node_id n of
          SymSysvar _ t a \<Rightarrow> Some (code_var (idtype n AND FINSH_IDTYPE_ADDRESS \<noteq> 0) t a)
        | SymNone \<Rightarrow> Some []
        | _ \<Rightarrow> None
      else
        case node_id n of
          SymVar p t \<Rightarrow> Some (code_var (idtype n AND FINSH_IDTYPE_ADDRESS \<noteq> 0) t (var_value (node_id n)))
        | SymNone \<Rightarrow> Some []
        | _ \<Rightarrow> None)"

text \<open>Loading the constant 1 at the width of the data type.\<close>

definition code_one :: "nat \<Rightarrow> u8 list" where
  "code_one d =
     (if d = FINSH_DATA_TYPE_BYTE then [FINSH_OP_LD_BYTE, 1]
      else if d = FINSH_DATA_TYPE_WORD then [FINSH_OP_LD_BYTE + 1] @ code_word 1
      else [FINSH_OP_LD_BYTE + 2] @ code_dword 1)"

text \<open>\<^verbatim>\<open>++\<close> and \<^verbatim>\<open>--\<close>: \<open>opr\<close> is the opcode of addition or subtraction, \<open>a\<close> the address of \<^verbatim>\<open>var->value\<close>.\<close>

definition code_pre :: "u8 \<Rightarrow> nat \<Rightarrow> u32 \<Rightarrow> u8 list" where
  "code_pre opr d a =
     (if d \<in> {FINSH_DATA_TYPE_BYTE, FINSH_DATA_TYPE_WORD, FINSH_DATA_TYPE_DWORD} then
        sized_op FINSH_OP_LD_VALUE_BYTE d @ code_dword a @ code_one d @ sized_op opr d @ sized_op FINSH_OP_ST_BYTE d @
        [FINSH_OP_LD_VALUE_BYTE_STACK + 2]
      else [])"

definition code_post :: "u8 \<Rightarrow> nat \<Rightarrow> u32 \<Rightarrow> u8 list" where
  "code_post opr d a =
     (if d \<in> {FINSH_DATA_TYPE_BYTE, FINSH_DATA_TYPE_WORD, FINSH_DATA_TYPE_DWORD} then
        [FINSH_OP_LD_BYTE + 2] @ code_dword a @ sized_op FINSH_OP_LD_VALUE_BYTE d @ code_dword a @ code_one d @
        sized_op opr d @ sized_op FINSH_OP_ST_BYTE d @ [FINSH_OP_POP]
      else [])"

fun siblings :: "finsh_node \<Rightarrow> nat" where
  "siblings NULL = 0"
| "siblings (Node _ _ s) = siblings s + 1"

fun child_id :: "finsh_node \<Rightarrow> symbol option" where
  "child_id (Node c _ _) = (if node_type c = FINSH_NODE_ID then Some (node_id c) else None)"
| "child_id NULL = None"

definition code_assign :: "finsh_node \<Rightarrow> nat \<Rightarrow> (u8 list \<times> nat) option" where
  "code_assign child err =
     (case child of
        NULL \<Rightarrow> None
      | Node c _ _ \<Rightarrow>
          if node_type c = FINSH_NODE_ID \<or> node_type c = FINSH_NODE_SYS_GETVALUE then
            let d = (if node_type c = FINSH_NODE_ID then data_type c else data_type c mod 16) in
            if d \<in> {FINSH_DATA_TYPE_BYTE, FINSH_DATA_TYPE_WORD, FINSH_DATA_TYPE_DWORD}
            then Some (sized_op FINSH_OP_ST_BYTE d @ sized_op FINSH_OP_LD_VALUE_BYTE_STACK d, err)
            else Some ([], FINSH_ERROR_UNKNOWN_TYPE)
          else Some ([], err))"

text \<open>The code of one node after the code of its children, and the error number.\<close>

fun compile_node :: "node_info \<Rightarrow> finsh_node \<Rightarrow> nat \<Rightarrow> (u8 list \<times> nat) option" where
  "compile_node n child err =
     (let d = data_type n; code = (\<lambda>c. Some (c, err)) in
      case node_type n of
        FINSH_NODE_ID \<Rightarrow> map_option (\<lambda>c. (c, err)) (code_id n)
      | FINSH_NODE_VALUE_CHAR \<Rightarrow> code [FINSH_OP_LD_BYTE, ucast (node_value n)]
      | FINSH_NODE_VALUE_INT \<Rightarrow> code ([FINSH_OP_LD_BYTE + 2] @ code_dword (node_value n))
      | FINSH_NODE_VALUE_LONG \<Rightarrow> code ([FINSH_OP_LD_BYTE + 2] @ code_dword (node_value n))
      | FINSH_NODE_VALUE_NULL \<Rightarrow> code ([FINSH_OP_LD_BYTE + 2] @ code_dword (node_value n))
      | FINSH_NODE_VALUE_STRING \<Rightarrow> code ([FINSH_OP_LD_BYTE + 2] @ code_dword (node_value n))
      | FINSH_NODE_SYS_ADD \<Rightarrow> code (sized_op FINSH_OP_ADD_BYTE d)
      | FINSH_NODE_SYS_SUB \<Rightarrow> code (sized_op FINSH_OP_SUB_BYTE d)
      | FINSH_NODE_SYS_MUL \<Rightarrow> code (sized_op FINSH_OP_MUL_BYTE d)
      | FINSH_NODE_SYS_DIV \<Rightarrow> code (sized_op FINSH_OP_DIV_BYTE d)
      | FINSH_NODE_SYS_MOD \<Rightarrow> code (sized_op FINSH_OP_MOD_BYTE d)
      | FINSH_NODE_SYS_AND \<Rightarrow> code (sized_op FINSH_OP_AND_BYTE d)
      | FINSH_NODE_SYS_OR \<Rightarrow> code (sized_op FINSH_OP_OR_BYTE d)
      | FINSH_NODE_SYS_XOR \<Rightarrow> code (sized_op FINSH_OP_XOR_BYTE d)
      | FINSH_NODE_SYS_BITWISE \<Rightarrow> code (sized_op FINSH_OP_BITWISE_BYTE d)
      | FINSH_NODE_SYS_SHL \<Rightarrow> code (sized_op FINSH_OP_SHL_BYTE d)
      | FINSH_NODE_SYS_SHR \<Rightarrow> code (sized_op FINSH_OP_SHR_BYTE d)
      | FINSH_NODE_SYS_FUNC \<Rightarrow> code (if child \<noteq> NULL then [FINSH_OP_SYSCALL, of_nat (siblings child - 1)] else [])
      | FINSH_NODE_SYS_ASSIGN \<Rightarrow> code_assign child err
      | FINSH_NODE_SYS_PREINC \<Rightarrow> code (case child_id child of Some i \<Rightarrow> code_pre FINSH_OP_ADD_BYTE d (var_value i) | None \<Rightarrow> [])
      | FINSH_NODE_SYS_PREDEC \<Rightarrow> code (case child_id child of Some i \<Rightarrow> code_pre FINSH_OP_SUB_BYTE d (var_value i) | None \<Rightarrow> [])
      | FINSH_NODE_SYS_INC \<Rightarrow> code (case child_id child of Some i \<Rightarrow> code_post FINSH_OP_ADD_BYTE d (var_value i) | None \<Rightarrow> [])
      | FINSH_NODE_SYS_DEC \<Rightarrow> code (case child_id child of Some i \<Rightarrow> code_post FINSH_OP_SUB_BYTE d (var_value i) | None \<Rightarrow> [])
      | FINSH_NODE_SYS_NULL \<Rightarrow> code (code_dword 0)
      | FINSH_NODE_SYS_GETVALUE \<Rightarrow>
          code (if idtype n AND FINSH_IDTYPE_ADDRESS \<noteq> 0 then [] else sized_op FINSH_OP_LD_VALUE_BYTE_STACK d)
      | FINSH_NODE_SYS_GETADDR \<Rightarrow> code []
      | _ \<Rightarrow> Some ([], FINSH_ERROR_UNKNOWN_NODE))"

declare compile_node.simps [simp del]

fun finsh_compile :: "finsh_node \<Rightarrow> u8 list \<times> nat \<Rightarrow> (u8 list \<times> nat) option" where
  "finsh_compile NULL s = Some s"
| "finsh_compile (Node n child sibling) s =
     do { (code, err) \<leftarrow> finsh_compile child s;
          (c, err) \<leftarrow> compile_node n child err;
          finsh_compile sibling (code @ c, err) }"

text \<open>The loop of \<^verbatim>\<open>finsh_compiler_run\<close> over the statements.\<close>

fun compile_statements :: "finsh_node \<Rightarrow> u8 list \<times> nat \<Rightarrow> (u8 list \<times> nat) option" where
  "compile_statements NULL s = Some s"
| "compile_statements (Node n child sibling) s =
     do { (code, err) \<leftarrow> finsh_compile (Node n child NULL) s;
          compile_statements sibling (if sibling \<noteq> NULL then code @ [FINSH_OP_POP] else code, err) }"

text \<open>
  The text segment is cleared before the code is written there, the stack only in its first entry. Code that is
  longer than the segment overwrites what follows it.
\<close>

definition finsh_compiler_run :: "finsh_node \<Rightarrow> nat \<Rightarrow> finsh_vm \<Rightarrow> (finsh_vm \<times> nat) option" where
  "finsh_compiler_run node err st =
     do { let (node, err) = finsh_type_check node 0 err;
          (code, err) \<leftarrow> compile_statements node ([], err);
          inside (length code \<le> FINSH_TEXT_MAX);
          Some (st\<lparr>text_segment := (\<lambda>i. if i < length code then code ! i else 0),
                   finsh_vm_stack := (finsh_vm_stack st)(0 := 0)\<rparr>, err) }"

end
