(* ===== verification/Rt_Finsh_Token.thy ===== *)
theory Rt_Finsh_Token
  imports Rt_Finsh_Compiler
begin

text \<open>
  The scanner of the shell's C interpreter, \<^verbatim>\<open>components/finsh/finsh_token.c\<close>. A line is the bytes of a C string; the scanner keeps a position in it. The
  state carries the global error number of \<^verbatim>\<open>finsh_error.c\<close>. \<open>None\<close> stands for a write beyond one of the fixed arrays, or for a loop that does not end.
\<close>

section \<open>State\<close>

datatype finsh_token_type =
  finsh_token_type_left_paren | finsh_token_type_right_paren | finsh_token_type_comma | finsh_token_type_semicolon |
  finsh_token_type_mul | finsh_token_type_add | finsh_token_type_inc | finsh_token_type_sub | finsh_token_type_dec |
  finsh_token_type_div | finsh_token_type_mod | finsh_token_type_assign | finsh_token_type_and | finsh_token_type_or |
  finsh_token_type_xor | finsh_token_type_bitwise | finsh_token_type_shl | finsh_token_type_shr | finsh_token_type_comments |
  finsh_token_type_void | finsh_token_type_char | finsh_token_type_short | finsh_token_type_int | finsh_token_type_long |
  finsh_token_type_unsigned | finsh_token_type_value_char | finsh_token_type_value_int | finsh_token_type_value_long |
  finsh_token_type_value_string | finsh_token_type_value_null | finsh_token_type_identifier | finsh_token_type_bad |
  finsh_token_type_eof

record finsh_token =
  tk_eof :: bool
  tk_replay :: bool
  tk_position :: nat
  current_token :: finsh_token_type
  tk_value :: u32
  tk_string :: "u8 list"
  tk_line :: "u8 list"
  global_errno :: nat

definition FINSH_STRING_MAX :: nat where "FINSH_STRING_MAX = 128"
definition FINSH_NAME_MAX :: nat where "FINSH_NAME_MAX = 16"

definition FINSH_ERROR_EXPECT_CHAR :: nat where "FINSH_ERROR_EXPECT_CHAR = 9"
definition FINSH_ERROR_UNEXPECT_END :: nat where "FINSH_ERROR_UNEXPECT_END = 10"
definition FINSH_ERROR_UNKNOWN_TOKEN :: nat where "FINSH_ERROR_UNKNOWN_TOKEN = 11"

definition finsh_error_set :: "nat \<Rightarrow> finsh_token \<Rightarrow> finsh_token" where "finsh_error_set e self = self\<lparr>global_errno := e\<rparr>"

definition is_digit :: "u8 \<Rightarrow> bool" where "is_digit ch \<longleftrightarrow> 48 \<le> ch \<and> ch \<le> 57"

definition is_alpha :: "u8 \<Rightarrow> bool" where "is_alpha ch \<longleftrightarrow> (ucast (ch OR 0x20) - 97 :: u32) < 26"

definition is_xdigit :: "u8 \<Rightarrow> bool" where
  "is_xdigit ch \<longleftrightarrow> (48 \<le> ch \<and> ch \<le> 57) \<or> (ucast (ch OR 0x20) - 97 :: u32) < 6"

definition is_separator :: "u8 \<Rightarrow> bool" where
  "is_separator ch \<longleftrightarrow> \<not> ((97 \<le> ch \<and> ch \<le> 122) \<or> (65 \<le> ch \<and> ch \<le> 90) \<or> (48 \<le> ch \<and> ch \<le> 57) \<or> ch = 95)"

section \<open>Characters\<close>

definition token_next_char :: "finsh_token \<Rightarrow> u8 \<times> finsh_token" where
  "token_next_char self =
     (if tk_eof self then (0, self)
      else if tk_position self = length (tk_line self) \<or> tk_line self ! tk_position self = 10
      then (0, self\<lparr>tk_eof := True, tk_position := 0\<rparr>)
      else (tk_line self ! tk_position self, self\<lparr>tk_position := tk_position self + 1\<rparr>))"

definition token_prev_char :: "finsh_token \<Rightarrow> finsh_token" where
  "token_prev_char self =
     (if tk_eof self then self
      else if tk_position self = 0 then self
      else self\<lparr>tk_position := tk_position self - 1\<rparr>)"

text \<open>
  Loops that read characters while a condition holds: the characters that satisfied it, starting with \<open>ch\<close>, the first one that did not,
  and the state after it. At the end of the line the character is 0, which satisfies none of the conditions.
\<close>

partial_function (option) token_while ::
  "(u8 \<Rightarrow> bool) \<Rightarrow> u8 \<Rightarrow> finsh_token \<Rightarrow> (u8 list \<times> u8 \<times> finsh_token) option" where
  "token_while P ch self =
     (if P ch then
        case token_next_char self of (ch', self) \<Rightarrow>
          token_while P ch' self \<bind> (\<lambda>(s, c, self). Some (ch # s, c, self))
      else Some ([], ch, self))"

declare token_while.simps [code]

text \<open>The space skipped first is not collected.\<close>

definition token_trim_space :: "finsh_token \<Rightarrow> finsh_token option" where
  "token_trim_space self =
     do { let (ch, self) = token_next_char self;
          (_, _, self) \<leftarrow> token_while (\<lambda>ch. ch = 32 \<or> ch = 9 \<or> ch = 13) ch self;
          Some (token_prev_char self) }"

text \<open>At the end of the line the loop stops with \<^verbatim>\<open>eof\<close> set, which is cleared again; the position has then been set back to 0.\<close>

definition token_get_string :: "finsh_token \<Rightarrow> finsh_token option" where
  "token_get_string self =
     do { let (ch, self) = token_next_char self;
          if tk_eof self then Some self
          else
            do { let self = self\<lparr>tk_string := []\<rparr>;
                 if is_digit ch then Some (token_prev_char self)
                 else
                   do { (s, _, self) \<leftarrow> token_while (\<lambda>ch. \<not> is_separator ch) ch self;
                        inside (length s < FINSH_STRING_MAX);
                        Some ((token_prev_char (self\<lparr>tk_eof := False\<rparr>))\<lparr>tk_string := s\<rparr>) } } }"

section \<open>Literals\<close>

definition finsh_name_table :: "(u8 list \<times> finsh_token_type) list" where
  "finsh_name_table =
     [([118, 111, 105, 100], finsh_token_type_void), ([99, 104, 97, 114], finsh_token_type_char),
      ([115, 104, 111, 114, 116], finsh_token_type_short), ([105, 110, 116], finsh_token_type_int),
      ([108, 111, 110, 103], finsh_token_type_long), ([117, 110, 115, 105, 103, 110, 101, 100], finsh_token_type_unsigned),
      ([78, 85, 76, 76], finsh_token_type_value_null), ([110, 117, 108, 108], finsh_token_type_value_null)]"

definition token_match_name :: "u8 list \<Rightarrow> finsh_token_type option" where "token_match_name s = map_of finsh_name_table s"

text \<open>
  \<^verbatim>\<open>token_spec_number\<close> on two 32-bit digits: each new digit is shifted into the first one and what leaves it into the second. The result is the first.
\<close>

definition digit_value :: "u8 \<Rightarrow> u32" where
  "digit_value c =
     (if 97 \<le> c \<and> c \<le> 102 then ucast c - 97 + 10 else if 65 \<le> c \<and> c \<le> 70 then ucast c - 65 + 10 else ucast c - 48)"

definition shift_digit :: "nat \<Rightarrow> u32 \<times> u32 \<Rightarrow> u8 \<Rightarrow> u32 \<times> u32" where
  "shift_digit s bn c =
     (let t = digit_value c; v = fst bn; b0 = push_bit s v OR t; t = drop_bit (32 - s) v; b1 = push_bit s (snd bn) OR t
      in (b0, b1))"

definition token_spec_number :: "u8 list \<Rightarrow> nat \<Rightarrow> u32" where
  "token_spec_number s b = fst (foldl (shift_digit (if b = 16 then 4 else if b = 8 then 3 else 1)) (0, 0) s)"

definition decimal :: "u8 list \<Rightarrow> u32" where "decimal s = foldl (\<lambda>v ch. v * 10 + (ucast ch - 48)) 0 s"

text \<open>The suffix of a number.\<close>

definition number_end :: "u8 \<Rightarrow> finsh_token \<Rightarrow> finsh_token" where
  "number_end ch self =
     (if ch = 108 \<or> ch = 76 then self\<lparr>current_token := finsh_token_type_value_long\<rparr> else token_prev_char self)"

definition set_int :: "u32 \<Rightarrow> finsh_token \<Rightarrow> finsh_token" where
  "set_int v self = self\<lparr>tk_value := v, current_token := finsh_token_type_value_int\<rparr>"

definition token_proc_number :: "finsh_token \<Rightarrow> finsh_token option" where
  "token_proc_number self =
     do { let (ch, self) = token_next_char self;
          if ch = 48 then
            do { let (ch, self) = token_next_char self;
                 if ch = 120 \<or> ch = 88 then
                   do { let (ch, self) = token_next_char self;
                        (s, ch, self) \<leftarrow> token_while (\<lambda>ch. is_digit ch \<or> is_alpha ch) ch self;
                        inside (length s < 128);
                        Some (number_end ch (set_int (token_spec_number s 16) self)) }
                 else if ch = 98 \<or> ch = 66 then
                   do { let (ch, self) = token_next_char self;
                        (s, ch, self) \<leftarrow> token_while (\<lambda>ch. ch = 48 \<or> ch = 49) ch self;
                        inside (length s < 128);
                        Some (number_end ch (set_int (token_spec_number s 2) self)) }
                 else if 48 \<le> ch \<and> ch \<le> 55 then
                   do { (s, ch, self) \<leftarrow> token_while (\<lambda>ch. 48 \<le> ch \<and> ch \<le> 55) ch self;
                        inside (length s < 128);
                        Some (number_end ch (set_int (token_spec_number s 8) self)) }
                 else Some (set_int 0 (token_prev_char self)) }
          else
            do { (s, ch, self) \<leftarrow> token_while is_digit ch self;
                 Some (number_end ch (set_int (decimal s) self)) } }"

text \<open>
  A numeric escape in a character constant: every digit reads the next character into the buffer of four, the pointer is left at its end, and so \<^verbatim>\<open>atoi\<close> reads
  an empty string.
\<close>

definition char_escape :: "u8 \<Rightarrow> finsh_token \<Rightarrow> (u8 \<times> finsh_token) option" where
  "char_escape ch self =
     (if ch = 110 then Some (10, self)
      else if ch = 116 then Some (9, self)
      else if ch = 118 then Some (11, self)
      else if ch = 98 then Some (8, self)
      else if ch = 114 then Some (13, self)
      else if ch = 92 then Some (92, self)
      else if ch = 39 then Some (39, self)
      else
        do { (s, _, self) \<leftarrow> token_while is_digit ch self;
             inside (length s < 4);
             Some (0, token_prev_char self) })"

definition token_proc_char :: "finsh_token \<Rightarrow> (u8 \<times> finsh_token) option" where
  "token_proc_char self =
     do { let (ch, self) = token_next_char self;
          (ch, self) \<leftarrow> (if ch = 92 then case token_next_char self of (ch, self) \<Rightarrow> char_escape ch self else Some (ch, self));
          let (q, self) = token_next_char self;
          if q \<noteq> 39 then Some (ch, finsh_error_set FINSH_ERROR_EXPECT_CHAR (token_prev_char self))
          else Some (ch, self) }"

definition hex_value :: "u32 \<Rightarrow> u8 \<Rightarrow> u32" where
  "hex_value r ch = r * 16 + (if ch < 65 then ucast ch - 48 else ucast (ch OR 0x20) - 97 + 10)"

definition token_proc_escape :: "finsh_token \<Rightarrow> (u8 \<times> finsh_token) option" where
  "token_proc_escape self =
     do { let (ch, self) = token_next_char self;
          if ch = 110 then Some (10, self)
          else if ch = 116 then Some (9, self)
          else if ch = 118 then Some (11, self)
          else if ch = 98 then Some (8, self)
          else if ch = 114 then Some (13, self)
          else if ch = 102 then Some (12, self)
          else if ch = 97 then Some (7, self)
          else if ch = 34 then Some (34, self)
          else if ch = 120 \<or> ch = 88 then
            do { let (ch, self) = token_next_char self;
                 (s, _, self) \<leftarrow> token_while is_xdigit ch self;
                 Some (ucast (foldl hex_value 0 s), token_prev_char self) }
          else if (ucast ch - 48 :: u32) < 8 then
            do { (s, _, self) \<leftarrow> token_while (\<lambda>ch. (ucast ch - 48 :: u32) < 8) ch self;
                 Some (ucast (foldl (\<lambda>r ch. r * 8 + ucast ch - 48 :: u32) 0 s), token_prev_char self) }
          else Some (0, self) }"

text \<open>
  The loop of \<^verbatim>\<open>token_proc_string\<close>; \<open>k\<close> characters fit. What was stored stays in the array when the line ends early or the
  string is too long, in which case nothing terminates it there; what an earlier token left behind it is not kept.
\<close>

fun token_proc_string :: "nat \<Rightarrow> u8 list \<Rightarrow> finsh_token \<Rightarrow> finsh_token option" where
  "token_proc_string 0 s self = None"
| "token_proc_string (Suc k) s self =
     do { let (ch, self) = token_next_char self;
          if tk_eof self then Some (finsh_error_set FINSH_ERROR_UNEXPECT_END (self\<lparr>tk_string := s\<rparr>))
          else if ch = 92 then do { (c, self) \<leftarrow> token_proc_escape self; token_proc_string k (s @ [c]) self }
          else if ch = 34 then Some (self\<lparr>tk_string := takeWhile (\<lambda>c. c \<noteq> 0) s\<rparr>)
          else token_proc_string k (s @ [ch]) self }"

section \<open>Tokens\<close>

text \<open>A second character decides between two tokens.\<close>

definition token_pair :: "u8 \<Rightarrow> finsh_token_type \<Rightarrow> finsh_token_type \<Rightarrow> finsh_token \<Rightarrow> finsh_token" where
  "token_pair c two one self =
     (let (ch, self) = token_next_char self
      in if ch = c then self\<lparr>current_token := two\<rparr> else (token_prev_char self)\<lparr>current_token := one\<rparr>)"

definition token_operator :: "finsh_token \<Rightarrow> finsh_token option" where
  "token_operator self =
     do { let (ch, self) = token_next_char self;
          let single = (\<lambda>t. Some (self\<lparr>current_token := t\<rparr>));
          if ch = 40 then single finsh_token_type_left_paren
          else if ch = 41 then single finsh_token_type_right_paren
          else if ch = 44 then single finsh_token_type_comma
          else if ch = 59 then single finsh_token_type_semicolon
          else if ch = 38 then single finsh_token_type_and
          else if ch = 42 then single finsh_token_type_mul
          else if ch = 43 then Some (token_pair 43 finsh_token_type_inc finsh_token_type_add self)
          else if ch = 45 then Some (token_pair 45 finsh_token_type_dec finsh_token_type_sub self)
          else if ch = 47 then Some (token_pair 47 finsh_token_type_eof finsh_token_type_div self)
          else if ch = 60 then Some (token_pair 60 finsh_token_type_shl finsh_token_type_bad self)
          else if ch = 62 then Some (token_pair 62 finsh_token_type_shr finsh_token_type_bad self)
          else if ch = 124 then single finsh_token_type_or
          else if ch = 37 then single finsh_token_type_mod
          else if ch = 126 then single finsh_token_type_bitwise
          else if ch = 94 then single finsh_token_type_xor
          else if ch = 61 then single finsh_token_type_assign
          else if ch = 39 then
            do { (c, self) \<leftarrow> token_proc_char self;
                 Some (self\<lparr>tk_value := set_char_value c (tk_value self), current_token := finsh_token_type_value_char\<rparr>) }
          else if ch = 34 then
            do { self \<leftarrow> token_proc_string FINSH_STRING_MAX [] self;
                 Some (self\<lparr>current_token := finsh_token_type_value_string\<rparr>) }
          else if is_digit ch then token_proc_number (token_prev_char self)
          else Some ((finsh_error_set FINSH_ERROR_UNKNOWN_TOKEN self)\<lparr>current_token := finsh_token_type_bad\<rparr>) }"

definition token_run :: "finsh_token \<Rightarrow> finsh_token option" where
  "token_run self =
     do { self \<leftarrow> token_trim_space self;
          self \<leftarrow> token_get_string self;
          if tk_eof self then Some (self\<lparr>current_token := finsh_token_type_eof\<rparr>)
          else if tk_string self \<noteq> [] then
            case token_match_name (tk_string self) of
              Some t \<Rightarrow> Some (self\<lparr>current_token := t\<rparr>)
            | None \<Rightarrow> Some (self\<lparr>current_token := finsh_token_type_identifier\<rparr>)
          else token_operator self }"

definition finsh_token_token :: "finsh_token \<Rightarrow> finsh_token option" where
  "finsh_token_token self = (if tk_replay self then Some (self\<lparr>tk_replay := False\<rparr>) else token_run self)"

text \<open>The structure is cleared; the error number is not part of it. Value 0 is no token; the first token is read before it is used.\<close>

definition finsh_token_init :: "u8 list \<Rightarrow> nat \<Rightarrow> finsh_token" where
  "finsh_token_init s err =
     \<lparr>tk_eof = False, tk_replay = False, tk_position = 0, current_token = finsh_token_type_bad, tk_value = 0, tk_string = [],
      tk_line = s, global_errno = err\<rparr>"

end
