(* ===== verification/Rt_Finsh_Parser.thy ===== *)
theory Rt_Finsh_Parser
  imports Rt_Finsh_Token
begin

text \<open>
  The parser of the shell's C interpreter, \<^verbatim>\<open>components/finsh/finsh_parser.c\<close>, with the nodes of \<^verbatim>\<open>finsh_node.c\<close>, the variables of \<^verbatim>\<open>finsh_var.c\<close> and the
  evaluation of a line in \<^verbatim>\<open>shell.c\<close>. A node enters the tree when the source links it; of the table of nodes only the number of entries in use matters,
  since entries are freed all at once. Where the shell's heap puts a string constant is a parameter, as are the tables of system variables and calls.
  A parser that does not end gives \<open>None\<close>, as does following a null pointer. Names and types of variables are a table of their own; only their values are
  in the machine's memory.
\<close>

section \<open>Variables and symbols\<close>

record finsh_var =
  fv_name :: "u8 list"
  fv_type :: finsh_type

definition FINSH_VARIABLE_MAX :: nat where "FINSH_VARIABLE_MAX = 8"
definition FINSH_NODE_MAX :: nat where "FINSH_NODE_MAX = 16"

text \<open>\<^verbatim>\<open>strncmp\<close> with 0 as result, on the bytes before the null byte.\<close>

definition same_name :: "nat \<Rightarrow> u8 list \<Rightarrow> u8 list \<Rightarrow> bool" where "same_name n a b \<longleftrightarrow> take n a = take n b"

definition zero_var :: finsh_var where "zero_var = \<lparr>fv_name = [], fv_type = finsh_type_unknown\<rparr>"

definition finsh_var_init :: "finsh_var list" where "finsh_var_init = replicate FINSH_VARIABLE_MAX zero_var"

fun find_index_of :: "('a \<Rightarrow> bool) \<Rightarrow> 'a list \<Rightarrow> nat option" where
  "find_index_of P [] = None"
| "find_index_of P (x # xs) = (if P x then Some 0 else map_option Suc (find_index_of P xs))"

definition finsh_var_lookup :: "u8 list \<Rightarrow> finsh_var list \<Rightarrow> nat option" where
  "finsh_var_lookup name vars = find_index_of (\<lambda>v. same_name FINSH_NAME_MAX (fv_name v) name) vars"

definition finsh_var_insert :: "u8 list \<Rightarrow> finsh_type \<Rightarrow> finsh_var list \<Rightarrow> int \<times> finsh_var list" where
  "finsh_var_insert name t vars =
     (if finsh_var_lookup name vars \<noteq> None then (- 1, vars)
      else case find_index_of (\<lambda>v. fv_type v = finsh_type_unknown) vars of
             None \<Rightarrow> (- 1, vars)
           | Some i \<Rightarrow> (int i, vars[i := \<lparr>fv_name = take FINSH_NAME_MAX name, fv_type = t\<rparr>]))"

definition finsh_var_delete :: "u8 list \<Rightarrow> finsh_var list \<Rightarrow> int \<times> finsh_var list" where
  "finsh_var_delete name vars =
     (case finsh_var_lookup name vars of None \<Rightarrow> (- 1, vars) | Some i \<Rightarrow> (0, vars[i := zero_var]))"

text \<open>The tables made by the linker are searched first, for the exact name; then the lists of symbols appended at run time, where the name may be a beginning.\<close>

record finsh_env =
  sysvar_table :: "(u8 list \<times> symbol) list"
  global_sysvar_list :: "(u8 list \<times> symbol) list"
  syscall_table :: "(u8 list \<times> symbol) list"
  global_syscall_list :: "(u8 list \<times> symbol) list"
  var_base :: u32
  string_at :: "u8 list \<Rightarrow> u32"

definition symbol_lookup :: "u8 list \<Rightarrow> (u8 list \<times> symbol) list \<Rightarrow> (u8 list \<times> symbol) list \<Rightarrow> symbol option" where
  "symbol_lookup name tab lst =
     (case find (\<lambda>(n, _). n = name) tab of
        Some (_, s) \<Rightarrow> Some s
      | None \<Rightarrow> map_option snd (find (\<lambda>(n, _). same_name (length name) n name) lst))"

definition finsh_sysvar_lookup :: "finsh_env \<Rightarrow> u8 list \<Rightarrow> symbol option" where
  "finsh_sysvar_lookup env name = symbol_lookup name (sysvar_table env) (global_sysvar_list env)"

definition finsh_syscall_lookup :: "finsh_env \<Rightarrow> u8 list \<Rightarrow> symbol option" where
  "finsh_syscall_lookup env name = symbol_lookup name (syscall_table env) (global_syscall_list env)"

definition var_symbol :: "finsh_env \<Rightarrow> nat \<Rightarrow> finsh_var list \<Rightarrow> symbol" where
  "var_symbol env i vars = SymVar (var_base env + 24 * of_nat i) (fv_type (vars ! i))"

section \<open>Parser state and nodes\<close>

record finsh_ps =
  ps_token :: finsh_token
  ps_nodes :: nat
  global_variable :: "finsh_var list"

definition FINSH_ERROR_INVALID_TOKEN :: nat where "FINSH_ERROR_INVALID_TOKEN = 1"
definition FINSH_ERROR_EXPECT_TYPE :: nat where "FINSH_ERROR_EXPECT_TYPE = 2"
definition FINSH_ERROR_VARIABLE_EXIST :: nat where "FINSH_ERROR_VARIABLE_EXIST = 4"
definition FINSH_ERROR_EXPECT_OPERATOR :: nat where "FINSH_ERROR_EXPECT_OPERATOR = 5"
definition FINSH_ERROR_MEMORY_FULL :: nat where "FINSH_ERROR_MEMORY_FULL = 6"
definition FINSH_ERROR_UNKNOWN_SYMBOL :: nat where "FINSH_ERROR_UNKNOWN_SYMBOL = 13"
definition FINSH_ERROR_NULL_NODE :: nat where "FINSH_ERROR_NULL_NODE = 14"

definition set_error :: "nat \<Rightarrow> finsh_ps \<Rightarrow> finsh_ps" where "set_error e st = st\<lparr>ps_token := finsh_error_set e (ps_token st)\<rparr>"

abbreviation token_of :: "finsh_ps \<Rightarrow> finsh_token_type" where "token_of st \<equiv> current_token (ps_token st)"

definition next_token :: "finsh_ps \<Rightarrow> finsh_ps option" where
  "next_token st = map_option (\<lambda>t. st\<lparr>ps_token := t\<rparr>) (finsh_token_token (ps_token st))"

definition finsh_token_replay :: "finsh_ps \<Rightarrow> finsh_ps" where
  "finsh_token_replay st = st\<lparr>ps_token := (ps_token st)\<lparr>tk_replay := True\<rparr>\<rparr>"

definition check_token :: "finsh_token_type \<Rightarrow> finsh_token_type \<Rightarrow> finsh_ps \<Rightarrow> finsh_ps" where
  "check_token token t st = (if token \<noteq> t then finsh_token_replay (set_error FINSH_ERROR_INVALID_TOKEN st) else st)"

definition match_token :: "finsh_token_type \<Rightarrow> finsh_ps \<Rightarrow> finsh_ps option" where
  "match_token t st = map_option (\<lambda>st. check_token (token_of st) t st) (next_token st)"

text \<open>A node as \<^verbatim>\<open>finsh_node_init\<close> and \<^verbatim>\<open>finsh_node_allocate\<close> leave it.\<close>

definition info :: "node_type \<Rightarrow> node_info" where
  "info nt = \<lparr>node_type = nt, data_type = 0, idtype = 0, node_value = 0, node_id = SymNone\<rparr>"

definition finsh_node_allocate :: "node_type \<Rightarrow> finsh_ps \<Rightarrow> finsh_node \<times> finsh_ps" where
  "finsh_node_allocate nt st =
     (if ps_nodes st = FINSH_NODE_MAX then (NULL, st) else (Node (info nt) NULL NULL, st\<lparr>ps_nodes := ps_nodes st + 1\<rparr>))"

definition new_value :: "node_type \<Rightarrow> u32 \<Rightarrow> finsh_ps \<Rightarrow> finsh_node \<times> finsh_ps" where
  "new_value nt v st =
     (case finsh_node_allocate nt st of
        (NULL, st) \<Rightarrow> (NULL, set_error FINSH_ERROR_MEMORY_FULL st)
      | (Node n c s, st) \<Rightarrow> (Node (n\<lparr>node_value := v\<rparr>) c s, st))"

definition finsh_node_new_char :: "u8 \<Rightarrow> finsh_ps \<Rightarrow> finsh_node \<times> finsh_ps" where
  "finsh_node_new_char c = new_value FINSH_NODE_VALUE_CHAR (ucast c)"

definition finsh_node_new_int :: "u32 \<Rightarrow> finsh_ps \<Rightarrow> finsh_node \<times> finsh_ps" where
  "finsh_node_new_int i = new_value FINSH_NODE_VALUE_INT i"

definition finsh_node_new_long :: "u32 \<Rightarrow> finsh_ps \<Rightarrow> finsh_node \<times> finsh_ps" where
  "finsh_node_new_long l = new_value FINSH_NODE_VALUE_LONG l"

definition finsh_node_new_string :: "finsh_env \<Rightarrow> u8 list \<Rightarrow> finsh_ps \<Rightarrow> finsh_node \<times> finsh_ps" where
  "finsh_node_new_string env s = new_value FINSH_NODE_VALUE_STRING (string_at env s)"

definition finsh_node_new_ptr :: "u32 \<Rightarrow> finsh_ps \<Rightarrow> finsh_node \<times> finsh_ps" where
  "finsh_node_new_ptr p = new_value FINSH_NODE_VALUE_NULL p"

fun sym_idtype :: "symbol \<Rightarrow> u8" where
  "sym_idtype (SymVar _ _) = FINSH_IDTYPE_VAR"
| "sym_idtype (SymSysvar _ _ _) = FINSH_IDTYPE_SYSVAR"
| "sym_idtype (SymSyscall _ _) = FINSH_IDTYPE_SYSCALL"
| "sym_idtype SymNone = 0"

definition find_symbol :: "finsh_env \<Rightarrow> u8 list \<Rightarrow> finsh_var list \<Rightarrow> symbol option" where
  "find_symbol env i vars =
     (case finsh_var_lookup i vars of
        Some k \<Rightarrow> Some (var_symbol env k vars)
      | None \<Rightarrow> (case finsh_sysvar_lookup env i of Some s \<Rightarrow> Some s | None \<Rightarrow> finsh_syscall_lookup env i))"

text \<open>A name of sixteen characters has no null byte in the array of the caller and is not looked up further than among the variables.\<close>

definition finsh_node_new_id :: "finsh_env \<Rightarrow> u8 list \<Rightarrow> finsh_ps \<Rightarrow> (finsh_node \<times> finsh_ps) option" where
  "finsh_node_new_id env i st =
     do { inside (length i < FINSH_NAME_MAX \<or> finsh_var_lookup i (global_variable st) \<noteq> None);
          case find_symbol env i (global_variable st) of
            None \<Rightarrow> Some (NULL, set_error FINSH_ERROR_UNKNOWN_SYMBOL st)
          | Some s \<Rightarrow>
              (case finsh_node_allocate FINSH_NODE_ID st of
                 (NULL, st) \<Rightarrow> Some (NULL, set_error FINSH_ERROR_MEMORY_FULL st)
               | (Node n c sb, st) \<Rightarrow> Some (Node (n\<lparr>node_id := s, idtype := sym_idtype s\<rparr>) c sb, st)) }"

fun set_sibling :: "finsh_node \<Rightarrow> finsh_node \<Rightarrow> finsh_node" where
  "set_sibling (Node n c _) s = Node n c s"
| "set_sibling NULL s = NULL"

definition make_sys_node :: "node_type \<Rightarrow> finsh_node \<Rightarrow> finsh_node \<Rightarrow> finsh_ps \<Rightarrow> finsh_node \<times> finsh_ps" where
  "make_sys_node nt node1 node2 st =
     (case finsh_node_allocate nt st of
        (NULL, st) \<Rightarrow> (NULL, set_error FINSH_ERROR_NULL_NODE st)
      | (Node n c s, st) \<Rightarrow>
          if node1 \<noteq> NULL then (Node n (set_sibling node1 node2) s, st)
          else (Node n c s, set_error FINSH_ERROR_NULL_NODE st))"

text \<open>A list of nodes, each the sibling of the one before.\<close>

fun chain :: "finsh_node list \<Rightarrow> finsh_node" where
  "chain [] = NULL"
| "chain (x # xs) = set_sibling x (chain xs)"

section \<open>Types and identifiers\<close>

fun base_type :: "finsh_token_type \<Rightarrow> finsh_type option" where
  "base_type finsh_token_type_void = Some finsh_type_void"
| "base_type finsh_token_type_char = Some finsh_type_char"
| "base_type finsh_token_type_short = Some finsh_type_short"
| "base_type finsh_token_type_int = Some finsh_type_int"
| "base_type finsh_token_type_long = Some finsh_type_long"
| "base_type _ = None"

fun unsigned_type :: "finsh_type \<Rightarrow> finsh_type option" where
  "unsigned_type finsh_type_char = Some finsh_type_uchar"
| "unsigned_type finsh_type_short = Some finsh_type_ushort"
| "unsigned_type finsh_type_int = Some finsh_type_uint"
| "unsigned_type finsh_type_long = Some finsh_type_ulong"
| "unsigned_type _ = None"

fun pointer_type :: "finsh_type \<Rightarrow> finsh_type" where
  "pointer_type finsh_type_void = finsh_type_voidp"
| "pointer_type finsh_type_char = finsh_type_charp"
| "pointer_type finsh_type_uchar = finsh_type_charp"
| "pointer_type finsh_type_short = finsh_type_shortp"
| "pointer_type finsh_type_ushort = finsh_type_shortp"
| "pointer_type finsh_type_int = finsh_type_intp"
| "pointer_type finsh_type_uint = finsh_type_intp"
| "pointer_type finsh_type_long = finsh_type_longp"
| "pointer_type finsh_type_ulong = finsh_type_longp"
| "pointer_type _ = finsh_type_voidp"

definition proc_pointer :: "finsh_type \<Rightarrow> finsh_ps \<Rightarrow> (finsh_type \<times> finsh_ps) option" where
  "proc_pointer t st =
     do { st \<leftarrow> next_token st;
          Some (if token_of st = finsh_token_type_mul then (pointer_type t, st) else (t, finsh_token_replay st)) }"

definition proc_type :: "finsh_ps \<Rightarrow> (finsh_type \<times> finsh_ps) option" where
  "proc_type st =
     do { st \<leftarrow> next_token st;
          let fail = (\<lambda>st. Some (finsh_type_unknown, set_error FINSH_ERROR_UNKNOWN_TYPE (finsh_token_replay st)));
          case base_type (token_of st) of
            Some t \<Rightarrow> proc_pointer t st
          | None \<Rightarrow>
              if token_of st = finsh_token_type_unsigned then
                do { st \<leftarrow> next_token st;
                     case base_type (token_of st) of
                       Some t \<Rightarrow> (case unsigned_type t of Some u \<Rightarrow> proc_pointer u st | None \<Rightarrow> fail st)
                     | None \<Rightarrow> proc_pointer finsh_type_unknown (set_error FINSH_ERROR_EXPECT_TYPE (finsh_token_replay st)) }
              else fail st }"

definition proc_identifier :: "finsh_ps \<Rightarrow> (u8 list \<times> finsh_ps) option" where
  "proc_identifier st =
     do { st \<leftarrow> match_token finsh_token_type_identifier st; Some (take FINSH_NAME_MAX (tk_string (ps_token st)), st) }"

section \<open>Expressions\<close>

text \<open>
  The binary operators by level, from \<^verbatim>\<open>proc_inclusive_or_expr\<close> (1) to \<^verbatim>\<open>proc_multiplicative_expr\<close> (6), whose code is the same but for the operators. The operands
  of the last level are parsed by \<^verbatim>\<open>proc_cast_expr\<close>.
\<close>

fun bin_node :: "nat \<Rightarrow> finsh_token_type \<Rightarrow> node_type option" where
  "bin_node l finsh_token_type_or = (if l = 1 then Some FINSH_NODE_SYS_OR else None)"
| "bin_node l finsh_token_type_xor = (if l = 2 then Some FINSH_NODE_SYS_XOR else None)"
| "bin_node l finsh_token_type_and = (if l = 3 then Some FINSH_NODE_SYS_AND else None)"
| "bin_node l finsh_token_type_shl = (if l = 4 then Some FINSH_NODE_SYS_SHL else None)"
| "bin_node l finsh_token_type_shr = (if l = 4 then Some FINSH_NODE_SYS_SHR else None)"
| "bin_node l finsh_token_type_sub = (if l = 5 then Some FINSH_NODE_SYS_SUB else None)"
| "bin_node l finsh_token_type_add = (if l = 5 then Some FINSH_NODE_SYS_ADD else None)"
| "bin_node l finsh_token_type_mul = (if l = 6 then Some FINSH_NODE_SYS_MUL else None)"
| "bin_node l finsh_token_type_div = (if l = 6 then Some FINSH_NODE_SYS_DIV else None)"
| "bin_node l finsh_token_type_mod = (if l = 6 then Some FINSH_NODE_SYS_MOD else None)"
| "bin_node l _ = None"

text \<open>The functions of the parser, and its loops with the nodes built so far.\<close>

datatype nonterm =
  PAssign | PBin nat | PBinLoop nat finsh_node | PCast | PUnary | PPostfix | PPostfixLoop finsh_node | PPrimary |
  PParams | PParamLoop "finsh_node list"

fun type_code :: "finsh_type \<Rightarrow> nat" where
  "type_code finsh_type_unknown = 0"
| "type_code finsh_type_void = 1"
| "type_code finsh_type_voidp = 2"
| "type_code finsh_type_char = 3"
| "type_code finsh_type_uchar = 4"
| "type_code finsh_type_charp = 5"
| "type_code finsh_type_short = 6"
| "type_code finsh_type_ushort = 7"
| "type_code finsh_type_shortp = 8"
| "type_code finsh_type_int = 9"
| "type_code finsh_type_uint = 10"
| "type_code finsh_type_intp = 11"
| "type_code finsh_type_long = 12"
| "type_code finsh_type_ulong = 13"
| "type_code finsh_type_longp = 14"

fun set_data_type :: "nat \<Rightarrow> finsh_node \<Rightarrow> finsh_node" where
  "set_data_type d (Node n c s) = Node (n\<lparr>data_type := d\<rparr>) c s"
| "set_data_type d NULL = NULL"

fun unary_node :: "finsh_token_type \<Rightarrow> node_type option" where
  "unary_node finsh_token_type_inc = Some FINSH_NODE_SYS_PREINC"
| "unary_node finsh_token_type_dec = Some FINSH_NODE_SYS_PREDEC"
| "unary_node finsh_token_type_bitwise = Some FINSH_NODE_SYS_BITWISE"
| "unary_node finsh_token_type_mul = Some FINSH_NODE_SYS_GETVALUE"
| "unary_node finsh_token_type_and = Some FINSH_NODE_SYS_GETADDR"
| "unary_node _ = None"

text \<open>\<^verbatim>\<open>proc_primary_expr\<close> but for the parentheses, after the token was read.\<close>

definition primary_leaf :: "finsh_env \<Rightarrow> finsh_ps \<Rightarrow> (finsh_node \<times> finsh_ps) option" where
  "primary_leaf env st =
     (case token_of st of
        finsh_token_type_identifier \<Rightarrow> do { (i, st) \<leftarrow> proc_identifier (finsh_token_replay st); finsh_node_new_id env i st }
      | finsh_token_type_value_int \<Rightarrow> Some (finsh_node_new_int (tk_value (ps_token st)) st)
      | finsh_token_type_value_long \<Rightarrow> Some (finsh_node_new_long (tk_value (ps_token st)) st)
      | finsh_token_type_value_char \<Rightarrow> Some (finsh_node_new_char (char_value (tk_value (ps_token st))) st)
      | finsh_token_type_value_string \<Rightarrow> Some (finsh_node_new_string env (tk_string (ps_token st)) st)
      | finsh_token_type_value_null \<Rightarrow> Some (finsh_node_new_ptr 0 st)
      | _ \<Rightarrow> Some (NULL, set_error FINSH_ERROR_INVALID_TOKEN st))"

text \<open>
  Each function of the parser is a definition whose recursive calls go through its argument \<open>R\<close>. \<open>proc\<close> ties the knot with a bound \<open>k\<close> on the depth of calls:
  \<open>None\<close> for every bound means that the parser does not return.
\<close>

type_synonym recur = "nonterm \<Rightarrow> finsh_ps \<Rightarrow> (finsh_node \<times> finsh_ps) option"

definition proc_assign_expr :: "recur \<Rightarrow> finsh_ps \<Rightarrow> (finsh_node \<times> finsh_ps) option" where
  "proc_assign_expr R st =
     do { (lhs, st) \<leftarrow> R (PBin 1) st;
          st \<leftarrow> next_token st;
          if token_of st = finsh_token_type_assign
          then do { (assign, st) \<leftarrow> R PAssign st; Some (make_sys_node FINSH_NODE_SYS_ASSIGN lhs assign st) }
          else Some (lhs, finsh_token_replay st) }"

definition proc_binary_expr :: "recur \<Rightarrow> nat \<Rightarrow> finsh_ps \<Rightarrow> (finsh_node \<times> finsh_ps) option" where
  "proc_binary_expr R l st =
     (if l > 6 then R PCast st
      else do { (x, st) \<leftarrow> R (PBin (l + 1)) st; st \<leftarrow> next_token st; R (PBinLoop l x) st })"

definition proc_binary_loop :: "recur \<Rightarrow> nat \<Rightarrow> finsh_node \<Rightarrow> finsh_ps \<Rightarrow> (finsh_node \<times> finsh_ps) option" where
  "proc_binary_loop R l x st =
     (case bin_node l (token_of st) of
        None \<Rightarrow> Some (x, finsh_token_replay st)
      | Some op_node \<Rightarrow>
          do { (y, st) \<leftarrow> R (PBin (l + 1)) st;
               let (x, st) = (if y = NULL then (x, set_error FINSH_ERROR_EXPECT_OPERATOR st) else make_sys_node op_node x y st);
               st \<leftarrow> next_token st;
               R (PBinLoop l x) st })"

definition proc_cast_expr :: "recur \<Rightarrow> finsh_ps \<Rightarrow> (finsh_node \<times> finsh_ps) option" where
  "proc_cast_expr R st =
     do { st \<leftarrow> next_token st;
          if token_of st = finsh_token_type_left_paren then
            do { (t, st) \<leftarrow> proc_type st;
                 st \<leftarrow> match_token finsh_token_type_right_paren st;
                 (cast, st) \<leftarrow> R PCast st;
                 if cast \<noteq> NULL then Some (set_data_type (type_code t) cast, st)
                 else R PUnary (finsh_token_replay st) }
          else R PUnary (finsh_token_replay st) }"

definition proc_unary_expr :: "recur \<Rightarrow> finsh_ps \<Rightarrow> (finsh_node \<times> finsh_ps) option" where
  "proc_unary_expr R st =
     do { st \<leftarrow> next_token st;
          if token_of st = finsh_token_type_add then R PCast st
          else if token_of st = finsh_token_type_sub then
            do { (x, st) \<leftarrow> R PCast st;
                 let (zero, st) = finsh_node_new_long 0 st;
                 Some (make_sys_node FINSH_NODE_SYS_SUB zero x st) }
          else
            case unary_node (token_of st) of
              Some op_node \<Rightarrow> do { (x, st) \<leftarrow> R PCast st; Some (make_sys_node op_node x NULL st) }
            | None \<Rightarrow> R PPostfix (finsh_token_replay st) }"

definition proc_postfix_expr :: "recur \<Rightarrow> finsh_ps \<Rightarrow> (finsh_node \<times> finsh_ps) option" where
  "proc_postfix_expr R st = do { (x, st) \<leftarrow> R PPrimary st; st \<leftarrow> next_token st; R (PPostfixLoop x) st }"

definition proc_call :: "recur \<Rightarrow> finsh_node \<Rightarrow> finsh_ps \<Rightarrow> (finsh_node \<times> finsh_ps) option" where
  "proc_call R x st =
     do { st \<leftarrow> next_token st;
          (params, st) \<leftarrow>
            (if token_of st \<noteq> finsh_token_type_right_paren
             then do { (params, st) \<leftarrow> R PParams (finsh_token_replay st);
                       st \<leftarrow> match_token finsh_token_type_right_paren st;
                       Some (params, st) }
             else Some (NULL, st));
          Some (make_sys_node FINSH_NODE_SYS_FUNC x params st) }"

definition proc_postfix_loop :: "recur \<Rightarrow> finsh_node \<Rightarrow> finsh_ps \<Rightarrow> (finsh_node \<times> finsh_ps) option" where
  "proc_postfix_loop R x st =
     (if token_of st \<in> {finsh_token_type_inc, finsh_token_type_dec, finsh_token_type_left_paren} then
        do { (x, st) \<leftarrow>
               (if token_of st = finsh_token_type_inc then Some (make_sys_node FINSH_NODE_SYS_INC x NULL st)
                else if token_of st = finsh_token_type_dec then Some (make_sys_node FINSH_NODE_SYS_DEC x NULL st)
                else proc_call R x st);
             st \<leftarrow> next_token st;
             R (PPostfixLoop x) st }
      else Some (x, finsh_token_replay st))"

definition proc_primary_expr :: "finsh_env \<Rightarrow> recur \<Rightarrow> finsh_ps \<Rightarrow> (finsh_node \<times> finsh_ps) option" where
  "proc_primary_expr env R st =
     do { st \<leftarrow> next_token st;
          if token_of st = finsh_token_type_left_paren then
            do { (x, st) \<leftarrow> R PAssign st; st \<leftarrow> match_token finsh_token_type_right_paren st; Some (x, st) }
          else primary_leaf env st }"

definition proc_param_list :: "recur \<Rightarrow> finsh_ps \<Rightarrow> (finsh_node \<times> finsh_ps) option" where
  "proc_param_list R st =
     do { (x, st) \<leftarrow> R PAssign st;
          if x = NULL then Some (NULL, st) else do { st \<leftarrow> next_token st; R (PParamLoop [x]) st } }"

definition proc_param_loop :: "recur \<Rightarrow> finsh_node list \<Rightarrow> finsh_ps \<Rightarrow> (finsh_node \<times> finsh_ps) option" where
  "proc_param_loop R xs st =
     (if token_of st = finsh_token_type_comma then
        do { (x, st) \<leftarrow> R PAssign st;
             let (xs, st) = (if x \<noteq> NULL then (xs @ [x], st) else (xs, set_error FINSH_ERROR_EXPECT_OPERATOR st));
             st \<leftarrow> next_token st;
             R (PParamLoop xs) st }
      else Some (chain xs, finsh_token_replay st))"

definition proc_step :: "finsh_env \<Rightarrow> recur \<Rightarrow> recur" where
  "proc_step env R nt =
     (case nt of
        PAssign \<Rightarrow> proc_assign_expr R
      | PBin l \<Rightarrow> proc_binary_expr R l
      | PBinLoop l x \<Rightarrow> proc_binary_loop R l x
      | PCast \<Rightarrow> proc_cast_expr R
      | PUnary \<Rightarrow> proc_unary_expr R
      | PPostfix \<Rightarrow> proc_postfix_expr R
      | PPostfixLoop x \<Rightarrow> proc_postfix_loop R x
      | PPrimary \<Rightarrow> proc_primary_expr env R
      | PParams \<Rightarrow> proc_param_list R
      | PParamLoop xs \<Rightarrow> proc_param_loop R xs)"

primrec proc :: "nat \<Rightarrow> finsh_env \<Rightarrow> recur" where
  "proc 0 env nt st = None"
| "proc (Suc k) env nt st = proc_step env (proc k env) nt st"

section \<open>Statements and declarations\<close>

definition proc_expr_statement :: "nat \<Rightarrow> finsh_env \<Rightarrow> finsh_ps \<Rightarrow> (finsh_node \<times> finsh_ps) option" where
  "proc_expr_statement k env st =
     do { st \<leftarrow> next_token st;
          if token_of st \<noteq> finsh_token_type_semicolon then
            do { (x, st) \<leftarrow> proc k env PAssign (finsh_token_replay st);
                 st \<leftarrow> match_token finsh_token_type_semicolon st;
                 Some (x, st) }
          else Some (NULL, st) }"

definition declare_var :: "finsh_type \<Rightarrow> finsh_ps \<Rightarrow> (u8 list \<times> finsh_ps) option" where
  "declare_var t st =
     do { (i, st) \<leftarrow> proc_identifier st;
          let (r, vars) = finsh_var_insert i t (global_variable st);
          let st = st\<lparr>global_variable := vars\<rparr>;
          Some (i, if r < 0 then set_error FINSH_ERROR_VARIABLE_EXIST st else st) }"

text \<open>
  The initialiser after a \<^verbatim>\<open>=\<close>: the assignment is linked behind \<^verbatim>\<open>end\<close>, the last of the nodes made so far. When no node is left for it, \<^verbatim>\<open>end\<close> becomes null, and
  a further initialiser follows it.
\<close>

definition proc_initialiser ::
  "nat \<Rightarrow> finsh_env \<Rightarrow> u8 list \<Rightarrow> finsh_node list \<Rightarrow> finsh_ps \<Rightarrow> (finsh_node list \<times> finsh_token_type \<times> finsh_ps) option" where
  "proc_initialiser k env i nodes st =
     do { let token = token_of st;
          (assign, st) \<leftarrow> proc k env PAssign st;
          if assign \<noteq> NULL then
            do { (idnode, st) \<leftarrow> finsh_node_new_id env i st;
                 let (x, st) = make_sys_node FINSH_NODE_SYS_ASSIGN idnode assign st;
                 inside (nodes = [] \<or> last nodes \<noteq> NULL);
                 st \<leftarrow> next_token st;
                 Some (if nodes = [] \<and> x = NULL then [] else nodes @ [x], token_of st, st) }
          else Some (nodes, token, st) }"

primrec proc_decl_loop ::
  "nat \<Rightarrow> nat \<Rightarrow> finsh_env \<Rightarrow> finsh_type \<Rightarrow> finsh_node list \<Rightarrow> finsh_token_type \<Rightarrow> finsh_ps \<Rightarrow> (finsh_node list \<times> finsh_ps) option" where
  "proc_decl_loop 0 k env t nodes token st = None"
| "proc_decl_loop (Suc j) k env t nodes token st =
     (if token = finsh_token_type_comma then
        do { (i, st) \<leftarrow> declare_var t st;
             st \<leftarrow> next_token st;
             (nodes, token, st) \<leftarrow>
               (if token_of st = finsh_token_type_assign then proc_initialiser k env i nodes st else Some (nodes, token_of st, st));
             proc_decl_loop j k env t nodes token st }
      else Some (takeWhile (\<lambda>x. x \<noteq> NULL) nodes, check_token token finsh_token_type_semicolon st))"

definition proc_variable_decl :: "nat \<Rightarrow> finsh_env \<Rightarrow> finsh_ps \<Rightarrow> (finsh_node list \<times> finsh_ps) option" where
  "proc_variable_decl k env st =
     do { (t, st) \<leftarrow> proc_type st;
          (i, st) \<leftarrow> declare_var t st;
          st \<leftarrow> next_token st;
          if token_of st = finsh_token_type_comma then proc_decl_loop k k env t [] finsh_token_type_comma st
          else if token_of st = finsh_token_type_assign then
            do { (nodes, token, st) \<leftarrow> proc_initialiser k env i [] st; proc_decl_loop k k env t nodes token st }
          else if token_of st = finsh_token_type_semicolon then Some ([], st)
          else Some ([], set_error FINSH_ERROR_EXPECT_TYPE st) }"

text \<open>
  The loop of \<^verbatim>\<open>finsh_parser_run\<close>. The statements linked to the root are a list, \<^verbatim>\<open>node\<close> is the place \<open>c\<close> in it: a new statement becomes the sibling of that one, and what was
  linked there before is lost.
\<close>

definition link_statement :: "finsh_node list \<Rightarrow> nat \<Rightarrow> finsh_node list \<Rightarrow> finsh_node list \<times> nat" where
  "link_statement root c new =
     (if root \<noteq> [] then (take (c + 1) root @ new, if new \<noteq> [] then c + 1 else c) else (new, 0))"

definition is_base_type :: "finsh_token_type \<Rightarrow> bool" where "is_base_type t \<longleftrightarrow> base_type t \<noteq> None"

primrec parser_loop ::
  "nat \<Rightarrow> nat \<Rightarrow> finsh_env \<Rightarrow> finsh_node list \<Rightarrow> nat \<Rightarrow> finsh_ps \<Rightarrow> (finsh_node list \<times> finsh_ps) option" where
  "parser_loop 0 k env root c st = None"
| "parser_loop (Suc j) k env root c st =
     (if token_of st \<noteq> finsh_token_type_eof \<and> token_of st \<noteq> finsh_token_type_bad then
        do { let decl = (is_base_type (token_of st) \<or> token_of st = finsh_token_type_unsigned);
             let other = (\<not> decl \<and> token_of st \<noteq> finsh_token_type_identifier);
             (new, st) \<leftarrow>
               (if decl then proc_variable_decl k env (finsh_token_replay st)
                else map_option (\<lambda>(x, st). (if x = NULL then [] else [x], st)) (proc_expr_statement k env (finsh_token_replay st)));
             st \<leftarrow> (if other \<and> root \<noteq> [] \<and> new = [] then next_token st else Some st);
             let (root, c) = link_statement root c new;
             if root = [] then Some (root, st)
             else do { st \<leftarrow> next_token st; parser_loop j k env root c st } }
      else Some (root, st))"

definition finsh_parser_run :: "nat \<Rightarrow> finsh_env \<Rightarrow> u8 list \<Rightarrow> nat \<Rightarrow> finsh_var list \<Rightarrow> (finsh_node \<times> finsh_ps) option" where
  "finsh_parser_run k env line err vars =
     do { let st = \<lparr>ps_token = finsh_token_init line err, ps_nodes = 0, global_variable = vars\<rparr>;
          st \<leftarrow> next_token st;
          (root, st) \<leftarrow> parser_loop k k env [] 0 st;
          Some (chain root, st) }"

section \<open>Running a line\<close>

text \<open>
  \<^verbatim>\<open>finsh_run_line\<close> of \<^verbatim>\<open>shell.c\<close> between two calls of \<^verbatim>\<open>finsh_flush\<close>, which empties the node table and clears the error number: the error, or the value that is printed, and the
  variables and the machine afterwards.
\<close>

definition finsh_run_line ::
  "nat \<Rightarrow> finsh_env \<Rightarrow> syscalls \<Rightarrow> u8 list \<Rightarrow> finsh_var list \<Rightarrow> finsh_vm \<Rightarrow> ((nat + u32) \<times> finsh_var list \<times> finsh_vm) option" where
  "finsh_run_line k env sys line vars vm =
     do { (root, st) \<leftarrow> finsh_parser_run k env line 0 vars;
          let err = global_errno (ps_token st);
          let vars = global_variable st;
          if err = 0 then
            do { (vm, err) \<leftarrow> finsh_compiler_run root 0 vm;
                 if err = 0 then do { vm \<leftarrow> finsh_vm_run sys vm; Some (Inr (finsh_stack_bottom vm), vars, vm) }
                 else Some (Inl err, vars, vm) }
          else Some (Inl err, vars, vm) }"

end
