(* ===== verification/Rt_Finsh.thy ===== *)
theory Rt_Finsh
  imports Rt_Finsh_Parser
begin

text \<open>
  Correctness of the shell's compiler and machine. The reference is an evaluator for expressions in the manner of
  C. The syntax tree of an expression, checked, compiled and run, leaves on the stack what the evaluator gives.
\<close>

section \<open>Expressions and their evaluation\<close>

datatype fexp =
  Num u32 | Str u32 | Chr u8 | Var symbol | Bin c_operator fexp fexp | Inv fexp | Asg symbol fexp |
  Pre bool symbol | Post bool symbol | Deref fexp | DerefAsg fexp fexp | Addr symbol | Call u32 u32 "fexp list"

fun sym_addr :: "symbol \<Rightarrow> u32" where
  "sym_addr (SymSysvar _ _ a) = a"
| "sym_addr s = var_value s"

text \<open>The data type, and of how many bytes (1, 2 or, for 3, all four) of the stack entry the value consists.\<close>

definition sym_width :: "symbol \<Rightarrow> nat" where
  "sym_width s = (case var_data_type (id_type s) of Some d \<Rightarrow> d | None \<Rightarrow> 0)"

fun dtype :: "fexp \<Rightarrow> nat" where
  "dtype (Num _) = 3"
| "dtype (Str _) = 3"
| "dtype (Chr _) = 1"
| "dtype (Var s) = sym_width s"
| "dtype (Bin _ a _) = dtype a"
| "dtype (Inv a) = dtype a"
| "dtype (Asg s _) = sym_width s"
| "dtype (Pre _ s) = sym_width s"
| "dtype (Post _ s) = sym_width s"
| "dtype (Deref a) = dtype a"
| "dtype (DerefAsg a _) = dtype a"
| "dtype (Addr s) = sym_width s"
| "dtype (Call _ _ _) = 0"

fun valid :: "fexp \<Rightarrow> nat" where
  "valid (Addr _) = 3"
| "valid (Call _ _ _) = 3"
| "valid e = dtype e"

definition low :: "nat \<Rightarrow> u32 \<Rightarrow> u32" where
  "low d v = (if d = 1 then ucast (char_value v) else if d = 2 then ucast (short_value v) else v)"

definition num_value :: "nat \<Rightarrow> u32 \<Rightarrow> int" where
  "num_value d v = (if d = 1 then uint (char_value v) else if d = 2 then sint (short_value v) else sint v)"

definition load_at :: "nat \<Rightarrow> u32 \<Rightarrow> mem \<Rightarrow> u32" where
  "load_at d a m =
     (if d = 1 then ucast (m (unat a)) else if d = 2 then ucast (load_short (unat a) m) else load_word (unat a) m)"

definition store_at :: "nat \<Rightarrow> u32 \<Rightarrow> u32 \<Rightarrow> mem \<Rightarrow> mem" where
  "store_at d a v m =
     (if d = 1 then m(unat a := char_value v)
      else if d = 2 then store_short (unat a) (short_value v) m
      else store_word (unat a) v m)"

definition step_by :: "bool \<Rightarrow> u32 \<Rightarrow> u32" where "step_by up v = (if up then v + 1 else v - 1)"

fun eval :: "syscalls \<Rightarrow> fexp \<Rightarrow> mem \<Rightarrow> (u32 \<times> mem) option"
and evals :: "syscalls \<Rightarrow> fexp list \<Rightarrow> mem \<Rightarrow> (u32 list \<times> mem) option" where
  "eval sys (Num v) m = Some (v, m)"
| "eval sys (Str v) m = Some (v, m)"
| "eval sys (Chr c) m = Some (ucast c, m)"
| "eval sys (Var s) m = Some (load_at (sym_width s) (sym_addr s) m, m)"
| "eval sys (Bin f a b) m =
     do { (x, m) \<leftarrow> eval sys a m;
          (y, m) \<leftarrow> eval sys b m;
          r \<leftarrow> c_op f (num_value (dtype a) x) (num_value (dtype a) y);
          Some (word_of_int r, m) }"
| "eval sys (Inv a) m = do { (x, m) \<leftarrow> eval sys a m; Some (NOT x, m) }"
| "eval sys (Asg s e) m = do { (x, m) \<leftarrow> eval sys e m; Some (x, store_at (sym_width s) (sym_addr s) x m) }"
| "eval sys (Pre up s) m =
     (let x = step_by up (load_at (sym_width s) (sym_addr s) m) in Some (x, store_at (sym_width s) (sym_addr s) x m))"
| "eval sys (Post up s) m =
     (let x = load_at (sym_width s) (sym_addr s) m in Some (x, store_at (sym_width s) (sym_addr s) (step_by up x) m))"
| "eval sys (Deref e) m = do { (p, m) \<leftarrow> eval sys e m; Some (load_at (dtype e) p m, m) }"
| "eval sys (DerefAsg a e) m =
     do { (p, m) \<leftarrow> eval sys a m; (x, m) \<leftarrow> eval sys e m; Some (x, store_at (dtype a) p x m) }"
| "eval sys (Addr s) m = Some (sym_addr s, m)"
| "eval sys (Call _ f args) m = do { (vs, m) \<leftarrow> evals sys args m; sys f (if vs = [] then [0] else vs) m }"
| "evals sys [] m = Some ([], m)"
| "evals sys (e # es) m = do { (v, m) \<leftarrow> eval sys e m; (vs, m) \<leftarrow> evals sys es m; Some (v # vs, m) }"

text \<open>
  Well-formed expressions: the operands have the bytes the operation reads, variables are of a type the compiler knows, \<^verbatim>\<open>++\<close> and \<^verbatim>\<open>--\<close>
  are applied to variables of the shell, functions get at most sixteen arguments of full width.
\<close>

fun is_var :: "symbol \<Rightarrow> bool" where
  "is_var (SymVar _ t) = (t \<notin> {finsh_type_unknown, finsh_type_void, finsh_type_voidp})"
| "is_var _ = False"

fun is_lval :: "symbol \<Rightarrow> bool" where
  "is_lval (SymSysvar _ t _) = (t \<notin> {finsh_type_unknown, finsh_type_void, finsh_type_voidp})"
| "is_lval s = is_var s"

fun wf_exp :: "fexp \<Rightarrow> bool" where
  "wf_exp (Num _) = True"
| "wf_exp (Str _) = True"
| "wf_exp (Chr _) = True"
| "wf_exp (Var s) = is_lval s"
| "wf_exp (Bin _ a b) = (wf_exp a \<and> wf_exp b \<and> 0 < dtype a \<and> dtype a \<le> valid b)"
| "wf_exp (Inv a) = (wf_exp a \<and> 0 < dtype a)"
| "wf_exp (Asg s e) = (is_lval s \<and> wf_exp e \<and> sym_width s \<le> valid e)"
| "wf_exp (Pre _ s) = is_var s"
| "wf_exp (Post _ s) = is_var s"
| "wf_exp (Deref e) = (wf_exp e \<and> valid e = 3 \<and> 0 < dtype e)"
| "wf_exp (DerefAsg a e) = (wf_exp a \<and> wf_exp e \<and> valid a = 3 \<and> 0 < dtype a \<and> dtype a \<le> valid e)"
| "wf_exp (Addr s) = is_lval s"
| "wf_exp (Call _ _ args) = (length args \<le> 16 \<and> (\<forall>e\<in>set args. wf_exp e \<and> valid e = 3))"

section \<open>Trees and code\<close>

fun node_of_op :: "c_operator \<Rightarrow> node_type" where
  "node_of_op Add = FINSH_NODE_SYS_ADD"
| "node_of_op Sub = FINSH_NODE_SYS_SUB"
| "node_of_op Div = FINSH_NODE_SYS_DIV"
| "node_of_op Mod = FINSH_NODE_SYS_MOD"
| "node_of_op Mul = FINSH_NODE_SYS_MUL"
| "node_of_op And = FINSH_NODE_SYS_AND"
| "node_of_op Or = FINSH_NODE_SYS_OR"
| "node_of_op Xor = FINSH_NODE_SYS_XOR"
| "node_of_op Shl = FINSH_NODE_SYS_SHL"
| "node_of_op Shr = FINSH_NODE_SYS_SHR"

fun op_byte :: "c_operator \<Rightarrow> u8" where
  "op_byte Add = FINSH_OP_ADD_BYTE"
| "op_byte Sub = FINSH_OP_SUB_BYTE"
| "op_byte Div = FINSH_OP_DIV_BYTE"
| "op_byte Mod = FINSH_OP_MOD_BYTE"
| "op_byte Mul = FINSH_OP_MUL_BYTE"
| "op_byte And = FINSH_OP_AND_BYTE"
| "op_byte Or = FINSH_OP_OR_BYTE"
| "op_byte Xor = FINSH_OP_XOR_BYTE"
| "op_byte Shl = FINSH_OP_SHL_BYTE"
| "op_byte Shr = FINSH_OP_SHR_BYTE"

definition id_info :: "symbol \<Rightarrow> node_info" where
  "id_info s = (info FINSH_NODE_ID)\<lparr>idtype := sym_idtype s, node_id := s\<rparr>"

text \<open>The tree the parser builds for an expression, with the sibling of its root.\<close>

fun tree :: "fexp \<Rightarrow> finsh_node \<Rightarrow> finsh_node"
and trees :: "fexp list \<Rightarrow> finsh_node" where
  "tree (Num v) sb = Node ((info FINSH_NODE_VALUE_INT)\<lparr>node_value := v\<rparr>) NULL sb"
| "tree (Str v) sb = Node ((info FINSH_NODE_VALUE_STRING)\<lparr>node_value := v\<rparr>) NULL sb"
| "tree (Chr c) sb = Node ((info FINSH_NODE_VALUE_CHAR)\<lparr>node_value := ucast c\<rparr>) NULL sb"
| "tree (Var s) sb = Node (id_info s) NULL sb"
| "tree (Bin f a b) sb = Node (info (node_of_op f)) (tree a (tree b NULL)) sb"
| "tree (Inv a) sb = Node (info FINSH_NODE_SYS_BITWISE) (tree a NULL) sb"
| "tree (Asg s e) sb = Node (info FINSH_NODE_SYS_ASSIGN) (Node (id_info s) NULL (tree e NULL)) sb"
| "tree (Pre up s) sb = Node (info (if up then FINSH_NODE_SYS_PREINC else FINSH_NODE_SYS_PREDEC)) (Node (id_info s) NULL NULL) sb"
| "tree (Post up s) sb = Node (info (if up then FINSH_NODE_SYS_INC else FINSH_NODE_SYS_DEC)) (Node (id_info s) NULL NULL) sb"
| "tree (Deref e) sb = Node (info FINSH_NODE_SYS_GETVALUE) (tree e NULL) sb"
| "tree (DerefAsg a e) sb =
     Node (info FINSH_NODE_SYS_ASSIGN) (Node (info FINSH_NODE_SYS_GETVALUE) (tree a NULL) (tree e NULL)) sb"
| "tree (Addr s) sb = Node (info FINSH_NODE_SYS_GETADDR) (Node (id_info s) NULL NULL) sb"
| "tree (Call p f args) sb =
     Node (info FINSH_NODE_SYS_FUNC) (Node (id_info (SymSyscall p f)) NULL (trees args)) sb"
| "trees [] = NULL"
| "trees (e # es) = tree e (trees es)"

definition ld_dword :: "u32 \<Rightarrow> u8 list" where "ld_dword v = (FINSH_OP_LD_BYTE + 2) # code_dword v"

definition ld_value :: "nat \<Rightarrow> u32 \<Rightarrow> u8 list" where "ld_value d a = sized_op FINSH_OP_LD_VALUE_BYTE d @ code_dword a"

definition op_step :: "bool \<Rightarrow> u8" where "op_step up = (if up then FINSH_OP_ADD_BYTE else FINSH_OP_SUB_BYTE)"

fun gen :: "fexp \<Rightarrow> u8 list"
and gens :: "fexp list \<Rightarrow> u8 list" where
  "gen (Num v) = ld_dword v"
| "gen (Str v) = ld_dword v"
| "gen (Chr c) = [FINSH_OP_LD_BYTE, c]"
| "gen (Var s) = ld_value (sym_width s) (sym_addr s)"
| "gen (Bin f a b) = gen a @ gen b @ sized_op (op_byte f) (dtype a)"
| "gen (Inv a) = gen a @ sized_op FINSH_OP_BITWISE_BYTE (dtype a)"
| "gen (Asg s e) = ld_dword (sym_addr s) @ gen e @ sized_op FINSH_OP_ST_BYTE (sym_width s) @
     sized_op FINSH_OP_LD_VALUE_BYTE_STACK (sym_width s)"
| "gen (Pre up s) = ld_dword (sym_addr s) @ code_pre (op_step up) (sym_width s) (sym_addr s)"
| "gen (Post up s) = ld_value (sym_width s) (sym_addr s) @ code_post (op_step up) (sym_width s) (sym_addr s)"
| "gen (Deref e) = gen e @ sized_op FINSH_OP_LD_VALUE_BYTE_STACK (dtype e)"
| "gen (DerefAsg a e) = gen a @ gen e @ sized_op FINSH_OP_ST_BYTE (dtype a) @
     sized_op FINSH_OP_LD_VALUE_BYTE_STACK (dtype a)"
| "gen (Addr s) = ld_dword (sym_addr s)"
| "gen (Call p f args) = ld_dword f @ gens args @ [FINSH_OP_SYSCALL, of_nat (length args)]"
| "gens [] = []"
| "gens (e # es) = gen e @ gens es"

section \<open>The compiler emits the code\<close>

declare finsh_compile.simps(2) [simp del] finsh_type_check.simps(2) [simp del]

definition emits_code :: "node_info \<Rightarrow> finsh_node \<Rightarrow> u8 list \<Rightarrow> bool" where
  "emits_code n child c \<longleftrightarrow>
     (\<forall>code err. do { (code, err) \<leftarrow> finsh_compile child (code, err); (x, err) \<leftarrow> compile_node n child err; Some (code @ x, err) } =
        Some (code @ c, err))"

lemma emits_codeD:
  "emits_code n child c \<Longrightarrow> finsh_compile (Node n child sb) (code, err) = finsh_compile sb (code @ c, err)"
proof -
  assume "emits_code n child c"
  hence "do { (code, err) \<leftarrow> finsh_compile child (code, err); (x, err) \<leftarrow> compile_node n child err; Some (code @ x, err) } =
        Some (code @ c, err)" unfolding emits_code_def by blast
  thus ?thesis by (auto simp: finsh_compile.simps(2) bind_eq_Some_conv split: prod.splits)
qed

lemma emits_codeI:
  assumes "\<And>code err. finsh_compile child (code, err) = Some (code @ c1, err)"
    and "\<And>err. compile_node n child err = Some (c2, err)"
  shows "emits_code n child (c1 @ c2)"
  using assms by (simp add: emits_code_def)

lemma is_var_lval: "is_var s \<Longrightarrow> is_lval s"
  by (cases s) simp_all

lemma sym_width_cases: "is_lval s \<Longrightarrow> sym_width s = 1 \<or> sym_width s = 2 \<or> sym_width s = 3"
  by (cases s; cases "id_type s") (auto simp: sym_width_def data_type_defs)

lemma is_lval_data_type: "is_lval s \<Longrightarrow> var_data_type (id_type s) = Some (sym_width s)"
  by (cases s; cases "id_type s") (auto simp: sym_width_def data_type_defs)

lemma code_var_lval:
  "is_lval s \<Longrightarrow> code_var addr (id_type s) a = (if addr then ld_dword a else ld_value (sym_width s) a)"
  by (cases s; cases "id_type s")
    (auto simp: code_var_def ld_dword_def ld_value_def sym_width_def sized_op_def data_type_defs)

lemma info_simps [simp]:
  "node_type (info nt) = nt" "data_type (info nt) = 0" "idtype (info nt) = 0" "node_id (info nt) = SymNone"
  "node_type (id_info s) = FINSH_NODE_ID" "data_type (id_info s) = 0" "idtype (id_info s) = sym_idtype s" "node_id (id_info s) = s"
  by (simp_all add: id_info_def info_def)

text \<open>An identifier as the checker leaves it.\<close>

definition typed_id :: "u8 \<Rightarrow> symbol \<Rightarrow> node_info" where
  "typed_id fl s = (id_info s)\<lparr>idtype := sym_idtype s OR fl, data_type := sym_width s\<rparr>"

lemma typed_id_simps [simp]:
  "node_type (typed_id fl s) = FINSH_NODE_ID" "data_type (typed_id fl s) = sym_width s" "node_id (typed_id fl s) = s"
  by (simp_all add: typed_id_def id_info_def info_def)

lemma type_check_id:
  assumes "is_lval s" "fl = 0 \<or> fl = FINSH_IDTYPE_ADDRESS"
  shows "finsh_type_check (Node (id_info s) NULL sb) fl err =
     (case finsh_type_check sb 0 err of (sb', err') \<Rightarrow> (Node (typed_id fl s) NULL sb', err'))"
proof -
  have "sym_idtype s \<noteq> FINSH_IDTYPE_SYSCALL" using assms(1) by (cases s) (auto simp: idtype_defs)
  moreover have "(sym_idtype s OR fl) AND (FINSH_IDTYPE_VAR OR FINSH_IDTYPE_SYSVAR) \<noteq> 0"
    using assms by (cases s) (auto simp: idtype_defs)
  moreover have "s \<noteq> SymNone" using assms by auto
  ultimately show ?thesis using is_lval_data_type [OF assms(1)]
    by (auto simp: finsh_type_check.simps(2) id_info_def info_def type_leaf_def typed_id_def Let_def split: prod.splits)
qed

lemma emits_id:
  assumes "is_lval s"
  shows "emits_code (typed_id 0 s) NULL (ld_value (sym_width s) (sym_addr s))"
    "emits_code (typed_id FINSH_IDTYPE_ADDRESS s) NULL (ld_dword (sym_addr s))"
  using assms code_var_lval [OF assms]
  by (cases s; auto simp: emits_code_def compile_node.simps typed_id_def id_info_def info_def code_id_def idtype_defs)+

text \<open>The result of checking and compiling the tree of an expression.\<close>

definition checked :: "fexp \<Rightarrow> node_info \<Rightarrow> finsh_node \<Rightarrow> bool" where
  "checked e n c \<longleftrightarrow> (\<forall>sb err. finsh_type_check (tree e sb) 0 err =
       (case finsh_type_check sb 0 err of (sb', err') \<Rightarrow> (Node n c sb', err'))) \<and>
     data_type n = dtype e \<and> emits_code n c (gen e)"

lemma checkedD:
  assumes "checked e n c"
  shows "finsh_type_check (tree e sb) 0 err = (case finsh_type_check sb 0 err of (sb', err') \<Rightarrow> (Node n c sb', err'))"
    and "data_type n = dtype e" and "emits_code n c (gen e)"
  using assms unfolding checked_def by blast+

definition tree_ok :: "fexp \<Rightarrow> bool" where "tree_ok e \<longleftrightarrow> (\<exists>n c. checked e n c)"

lemma compile_one: "emits_code n c x \<Longrightarrow> finsh_compile (Node n c NULL) (code, err) = Some (code @ x, err)"
  by (simp add: emits_codeD)

lemma tree_ok_leaf:
  assumes "\<And>sb. tree e sb = Node n NULL sb" "node_type n \<noteq> FINSH_NODE_ID" "idtype n = 0"
    and "type_leaf n = Pair (n\<lparr>data_type := dtype e\<rparr>)"
    and "\<And>err. compile_node (n\<lparr>data_type := dtype e\<rparr>) NULL err = Some (gen e, err)"
  shows "tree_ok e"
  unfolding tree_ok_def checked_def
proof (intro exI conjI allI)
  fix sb err
  have eq: "n\<lparr>idtype := 0\<rparr> = n" using assms(3) by (cases n) simp
  show "finsh_type_check (tree e sb) 0 err =
      (case finsh_type_check sb 0 err of (sb', err') \<Rightarrow> (Node (n\<lparr>data_type := dtype e\<rparr>) NULL sb', err'))"
    using assms(1-3) by (simp add: finsh_type_check.simps(2) idtype_defs eq assms(4) Let_def split: prod.split)
next
  show "emits_code (n\<lparr>data_type := dtype e\<rparr>) NULL (gen e)" using emits_codeI [OF _ assms(5), of "[]"] by simp
qed simp

lemma tree_ok_inner:
  assumes "\<And>sb. tree e sb = Node (info nt) child sb"
    and "\<And>err. finsh_type_check child
      (if nt \<in> {FINSH_NODE_SYS_ASSIGN, FINSH_NODE_SYS_PREINC, FINSH_NODE_SYS_PREDEC, FINSH_NODE_SYS_GETADDR}
       then FINSH_IDTYPE_ADDRESS else 0) err = (Node cn cc csb, err)"
    and "data_type cn = dtype e"
    and "\<And>code err. finsh_compile (Node cn cc csb) (code, err) = Some (code @ c1, err)"
    and "\<And>err. compile_node ((info nt)\<lparr>data_type := dtype e\<rparr>) (Node cn cc csb) err = Some (c2, err)"
    and "gen e = c1 @ c2"
  shows "tree_ok e"
  unfolding tree_ok_def checked_def
proof (intro exI conjI allI)
  fix sb err
  have "(info nt)\<lparr>idtype := 0\<rparr> = info nt" "node_type (info nt) = nt" "idtype (info nt) = 0" by (simp_all add: info_def)
  thus "finsh_type_check (tree e sb) 0 err =
      (case finsh_type_check sb 0 err of (sb', err') \<Rightarrow> (Node ((info nt)\<lparr>data_type := dtype e\<rparr>) (Node cn cc csb) sb', err'))"
    using assms(1-3) by (auto simp: finsh_type_check.simps(2) idtype_defs Let_def split: prod.splits if_splits)
next
  show "emits_code ((info nt)\<lparr>data_type := dtype e\<rparr>) (Node cn cc csb) (gen e)"
    unfolding assms(6) by (rule emits_codeI [OF assms(4,5)])
qed simp

lemma trees_ok:
  assumes "\<And>e. e \<in> set args \<Longrightarrow> tree_ok e"
  shows "\<exists>as. (\<forall>err. finsh_type_check (trees args) 0 err = (as, err)) \<and> siblings as = length args \<and>
     (\<forall>code err. finsh_compile as (code, err) = Some (code @ gens args, err))"
  using assms
proof (induction args)
  case (Cons e es)
  then obtain as where "(\<forall>err. finsh_type_check (trees es) 0 err = (as, err)) \<and> siblings as = length es \<and>
     (\<forall>code err. finsh_compile as (code, err) = Some (code @ gens es, err))" by auto
  moreover obtain n c where "checked e n c" using Cons.prems [of e] unfolding tree_ok_def by auto
  ultimately show ?case by (intro exI [of _ "Node n c as"]) (simp add: checkedD emits_codeD [OF checkedD(3)])
qed simp

lemma sym_width_le: "sym_width s \<le> 3"
  by (cases "id_type s") (auto simp: sym_width_def data_type_defs)

lemma dtype_le: "dtype e \<le> 3"
  by (induction e) (simp_all add: sym_width_le)

lemma compile_operator:
  "compile_node ((info (node_of_op f))\<lparr>data_type := d\<rparr>) c err = Some (sized_op (op_byte f) d, err)"
  "node_of_op f \<notin> {FINSH_NODE_SYS_ASSIGN, FINSH_NODE_SYS_PREINC, FINSH_NODE_SYS_PREDEC, FINSH_NODE_SYS_GETADDR}"
  by (cases f; simp add: compile_node.simps info_def)+

lemma tree_ok_Bin:
  assumes ok: "tree_ok a" "tree_ok b" shows "tree_ok (Bin f a b)"
proof -
  obtain na ca where "checked a na ca" using ok(1) unfolding tree_ok_def by blast
  note a = checkedD [OF this]
  obtain nb cb where "checked b nb cb" using ok(2) unfolding tree_ok_def by blast
  note b = checkedD [OF this]
  show ?thesis
    by (rule tree_ok_inner [of _ "node_of_op f" "tree a (tree b NULL)" na ca "Node nb cb NULL" "gen a @ gen b" "sized_op (op_byte f) (dtype a)"])
      (use compile_operator(2) [of f] in \<open>simp_all add: a b emits_codeD [OF a(3)] compile_one [OF b(3)] compile_operator(1)\<close>)
qed

lemma tree_ok_all: "wf_exp e \<Longrightarrow> tree_ok e"
proof (induction e)
  case (Num v)
  show ?case
    by (rule tree_ok_leaf [of _ "(info FINSH_NODE_VALUE_INT)\<lparr>node_value := v\<rparr>"])
      (auto simp: type_leaf_def data_type_defs compile_node.simps ld_dword_def)
next
  case (Str v)
  show ?case
    by (rule tree_ok_leaf [of _ "(info FINSH_NODE_VALUE_STRING)\<lparr>node_value := v\<rparr>"])
      (auto simp: type_leaf_def data_type_defs compile_node.simps ld_dword_def)
next
  case (Chr c)
  have "ucast (ucast c :: u32) = c" by (simp add: ucast_up_ucast_id is_up)
  thus ?case
    by (intro tree_ok_leaf [of _ "(info FINSH_NODE_VALUE_CHAR)\<lparr>node_value := ucast c\<rparr>"])
      (auto simp: type_leaf_def data_type_defs compile_node.simps)
next
  case (Var s)
  thus ?case using type_check_id [of s 0] emits_id [of s]
    by (auto simp: tree_ok_def checked_def intro!: exI [of _ "typed_id 0 s"] exI [of _ NULL])
next
  case (Bin f a b)
  thus ?case by (simp add: tree_ok_Bin)
next
  case (Inv a)
  hence ok: "tree_ok a" by simp
  obtain na ca where "checked a na ca" using ok unfolding tree_ok_def by blast
  note a = checkedD [OF this]
  show ?case
    by (rule tree_ok_inner [of _ FINSH_NODE_SYS_BITWISE "tree a NULL" na ca NULL "gen a" "sized_op FINSH_OP_BITWISE_BYTE (dtype a)"])
      (auto simp: a compile_one [OF a(3)] compile_node.simps)
next
  case (Asg s e)
  hence ok: "tree_ok e" and s: "is_lval s" by simp_all
  obtain n c where "checked e n c" using ok unfolding tree_ok_def by blast
  note e = checkedD [OF this]
  show ?case
    by (rule tree_ok_inner [of _ FINSH_NODE_SYS_ASSIGN "Node (id_info s) NULL (tree e NULL)" "typed_id FINSH_IDTYPE_ADDRESS s" NULL "Node n c NULL"
          "ld_dword (sym_addr s) @ gen e"
          "sized_op FINSH_OP_ST_BYTE (sym_width s) @ sized_op FINSH_OP_LD_VALUE_BYTE_STACK (sym_width s)"])
      (use sym_width_cases [OF s] in \<open>auto simp: e type_check_id [OF s] emits_codeD [OF emits_id(2) [OF s]] compile_one [OF e(3)]
         compile_node.simps code_assign_def data_type_defs\<close>)
next
  case (Pre up s)
  hence s: "is_lval s" "var_value s = sym_addr s" by (cases s; simp)+
  show ?case
    by (rule tree_ok_inner [of _ "if up then FINSH_NODE_SYS_PREINC else FINSH_NODE_SYS_PREDEC" "Node (id_info s) NULL NULL"
          "typed_id FINSH_IDTYPE_ADDRESS s" NULL NULL "ld_dword (sym_addr s)" "code_pre (op_step up) (sym_width s) (sym_addr s)"])
      (auto simp: type_check_id [OF s(1)] compile_one [OF emits_id(2) [OF s(1)]] compile_node.simps
        op_step_def s(2))
next
  case (Post up s)
  hence s: "is_lval s" "var_value s = sym_addr s" by (cases s; simp)+
  show ?case
    by (rule tree_ok_inner [of _ "if up then FINSH_NODE_SYS_INC else FINSH_NODE_SYS_DEC" "Node (id_info s) NULL NULL"
          "typed_id 0 s" NULL NULL "ld_value (sym_width s) (sym_addr s)" "code_post (op_step up) (sym_width s) (sym_addr s)"])
      (auto simp: type_check_id [OF s(1)] compile_one [OF emits_id(1) [OF s(1)]] compile_node.simps
        op_step_def s(2))
next
  case (Deref e)
  hence ok: "tree_ok e" by simp
  obtain n c where "checked e n c" using ok unfolding tree_ok_def by blast
  note e = checkedD [OF this]
  show ?case
    by (rule tree_ok_inner [of _ FINSH_NODE_SYS_GETVALUE "tree e NULL" n c NULL "gen e" "sized_op FINSH_OP_LD_VALUE_BYTE_STACK (dtype e)"])
      (auto simp: e compile_one [OF e(3)] compile_node.simps)
next
  case (DerefAsg a e)
  hence ok: "tree_ok a" "tree_ok e" and d: "dtype a = 1 \<or> dtype a = 2 \<or> dtype a = 3" using dtype_le [of a] by auto
  obtain na ca where "checked a na ca" using ok(1) unfolding tree_ok_def by blast
  note a = checkedD [OF this]
  obtain n c where "checked e n c" using ok(2) unfolding tree_ok_def by blast
  note e = checkedD [OF this]
  let ?g = "(info FINSH_NODE_SYS_GETVALUE)\<lparr>idtype := FINSH_IDTYPE_ADDRESS, data_type := dtype a\<rparr>"
  have g: "emits_code ?g (Node na ca NULL) (gen a)"
    using emits_codeI [OF compile_one [OF a(3)], of ?g "[]"] by (simp add: compile_node.simps idtype_defs)
  have "finsh_type_check (Node (info FINSH_NODE_SYS_GETVALUE) (tree a NULL) (tree e NULL)) FINSH_IDTYPE_ADDRESS err =
      (Node ?g (Node na ca NULL) (Node n c NULL), err)" for err
    by (simp add: finsh_type_check.simps(2) a e idtype_defs)
  thus ?case
    by (intro tree_ok_inner [of _ FINSH_NODE_SYS_ASSIGN "Node (info FINSH_NODE_SYS_GETVALUE) (tree a NULL) (tree e NULL)" ?g
          "Node na ca NULL" "Node n c NULL" "gen a @ gen e"
          "sized_op FINSH_OP_ST_BYTE (dtype a) @ sized_op FINSH_OP_LD_VALUE_BYTE_STACK (dtype a)"])
      (use d in \<open>auto simp: emits_codeD [OF g] compile_one [OF e(3)] compile_node.simps code_assign_def data_type_defs\<close>)
next
  case (Addr s)
  hence s: "is_lval s" by simp
  show ?case
    by (rule tree_ok_inner [of _ FINSH_NODE_SYS_GETADDR "Node (id_info s) NULL NULL" "typed_id FINSH_IDTYPE_ADDRESS s" NULL NULL
          "ld_dword (sym_addr s)" "[]"])
      (auto simp: type_check_id [OF s] compile_one [OF emits_id(2) [OF s]] compile_node.simps)
next
  case (Call p f args)
  let ?f = "(id_info (SymSyscall p f))"
  have f: "emits_code ?f NULL (ld_dword f)"
    by (simp add: emits_code_def compile_node.simps code_id_def idtype_defs ld_dword_def)
  obtain as where as: "\<And>err. finsh_type_check (trees args) 0 err = (as, err)" "siblings as = length args"
    "\<And>code err. finsh_compile as (code, err) = Some (code @ gens args, err)"
    using trees_ok [of args] Call by auto
  have "finsh_type_check (Node ?f NULL (trees args)) 0 err = (Node ?f NULL as, err)" for err
    by (simp add: finsh_type_check.simps(2) as idtype_defs type_leaf_def)
  thus ?case
    by (intro tree_ok_inner [of _ FINSH_NODE_SYS_FUNC "Node ?f NULL (trees args)" ?f NULL as
          "ld_dword f @ gens args" "[FINSH_OP_SYSCALL, of_nat (length args)]"])
      (auto simp: emits_codeD [OF f] as compile_node.simps)
qed

section \<open>The machine executes the code\<close>

definition code_at :: "mem \<Rightarrow> nat \<Rightarrow> u8 list \<Rightarrow> bool" where
  "code_at t pc c \<longleftrightarrow> (\<forall>i<length c. t (pc + i) = c ! i) \<and> pc + length c \<le> FINSH_TEXT_MAX"

abbreviation VM :: "(nat \<Rightarrow> u32) \<Rightarrow> nat \<Rightarrow> nat \<Rightarrow> mem \<Rightarrow> mem \<Rightarrow> finsh_vm" where
  "VM stk sp pc t m \<equiv> \<lparr>finsh_vm_stack = stk, finsh_sp = sp, finsh_pc = pc, text_segment = t, vm_mem = m\<rparr>"

lemma code_at_append: "code_at t pc (c1 @ c2) \<longleftrightarrow> code_at t pc c1 \<and> code_at t (pc + length c1) c2"
  (is "?l = ?r")
proof
  assume ?l
  hence a: "\<And>i. i < length (c1 @ c2) \<Longrightarrow> t (pc + i) = (c1 @ c2) ! i" "pc + length c1 + length c2 \<le> FINSH_TEXT_MAX"
    by (auto simp: code_at_def)
  have "t (pc + length c1 + i) = c2 ! i" if "i < length c2" for i using a(1) [of "length c1 + i"] that by (simp add: add.assoc)
  moreover have "t (pc + i) = c1 ! i" if "i < length c1" for i using a(1) [of i] that by (simp add: nth_append)
  ultimately show ?r using a(2) by (simp add: code_at_def)
next
  assume r: ?r
  have "t (pc + i) = (c1 @ c2) ! i" if i: "i < length c1 + length c2" for i
  proof (cases "i < length c1")
    case False
    then obtain j where j: "i = length c1 + j" "j < length c2" using i by (metis add_diff_inverse_nat nat_add_left_cancel_less)
    hence "t (pc + length c1 + j) = c2 ! j" using r by (auto simp: code_at_def)
    thus ?thesis using j by (simp add: nth_append add.assoc)
  qed (use r in \<open>simp add: code_at_def nth_append\<close>)
  thus ?l using r by (simp add: code_at_def)
qed

lemma code_at_Cons: "code_at t pc (x # c) \<longleftrightarrow> t pc = x \<and> pc < FINSH_TEXT_MAX \<and> code_at t (pc + 1) c"
  using code_at_append [of t pc "[x]" c] by (auto simp: code_at_def)

lemma vm_loop_step: "pc < FINSH_TEXT_MAX \<Longrightarrow> vm_step sys (VM stk sp pc t m) = Some st' \<Longrightarrow> vm_loop sys (VM stk sp pc t m) = vm_loop sys st'"
  by (subst vm_loop.simps) simp

lemma length_op_table: "length (op_table sys) = 48"
  by (simp add: op_table_def)

text \<open>The operation of an opcode.\<close>

lemma vm_stepI:
  "t pc = x \<Longrightarrow> pc < FINSH_TEXT_MAX \<Longrightarrow> unat x < 48 \<Longrightarrow> (op_table sys ! unat x) (VM stk sp (pc + 1) t m) = Some st' \<Longrightarrow>
   vm_loop sys (VM stk sp pc t m) = vm_loop sys st'"
  by (rule vm_loop_step) (simp_all add: vm_step_def length_op_table)

lemma length_code_dword [simp]: "length (code_dword v) = 4"
  by (simp add: code_dword_def)

lemma code_at_bound: "code_at t pc c \<Longrightarrow> pc + length c \<le> FINSH_TEXT_MAX"
  by (simp add: code_at_def)

lemma get32_dword: "code_at t pc (code_dword v) \<Longrightarrow> FINSH_GET32 pc t = v"
  unfolding FINSH_GET32_def
proof (rule load_word_bytes)
  fix k :: nat assume c: "code_at t pc (code_dword v)" and "k < 4"
  moreover have "k < length (code_dword v)" using \<open>k < 4\<close> by (simp add: code_dword_def)
  ultimately have "t (pc + k) = code_dword v ! k" unfolding code_at_def by blast
  moreover have "code_dword v ! k = byte_of k v"
  proof -
    consider "k = 0" | "k = 1" | "k = 2" | "k = 3" using \<open>k < 4\<close> by linarith
    thus ?thesis by cases (simp_all add: code_dword_def)
  qed
  ultimately show "t (pc + k) = byte_of k v" by simp
qed

lemma exec_ld_dword:
  assumes "code_at t pc (ld_dword v)" "sp < FINSH_STACK_MAX"
  shows "vm_loop sys (VM stk sp pc t m) = vm_loop sys (VM (stk(sp := v)) (sp + 1) (pc + 5) t m)"
proof -
  have c: "t pc = FINSH_OP_LD_BYTE + 2" "pc < FINSH_TEXT_MAX" "code_at t (pc + 1) (code_dword v)" "pc + 5 \<le> FINSH_TEXT_MAX"
    using assms(1) code_at_bound [OF assms(1)] by (auto simp: ld_dword_def code_at_Cons)
  show ?thesis
    by (rule vm_stepI [where t = t and pc = pc, OF c(1,2)])
      (use c assms(2) get32_dword [OF c(3)] in \<open>simp_all add: opcode_defs op_table_def op_defs\<close>)
qed

section \<open>Values at a width\<close>

abbreviation width :: "nat \<Rightarrow> bool" where "width d \<equiv> d = 1 \<or> d = 2 \<or> d = 3"

text \<open>What an assignment to the member of a given width leaves in a stack entry.\<close>

definition set_low :: "nat \<Rightarrow> u32 \<Rightarrow> u32 \<Rightarrow> u32" where
  "set_low d x v =
     (if d = 1 then set_char_value (char_value x) v else if d = 2 then set_short_value (short_value x) v else x)"

lemma bit_char_value: "bit (char_value v) i \<longleftrightarrow> i < 8 \<and> bit v i"
  by (auto simp: char_value_def bit_unsigned_iff dest: bit_imp_le_length)

lemma bit_short_value: "bit (short_value v) i \<longleftrightarrow> i < 16 \<and> bit v i"
  by (auto simp: short_value_def bit_unsigned_iff dest: bit_imp_le_length)

lemma set_values [simp]:
  "char_value (set_char_value c v) = c" "short_value (set_short_value k v) = k"
  "char_value (ucast c) = c" "short_value (ucast k) = k"
  by (rule bit_word_eqI, simp add: bit_char_value bit_short_value set_char_value_def set_short_value_def
      bit_or_iff bit_push_bit_iff bit_drop_bit_eq bit_unsigned_iff)+

lemma low_eq_char: "low 1 v = low 1 w \<longleftrightarrow> char_value v = char_value w"
proof
  assume "low 1 v = low 1 w"
  hence "char_value (low 1 v) = char_value (low 1 w)" by (rule arg_cong)
  thus "char_value v = char_value w" by (simp add: low_def)
qed (simp add: low_def)

lemma low_eq_short: "low 2 v = low 2 w \<longleftrightarrow> short_value v = short_value w"
proof
  assume "low 2 v = low 2 w"
  hence "short_value (low 2 v) = short_value (low 2 w)" by (rule arg_cong)
  thus "short_value v = short_value w" by (simp add: low_def)
qed (simp add: low_def)

lemma short_char: "short_value v = short_value w \<Longrightarrow> char_value v = char_value w"
proof (rule bit_word_eqI)
  fix i assume "short_value v = short_value w" "i < LENGTH(8)"
  hence "bit (short_value v) i = bit (short_value w) i" "i < 8" by simp_all
  thus "bit (char_value v) i = bit (char_value w) i" by (simp add: bit_char_value bit_short_value)
qed

lemma low_set_low [simp]: "low d (set_low d x v) = low d x"
proof -
  consider "d = 1" | "d = 2" | "d \<noteq> 1" "d \<noteq> 2" by blast
  thus ?thesis
  proof cases
    case 1 thus ?thesis using low_eq_char by (simp add: set_low_def)
  next
    case 2 thus ?thesis using low_eq_short by (simp add: set_low_def)
  qed (simp add: set_low_def)
qed

lemma low_mono: "low d' v = low d' w \<Longrightarrow> 0 < d \<Longrightarrow> d \<le> d' \<Longrightarrow> low d v = low d w"
proof -
  assume l: "low d' v = low d' w" and d: "0 < d" "d \<le> d'"
  consider "d = d'" | "d = 1" "d' = 2" | "d' \<ge> 3" using d by linarith
  thus ?thesis
  proof cases
    case 2 show ?thesis using l unfolding 2 low_eq_char low_eq_short by (rule short_char)
  next
    case 3 hence "v = w" using l by (simp add: low_def)
    thus ?thesis by simp
  qed (use l in simp)
qed

lemma low_idem [simp]: "low d (low d v) = low d v"
  by (simp add: low_def)

lemma low_not: "low d v = low d w \<Longrightarrow> low d (NOT v) = low d (NOT w)"
proof -
  have "char_value (NOT v) = NOT (char_value v)" "short_value (NOT v) = NOT (short_value v)" for v
    by (rule bit_word_eqI, simp add: bit_char_value bit_short_value bit_not_iff)+
  moreover assume "low d v = low d w"
  ultimately show "low d (NOT v) = low d (NOT w)"
    using low_eq_char [of v w] low_eq_short [of v w] by (auto simp: low_def)
qed

lemma low_num_value: "low d v = low d w \<Longrightarrow> num_value d v = num_value d w"
  using low_eq_char low_eq_short by (auto simp: num_value_def low_def)

lemma low_store_at: "low d v = low d w \<Longrightarrow> store_at d a v m = store_at d a w m"
  using low_eq_char low_eq_short by (auto simp: store_at_def low_def)

lemma value_of_int: "char_value (word_of_int r) = word_of_int r" "short_value (word_of_int r) = word_of_int r"
  by (rule bit_word_eqI, simp add: bit_char_value bit_short_value bit_word_of_int_iff)+

lemma value_add:
  "char_value (v + w) = char_value v + char_value w" "short_value (v + w) = short_value v + short_value w"
  "char_value (v - w) = char_value v - char_value w" "short_value (v - w) = short_value v - short_value w"
proof -
  have "char_value v = word_of_int (uint v)" "short_value v = word_of_int (uint v)" for v
    using value_of_int [of "uint v"] by simp_all
  moreover have "v + w = word_of_int (uint v + uint w)" "v - w = word_of_int (uint v - uint w)" by simp_all
  ultimately show "char_value (v + w) = char_value v + char_value w" "short_value (v + w) = short_value v + short_value w"
    "char_value (v - w) = char_value v - char_value w" "short_value (v - w) = short_value v - short_value w"
    using value_of_int by (metis of_int_add of_int_diff)+
qed

lemma low_step:
  assumes "width d"
  shows "low d (word_of_int (num_value d x + num_value d 1)) = low d (step_by True x)"
    "low d (word_of_int (num_value d x - num_value d 1)) = low d (step_by False x)"
proof -
  have "char_value (word_of_int (uint (char_value x) + uint (char_value 1))) = char_value (x + 1)"
    "char_value (word_of_int (uint (char_value x) - uint (char_value 1))) = char_value (x - 1)"
    "short_value (word_of_int (sint (short_value x) + sint (short_value 1))) = short_value (x + 1)"
    "short_value (word_of_int (sint (short_value x) - sint (short_value 1))) = short_value (x - 1)"
    unfolding value_of_int value_add by simp_all
  thus "low d (word_of_int (num_value d x + num_value d 1)) = low d (step_by True x)"
    "low d (word_of_int (num_value d x - num_value d 1)) = low d (step_by False x)"
    using assms by (auto simp: num_value_def step_by_def low_def)
qed

lemma load_store_short [simp]: "load_short a (store_short a v m) = v"
  by (rule bit_word_eqI)
    (auto simp: load_short_def store_short_def bit_or_iff bit_push_bit_iff bit_unsigned_iff bit_drop_bit_eq dest: bit_imp_le_length)

lemma low_load_word:
  assumes "width d" shows "low d (load_word (unat a) m) = load_at d a m"
proof -
  have "char_value (load_word x m) = m x" "short_value (load_word x m) = load_short x m" for x
    by (rule bit_word_eqI, auto simp: bit_char_value bit_short_value load_word_def load_short_def bit_or_iff bit_push_bit_iff
        bit_unsigned_iff dest: bit_imp_le_length)+
  thus ?thesis using assms by (auto simp: low_def load_at_def)
qed

lemma load_at_store_at: "width d \<Longrightarrow> load_at d a (store_at d a v m) = low d v"
  by (auto simp: load_at_def store_at_def load_store_word low_def)

section \<open>Single instructions\<close>

lemma exec_ld_value:
  assumes "code_at t pc (ld_value d a)" "width d" "sp < FINSH_STACK_MAX"
  shows "vm_loop sys (VM stk sp pc t m) =
    vm_loop sys (VM (stk(sp := set_low d (load_at d a m) (stk sp))) (sp + 1) (pc + 5) t m)"
proof -
  have c: "t pc = FINSH_OP_LD_VALUE_BYTE + of_nat (d - 1)" "pc < FINSH_TEXT_MAX" "code_at t (pc + 1) (code_dword a)"
    using assms(1,2) by (auto simp: ld_value_def sized_op_def data_type_defs code_at_Cons)
  show ?thesis
    by (rule vm_stepI [where t = t and pc = pc, OF c(1,2)])
      (use assms(2,3) get32_dword [OF c(3)] code_at_bound [OF c(3)] in
        \<open>auto simp: opcode_defs op_table_def op_defs set_low_def load_at_def\<close>)
qed

lemma exec_ld_byte:
  assumes "code_at t pc [FINSH_OP_LD_BYTE, c]" "sp < FINSH_STACK_MAX"
  shows "vm_loop sys (VM stk sp pc t m) =
    vm_loop sys (VM (stk(sp := set_low 1 (ucast c) (stk sp))) (sp + 1) (pc + 2) t m)"
proof -
  have c: "t pc = FINSH_OP_LD_BYTE" "pc < FINSH_TEXT_MAX" "t (pc + 1) = c" "pc + 2 \<le> FINSH_TEXT_MAX"
    using assms(1) code_at_bound [OF assms(1)] by (auto simp: code_at_Cons)
  show ?thesis
    by (rule vm_stepI [where t = t and pc = pc, OF c(1,2)])
      (use assms(2) c in \<open>simp_all add: opcode_defs op_table_def op_defs set_low_def\<close>)
qed

lemma exec_ld_word_1:
  assumes "code_at t pc ((FINSH_OP_LD_BYTE + 1) # code_word 1)" "sp < FINSH_STACK_MAX"
  shows "vm_loop sys (VM stk sp pc t m) = vm_loop sys (VM (stk(sp := set_low 2 1 (stk sp))) (sp + 1) (pc + 3) t m)"
proof -
  have c: "t pc = FINSH_OP_LD_BYTE + 1" "pc < FINSH_TEXT_MAX" "t (pc + 1) = 1" "t (pc + 2) = 0" "pc + 3 \<le> FINSH_TEXT_MAX"
    using assms(1) code_at_bound [OF assms(1)] by (auto simp: code_at_Cons code_word_def)
  have "short_value 1 = 1" by (simp add: short_value_def)
  thus ?thesis
    by (intro vm_stepI [where t = t and pc = pc, OF c(1,2)])
      (use assms(2) c in \<open>simp_all add: opcode_defs op_table_def op_defs set_low_def FINSH_GET16_def\<close>)
qed

lemma exec_one:
  assumes "code_at t pc (code_one d)" "width d" "sp < FINSH_STACK_MAX"
  shows "vm_loop sys (VM stk sp pc t m) =
    vm_loop sys (VM (stk(sp := set_low d 1 (stk sp))) (sp + 1) (pc + length (code_one d)) t m)"
  using assms exec_ld_byte [of t pc 1 sp sys stk m] exec_ld_word_1 [of t pc sp sys stk m] exec_ld_dword [of t pc 1 sp sys stk m]
  by (auto simp: code_one_def data_type_defs ld_dword_def code_word_def set_low_def numeral_3_eq_3)

lemma sized_op_width: "width d \<Longrightarrow> sized_op x d = [x + of_nat (d - 1)]"
  by (auto simp: sized_op_def data_type_defs)

lemma length_sized_op [simp]: "width d \<Longrightarrow> length (sized_op x d) = 1"
  by (auto simp: sized_op_width)

lemma code_at_sized_op:
  assumes "code_at t pc (sized_op x d)" "width d"
  shows "t pc = x + of_nat (d - 1)" "pc < FINSH_TEXT_MAX"
  using assms by (simp_all add: sized_op_width code_at_Cons)

lemma op_table_bin:
  assumes "width d"
  shows "unat (op_byte f + of_nat (d - 1)) < 48"
    and "op_table sys ! unat (op_byte f + of_nat (d - 1)) = (if d = 1 then OP_BIN_BYTE f else if d = 2 then OP_BIN_WORD f else OP_BIN_DWORD f)"
  using assms by (cases f; auto simp: opcode_defs op_table_def)+

lemma exec_bin:
  assumes "code_at t pc (sized_op (op_byte f) d)" "width d" "2 \<le> sp"
    and "c_op f (num_value d (stk (sp - 2))) (num_value d (stk (sp - 1))) = Some r"
  shows "vm_loop sys (VM stk sp pc t m) =
    vm_loop sys (VM (stk(sp - 2 := set_low d (word_of_int r) (stk (sp - 2)))) (sp - 1) (pc + 1) t m)"
  by (rule vm_stepI [where t = t and pc = pc, OF code_at_sized_op [OF assms(1,2)]])
    (use assms(2-4) op_table_bin(1) [OF assms(2), of f] op_table_bin(2) [OF assms(2), of sys f] in \<open>auto simp: op_defs set_low_def num_value_def value_of_int\<close>)

lemma exec_inv:
  assumes "code_at t pc (sized_op FINSH_OP_BITWISE_BYTE d)" "width d" "1 \<le> sp"
  shows "vm_loop sys (VM stk sp pc t m) =
    vm_loop sys (VM (stk(sp - 1 := set_low d (NOT (stk (sp - 1))) (stk (sp - 1)))) sp (pc + 1) t m)"
proof -
  have "char_value (NOT v) = NOT (char_value v)" "short_value (NOT v) = NOT (short_value v)" for v
    by (rule bit_word_eqI, simp add: bit_char_value bit_short_value bit_not_iff)+
  thus ?thesis
    by (intro vm_stepI [where t = t and pc = pc, OF code_at_sized_op [OF assms(1,2)]])
      (use assms(2,3) in \<open>auto simp: opcode_defs op_table_def op_defs set_low_def\<close>)
qed

lemma exec_st:
  assumes "code_at t pc (sized_op FINSH_OP_ST_BYTE d)" "width d" "2 \<le> sp"
  shows "vm_loop sys (VM stk sp pc t m) =
    vm_loop sys (VM stk (sp - 1) (pc + 1) t (store_at d (stk (sp - 2)) (stk (sp - 1)) m))"
  by (rule vm_stepI [where t = t and pc = pc, OF code_at_sized_op [OF assms(1,2)]])
    (use assms(2,3) in \<open>auto simp: opcode_defs op_table_def op_defs store_at_def\<close>)

lemma exec_ld_stack:
  assumes "code_at t pc (sized_op FINSH_OP_LD_VALUE_BYTE_STACK d)" "width d" "1 \<le> sp"
  shows "vm_loop sys (VM stk sp pc t m) =
    vm_loop sys (VM (stk(sp - 1 := set_low d (load_at d (stk (sp - 1)) m) (stk (sp - 1)))) sp (pc + 1) t m)"
  by (rule vm_stepI [where t = t and pc = pc, OF code_at_sized_op [OF assms(1,2)]])
    (use assms(2,3) in \<open>auto simp: opcode_defs op_table_def op_defs set_low_def load_at_def\<close>)

lemma exec_pop:
  assumes "code_at t pc [FINSH_OP_POP]" "1 \<le> sp"
  shows "vm_loop sys (VM stk sp pc t m) = vm_loop sys (VM stk (sp - 1) (pc + 1) t m)"
proof -
  have c: "t pc = FINSH_OP_POP" "pc < FINSH_TEXT_MAX" using assms(1) by (simp_all add: code_at_Cons)
  show ?thesis
    by (rule vm_stepI [where t = t and pc = pc, OF c]) (use assms(2) in \<open>simp_all add: opcode_defs op_table_def op_defs\<close>)
qed

lemma exec_call:
  assumes "code_at t pc [FINSH_OP_SYSCALL, of_nat n]" "n \<le> 16"
    and "sys (stk sp) (if n = 0 then [0] else map stk [sp + 1..<sp + 1 + n]) m = Some (r, m')"
  shows "vm_loop sys (VM stk (sp + 1 + n) pc t m) = vm_loop sys (VM (stk(sp := r)) (sp + 1) (pc + 2) t m')"
proof -
  have c: "t pc = FINSH_OP_SYSCALL" "pc < FINSH_TEXT_MAX" "t (pc + 1) = of_nat n" "pc + 1 < FINSH_TEXT_MAX"
    using assms(1) code_at_bound [OF assms(1)] by (auto simp: code_at_Cons)
  have "unat (of_nat n :: u8) = n" using assms(2) by (simp add: unat_of_nat)
  thus ?thesis
    by (intro vm_stepI [where t = t and pc = pc, OF c(1,2)])
      (use assms(2,3) c in \<open>auto simp: opcode_defs op_table_def op_defs\<close>)
qed

section \<open>The value of an expression\<close>

text \<open>How many stack entries the code of an expression needs.\<close>

fun need :: "fexp \<Rightarrow> nat"
and needs :: "fexp list \<Rightarrow> nat" where
  "need (Bin _ a b) = max (need a) (1 + need b)"
| "need (Inv a) = need a"
| "need (Asg _ e) = 1 + need e"
| "need (Pre _ _) = 3"
| "need (Post _ _) = 4"
| "need (Deref e) = need e"
| "need (DerefAsg a e) = max (need a) (1 + need e)"
| "need (Call _ _ args) = 1 + needs args"
| "need _ = 1"
| "needs [] = 0"
| "needs (e # es) = max (need e) (1 + needs es)"

text \<open>The machine gets from one program counter to another and leaves one more value on the stack.\<close>

definition pushes ::
  "syscalls \<Rightarrow> mem \<Rightarrow> (nat \<Rightarrow> u32) \<Rightarrow> nat \<Rightarrow> nat \<Rightarrow> mem \<Rightarrow> nat \<Rightarrow> mem \<Rightarrow> (nat \<Rightarrow> u32) \<Rightarrow> bool" where
  "pushes sys t stk sp pc m pc' m' stk' \<longleftrightarrow>
     vm_loop sys (VM stk sp pc t m) = vm_loop sys (VM stk' (sp + 1) pc' t m') \<and> (\<forall>i < sp. stk' i = stk i)"

definition computes :: "syscalls \<Rightarrow> mem \<Rightarrow> fexp \<Rightarrow> bool" where
  "computes sys t e \<longleftrightarrow> (\<forall>stk sp pc m v m'. eval sys e m = Some (v, m') \<longrightarrow> code_at t pc (gen e) \<longrightarrow>
     sp + need e \<le> FINSH_STACK_MAX \<longrightarrow>
     (\<exists>stk'. pushes sys t stk sp pc m (pc + length (gen e)) m' stk' \<and> low (valid e) (stk' sp) = low (valid e) v))"

lemma computesD:
  assumes "computes sys t e" "eval sys e m = Some (v, m')" "code_at t pc (gen e)" "sp + need e \<le> FINSH_STACK_MAX"
  obtains stk' where "pushes sys t stk sp pc m (pc + length (gen e)) m' stk'" "low (valid e) (stk' sp) = low (valid e) v"
  using assms unfolding computes_def by blast

lemma dtype_width: "0 < dtype e \<Longrightarrow> width (dtype e)"
  using dtype_le [of e] by linarith

lemma valid_dtype: "dtype e \<le> valid e"
  using dtype_le [of e] by (cases e) simp_all

lemma need_pos: "0 < need e"
  by (induction e) auto

lemma computesI:
  assumes "\<And>stk sp pc m v m'. eval sys e m = Some (v, m') \<Longrightarrow> code_at t pc (gen e) \<Longrightarrow> sp + need e \<le> FINSH_STACK_MAX \<Longrightarrow>
     \<exists>stk'. pushes sys t stk sp pc m (pc + length (gen e)) m' stk' \<and> low (valid e) (stk' sp) = low (valid e) v"
  shows "computes sys t e"
  using assms unfolding computes_def by blast

lemma length_lds [simp]: "length (ld_dword v) = 5" "width d \<Longrightarrow> length (ld_value d a) = 5"
  by (auto simp: ld_dword_def ld_value_def)

lemma computes_leaf:
  "computes sys t (Num v)" "computes sys t (Str v)" "computes sys t (Chr c)" "computes sys t (Addr s)"
  "wf_exp (Var s) \<Longrightarrow> computes sys t (Var s)"
proof -
  have dword: "\<exists>stk'. pushes sys t stk sp pc m (pc + 5) m stk' \<and> low 3 (stk' sp) = low 3 v"
    if "code_at t pc (ld_dword v)" "sp < FINSH_STACK_MAX" for stk sp pc m v
    using exec_ld_dword [OF that] by (intro exI [of _ "stk(sp := v)"]) (simp add: pushes_def)
  show "computes sys t (Num v)" "computes sys t (Str v)" "computes sys t (Addr s)"
    using dword by (auto intro!: computesI simp: Suc_le_eq)
  show "computes sys t (Chr c)"
  proof (rule computesI)
    fix stk sp pc m v m'
    assume "eval sys (Chr c) m = Some (v, m')" "code_at t pc (gen (Chr c))" "sp + need (Chr c) \<le> FINSH_STACK_MAX"
    thus "\<exists>stk'. pushes sys t stk sp pc m (pc + length (gen (Chr c))) m' stk' \<and> low (valid (Chr c)) (stk' sp) = low (valid (Chr c)) v"
      using exec_ld_byte [of t pc c sp sys stk m]
      by (intro exI [of _ "stk(sp := set_low 1 (ucast c) (stk sp))"]) (auto simp: pushes_def)
  qed
  show "computes sys t (Var s)" if "wf_exp (Var s)"
  proof (rule computesI)
    have w: "width (sym_width s)" using that sym_width_cases by auto
    fix stk sp pc m v m'
    assume "eval sys (Var s) m = Some (v, m')" "code_at t pc (gen (Var s))" "sp + need (Var s) \<le> FINSH_STACK_MAX"
    thus "\<exists>stk'. pushes sys t stk sp pc m (pc + length (gen (Var s))) m' stk' \<and> low (valid (Var s)) (stk' sp) = low (valid (Var s)) v"
      using exec_ld_value [OF _ w, of t pc "sym_addr s" sp sys stk m] w
      by (intro exI [of _ "stk(sp := set_low (sym_width s) (load_at (sym_width s) (sym_addr s) m) (stk sp))"]) (auto simp: pushes_def)
  qed
qed

lemma pushes_frame: "pushes sys t stk sp pc m pc' m' stk' \<Longrightarrow> i < sp \<Longrightarrow> stk' i = stk i"
  by (simp add: pushes_def)

lemma computes_Bin:
  assumes "computes sys t a" "computes sys t b" "wf_exp (Bin f a b)"
  shows "computes sys t (Bin f a b)"
proof (rule computesI)
  fix stk sp pc m v m'
  assume ev: "eval sys (Bin f a b) m = Some (v, m')" and c: "code_at t pc (gen (Bin f a b))"
    and n: "sp + need (Bin f a b) \<le> FINSH_STACK_MAX"
  obtain x m1 y r where e: "eval sys a m = Some (x, m1)" "eval sys b m1 = Some (y, m')"
    "c_op f (num_value (dtype a) x) (num_value (dtype a) y) = Some r" "v = word_of_int r"
    using ev by (auto simp: bind_eq_Some_conv)
  have w: "width (dtype a)" "dtype a \<le> valid b" using assms(3) dtype_width by simp_all
  have c1: "code_at t pc (gen a)" "code_at t (pc + length (gen a)) (gen b)"
    "code_at t (pc + length (gen a) + length (gen b)) (sized_op (op_byte f) (dtype a))"
    using c by (simp_all add: code_at_append add.assoc)
  have na: "sp + need a \<le> FINSH_STACK_MAX" and nb: "sp + 1 + need b \<le> FINSH_STACK_MAX" using n by simp_all
  obtain s1 where s1: "pushes sys t stk sp pc m (pc + length (gen a)) m1 s1" "low (valid a) (s1 sp) = low (valid a) x"
    using computesD [OF assms(1) e(1) c1(1) na] by blast
  obtain s2 where s2: "pushes sys t s1 (sp + 1) (pc + length (gen a)) m1 (pc + length (gen a) + length (gen b)) m' s2"
    "low (valid b) (s2 (sp + 1)) = low (valid b) y"
    using computesD [OF assms(2) e(2) c1(2) nb] by blast
  have "low (dtype a) (s2 sp) = low (dtype a) x" "low (dtype a) (s2 (sp + 1)) = low (dtype a) y"
    using low_mono [OF s1(2), of "dtype a"] low_mono [OF s2(2), of "dtype a"] w valid_dtype [of a] pushes_frame [OF s2(1), of sp] by auto
  hence "c_op f (num_value (dtype a) (s2 sp)) (num_value (dtype a) (s2 (sp + 1))) = Some r" using e(3) low_num_value by metis
  hence "vm_loop sys (VM s2 (sp + 2) (pc + length (gen a) + length (gen b)) t m') =
      vm_loop sys (VM (s2(sp := set_low (dtype a) (word_of_int r) (s2 sp))) (sp + 1) (pc + length (gen a) + length (gen b) + 1) t m')"
    using exec_bin [OF c1(3) w(1), of "sp + 2" s2 r] by simp
  thus "\<exists>stk'. pushes sys t stk sp pc m (pc + length (gen (Bin f a b))) m' stk' \<and>
      low (valid (Bin f a b)) (stk' sp) = low (valid (Bin f a b)) v"
    using s1(1) s2(1) w(1) e(4)
    by (intro exI [of _ "s2(sp := set_low (dtype a) (word_of_int r) (s2 sp))"]) (simp add: pushes_def add.assoc)
qed

lemma computes_Inv:
  assumes "computes sys t a" "wf_exp (Inv a)"
  shows "computes sys t (Inv a)"
proof (rule computesI)
  fix stk sp pc m v m'
  assume ev: "eval sys (Inv a) m = Some (v, m')" and c: "code_at t pc (gen (Inv a))" and n: "sp + need (Inv a) \<le> FINSH_STACK_MAX"
  obtain x where e: "eval sys a m = Some (x, m')" "v = NOT x" using ev by (auto simp: bind_eq_Some_conv)
  have w: "width (dtype a)" using assms(2) dtype_width by simp
  have c1: "code_at t pc (gen a)" "code_at t (pc + length (gen a)) (sized_op FINSH_OP_BITWISE_BYTE (dtype a))"
    using c by (simp_all add: code_at_append)
  have na: "sp + need a \<le> FINSH_STACK_MAX" using n by simp
  obtain s1 where s1: "pushes sys t stk sp pc m (pc + length (gen a)) m' s1" "low (valid a) (s1 sp) = low (valid a) x"
    using computesD [OF assms(1) e(1) c1(1) na] by blast
  have "low (dtype a) (NOT (s1 sp)) = low (dtype a) (NOT x)"
    using low_not [OF low_mono [OF s1(2) _ valid_dtype]] assms(2) by simp
  moreover have "vm_loop sys (VM s1 (sp + 1) (pc + length (gen a)) t m') =
      vm_loop sys (VM (s1(sp := set_low (dtype a) (NOT (s1 sp)) (s1 sp))) (sp + 1) (pc + length (gen a) + 1) t m')"
    using exec_inv [OF c1(2) w, of "sp + 1" sys s1] by simp
  ultimately show "\<exists>stk'. pushes sys t stk sp pc m (pc + length (gen (Inv a))) m' stk' \<and>
      low (valid (Inv a)) (stk' sp) = low (valid (Inv a)) v"
    using s1(1) w e(2)
    by (intro exI [of _ "s1(sp := set_low (dtype a) (NOT (s1 sp)) (s1 sp))"]) (simp add: pushes_def)
qed

lemma computes_Deref:
  assumes "computes sys t a" "wf_exp (Deref a)"
  shows "computes sys t (Deref a)"
proof (rule computesI)
  fix stk sp pc m v m'
  assume ev: "eval sys (Deref a) m = Some (v, m')" and c: "code_at t pc (gen (Deref a))" and n: "sp + need (Deref a) \<le> FINSH_STACK_MAX"
  obtain x where e: "eval sys a m = Some (x, m')" "v = load_at (dtype a) x m'" using ev by (auto simp: bind_eq_Some_conv)
  have w: "width (dtype a)" "valid a = 3" using assms(2) dtype_width by simp_all
  have c1: "code_at t pc (gen a)" "code_at t (pc + length (gen a)) (sized_op FINSH_OP_LD_VALUE_BYTE_STACK (dtype a))"
    using c by (simp_all add: code_at_append)
  have na: "sp + need a \<le> FINSH_STACK_MAX" using n by simp
  obtain s1 where s1: "pushes sys t stk sp pc m (pc + length (gen a)) m' s1" "low (valid a) (s1 sp) = low (valid a) x"
    using computesD [OF assms(1) e(1) c1(1) na] by blast
  have x: "s1 sp = x" using s1(2) w(2) by (simp add: low_def)
  have "vm_loop sys (VM s1 (sp + 1) (pc + length (gen a)) t m') =
      vm_loop sys (VM (s1(sp := set_low (dtype a) v x)) (sp + 1) (pc + length (gen a) + 1) t m')"
    using exec_ld_stack [OF c1(2) w(1), of "sp + 1" sys s1] x e(2) by simp
  thus "\<exists>stk'. pushes sys t stk sp pc m (pc + length (gen (Deref a))) m' stk' \<and>
      low (valid (Deref a)) (stk' sp) = low (valid (Deref a)) v"
    using s1(1) w(1) by (intro exI [of _ "s1(sp := set_low (dtype a) v x)"]) (simp add: pushes_def)
qed

text \<open>Storing and loading again, as an assignment ends.\<close>

lemma exec_store:
  assumes "code_at t pc (sized_op FINSH_OP_ST_BYTE d @ sized_op FINSH_OP_LD_VALUE_BYTE_STACK d)" "width d"
    and "low d (stk (sp + 1)) = low d v"
  shows "\<exists>stk'. vm_loop sys (VM stk (sp + 2) pc t m) = vm_loop sys (VM stk' (sp + 1) (pc + 2) t (store_at d (stk sp) v m)) \<and>
     (\<forall>i < sp. stk' i = stk i) \<and> low d (stk' sp) = low d v"
proof -
  let ?m = "store_at d (stk sp) v m"
  have c: "code_at t pc (sized_op FINSH_OP_ST_BYTE d)" "code_at t (pc + 1) (sized_op FINSH_OP_LD_VALUE_BYTE_STACK d)"
    using assms(1,2) by (simp_all add: code_at_append)
  have "vm_loop sys (VM stk (sp + 2) pc t m) = vm_loop sys (VM stk (sp + 1) (pc + 1) t ?m)"
    using exec_st [OF c(1) assms(2), of "sp + 2" sys stk m] low_store_at [OF assms(3)] by simp
  also have "\<dots> = vm_loop sys (VM (stk(sp := set_low d (load_at d (stk sp) ?m) (stk sp))) (sp + 1) (pc + 2) t ?m)"
    using exec_ld_stack [OF c(2) assms(2), of "sp + 1" sys stk ?m] by simp
  finally show ?thesis
    by (intro exI [of _ "stk(sp := set_low d (load_at d (stk sp) ?m) (stk sp))"]) (simp add: load_at_store_at [OF assms(2)])
qed

lemma computes_Asg:
  assumes "computes sys t a" "wf_exp (Asg s a)"
  shows "computes sys t (Asg s a)"
proof (rule computesI)
  fix stk sp pc m v m'
  assume ev: "eval sys (Asg s a) m = Some (v, m')" and c: "code_at t pc (gen (Asg s a))" and n: "sp + need (Asg s a) \<le> FINSH_STACK_MAX"
  let ?d = "sym_width s" let ?l = "length (gen a)"
  obtain m1 where e: "eval sys a m = Some (v, m1)" "m' = store_at ?d (sym_addr s) v m1" using ev by (auto simp: bind_eq_Some_conv)
  have w: "width ?d" "?d \<le> valid a" using assms(2) sym_width_cases by auto
  have c1: "code_at t pc (ld_dword (sym_addr s))" "code_at t (pc + 5) (gen a)"
    "code_at t (pc + 5 + ?l) (sized_op FINSH_OP_ST_BYTE ?d @ sized_op FINSH_OP_LD_VALUE_BYTE_STACK ?d)"
    using c by (simp_all add: code_at_append add.assoc)
  let ?s = "stk(sp := sym_addr s)"
  have na: "sp + 1 + need a \<le> FINSH_STACK_MAX" using n by simp
  obtain s1 where s1: "pushes sys t ?s (sp + 1) (pc + 5) m (pc + 5 + ?l) m1 s1" "low (valid a) (s1 (sp + 1)) = low (valid a) v"
    using computesD [OF assms(1) e(1) c1(2) na] by blast
  have "low ?d (s1 (sp + 1)) = low ?d v" using low_mono [OF s1(2), of ?d] w by auto
  moreover have s: "s1 sp = sym_addr s" using pushes_frame [OF s1(1), of sp] by simp
  ultimately obtain s2 where s2: "vm_loop sys (VM s1 (sp + 2) (pc + 5 + ?l) t m1) = vm_loop sys (VM s2 (sp + 1) (pc + 5 + ?l + 2) t m')"
    "\<forall>i < sp. s2 i = s1 i" "low ?d (s2 sp) = low ?d v"
    using exec_store [OF c1(3) w(1), of s1 sp v sys m1] e(2) by auto
  show "\<exists>stk'. pushes sys t stk sp pc m (pc + length (gen (Asg s a))) m' stk' \<and>
      low (valid (Asg s a)) (stk' sp) = low (valid (Asg s a)) v"
    using s1(1) s2 w(1) exec_ld_dword [OF c1(1), of sp sys stk m] n
    by (intro exI [of _ s2]) (simp add: pushes_def ac_simps)
qed

lemma computes_DerefAsg:
  assumes "computes sys t p" "computes sys t a" "wf_exp (DerefAsg p a)"
  shows "computes sys t (DerefAsg p a)"
proof (rule computesI)
  fix stk sp pc m v m'
  assume ev: "eval sys (DerefAsg p a) m = Some (v, m')" and c: "code_at t pc (gen (DerefAsg p a))"
    and n: "sp + need (DerefAsg p a) \<le> FINSH_STACK_MAX"
  let ?d = "dtype p" let ?k = "length (gen p)" let ?l = "length (gen a)"
  obtain x m0 m1 where e: "eval sys p m = Some (x, m0)" "eval sys a m0 = Some (v, m1)" "m' = store_at ?d x v m1"
    using ev by (auto simp: bind_eq_Some_conv)
  have w: "width ?d" "valid p = 3" "?d \<le> valid a" using assms(3) dtype_width by simp_all
  have c1: "code_at t pc (gen p)" "code_at t (pc + ?k) (gen a)"
    "code_at t (pc + ?k + ?l) (sized_op FINSH_OP_ST_BYTE ?d @ sized_op FINSH_OP_LD_VALUE_BYTE_STACK ?d)"
    using c by (simp_all add: code_at_append add.assoc)
  have np: "sp + need p \<le> FINSH_STACK_MAX" and na: "sp + 1 + need a \<le> FINSH_STACK_MAX" using n by simp_all
  obtain s0 where s0: "pushes sys t stk sp pc m (pc + ?k) m0 s0" "low (valid p) (s0 sp) = low (valid p) x"
    using computesD [OF assms(1) e(1) c1(1) np] by blast
  obtain s1 where s1: "pushes sys t s0 (sp + 1) (pc + ?k) m0 (pc + ?k + ?l) m1 s1" "low (valid a) (s1 (sp + 1)) = low (valid a) v"
    using computesD [OF assms(2) e(2) c1(2) na] by blast
  have "low ?d (s1 (sp + 1)) = low ?d v" using low_mono [OF s1(2), of ?d] w by auto
  moreover have s: "s1 sp = x" using pushes_frame [OF s1(1), of sp] s0(2) w(2) by (simp add: low_def)
  ultimately obtain s2 where s2: "vm_loop sys (VM s1 (sp + 2) (pc + ?k + ?l) t m1) = vm_loop sys (VM s2 (sp + 1) (pc + ?k + ?l + 2) t m')"
    "\<forall>i < sp. s2 i = s1 i" "low ?d (s2 sp) = low ?d v"
    using exec_store [OF c1(3) w(1), of s1 sp v sys m1] e(3) by auto
  show "\<exists>stk'. pushes sys t stk sp pc m (pc + length (gen (DerefAsg p a))) m' stk' \<and>
      low (valid (DerefAsg p a)) (stk' sp) = low (valid (DerefAsg p a)) v"
    using s0(1) s1(1) s2 w(1) by (intro exI [of _ s2]) (simp add: pushes_def ac_simps)
qed

text \<open>Adding 1 to or subtracting it from the variable whose address lies below.\<close>

definition step_code :: "u8 \<Rightarrow> nat \<Rightarrow> u32 \<Rightarrow> u8 list" where
  "step_code opr d a = ld_value d a @ code_one d @ sized_op opr d @ sized_op FINSH_OP_ST_BYTE d"

lemma length_step_code [simp]: "width d \<Longrightarrow> length (step_code opr d a) = 7 + length (code_one d)"
  by (simp add: step_code_def)

lemma code_pre_post:
  assumes "width d"
  shows "code_pre opr d a = step_code opr d a @ sized_op FINSH_OP_LD_VALUE_BYTE_STACK 3"
    "code_post opr d a = ld_dword a @ step_code opr d a @ [FINSH_OP_POP]"
  using assms by (auto simp: code_pre_def code_post_def step_code_def ld_value_def ld_dword_def data_type_defs sized_op_width)

lemma exec_step:
  assumes "code_at t pc (step_code (op_step up) d a)" "width d"
    and "sp + 3 \<le> FINSH_STACK_MAX" "stk sp = a"
  shows "\<exists>stk'. vm_loop sys (VM stk (sp + 1) pc t m) =
      vm_loop sys (VM stk' (sp + 1) (pc + 7 + length (code_one d)) t (store_at d a (step_by up (load_at d a m)) m)) \<and>
     (\<forall>i \<le> sp. stk' i = stk i)"
proof -
  let ?x = "load_at d a m" let ?l = "length (code_one d)" let ?f = "if up then Add else Sub"
  let ?v1 = "stk(sp + 1 := set_low d ?x (stk (sp + 1)))"
  let ?v2 = "?v1(sp + 2 := set_low d 1 (?v1 (sp + 2)))"
  have c: "code_at t pc (ld_value d a)" "code_at t (pc + 5) (code_one d)" "code_at t (pc + 5 + ?l) (sized_op (op_step up) d)"
    "code_at t (pc + 6 + ?l) (sized_op FINSH_OP_ST_BYTE d)"
    using assms(1,2) by (simp_all add: step_code_def code_at_append ac_simps)
  have opb: "op_byte ?f = op_step up" by (simp add: op_step_def)
  have nv: "num_value d (?v2 (sp + 1)) = num_value d ?x" "num_value d (?v2 (sp + 2)) = num_value d 1"
    by (intro low_num_value; simp)+
  define r where "r = (if up then num_value d ?x + num_value d 1 else num_value d ?x - num_value d 1)"
  have r: "c_op ?f (num_value d (?v2 (sp + 3 - 2))) (num_value d (?v2 (sp + 3 - 1))) = Some r" using nv by (simp add: r_def)
  let ?v3 = "?v2(sp + 1 := set_low d (word_of_int r) (?v2 (sp + 1)))"
  have "vm_loop sys (VM stk (sp + 1) pc t m) = vm_loop sys (VM ?v1 (sp + 2) (pc + 5) t m)"
    using exec_ld_value [OF c(1) assms(2), of "sp + 1" sys stk m] assms(3) by simp
  also have "\<dots> = vm_loop sys (VM ?v2 (sp + 3) (pc + 5 + ?l) t m)"
    using exec_one [OF c(2) assms(2), of "sp + 2" sys ?v1 m] assms(3) by (simp add: numeral_3_eq_3)
  also have "\<dots> = vm_loop sys (VM ?v3 (sp + 2) (pc + 6 + ?l) t m)"
    using exec_bin [of t "pc + 5 + ?l" ?f d "sp + 3" ?v2 r sys m] r assms(2) c(3) opb by (simp add: numeral_3_eq_3 ac_simps)
  also have "\<dots> = vm_loop sys (VM ?v3 (sp + 1) (pc + 7 + ?l) t (store_at d a (?v3 (sp + 1)) m))"
    using exec_st [OF c(4) assms(2), of "sp + 2" sys ?v3 m] assms(4) by (simp add: ac_simps)
  also have "store_at d a (?v3 (sp + 1)) m = store_at d a (step_by up ?x) m"
    by (rule low_store_at) (use low_step [OF assms(2), of ?x] in \<open>simp add: r_def\<close>)
  finally have run: "vm_loop sys (VM stk (sp + 1) pc t m) =
      vm_loop sys (VM ?v3 (sp + 1) (pc + 7 + ?l) t (store_at d a (step_by up ?x) m))" .
  show ?thesis by (rule exI [of _ ?v3], rule conjI, rule run) simp
qed

lemma computes_Pre:
  assumes "wf_exp (Pre up s)" shows "computes sys t (Pre up s)"
proof (rule computesI)
  fix stk sp pc m v m'
  assume ev: "eval sys (Pre up s) m = Some (v, m')" and c: "code_at t pc (gen (Pre up s))" and n: "sp + need (Pre up s) \<le> FINSH_STACK_MAX"
  let ?d = "sym_width s" let ?a = "sym_addr s" let ?l = "length (code_one ?d)" let ?s = "stk(sp := ?a)"
  have w: "width ?d" using assms is_var_lval sym_width_cases by auto
  have e: "v = step_by up (load_at ?d ?a m)" "m' = store_at ?d ?a v m" using ev by (auto simp: Let_def)
  have c1: "code_at t pc (ld_dword ?a)"
    "code_at t (pc + 5) (step_code (op_step up) ?d ?a)"
    "code_at t (pc + 12 + ?l) (sized_op FINSH_OP_LD_VALUE_BYTE_STACK 3)"
    using c w by (simp_all add: code_pre_post code_at_append ac_simps)
  obtain s1 where s1: "vm_loop sys (VM ?s (sp + 1) (pc + 5) t m) = vm_loop sys (VM s1 (sp + 1) (pc + 12 + ?l) t m')"
    "\<forall>i \<le> sp. s1 i = ?s i"
    using exec_step [OF c1(2) w, of sp ?s sys m] n e by (auto simp: ac_simps)
  let ?w = "load_word (unat ?a) m'"
  have "vm_loop sys (VM s1 (sp + 1) (pc + 12 + ?l) t m') = vm_loop sys (VM (s1(sp := ?w)) (sp + 1) (pc + 13 + ?l) t m')"
    using exec_ld_stack [OF c1(3), of "sp + 1" sys s1 m'] s1(2) by (simp add: set_low_def load_at_def ac_simps)
  moreover have "low ?d ?w = low ?d v" using low_load_word [OF w, of ?a m'] load_at_store_at [OF w, of ?a v m] e(2) by simp
  ultimately show "\<exists>stk'. pushes sys t stk sp pc m (pc + length (gen (Pre up s))) m' stk' \<and>
      low (valid (Pre up s)) (stk' sp) = low (valid (Pre up s)) v"
    using s1 w exec_ld_dword [OF c1(1), of sp sys stk m] n
    by (intro exI [of _ "s1(sp := ?w)"]) (simp add: pushes_def code_pre_post ac_simps)
qed

lemma computes_Post:
  assumes "wf_exp (Post up s)" shows "computes sys t (Post up s)"
proof (rule computesI)
  fix stk sp pc m v m'
  assume ev: "eval sys (Post up s) m = Some (v, m')" and c: "code_at t pc (gen (Post up s))" and n: "sp + need (Post up s) \<le> FINSH_STACK_MAX"
  let ?d = "sym_width s" let ?a = "sym_addr s" let ?l = "length (code_one ?d)"
  let ?u = "stk(sp := set_low ?d v (stk sp))" let ?s = "?u(sp + 1 := ?a)"
  have w: "width ?d" using assms is_var_lval sym_width_cases by auto
  have e: "v = load_at ?d ?a m" "m' = store_at ?d ?a (step_by up v) m" using ev by (auto simp: Let_def)
  have c1: "code_at t pc (ld_value ?d ?a)" "code_at t (pc + 5) (ld_dword ?a)"
    "code_at t (pc + 10) (step_code (op_step up) ?d ?a)"
    "code_at t (pc + 17 + ?l) [FINSH_OP_POP]"
    using c w by (simp_all add: code_pre_post code_at_append ac_simps)
  obtain s1 where s1: "vm_loop sys (VM ?s (sp + 2) (pc + 10) t m) = vm_loop sys (VM s1 (sp + 2) (pc + 17 + ?l) t m')"
    "\<forall>i \<le> sp + 1. s1 i = ?s i"
    using exec_step [OF c1(3) w, of "sp + 1" ?s sys m] n e by (auto simp: ac_simps)
  have "vm_loop sys (VM s1 (sp + 2) (pc + 17 + ?l) t m') = vm_loop sys (VM s1 (sp + 1) (pc + 18 + ?l) t m')"
    using exec_pop [OF c1(4), of "sp + 2" sys s1 m'] by (simp add: ac_simps)
  moreover have "vm_loop sys (VM stk sp pc t m) = vm_loop sys (VM ?u (sp + 1) (pc + 5) t m)"
    "vm_loop sys (VM ?u (sp + 1) (pc + 5) t m) = vm_loop sys (VM ?s (sp + 2) (pc + 10) t m)"
    using exec_ld_value [OF c1(1) w, of sp sys stk m] exec_ld_dword [OF c1(2), of "sp + 1" sys ?u m] n e(1) by (simp_all add: ac_simps)
  ultimately show "\<exists>stk'. pushes sys t stk sp pc m (pc + length (gen (Post up s))) m' stk' \<and>
      low (valid (Post up s)) (stk' sp) = low (valid (Post up s)) v"
    using s1 w
    by (intro exI [of _ s1]) (simp add: pushes_def code_pre_post ac_simps)
qed

text \<open>The arguments of a call.\<close>

lemma exec_args:
  assumes "\<And>e. e \<in> set args \<Longrightarrow> computes sys t e \<and> valid e = 3" "evals sys args m = Some (vs, m')"
    and "code_at t pc (gens args)" "sp + needs args \<le> FINSH_STACK_MAX"
  shows "\<exists>stk'. vm_loop sys (VM stk sp pc t m) = vm_loop sys (VM stk' (sp + length args) (pc + length (gens args)) t m') \<and>
     (\<forall>i < sp. stk' i = stk i) \<and> map stk' [sp..<sp + length args] = vs"
  using assms
proof (induction args arbitrary: stk sp pc m vs)
  case Nil
  thus ?case by (intro exI [of _ stk]) auto
next
  case (Cons e es)
  have ok: "computes sys t e" "valid e = 3" using Cons.prems(1) [of e] by simp_all
  obtain v m1 ws where e: "eval sys e m = Some (v, m1)" "evals sys es m1 = Some (ws, m')" "vs = v # ws"
    using Cons.prems(2) by (auto simp: bind_eq_Some_conv)
  have c: "code_at t pc (gen e)" "code_at t (pc + length (gen e)) (gens es)" using Cons.prems(3) by (simp_all add: code_at_append)
  have n: "sp + need e \<le> FINSH_STACK_MAX" "sp + 1 + needs es \<le> FINSH_STACK_MAX" using Cons.prems(4) by simp_all
  obtain s1 where s1: "pushes sys t stk sp pc m (pc + length (gen e)) m1 s1" "low (valid e) (s1 sp) = low (valid e) v"
    using computesD [OF ok(1) e(1) c(1) n(1)] by blast
  have es: "\<And>e. e \<in> set es \<Longrightarrow> computes sys t e \<and> valid e = 3" using Cons.prems(1) by simp
  obtain s2 where s2: "vm_loop sys (VM s1 (sp + 1) (pc + length (gen e)) t m1) =
      vm_loop sys (VM s2 (sp + 1 + length es) (pc + length (gen e) + length (gens es)) t m')"
    "\<forall>i < sp + 1. s2 i = s1 i" "map s2 [sp + 1..<sp + 1 + length es] = ws"
    using Cons.IH [OF es e(2) c(2) n(2), of s1] by blast
  have "s2 sp = v" using s2(2) s1(2) ok(2) by (simp add: low_def)
  moreover have "[sp..<sp + Suc (length es)] = sp # [sp + 1..<sp + 1 + length es]" by (simp add: upt_rec)
  ultimately show ?case using s1(1) s2 e(3) by (intro exI [of _ s2]) (simp add: pushes_def ac_simps)
qed

lemma computes_Call:
  assumes "\<And>e. e \<in> set args \<Longrightarrow> computes sys t e" "wf_exp (Call p f args)"
  shows "computes sys t (Call p f args)"
proof (rule computesI)
  fix stk :: "nat \<Rightarrow> u32" and sp pc :: nat and m v m'
  let ?e = "Call p f args" let ?g = "length (gens args)" let ?n = "length args" let ?s = "stk(sp := f)"
  assume ev: "eval sys ?e m = Some (v, m')" and c: "code_at t pc (gen ?e)" and n: "sp + need ?e \<le> FINSH_STACK_MAX"
  obtain vs m1 where e: "evals sys args m = Some (vs, m1)" "sys f (if vs = [] then [0] else vs) m1 = Some (v, m')"
    using ev by (auto simp: bind_eq_Some_conv)
  have c1: "code_at t pc (ld_dword f)" "code_at t (pc + 5) (gens args)" "code_at t (pc + 5 + ?g) [FINSH_OP_SYSCALL, of_nat ?n]"
    using c by (simp_all add: code_at_append add.assoc)
  have a: "\<And>e. e \<in> set args \<Longrightarrow> computes sys t e \<and> valid e = 3" "?n \<le> 16" using assms by auto
  have na: "sp + 1 + needs args \<le> FINSH_STACK_MAX" using n by simp
  obtain s1 where s1: "vm_loop sys (VM ?s (sp + 1) (pc + 5) t m) = vm_loop sys (VM s1 (sp + 1 + ?n) (pc + 5 + ?g) t m1)"
    "\<forall>i < sp + 1. s1 i = ?s i" "map s1 [sp + 1..<sp + 1 + ?n] = vs"
    using exec_args [OF a(1) e(1) c1(2) na, of ?s] by blast
  have "length vs = ?n" using s1(3) by (metis diff_add_inverse length_map length_upt)
  hence "sys (s1 sp) (if ?n = 0 then [0] else map s1 [sp + 1..<sp + 1 + ?n]) m1 = Some (v, m')"
    using e(2) s1(2) unfolding s1(3) by (cases vs) auto
  hence "vm_loop sys (VM s1 (sp + 1 + ?n) (pc + 5 + ?g) t m1) = vm_loop sys (VM (s1(sp := v)) (sp + 1) (pc + 5 + ?g + 2) t m')"
    by (rule exec_call [OF c1(3) a(2)])
  thus "\<exists>stk'. pushes sys t stk sp pc m (pc + length (gen ?e)) m' stk' \<and> low (valid ?e) (stk' sp) = low (valid ?e) v"
    using s1 exec_ld_dword [OF c1(1), of sp sys stk m] n
    by (intro exI [of _ "s1(sp := v)"]) (simp add: pushes_def ac_simps)
qed

lemma computes_all: "wf_exp e \<Longrightarrow> computes sys t e"
  by (induction e)
    (simp_all add: computes_leaf computes_Bin computes_Inv computes_Asg computes_Pre computes_Post computes_Deref computes_DerefAsg
      computes_Call)

lemma need_code: "wf_exp e \<Longrightarrow> 2 * need e \<le> length (gen e)"
proof (induction e)
  case (Pre up s)
  hence "width (sym_width s)" using is_var_lval sym_width_cases by auto
  thus ?case by (simp add: code_pre_post)
next
  case (Post up s)
  hence "width (sym_width s)" using is_var_lval sym_width_cases by auto
  thus ?case by (simp add: code_pre_post)
next
  case (Var s)
  hence "width (sym_width s)" using sym_width_cases by auto
  thus ?case by simp
next
  case (Call p f args)
  hence "\<And>e. e \<in> set args \<Longrightarrow> 2 * need e \<le> length (gen e)" by auto
  hence "2 * needs args \<le> length (gens args)"
  proof (induction args)
    case (Cons a as)
    have "2 * needs as \<le> length (gens as)" using Cons by simp
    thus ?case using Cons.prems [of a] need_pos [of a] by (simp add: max_def)
  qed simp
  thus ?case by simp
next
  case (Bin f a b)
  thus ?case using need_pos [of a] by (simp add: max_def)
next
  case (DerefAsg a b)
  thus ?case using need_pos [of a] by (simp add: max_def)
qed simp_all

section \<open>Statements\<close>

text \<open>The value of the last statement, after all have been evaluated in order.\<close>

fun eval_seq :: "syscalls \<Rightarrow> fexp list \<Rightarrow> mem \<Rightarrow> (u32 \<times> mem) option" where
  "eval_seq sys [] m = None"
| "eval_seq sys [e] m = eval sys e m"
| "eval_seq sys (e # es) m = do { (_, m) \<leftarrow> eval sys e m; eval_seq sys es m }"

fun stmts_code :: "fexp list \<Rightarrow> u8 list" where
  "stmts_code [] = []"
| "stmts_code [e] = gen e"
| "stmts_code (e # es) = gen e @ FINSH_OP_POP # stmts_code es"

lemma compile_stmts:
  assumes "\<And>e. e \<in> set es \<Longrightarrow> tree_ok e"
  shows "\<exists>ns. (\<forall>err. finsh_type_check (trees es) 0 err = (ns, err)) \<and> (ns = NULL \<longleftrightarrow> es = []) \<and>
     (\<forall>code err. compile_statements ns (code, err) = Some (code @ stmts_code es, err))"
  using assms
proof (induction es)
  case (Cons e es)
  then obtain ns where ns: "\<And>err. finsh_type_check (trees es) 0 err = (ns, err)" "ns = NULL \<longleftrightarrow> es = []"
    "\<And>code err. compile_statements ns (code, err) = Some (code @ stmts_code es, err)" by auto
  obtain n c where n: "checked e n c" using Cons.prems [of e] unfolding tree_ok_def by auto
  show ?case
    by (rule exI [of _ "Node n c ns"], cases es)
      (use ns in \<open>auto simp: checkedD [OF n] compile_one [OF checkedD(3) [OF n]]\<close>)
qed simp

lemma exec_noops:
  assumes "\<And>i. pc \<le> i \<Longrightarrow> t i = 0" "pc \<le> FINSH_TEXT_MAX"
  shows "vm_loop sys (VM stk sp pc t m) = Some (VM stk sp FINSH_TEXT_MAX t m)"
  using assms
proof (induction "FINSH_TEXT_MAX - pc" arbitrary: pc)
  case 0
  hence "pc = FINSH_TEXT_MAX" by simp
  thus ?case by (subst vm_loop.simps) simp
next
  case (Suc k)
  have "vm_loop sys (VM stk sp pc t m) = vm_loop sys (VM stk sp (pc + 1) t m)"
    by (rule vm_stepI [where t = t and pc = pc, OF Suc.prems(1)]) (use Suc.hyps(2) in \<open>auto simp: op_table_def OP_no_op_def\<close>)
  thus ?case using Suc by simp
qed

lemma exec_stmts:
  assumes "es \<noteq> []" "\<And>e. e \<in> set es \<Longrightarrow> wf_exp e" "eval_seq sys es m = Some (v, m')" "code_at t pc (stmts_code es)"
  shows "\<exists>stk'. vm_loop sys (VM stk 0 pc t m) = vm_loop sys (VM stk' 1 (pc + length (stmts_code es)) t m') \<and>
     low (valid (last es)) (stk' 0) = low (valid (last es)) v"
  using assms
proof (induction es arbitrary: stk pc m)
  case (Cons e es)
  have "2 * need e \<le> length (gen e)" by (rule need_code) (simp add: Cons.prems(2))
  moreover have ce: "code_at t pc (gen e)" using Cons.prems(4) by (cases es) (simp_all add: code_at_append)
  ultimately have n: "0 + need e \<le> FINSH_STACK_MAX" using code_at_bound [OF ce] by (simp add: FINSH_STACK_MAX_def FINSH_TEXT_MAX_def)
  have ok: "computes sys t e" by (rule computes_all) (simp add: Cons.prems(2))
  show ?case
  proof (cases es)
    case Nil
    hence "eval sys e m = Some (v, m')" using Cons.prems(3) by simp
    from computesD [OF ok this ce n, of stk] Nil show ?thesis by (auto simp: pushes_def)
  next
    case (Cons e' es')
    obtain u m1 where ev: "eval sys e m = Some (u, m1)" "eval_seq sys es m1 = Some (v, m')"
      using Cons.prems(3) Cons by (auto simp: bind_eq_Some_conv)
    obtain s1 where s1: "pushes sys t stk 0 pc m (pc + length (gen e)) m1 s1"
      using computesD [OF ok ev(1) ce n, of stk] by blast
    have c: "code_at t (pc + length (gen e)) [FINSH_OP_POP]" "code_at t (pc + length (gen e) + 1) (stmts_code es)"
      using Cons.prems(4) Cons by (simp_all add: code_at_append code_at_Cons code_at_bound) (auto simp: code_at_def)
    have "vm_loop sys (VM s1 1 (pc + length (gen e)) t m1) = vm_loop sys (VM s1 0 (pc + length (gen e) + 1) t m1)"
      using exec_pop [OF c(1), of 1 sys s1 m1] by simp
    moreover obtain s2 where "vm_loop sys (VM s1 0 (pc + length (gen e) + 1) t m1) =
        vm_loop sys (VM s2 1 (pc + length (gen e) + 1 + length (stmts_code es)) t m')"
      "low (valid (last es)) (s2 0) = low (valid (last es)) v"
      using Cons.IH [OF _ _ ev(2) c(2), of s1] Cons.prems(2) Cons by auto
    ultimately show ?thesis using s1 Cons by (intro exI [of _ s2]) (simp add: pushes_def ac_simps)
  qed
qed simp

text \<open>What the compiler leaves for the machine.\<close>

lemma compiler_run_code:
  assumes "\<And>e. e \<in> set es \<Longrightarrow> tree_ok e"
  shows "finsh_compiler_run (trees es) err st =
    (if length (stmts_code es) \<le> FINSH_TEXT_MAX
     then Some (st\<lparr>text_segment := (\<lambda>i. if i < length (stmts_code es) then stmts_code es ! i else 0),
                   finsh_vm_stack := (finsh_vm_stack st)(0 := 0)\<rparr>, err)
     else None)"
proof -
  obtain ns where "\<And>err. finsh_type_check (trees es) 0 err = (ns, err)"
    "\<And>code err. compile_statements ns (code, err) = Some (code @ stmts_code es, err)"
    using compile_stmts [OF assms] by blast
  thus ?thesis by (simp add: finsh_compiler_run_def)
qed

lemma run_code:
  assumes "text_segment st = (\<lambda>i. if i < length c then c ! i else 0)" "length c \<le> FINSH_TEXT_MAX"
    and "code_at (text_segment st) 0 c \<Longrightarrow>
      vm_loop sys (VM (finsh_vm_stack st) 0 0 (text_segment st) (vm_mem st)) = vm_loop sys (VM stk sp (length c) (text_segment st) m)"
  shows "finsh_vm_run sys st = Some (VM stk sp FINSH_TEXT_MAX (text_segment st) m)"
proof -
  have "st\<lparr>finsh_sp := 0, finsh_pc := 0\<rparr> = VM (finsh_vm_stack st) 0 0 (text_segment st) (vm_mem st)" by simp
  moreover have "code_at (text_segment st) 0 c" using assms(1,2) by (simp add: code_at_def)
  moreover have "vm_loop sys (VM stk sp (length c) (text_segment st) m) = Some (VM stk sp FINSH_TEXT_MAX (text_segment st) m)"
    by (rule exec_noops) (use assms(1,2) in simp_all)
  ultimately show ?thesis using assms(3) unfolding finsh_vm_run_def by metis
qed

text \<open>
  The compiler is correct: when the statements of a line are well-formed, fit the text segment and evaluate without undefined
  arithmetic, the compiled code runs to its end without leaving the machine's stack, leaves the memory the evaluator gives, and the
  bottom of the stack holds the value of the last statement in the bytes its type has.
\<close>

lemma run_stmts:
  assumes "es \<noteq> []" "\<forall>e\<in>set es. wf_exp e" "eval_seq sys es (vm_mem st) = Some (v, m')"
    and "finsh_compiler_run (trees es) 0 st = Some (st', err)"
  shows "err = 0 \<and> (\<exists>st''. finsh_vm_run sys st' = Some st'' \<and> vm_mem st'' = m' \<and>
     low (valid (last es)) (finsh_stack_bottom st'') = low (valid (last es)) v)"
proof -
  have wf: "\<And>e. e \<in> set es \<Longrightarrow> wf_exp e" using assms(2) by blast
  have ok: "\<And>e. e \<in> set es \<Longrightarrow> tree_ok e" using wf tree_ok_all by blast
  have st': "err = 0" "length (stmts_code es) \<le> FINSH_TEXT_MAX" "vm_mem st' = vm_mem st"
    "text_segment st' = (\<lambda>i. if i < length (stmts_code es) then stmts_code es ! i else 0)"
    using assms(4) compiler_run_code [of es 0 st] ok by (auto split: if_splits)
  have "code_at (text_segment st') 0 (stmts_code es)" using st' by (simp add: code_at_def)
  then obtain stk where stk: "vm_loop sys (VM (finsh_vm_stack st') 0 0 (text_segment st') (vm_mem st)) =
      vm_loop sys (VM stk 1 (length (stmts_code es)) (text_segment st') m')" "low (valid (last es)) (stk 0) = low (valid (last es)) v"
    using exec_stmts [OF assms(1) wf assms(3), of "text_segment st'" 0 "finsh_vm_stack st'"] by auto
  have "finsh_vm_run sys st' = Some (VM stk 1 FINSH_TEXT_MAX (text_segment st') m')"
    by (rule run_code [OF st'(4,2)]) (simp add: stk(1) st'(3))
  thus ?thesis using st'(1) stk(2) by (simp add: finsh_stack_bottom_def)
qed

section \<open>Properties\<close>



text \<open>
  The compiler does not check the size of the text segment: a line with six statements \<^verbatim>\<open>a++;\<close> on a
  variable of two or four bytes, which needs 12 of the 16 nodes,
  is compiled past the end of the segment.
\<close>

lemma increments_overflow:
  assumes "is_var s" "sym_width s \<noteq> 1" shows "finsh_compiler_run (trees (replicate 6 (Post up s))) 0 st = None"
proof -
  have w: "width (sym_width s)" using assms(1) is_var_lval sym_width_cases by blast
  have l: "length (gen (Post up s)) \<ge> 21" using w assms(2) by (auto simp: code_pre_post code_one_def data_type_defs code_word_def)
  have "length (stmts_code (replicate 6 (Post up s))) = 6 * length (gen (Post up s)) + 5"
    by (simp add: numeral_eq_Suc)
  hence "\<not> length (stmts_code (replicate 6 (Post up s))) \<le> FINSH_TEXT_MAX"
    using l by (simp add: FINSH_TEXT_MAX_def del: gen.simps)
  moreover have "tree_ok (Post up s)" by (rule tree_ok_all) (simp add: assms(1))
  ultimately show ?thesis using compiler_run_code [of "replicate 6 (Post up s)" 0 st] by simp
qed

lemma increments_overflow_witness:
  "finsh_compiler_run (trees (replicate 6 (Post True (SymVar 0x1000 finsh_type_int)))) 0 (VM (\<lambda>_. 0) 0 0 (\<lambda>_. 0) (\<lambda>_. 0)) = None"
  using increments_overflow [of "SymVar 0x1000 finsh_type_int"] by (simp add: sym_width_def data_type_defs)

text \<open>
  The type of a function's result is not known to the compiler, and an operator whose left operand has no type is
  compiled to nothing: \<^verbatim>\<open>f() + k\<close> yields the result of \<^verbatim>\<open>f()\<close>.
\<close>

lemma call_operand_dropped:
  assumes "sys f [0] (vm_mem st) = Some (r, m')"
  shows "\<exists>st' st''. finsh_compiler_run (tree (Bin g (Call p f []) (Num k)) NULL) 0 st = Some (st', 0) \<and>
     finsh_vm_run sys st' = Some st'' \<and> finsh_stack_bottom st'' = r"
proof -
  let ?e = "Bin g (Call p f []) (Num k)" let ?c = "gen (Call p f []) @ ld_dword k"
  have ok: "tree_ok ?e" by (intro tree_ok_Bin tree_ok_all) simp_all
  have g: "gen ?e = ?c" by (simp add: sized_op_def data_type_defs)
  define st' where "st' = st\<lparr>text_segment := (\<lambda>i. if i < length ?c then ?c ! i else 0), finsh_vm_stack := (finsh_vm_stack st)(0 := 0)\<rparr>"
  have c: "finsh_compiler_run (tree ?e NULL) 0 st = Some (st', 0)"
    using compiler_run_code [of "[?e]" 0 st] ok unfolding trees.simps stmts_code.simps g st'_def
    by (simp del: gen.simps tree.simps add: FINSH_TEXT_MAX_def) (simp add: FINSH_TEXT_MAX_def)
  have "vm_mem st' = vm_mem st" "text_segment st' = (\<lambda>i. if i < length ?c then ?c ! i else 0)" by (simp_all add: st'_def)
  note c = c this
  let ?t = "text_segment st'"
  have at: "code_at ?t 0 (gen (Call p f []))" "code_at ?t 7 (ld_dword k)"
    using code_at_append [of ?t 0 "gen (Call p f [])" "ld_dword k"] c(3) by (auto simp: code_at_def FINSH_TEXT_MAX_def)
  have "computes sys ?t (Call p f [])" by (rule computes_all) simp
  from computesD [OF this _ at(1), of "vm_mem st" r m' 0 "finsh_vm_stack st'"] obtain s1
    where s1: "pushes sys ?t (finsh_vm_stack st') 0 0 (vm_mem st) 7 m' s1" "s1 0 = r"
    using assms by (auto simp: FINSH_STACK_MAX_def low_def)
  have "vm_loop sys (VM s1 1 7 ?t m') = vm_loop sys (VM (s1(1 := k)) (Suc 1) 12 ?t m')"
    using exec_ld_dword [OF at(2), of 1 sys s1 m'] by (simp add: FINSH_STACK_MAX_def)
  hence "finsh_vm_run sys st' = Some (VM (s1(1 := k)) (Suc 1) FINSH_TEXT_MAX ?t m')"
    using s1(1) by (intro run_code [OF c(3)]) (simp_all add: FINSH_TEXT_MAX_def pushes_def c(2))
  thus ?thesis using c(1) s1(2) by (simp add: finsh_stack_bottom_def)
qed

end
