(* ===== verification/Rt_Finsh_Grammar.thy ===== *)
theory Rt_Finsh_Grammar
  imports Rt_Finsh
begin

text \<open>
  The parser of the shell as a grammar. A run of the parser with enough fuel is described by one rule for each way through a function; on top of them,
  \<open>reads\<close> says which tokens a function of the parser consumes, which tree it builds and how many nodes it takes.
\<close>

section \<open>Enough fuel\<close>

definition evn :: "(nat \<Rightarrow> bool) \<Rightarrow> bool" where "evn P \<longleftrightarrow> (\<exists>K. \<forall>k\<ge>K. P k)"

lemma evn_conj: "evn P \<Longrightarrow> evn Q \<Longrightarrow> evn (\<lambda>k. P k \<and> Q k)"
  unfolding evn_def by (metis le_trans linear)

lemma evn_mono: "evn P \<Longrightarrow> (\<And>k. P k \<Longrightarrow> Q k) \<Longrightarrow> evn Q"
  unfolding evn_def by blast

lemma evn_Suc: "evn (\<lambda>k. P (Suc k)) \<Longrightarrow> evn P"
  unfolding evn_def by (metis Suc_le_D Suc_le_mono)

definition parses :: "finsh_env \<Rightarrow> nonterm \<Rightarrow> finsh_ps \<Rightarrow> finsh_node \<Rightarrow> finsh_ps \<Rightarrow> bool" where
  "parses env nt st x st' \<longleftrightarrow> evn (\<lambda>k. proc k env nt st = Some (x, st'))"

lemma parses_step: "evn (\<lambda>k. proc_step env (proc k env) nt st = Some (x, st')) \<Longrightarrow> parses env nt st x st'"
  unfolding parses_def by (rule evn_Suc) simp

section \<open>Rules of the parser\<close>

text \<open>One rule for each way through a function.\<close>

lemma parses_assign:
  assumes "parses env (PBin 1) st x st1" "next_token st1 = Some st2" "token_of st2 \<noteq> finsh_token_type_assign"
  shows "parses env PAssign st x (finsh_token_replay st2)"
  by (rule parses_step, rule evn_mono [OF assms(1) [unfolded parses_def]])
    (simp add: proc_step_def proc_assign_expr_def assms(2,3))

lemma parses_assign_to:
  assumes "parses env (PBin 1) st x st1" "next_token st1 = Some st2" "token_of st2 = finsh_token_type_assign"
    and "parses env PAssign st2 y st3" "make_sys_node FINSH_NODE_SYS_ASSIGN x y st3 = (z, st4)"
  shows "parses env PAssign st z st4"
  by (rule parses_step, rule evn_mono [OF evn_conj [OF assms(1) [unfolded parses_def] assms(4) [unfolded parses_def]]])
    (simp add: proc_step_def proc_assign_expr_def assms(2,3,5))

lemma parses_bin:
  assumes "l \<le> 6" "parses env (PBin (l + 1)) st x st1" "next_token st1 = Some st2" "parses env (PBinLoop l x) st2 z st3"
  shows "parses env (PBin l) st z st3"
  by (rule parses_step, rule evn_mono [OF evn_conj [OF assms(2) [unfolded parses_def] assms(4) [unfolded parses_def]]])
    (use assms(1) in \<open>simp add: proc_step_def proc_binary_expr_def assms(3)\<close>)

lemma parses_bin_cast:
  assumes "parses env PCast st x st1" shows "parses env (PBin 7) st x st1"
  by (rule parses_step, rule evn_mono [OF assms [unfolded parses_def]]) (simp add: proc_step_def proc_binary_expr_def)

lemma parses_loop_end: "bin_node l (token_of st) = None \<Longrightarrow> parses env (PBinLoop l x) st x (finsh_token_replay st)"
  by (rule parses_step) (simp add: evn_def proc_step_def proc_binary_loop_def)

lemma parses_loop:
  assumes "bin_node l (token_of st) = Some nt" "parses env (PBin (l + 1)) st y st1" "y \<noteq> NULL" "make_sys_node nt x y st1 = (z, st2)"
    and "next_token st2 = Some st3" "parses env (PBinLoop l z) st3 w st4"
  shows "parses env (PBinLoop l x) st w st4"
  by (rule parses_step, rule evn_mono [OF evn_conj [OF assms(2) [unfolded parses_def] assms(6) [unfolded parses_def]]])
    (simp add: proc_step_def proc_binary_loop_def assms(1,3,4,5))

lemma parses_cast:
  assumes "next_token st = Some st1" "token_of st1 \<noteq> finsh_token_type_left_paren" "parses env PUnary (finsh_token_replay st1) x st2"
  shows "parses env PCast st x st2"
  by (rule parses_step, rule evn_mono [OF assms(3) [unfolded parses_def]])
    (simp add: proc_step_def proc_cast_expr_def assms(1,2))

lemma parses_unary:
  assumes "next_token st = Some st1" "unary_node (token_of st1) = Some nt" "parses env PCast st1 x st2"
    and "make_sys_node nt x NULL st2 = (z, st3)"
  shows "parses env PUnary st z st3"
proof -
  have "token_of st1 \<noteq> finsh_token_type_add" "token_of st1 \<noteq> finsh_token_type_sub" using assms(2) by auto
  thus ?thesis
    by (intro parses_step evn_mono [OF assms(3) [unfolded parses_def]])
      (simp add: proc_step_def proc_unary_expr_def assms(1,2,4))
qed

lemma parses_unary_postfix:
  assumes "next_token st = Some st1" "unary_node (token_of st1) = None"
    and "token_of st1 \<noteq> finsh_token_type_add" "token_of st1 \<noteq> finsh_token_type_sub" "parses env PPostfix (finsh_token_replay st1) x st2"
  shows "parses env PUnary st x st2"
  by (rule parses_step, rule evn_mono [OF assms(5) [unfolded parses_def]])
    (simp add: proc_step_def proc_unary_expr_def assms(1-4))

lemma parses_postfix:
  assumes "parses env PPrimary st x st1" "next_token st1 = Some st2" "parses env (PPostfixLoop x) st2 z st3"
  shows "parses env PPostfix st z st3"
  by (rule parses_step, rule evn_mono [OF evn_conj [OF assms(1) [unfolded parses_def] assms(3) [unfolded parses_def]]])
    (simp add: proc_step_def proc_postfix_expr_def assms(2))

lemma parses_postfix_end:
  "token_of st \<notin> {finsh_token_type_inc, finsh_token_type_dec, finsh_token_type_left_paren} \<Longrightarrow>
   parses env (PPostfixLoop x) st x (finsh_token_replay st)"
  by (rule parses_step) (simp add: evn_def proc_step_def proc_postfix_loop_def)

lemma parses_postfix_step:
  assumes "token_of st = (if up then finsh_token_type_inc else finsh_token_type_dec)"
    and "make_sys_node (if up then FINSH_NODE_SYS_INC else FINSH_NODE_SYS_DEC) x NULL st = (z, st1)"
    and "next_token st1 = Some st2" "parses env (PPostfixLoop z) st2 w st3"
  shows "parses env (PPostfixLoop x) st w st3"
  by (rule parses_step, rule evn_mono [OF assms(4) [unfolded parses_def]])
    (use assms(1-3) in \<open>simp add: proc_step_def proc_postfix_loop_def split: if_splits\<close>)

lemma parses_call_empty:
  assumes "token_of st = finsh_token_type_left_paren" "next_token st = Some st1" "token_of st1 = finsh_token_type_right_paren"
    and "make_sys_node FINSH_NODE_SYS_FUNC x NULL st1 = (z, st2)" "next_token st2 = Some st3" "parses env (PPostfixLoop z) st3 w st4"
  shows "parses env (PPostfixLoop x) st w st4"
  by (rule parses_step, rule evn_mono [OF assms(6) [unfolded parses_def]])
    (simp add: proc_step_def proc_postfix_loop_def proc_call_def assms(1-5))

lemma parses_call:
  assumes "token_of st = finsh_token_type_left_paren" "next_token st = Some st1" "token_of st1 \<noteq> finsh_token_type_right_paren"
    and "parses env PParams (finsh_token_replay st1) ps st2" "match_token finsh_token_type_right_paren st2 = Some st3"
    and "make_sys_node FINSH_NODE_SYS_FUNC x ps st3 = (z, st4)" "next_token st4 = Some st5" "parses env (PPostfixLoop z) st5 w st6"
  shows "parses env (PPostfixLoop x) st w st6"
  by (rule parses_step, rule evn_mono [OF evn_conj [OF assms(4) [unfolded parses_def] assms(8) [unfolded parses_def]]])
    (simp add: proc_step_def proc_postfix_loop_def proc_call_def assms(1-3,5-7))

lemma parses_leaf:
  assumes "next_token st = Some st1" "token_of st1 \<noteq> finsh_token_type_left_paren" "primary_leaf env st1 = Some (x, st2)"
  shows "parses env PPrimary st x st2"
  by (rule parses_step) (simp add: evn_def proc_step_def proc_primary_expr_def assms)

lemma parses_params:
  assumes "parses env PAssign st x st1" "x \<noteq> NULL" "next_token st1 = Some st2" "parses env (PParamLoop [x]) st2 z st3"
  shows "parses env PParams st z st3"
  by (rule parses_step, rule evn_mono [OF evn_conj [OF assms(1) [unfolded parses_def] assms(4) [unfolded parses_def]]])
    (simp add: proc_step_def proc_param_list_def assms(2,3))

lemma parses_param_end:
  "token_of st \<noteq> finsh_token_type_comma \<Longrightarrow> parses env (PParamLoop xs) st (chain xs) (finsh_token_replay st)"
  by (rule parses_step) (simp add: evn_def proc_step_def proc_param_loop_def)

lemma parses_param_loop:
  assumes "token_of st = finsh_token_type_comma" "parses env PAssign st x st1" "x \<noteq> NULL" "next_token st1 = Some st2"
    and "parses env (PParamLoop (xs @ [x])) st2 z st3"
  shows "parses env (PParamLoop xs) st z st3"
  by (rule parses_step, rule evn_mono [OF evn_conj [OF assms(2) [unfolded parses_def] assms(5) [unfolded parses_def]]])
    (simp add: proc_step_def proc_param_loop_def assms(1,3,4))

section \<open>Tokens to come\<close>

text \<open>A token with what the parser uses of it.\<close>

datatype ltok = LT finsh_token_type | LInt u32 | LChr u8 | LId "u8 list"

fun kind :: "ltok \<Rightarrow> finsh_token_type" where
  "kind (LT t) = t"
| "kind (LInt _) = finsh_token_type_value_int"
| "kind (LChr _) = finsh_token_type_value_char"
| "kind (LId _) = finsh_token_type_identifier"

fun carries :: "ltok \<Rightarrow> finsh_token \<Rightarrow> bool" where
  "carries (LT _) tk = True"
| "carries (LInt v) tk = (tk_value tk = v)"
| "carries (LChr c) tk = (char_value (tk_value tk) = c)"
| "carries (LId s) tk = (tk_string tk = s)"

text \<open>The scanner has just read the token \<open>t\<close> without an error.\<close>

definition has_read :: "ltok \<Rightarrow> finsh_token \<Rightarrow> bool" where
  "has_read t tk \<longleftrightarrow> current_token tk = kind t \<and> carries t tk \<and> \<not> tk_replay tk \<and> global_errno tk = 0"

fun stream :: "finsh_token \<Rightarrow> ltok list \<Rightarrow> bool" where
  "stream tk [] = True"
| "stream tk (t # ts) = (\<exists>tk'. finsh_token_token tk = Some tk' \<and> has_read t tk' \<and> stream tk' ts)"

lemma stream_replay: "has_read t tk \<Longrightarrow> stream (tk\<lparr>tk_replay := True\<rparr>) (t # ts) = stream tk ts"
proof -
  assume h: "has_read t tk"
  hence "tk\<lparr>tk_replay := False\<rparr> = tk" unfolding has_read_def by (cases tk) simp
  thus ?thesis using h by (simp add: finsh_token_token_def)
qed

text \<open>A state of the parser before the tokens \<open>ts\<close>, and after it has read the first of them. \<open>n\<close> nodes are in use.\<close>

definition before :: "finsh_ps \<Rightarrow> nat \<Rightarrow> finsh_var list \<Rightarrow> ltok list \<Rightarrow> bool" where
  "before st n vs ts \<longleftrightarrow> stream (ps_token st) ts \<and> ps_nodes st = n \<and> global_variable st = vs"

definition after :: "finsh_ps \<Rightarrow> nat \<Rightarrow> finsh_var list \<Rightarrow> ltok \<Rightarrow> ltok list \<Rightarrow> bool" where
  "after st n vs t ts \<longleftrightarrow> has_read t (ps_token st) \<and> before st n vs ts"

lemma before_next: "before st n vs (t # ts) \<Longrightarrow> \<exists>st'. next_token st = Some st' \<and> after st' n vs t ts"
  by (auto simp: before_def after_def next_token_def)

lemma after_replay: "after st n vs t ts \<Longrightarrow> before (finsh_token_replay st) n vs (t # ts)"
  using stream_replay [of t "ps_token st" ts] by (simp add: before_def after_def finsh_token_replay_def)

lemma after_kind: "after st n vs t ts \<Longrightarrow> token_of st = kind t"
  by (simp add: after_def has_read_def)

lemma after_before: "after st n vs t ts \<Longrightarrow> before st n vs ts"
  by (simp add: after_def)

lemma next_replay: "after st n vs t ts \<Longrightarrow> next_token (finsh_token_replay st) = Some st"
  by (cases st, cases "ps_token st") (simp add: after_def has_read_def next_token_def finsh_token_replay_def finsh_token_token_def)

section \<open>Reading a phrase\<close>

text \<open>
  A function of the parser reads from the tokens \<open>ts\<close> the tree \<open>x\<close>, uses \<open>n\<close> nodes for it, and stops before \<open>us\<close>. The loops start when
  the first token has been read.
\<close>

definition reads :: "finsh_env \<Rightarrow> finsh_var list \<Rightarrow> nonterm \<Rightarrow> ltok list \<Rightarrow> finsh_node \<Rightarrow> nat \<Rightarrow> ltok list \<Rightarrow> bool" where
  "reads env vs nt ts x n us \<longleftrightarrow>
     (\<forall>st k. before st k vs ts \<longrightarrow> k + n \<le> FINSH_NODE_MAX \<longrightarrow> (\<exists>st'. parses env nt st x st' \<and> before st' (k + n) vs us))"

definition loops :: "finsh_env \<Rightarrow> finsh_var list \<Rightarrow> nonterm \<Rightarrow> ltok list \<Rightarrow> finsh_node \<Rightarrow> nat \<Rightarrow> ltok list \<Rightarrow> bool" where
  "loops env vs nt ts x n us \<longleftrightarrow>
     (\<forall>st k t ts'. ts = t # ts' \<longrightarrow> after st k vs t ts' \<longrightarrow> k + n \<le> FINSH_NODE_MAX \<longrightarrow>
        (\<exists>st'. parses env nt st x st' \<and> before st' (k + n) vs us))"

lemma readsI:
  "(\<And>st k. before st k vs ts \<Longrightarrow> k + n \<le> FINSH_NODE_MAX \<Longrightarrow> \<exists>st'. parses env nt st x st' \<and> before st' (k + n) vs us) \<Longrightarrow>
   reads env vs nt ts x n us"
  unfolding reads_def by blast

lemma readsD:
  "reads env vs nt ts x n us \<Longrightarrow> before st k vs ts \<Longrightarrow> k + n \<le> FINSH_NODE_MAX \<Longrightarrow>
   \<exists>st'. parses env nt st x st' \<and> before st' (k + n) vs us"
  unfolding reads_def by blast

lemma loopsI:
  "(\<And>st k. after st k vs t ts \<Longrightarrow> k + n \<le> FINSH_NODE_MAX \<Longrightarrow> \<exists>st'. parses env nt st x st' \<and> before st' (k + n) vs us) \<Longrightarrow>
   loops env vs nt (t # ts) x n us"
  unfolding loops_def by blast

lemma loopsD:
  "loops env vs nt (t # ts) x n us \<Longrightarrow> after st k vs t ts \<Longrightarrow> k + n \<le> FINSH_NODE_MAX \<Longrightarrow>
   \<exists>st'. parses env nt st x st' \<and> before st' (k + n) vs us"
  unfolding loops_def by blast

lemma make_node:
  assumes "k < FINSH_NODE_MAX" "x \<noteq> NULL" "before st k vs ts"
  shows "\<exists>st'. make_sys_node nt x y st = (Node (info nt) (set_sibling x y) NULL, st') \<and> before st' (k + 1) vs ts"
  using assms by (auto simp: make_sys_node_def finsh_node_allocate_def before_def)

lemma make_node_after:
  assumes "k < FINSH_NODE_MAX" "x \<noteq> NULL" "after st k vs t ts"
  shows "\<exists>st'. make_sys_node nt x y st = (Node (info nt) (set_sibling x y) NULL, st') \<and> after st' (k + 1) vs t ts"
  using assms by (auto simp: make_sys_node_def finsh_node_allocate_def before_def after_def)

text \<open>The rules of the grammar.\<close>

lemma reads_assign:
  assumes "reads env vs (PBin 1) ts x n (t # us)" "kind t \<noteq> finsh_token_type_assign"
  shows "reads env vs PAssign ts x n (t # us)"
proof (rule readsI)
  fix st k
  assume b: "before st k vs ts" and k: "k + n \<le> FINSH_NODE_MAX"
  obtain st1 where s1: "parses env (PBin 1) st x st1" "before st1 (k + n) vs (t # us)" using readsD [OF assms(1) b k] by blast
  obtain st2 where s2: "next_token st1 = Some st2" "after st2 (k + n) vs t us" using before_next [OF s1(2)] by blast
  show "\<exists>st'. parses env PAssign st x st' \<and> before st' (k + n) vs (t # us)"
    using parses_assign [OF s1(1) s2(1)] after_kind [OF s2(2)] assms(2) after_replay [OF s2(2)] by auto
qed

lemma reads_assign_to:
  assumes "reads env vs (PBin 1) ts x n (t # us)" "kind t = finsh_token_type_assign" "reads env vs PAssign us y m ws" "x \<noteq> NULL"
  shows "reads env vs PAssign ts (Node (info FINSH_NODE_SYS_ASSIGN) (set_sibling x y) NULL) (n + m + 1) ws"
proof (rule readsI)
  fix st k
  assume b: "before st k vs ts" and k: "k + (n + m + 1) \<le> FINSH_NODE_MAX"
  obtain st1 where s1: "parses env (PBin 1) st x st1" "before st1 (k + n) vs (t # us)" using readsD [OF assms(1) b] k by auto
  obtain st2 where s2: "next_token st1 = Some st2" "after st2 (k + n) vs t us" using before_next [OF s1(2)] by blast
  obtain st3 where s3: "parses env PAssign st2 y st3" "before st3 (k + n + m) vs ws"
    using readsD [OF assms(3) after_before [OF s2(2)]] k by auto
  obtain st4 where s4: "make_sys_node FINSH_NODE_SYS_ASSIGN x y st3 = (Node (info FINSH_NODE_SYS_ASSIGN) (set_sibling x y) NULL, st4)"
    "before st4 (k + n + m + 1) vs ws" using make_node [OF _ assms(4) s3(2)] k by auto
  have "token_of st2 = finsh_token_type_assign" using after_kind [OF s2(2)] assms(2) by simp
  from parses_assign_to [OF s1(1) s2(1) this s3(1) s4(1)] s4(2)
  show "\<exists>st'. parses env PAssign st (Node (info FINSH_NODE_SYS_ASSIGN) (set_sibling x y) NULL) st' \<and> before st' (k + (n + m + 1)) vs ws"
    by (auto simp: add.assoc)
qed

lemma reads_bin:
  assumes "l \<le> 6" "reads env vs (PBin (l + 1)) ts x n us" "loops env vs (PBinLoop l x) us z m ws" "us \<noteq> []"
  shows "reads env vs (PBin l) ts z (n + m) ws"
proof (rule readsI)
  fix st k
  assume b: "before st k vs ts" and k: "k + (n + m) \<le> FINSH_NODE_MAX"
  obtain t us' where us: "us = t # us'" using assms(4) by (cases us) auto
  obtain st1 where s1: "parses env (PBin (l + 1)) st x st1" "before st1 (k + n) vs (t # us')" using readsD [OF assms(2) b] k us by auto
  obtain st2 where s2: "next_token st1 = Some st2" "after st2 (k + n) vs t us'" using before_next [OF s1(2)] by blast
  obtain st3 where s3: "parses env (PBinLoop l x) st2 z st3" "before st3 (k + n + m) vs ws"
    using loopsD [OF assms(3) [unfolded us] s2(2)] k by auto
  from parses_bin [OF assms(1) s1(1) s2(1) s3(1)] s3(2)
  show "\<exists>st'. parses env (PBin l) st z st' \<and> before st' (k + (n + m)) vs ws" by (auto simp: add.assoc)
qed

lemma reads_bin_cast: "reads env vs PCast ts x n us \<Longrightarrow> reads env vs (PBin 7) ts x n us"
  unfolding reads_def using parses_bin_cast by blast

lemma loops_end: "bin_node l (kind t) = None \<Longrightarrow> loops env vs (PBinLoop l x) (t # us) x 0 (t # us)"
proof (rule loopsI)
  fix st k
  assume "bin_node l (kind t) = None" and a: "after st k vs t us"
  hence "bin_node l (token_of st) = None" using after_kind [OF a] by simp
  from parses_loop_end [OF this] after_replay [OF a]
  show "\<exists>st'. parses env (PBinLoop l x) st x st' \<and> before st' (k + 0) vs (t # us)" by auto
qed

lemma loops_step:
  assumes "bin_node l (kind t) = Some nt" "reads env vs (PBin (l + 1)) ts y n us" "x \<noteq> NULL" "y \<noteq> NULL" "us \<noteq> []"
    and "loops env vs (PBinLoop l (Node (info nt) (set_sibling x y) NULL)) us z m ws"
  shows "loops env vs (PBinLoop l x) (t # ts) z (n + 1 + m) ws"
proof (rule loopsI)
  fix st k
  assume a: "after st k vs t ts" and k: "k + (n + 1 + m) \<le> FINSH_NODE_MAX"
  obtain u us' where us: "us = u # us'" using assms(5) by (cases us) auto
  obtain st1 where s1: "parses env (PBin (l + 1)) st y st1" "before st1 (k + n) vs us"
    using readsD [OF assms(2) after_before [OF a]] k by auto
  obtain st2 where s2: "make_sys_node nt x y st1 = (Node (info nt) (set_sibling x y) NULL, st2)" "before st2 (k + n + 1) vs us"
    using make_node [OF _ assms(3) s1(2)] k by auto
  obtain st3 where s3: "next_token st2 = Some st3" "after st3 (k + n + 1) vs u us'" using before_next s2(2) us by blast
  obtain st4 where s4: "parses env (PBinLoop l (Node (info nt) (set_sibling x y) NULL)) st3 z st4" "before st4 (k + n + 1 + m) vs ws"
    using loopsD [OF assms(6) [unfolded us] s3(2)] k by auto
  have "bin_node l (token_of st) = Some nt" using assms(1) after_kind [OF a] by simp
  from parses_loop [OF this s1(1) assms(4) s2(1) s3(1) s4(1)] s4(2)
  show "\<exists>st'. parses env (PBinLoop l x) st z st' \<and> before st' (k + (n + 1 + m)) vs ws" by (auto simp: ac_simps)
qed

lemma reads_unary:
  assumes "unary_node (kind t) = Some nt" "reads env vs PCast ts x n us" "x \<noteq> NULL"
  shows "reads env vs PCast (t # ts) (Node (info nt) (set_sibling x NULL) NULL) (n + 1) us"
proof (rule readsI)
  fix st k
  assume b: "before st k vs (t # ts)" and k: "k + (n + 1) \<le> FINSH_NODE_MAX"
  obtain st1 where s1: "next_token st = Some st1" "after st1 k vs t ts" using before_next [OF b] by blast
  obtain st2 where s2: "parses env PCast st1 x st2" "before st2 (k + n) vs us"
    using readsD [OF assms(2) after_before [OF s1(2)]] k by auto
  obtain st3 where s3: "make_sys_node nt x NULL st2 = (Node (info nt) (set_sibling x NULL) NULL, st3)" "before st3 (k + n + 1) vs us"
    using make_node [OF _ assms(3) s2(2)] k by auto
  have t: "unary_node (token_of st1) = Some nt" "token_of st1 \<noteq> finsh_token_type_left_paren"
    using assms(1) after_kind [OF s1(2)] by auto
  from parses_cast [OF s1(1) t(2) parses_unary [OF next_replay [OF s1(2)] t(1) s2(1) s3(1)]] s3(2)
  show "\<exists>st'. parses env PCast st (Node (info nt) (set_sibling x NULL) NULL) st' \<and> before st' (k + (n + 1)) vs us"
    by (auto simp: add.assoc)
qed

lemma reads_postfix:
  assumes "reads env vs PPostfix (t # ts) x n us"
    and "kind t \<in> {finsh_token_type_identifier, finsh_token_type_value_int, finsh_token_type_value_char}"
  shows "reads env vs PCast (t # ts) x n us"
proof (rule readsI)
  fix st k
  assume b: "before st k vs (t # ts)" and k: "k + n \<le> FINSH_NODE_MAX"
  obtain st1 where s1: "next_token st = Some st1" "after st1 k vs t ts" using before_next [OF b] by blast
  obtain st2 where s2: "parses env PPostfix (finsh_token_replay st1) x st2" "before st2 (k + n) vs us"
    using readsD [OF assms(1) after_replay [OF s1(2)] k] by blast
  have t: "token_of st1 \<noteq> finsh_token_type_left_paren" "unary_node (token_of st1) = None"
    "token_of st1 \<noteq> finsh_token_type_add" "token_of st1 \<noteq> finsh_token_type_sub"
    using assms(2) after_kind [OF s1(2)] by auto
  from parses_cast [OF s1(1) t(1) parses_unary_postfix [OF next_replay [OF s1(2)] t(2-4) s2(1)]] s2(2)
  show "\<exists>st'. parses env PCast st x st' \<and> before st' (k + n) vs us" by blast
qed

lemma reads_primary:
  assumes "reads env vs PPrimary ts x n us" "us \<noteq> []" "loops env vs (PPostfixLoop x) us z m ws"
  shows "reads env vs PPostfix ts z (n + m) ws"
proof (rule readsI)
  fix st k
  assume b: "before st k vs ts" and k: "k + (n + m) \<le> FINSH_NODE_MAX"
  obtain t us' where us: "us = t # us'" using assms(2) by (cases us) auto
  obtain st1 where s1: "parses env PPrimary st x st1" "before st1 (k + n) vs (t # us')" using readsD [OF assms(1) b] k us by auto
  obtain st2 where s2: "next_token st1 = Some st2" "after st2 (k + n) vs t us'" using before_next [OF s1(2)] by blast
  obtain st3 where s3: "parses env (PPostfixLoop x) st2 z st3" "before st3 (k + n + m) vs ws"
    using loopsD [OF assms(3) [unfolded us] s2(2)] k by auto
  from parses_postfix [OF s1(1) s2(1) s3(1)] s3(2)
  show "\<exists>st'. parses env PPostfix st z st' \<and> before st' (k + (n + m)) vs ws" by (auto simp: add.assoc)
qed

lemma loops_postfix_end:
  assumes "kind t \<notin> {finsh_token_type_inc, finsh_token_type_dec, finsh_token_type_left_paren}"
  shows "loops env vs (PPostfixLoop x) (t # us) x 0 (t # us)"
proof (rule loopsI)
  fix st k
  assume a: "after st k vs t us"
  from parses_postfix_end [of st env x] after_kind [OF a] after_replay [OF a] assms
  show "\<exists>st'. parses env (PPostfixLoop x) st x st' \<and> before st' (k + 0) vs (t # us)" by auto
qed

lemma loops_postfix_step:
  assumes "kind t = (if up then finsh_token_type_inc else finsh_token_type_dec)" "x \<noteq> NULL" "us \<noteq> []"
    and "loops env vs (PPostfixLoop (Node (info (if up then FINSH_NODE_SYS_INC else FINSH_NODE_SYS_DEC)) (set_sibling x NULL) NULL)) us z m ws"
  shows "loops env vs (PPostfixLoop x) (t # us) z (1 + m) ws"
proof (rule loopsI)
  fix st k
  assume a: "after st k vs t us" and k: "k + (1 + m) \<le> FINSH_NODE_MAX"
  obtain u us' where us: "us = u # us'" using assms(3) by (cases us) auto
  define nt where "nt = (if up then FINSH_NODE_SYS_INC else FINSH_NODE_SYS_DEC)"
  obtain st1 where s1: "make_sys_node nt x NULL st = (Node (info nt) (set_sibling x NULL) NULL, st1)" "before st1 (k + 1) vs us"
    using make_node [OF _ assms(2) after_before [OF a]] k by auto
  obtain st2 where s2: "next_token st1 = Some st2" "after st2 (k + 1) vs u us'" using before_next s1(2) us by blast
  obtain st3 where s3: "parses env (PPostfixLoop (Node (info nt) (set_sibling x NULL) NULL)) st2 z st3" "before st3 (k + 1 + m) vs ws"
    using loopsD [OF assms(4) [folded nt_def, unfolded us] s2(2)] k by auto
  have "token_of st = (if up then finsh_token_type_inc else finsh_token_type_dec)" using assms(1) after_kind [OF a] by simp
  from parses_postfix_step [OF this s1(1) [unfolded nt_def] s2(1) s3(1) [unfolded nt_def]] s3(2)
  show "\<exists>st'. parses env (PPostfixLoop x) st z st' \<and> before st' (k + (1 + m)) vs ws" by (auto simp: add.assoc)
qed

lemma after_match: "before st k vs (t # us) \<Longrightarrow> kind t = ty \<Longrightarrow> \<exists>st'. match_token ty st = Some st' \<and> after st' k vs t us"
  using before_next [of st k vs t us] after_kind by (fastforce simp: match_token_def check_token_def)

lemma loops_call_empty:
  assumes "kind t = finsh_token_type_left_paren" "kind r = finsh_token_type_right_paren" "x \<noteq> NULL" "us \<noteq> []"
    and "loops env vs (PPostfixLoop (Node (info FINSH_NODE_SYS_FUNC) (set_sibling x NULL) NULL)) us z m ws"
  shows "loops env vs (PPostfixLoop x) (t # r # us) z (1 + m) ws"
proof (rule loopsI)
  fix st k
  assume a: "after st k vs t (r # us)" and k: "k + (1 + m) \<le> FINSH_NODE_MAX"
  obtain u us' where us: "us = u # us'" using assms(4) by (cases us) auto
  obtain st1 where s1: "next_token st = Some st1" "after st1 k vs r us" using before_next [OF after_before [OF a]] by blast
  obtain st2 where s2: "make_sys_node FINSH_NODE_SYS_FUNC x NULL st1 = (Node (info FINSH_NODE_SYS_FUNC) (set_sibling x NULL) NULL, st2)"
    "before st2 (k + 1) vs us" using make_node [OF _ assms(3) after_before [OF s1(2)]] k by auto
  obtain st3 where s3: "next_token st2 = Some st3" "after st3 (k + 1) vs u us'" using before_next s2(2) us by blast
  obtain st4 where s4: "parses env (PPostfixLoop (Node (info FINSH_NODE_SYS_FUNC) (set_sibling x NULL) NULL)) st3 z st4"
    "before st4 (k + 1 + m) vs ws" using loopsD [OF assms(5) [unfolded us] s3(2)] k by auto
  have "token_of st = finsh_token_type_left_paren" "token_of st1 = finsh_token_type_right_paren"
    using assms(1,2) after_kind [OF a] after_kind [OF s1(2)] by simp_all
  from parses_call_empty [OF this(1) s1(1) this(2) s2(1) s3(1) s4(1)] s4(2)
  show "\<exists>st'. parses env (PPostfixLoop x) st z st' \<and> before st' (k + (1 + m)) vs ws" by (auto simp: add.assoc)
qed

lemma loops_call:
  assumes "kind t = finsh_token_type_left_paren" "kind r = finsh_token_type_right_paren" "x \<noteq> NULL" "us \<noteq> []"
    and "ts = u # ts'" "kind u \<noteq> finsh_token_type_right_paren" "reads env vs PParams ts ps n (r # us)"
    and "loops env vs (PPostfixLoop (Node (info FINSH_NODE_SYS_FUNC) (set_sibling x ps) NULL)) us z m ws"
  shows "loops env vs (PPostfixLoop x) (t # ts) z (n + 1 + m) ws"
proof (rule loopsI)
  fix st k
  assume a: "after st k vs t ts" and k: "k + (n + 1 + m) \<le> FINSH_NODE_MAX"
  obtain w us' where us: "us = w # us'" using assms(4) by (cases us) auto
  obtain st1 where s1: "next_token st = Some st1" "after st1 k vs u ts'" using before_next after_before [OF a] assms(5) by blast
  obtain st2 where s2: "parses env PParams (finsh_token_replay st1) ps st2" "before st2 (k + n) vs (r # us)"
    using readsD [OF assms(7) [unfolded assms(5)] after_replay [OF s1(2)]] k by auto
  obtain st3 where s3: "match_token finsh_token_type_right_paren st2 = Some st3" "after st3 (k + n) vs r us"
    using after_match [OF s2(2) assms(2)] by blast
  obtain st4 where s4: "make_sys_node FINSH_NODE_SYS_FUNC x ps st3 = (Node (info FINSH_NODE_SYS_FUNC) (set_sibling x ps) NULL, st4)"
    "before st4 (k + n + 1) vs us" using make_node [OF _ assms(3) after_before [OF s3(2)]] k by auto
  obtain st5 where s5: "next_token st4 = Some st5" "after st5 (k + n + 1) vs w us'" using before_next s4(2) us by blast
  obtain st6 where s6: "parses env (PPostfixLoop (Node (info FINSH_NODE_SYS_FUNC) (set_sibling x ps) NULL)) st5 z st6"
    "before st6 (k + n + 1 + m) vs ws" using loopsD [OF assms(8) [unfolded us] s5(2)] k by auto
  have "token_of st = finsh_token_type_left_paren" "token_of st1 \<noteq> finsh_token_type_right_paren"
    using assms(1,6) after_kind [OF a] after_kind [OF s1(2)] by simp_all
  from parses_call [OF this(1) s1(1) this(2) s2(1) s3(1) s4(1) s5(1) s6(1)] s6(2)
  show "\<exists>st'. parses env (PPostfixLoop x) st z st' \<and> before st' (k + (n + 1 + m)) vs ws" by (auto simp: ac_simps)
qed

lemma reads_params:
  assumes "reads env vs PAssign ts x n us" "x \<noteq> NULL" "us \<noteq> []" "loops env vs (PParamLoop [x]) us z m ws"
  shows "reads env vs PParams ts z (n + m) ws"
proof (rule readsI)
  fix st k
  assume b: "before st k vs ts" and k: "k + (n + m) \<le> FINSH_NODE_MAX"
  obtain t us' where us: "us = t # us'" using assms(3) by (cases us) auto
  obtain st1 where s1: "parses env PAssign st x st1" "before st1 (k + n) vs (t # us')" using readsD [OF assms(1) b] k us by auto
  obtain st2 where s2: "next_token st1 = Some st2" "after st2 (k + n) vs t us'" using before_next [OF s1(2)] by blast
  obtain st3 where s3: "parses env (PParamLoop [x]) st2 z st3" "before st3 (k + n + m) vs ws"
    using loopsD [OF assms(4) [unfolded us] s2(2)] k by auto
  from parses_params [OF s1(1) assms(2) s2(1) s3(1)] s3(2)
  show "\<exists>st'. parses env PParams st z st' \<and> before st' (k + (n + m)) vs ws" by (auto simp: add.assoc)
qed

lemma loops_param_end:
  assumes "kind t \<noteq> finsh_token_type_comma" shows "loops env vs (PParamLoop xs) (t # us) (chain xs) 0 (t # us)"
proof (rule loopsI)
  fix st k
  assume a: "after st k vs t us"
  from parses_param_end [of st env xs] after_kind [OF a] after_replay [OF a] assms
  show "\<exists>st'. parses env (PParamLoop xs) st (chain xs) st' \<and> before st' (k + 0) vs (t # us)" by auto
qed

lemma loops_param:
  assumes "kind t = finsh_token_type_comma" "reads env vs PAssign ts x n us" "x \<noteq> NULL" "us \<noteq> []"
    and "loops env vs (PParamLoop (xs @ [x])) us z m ws"
  shows "loops env vs (PParamLoop xs) (t # ts) z (n + m) ws"
proof (rule loopsI)
  fix st k
  assume a: "after st k vs t ts" and k: "k + (n + m) \<le> FINSH_NODE_MAX"
  obtain u us' where us: "us = u # us'" using assms(4) by (cases us) auto
  obtain st1 where s1: "parses env PAssign st x st1" "before st1 (k + n) vs (u # us')"
    using readsD [OF assms(2) after_before [OF a]] k us by auto
  obtain st2 where s2: "next_token st1 = Some st2" "after st2 (k + n) vs u us'" using before_next [OF s1(2)] by blast
  obtain st3 where s3: "parses env (PParamLoop (xs @ [x])) st2 z st3" "before st3 (k + n + m) vs ws"
    using loopsD [OF assms(5) [unfolded us] s2(2)] k by auto
  have "token_of st = finsh_token_type_comma" using after_kind [OF a] assms(1) by simp
  from parses_param_loop [OF this s1(1) assms(3) s2(1) s3(1)] s3(2)
  show "\<exists>st'. parses env (PParamLoop xs) st z st' \<and> before st' (k + (n + m)) vs ws" by (auto simp: add.assoc)
qed

text \<open>The leaves.\<close>

lemma new_value_before:
  assumes "before st k vs ts" "k < FINSH_NODE_MAX"
  shows "\<exists>st'. new_value nt v st = (Node ((info nt)\<lparr>node_value := v\<rparr>) NULL NULL, st') \<and> before st' (k + 1) vs ts"
  using assms by (auto simp: new_value_def finsh_node_allocate_def before_def)

lemma reads_leaf:
  assumes "\<And>st k. after st k vs t ts \<Longrightarrow> k < FINSH_NODE_MAX \<Longrightarrow> \<exists>st'. primary_leaf env st = Some (x, st') \<and> before st' (k + 1) vs ts"
    and "kind t \<noteq> finsh_token_type_left_paren"
  shows "reads env vs PPrimary (t # ts) x 1 ts"
proof (rule readsI)
  fix st k
  assume b: "before st k vs (t # ts)" and k: "k + 1 \<le> FINSH_NODE_MAX"
  obtain st1 where s1: "next_token st = Some st1" "after st1 k vs t ts" using before_next [OF b] by blast
  obtain st2 where s2: "primary_leaf env st1 = Some (x, st2)" "before st2 (k + 1) vs ts" using assms(1) [OF s1(2)] k by auto
  have "token_of st1 \<noteq> finsh_token_type_left_paren" using after_kind [OF s1(2)] assms(2) by simp
  from parses_leaf [OF s1(1) this s2(1)] s2(2)
  show "\<exists>st'. parses env PPrimary st x st' \<and> before st' (k + 1) vs ts" by blast
qed

lemma reads_num: "reads env vs PPrimary (LInt v # ts) (tree (Num v) NULL) 1 ts"
proof (rule reads_leaf)
  fix st k
  assume a: "after st k vs (LInt v) ts" and k: "k < FINSH_NODE_MAX"
  have "tk_value (ps_token st) = v" using a by (simp add: after_def has_read_def)
  thus "\<exists>st'. primary_leaf env st = Some (tree (Num v) NULL, st') \<and> before st' (k + 1) vs ts"
    using after_kind [OF a] new_value_before [OF after_before [OF a] k, of FINSH_NODE_VALUE_INT v]
    by (simp add: primary_leaf_def finsh_node_new_int_def)
qed simp

lemma reads_chr: "reads env vs PPrimary (LChr c # ts) (tree (Chr c) NULL) 1 ts"
proof (rule reads_leaf)
  fix st k
  assume a: "after st k vs (LChr c) ts" and k: "k < FINSH_NODE_MAX"
  have "char_value (tk_value (ps_token st)) = c" using a by (simp add: after_def has_read_def)
  thus "\<exists>st'. primary_leaf env st = Some (tree (Chr c) NULL, st') \<and> before st' (k + 1) vs ts"
    using after_kind [OF a] new_value_before [OF after_before [OF a] k, of FINSH_NODE_VALUE_CHAR "ucast c"]
    by (simp add: primary_leaf_def finsh_node_new_char_def)
qed simp

lemma reads_id:
  assumes "find_symbol env i vs = Some s" "length i < FINSH_NAME_MAX"
  shows "reads env vs PPrimary (LId i # ts) (Node (id_info s) NULL NULL) 1 ts"
proof (rule reads_leaf)
  fix st k
  assume a: "after st k vs (LId i) ts" and k: "k < FINSH_NODE_MAX"
  have i: "tk_string (ps_token st) = i" and b: "ps_nodes st = k" "global_variable st = vs" "stream (ps_token st) ts"
    using a by (auto simp: after_def has_read_def before_def)
  have "proc_identifier (finsh_token_replay st) = Some (i, st)"
    using after_kind [OF a] assms(2) i by (simp add: proc_identifier_def match_token_def next_replay [OF a] check_token_def)
  thus "\<exists>st'. primary_leaf env st = Some (Node (id_info s) NULL NULL, st') \<and> before st' (k + 1) vs ts"
    using after_kind [OF a] assms b k
    by (auto simp: primary_leaf_def finsh_node_new_id_def finsh_node_allocate_def id_info_def before_def)
qed simp

end
