(* ===== verification/Rt_Finsh_Print.thy ===== *)
theory Rt_Finsh_Print
  imports Rt_Finsh_Grammar
begin

text \<open>
  Expressions and statements as tokens, and that the parser builds from them the trees they stand for, without parentheses and with the precedences and
  the associativity of C.
\<close>

section \<open>Printed expressions\<close>

text \<open>The tokens of an expression, with a naming of the symbols. There are no parentheses: an operand binds at least as tightly as its place demands.\<close>

fun op_tok :: "c_operator \<Rightarrow> finsh_token_type" where
  "op_tok Add = finsh_token_type_add"
| "op_tok Sub = finsh_token_type_sub"
| "op_tok Div = finsh_token_type_div"
| "op_tok Mod = finsh_token_type_mod"
| "op_tok Mul = finsh_token_type_mul"
| "op_tok And = finsh_token_type_and"
| "op_tok Or = finsh_token_type_or"
| "op_tok Xor = finsh_token_type_xor"
| "op_tok Shl = finsh_token_type_shl"
| "op_tok Shr = finsh_token_type_shr"

fun op_level :: "c_operator \<Rightarrow> nat" where
  "op_level Or = 1"
| "op_level Xor = 2"
| "op_level And = 3"
| "op_level Shl = 4"
| "op_level Shr = 4"
| "op_level Add = 5"
| "op_level Sub = 5"
| "op_level Mul = 6"
| "op_level Div = 6"
| "op_level Mod = 6"

fun level :: "fexp \<Rightarrow> nat" where
  "level (Asg _ _) = 0"
| "level (DerefAsg _ _) = 0"
| "level (Bin f _ _) = op_level f"
| "level (Inv _) = 7"
| "level (Pre _ _) = 7"
| "level (Deref _) = 7"
| "level (Addr _) = 7"
| "level _ = 8"

abbreviation step_tok :: "bool \<Rightarrow> ltok" where
  "step_tok up \<equiv> LT (if up then finsh_token_type_inc else finsh_token_type_dec)"

fun ptoks :: "(symbol \<Rightarrow> u8 list) \<Rightarrow> fexp \<Rightarrow> ltok list"
and ptoks_args :: "(symbol \<Rightarrow> u8 list) \<Rightarrow> fexp list \<Rightarrow> ltok list" where
  "ptoks nm (Num v) = [LInt v]"
| "ptoks nm (Str v) = []"
| "ptoks nm (Chr c) = [LChr c]"
| "ptoks nm (Var s) = [LId (nm s)]"
| "ptoks nm (Bin f a b) = ptoks nm a @ LT (op_tok f) # ptoks nm b"
| "ptoks nm (Inv a) = LT finsh_token_type_bitwise # ptoks nm a"
| "ptoks nm (Asg s e) = LId (nm s) # LT finsh_token_type_assign # ptoks nm e"
| "ptoks nm (Pre up s) = [step_tok up, LId (nm s)]"
| "ptoks nm (Post up s) = [LId (nm s), step_tok up]"
| "ptoks nm (Deref e) = LT finsh_token_type_mul # ptoks nm e"
| "ptoks nm (DerefAsg a e) = LT finsh_token_type_mul # ptoks nm a @ LT finsh_token_type_assign # ptoks nm e"
| "ptoks nm (Addr s) = [LT finsh_token_type_and, LId (nm s)]"
| "ptoks nm (Call p f args) = LId (nm (SymSyscall p f)) # LT finsh_token_type_left_paren # ptoks_args nm args"
| "ptoks_args nm [] = [LT finsh_token_type_right_paren]"
| "ptoks_args nm (e # es) =
     ptoks nm e @ (if es = [] then [LT finsh_token_type_right_paren] else LT finsh_token_type_comma # ptoks_args nm es)"

text \<open>The precedences are respected, and every name stands for its symbol. String constants are left out, since their value is an address.\<close>

definition names :: "finsh_env \<Rightarrow> finsh_var list \<Rightarrow> (symbol \<Rightarrow> u8 list) \<Rightarrow> symbol \<Rightarrow> bool" where
  "names env vs nm s \<longleftrightarrow> find_symbol env (nm s) vs = Some s \<and> length (nm s) < FINSH_NAME_MAX"

fun printable :: "(symbol \<Rightarrow> bool) \<Rightarrow> fexp \<Rightarrow> bool" where
  "printable N (Num _) = True"
| "printable N (Str _) = False"
| "printable N (Chr c) = True"
| "printable N (Var s) = N s"
| "printable N (Bin f a b) = (printable N a \<and> printable N b \<and> op_level f \<le> level a \<and> op_level f < level b)"
| "printable N (Inv a) = (printable N a \<and> 7 \<le> level a)"
| "printable N (Asg s e) = (N s \<and> printable N e)"
| "printable N (Pre _ s) = N s"
| "printable N (Post _ s) = N s"
| "printable N (Deref e) = (printable N e \<and> 7 \<le> level e)"
| "printable N (DerefAsg a e) = (printable N a \<and> 7 \<le> level a \<and> printable N e)"
| "printable N (Addr s) = N s"
| "printable N (Call p f args) = (N (SymSyscall p f) \<and> (\<forall>e\<in>set args. printable N e))"

fun nodes :: "fexp \<Rightarrow> nat"
and nodes_list :: "fexp list \<Rightarrow> nat" where
  "nodes (Bin _ a b) = nodes a + nodes b + 1"
| "nodes (Inv a) = nodes a + 1"
| "nodes (Asg _ e) = nodes e + 2"
| "nodes (Pre _ _) = 2"
| "nodes (Post _ _) = 2"
| "nodes (Deref e) = nodes e + 1"
| "nodes (DerefAsg a e) = nodes a + nodes e + 2"
| "nodes (Addr _) = 2"
| "nodes (Call _ _ args) = nodes_list args + 2"
| "nodes _ = 1"
| "nodes_list [] = 0"
| "nodes_list (e # es) = nodes e + nodes_list es"

lemma set_sibling_tree [simp]: "set_sibling (tree e sb) y = tree e y"
  by (cases e) simp_all

lemma tree_not_NULL [simp]: "tree e sb \<noteq> NULL"
  by (cases e) simp_all

lemma chain_trees: "chain (map (\<lambda>e. tree e NULL) es) = trees es"
  by (induction es) simp_all

section \<open>The parser reads printed expressions\<close>

fun nt_of :: "nat \<Rightarrow> nonterm" where
  "nt_of l = (if l = 0 then PAssign else if l \<le> 6 then PBin l else if l = 7 then PCast else PPostfix)"

text \<open>The token does not continue an expression of level \<open>l\<close>.\<close>

definition stops :: "nat \<Rightarrow> finsh_token_type \<Rightarrow> bool" where
  "stops l t \<longleftrightarrow> t \<notin> {finsh_token_type_inc, finsh_token_type_dec, finsh_token_type_left_paren} \<and>
     (\<forall>m. l \<le> m \<longrightarrow> bin_node m t = None) \<and> (l = 0 \<longrightarrow> t \<noteq> finsh_token_type_assign)"

lemma stops_mono: "stops l t \<Longrightarrow> l \<le> m \<Longrightarrow> stops m t"
  unfolding stops_def by auto

lemma stops_op: "op_level f < l \<Longrightarrow> stops l (op_tok f)"
  unfolding stops_def by (cases f) auto

lemma bin_node_op: "bin_node (op_level f) (op_tok f) = Some (node_of_op f)"
  by (cases f) simp_all

lemma op_level_range: "1 \<le> op_level f" "op_level f \<le> 6"
  by (cases f; simp)+

lemma stops_more:
  "stops l finsh_token_type_semicolon" "stops l finsh_token_type_comma" "stops l finsh_token_type_right_paren"
  "1 \<le> l \<Longrightarrow> stops l finsh_token_type_assign"
  unfolding stops_def by simp_all

lemma reads_up:
  assumes "reads env vs (PBin l) ts x n (t # us)" "m \<le> l" "1 \<le> m" "l \<le> 7" "stops m (kind t)"
  shows "reads env vs (PBin m) ts x n (t # us)"
  using assms(2,3)
proof (induction rule: inc_induct)
  case (step i)
  have "loops env vs (PBinLoop i x) (t # us) x 0 (t # us)"
    by (rule loops_end) (use assms(5) step in \<open>simp add: stops_def\<close>)
  from reads_bin [OF _ _ this] step assms(4) show ?case by simp
qed (rule assms(1))

text \<open>What is read at the level of the expression is read at every lower level.\<close>

lemma reads_level:
  assumes "reads env vs (nt_of k) ts x n (t # us)" "l \<le> k" "k \<le> 7" "stops l (kind t)"
  shows "reads env vs (nt_of l) ts x n (t # us)"
proof (cases "l = k \<or> l = 7")
  case True
  thus ?thesis using assms by (cases "l = k") auto
next
  case False
  hence l: "l < k" using assms(2) by auto
  have k: "reads env vs (PBin k) ts x n (t # us)" using assms(1,3) l reads_bin_cast by (cases "k = 7") auto
  have "reads env vs (PBin (max 1 l)) ts x n (t # us)"
    by (rule reads_up [OF k]) (use l assms(3,4) stops_mono [OF assms(4)] in auto)
  thus ?thesis using reads_assign [of env vs ts x n t us] assms(3,4) l by (cases "l = 0") (auto simp: stops_def max_def)
qed

lemma reads_from_postfix:
  assumes "reads env vs PPostfix (u # ts) x n (t # us)" "l \<le> 8" "stops l (kind t)"
    and "kind u \<in> {finsh_token_type_identifier, finsh_token_type_value_int, finsh_token_type_value_char}"
  shows "reads env vs (nt_of l) (u # ts) x n (t # us)"
proof (cases "l = 8")
  case False
  have "reads env vs (nt_of 7) (u # ts) x n (t # us)" using reads_postfix [OF assms(1,4)] by simp
  from reads_level [OF this] False assms(2,3) show ?thesis by simp
qed (use assms(1) in simp)

definition reads_exp :: "finsh_env \<Rightarrow> finsh_var list \<Rightarrow> (symbol \<Rightarrow> u8 list) \<Rightarrow> fexp \<Rightarrow> bool" where
  "reads_exp env vs nm e \<longleftrightarrow> (\<forall>l t ts. l \<le> level e \<longrightarrow> stops l (kind t) \<longrightarrow>
     reads env vs (nt_of l) (ptoks nm e @ t # ts) (tree e NULL) (nodes e) (t # ts))"

text \<open>As first operand of level \<open>p\<close>, what the loop goes on to do with the expression is done.\<close>

definition leads :: "finsh_env \<Rightarrow> finsh_var list \<Rightarrow> (symbol \<Rightarrow> u8 list) \<Rightarrow> nat \<Rightarrow> fexp \<Rightarrow> bool" where
  "leads env vs nm p e \<longleftrightarrow> (\<forall>t ts z n ws. stops (p + 1) (kind t) \<longrightarrow>
     loops env vs (PBinLoop p (tree e NULL)) (t # ts) z n ws \<longrightarrow> reads env vs (PBin p) (ptoks nm e @ t # ts) z (nodes e + n) ws)"

lemma reads_expD:
  "reads_exp env vs nm e \<Longrightarrow> l \<le> level e \<Longrightarrow> stops l (kind t) \<Longrightarrow>
   reads env vs (nt_of l) (ptoks nm e @ t # ts) (tree e NULL) (nodes e) (t # ts)"
  unfolding reads_exp_def by blast

lemma reads_exp_bin:
  assumes "reads_exp env vs nm e" "p \<le> 6" "p < level e" "stops (p + 1) (kind t)"
  shows "reads env vs (PBin (p + 1)) (ptoks nm e @ t # ts) (tree e NULL) (nodes e) (t # ts)"
  using reads_expD [OF assms(1), of "p + 1" t ts] assms(2-4) reads_bin_cast by (cases "p = 6") auto

lemma reads_exp_leads: "reads_exp env vs nm e \<Longrightarrow> p \<le> 6 \<Longrightarrow> p < level e \<Longrightarrow> leads env vs nm p e"
  unfolding leads_def using reads_bin reads_exp_bin by blast

lemma leads_Bin:
  assumes "leads env vs nm (op_level f) a" "reads_exp env vs nm b" "op_level f < level b"
  shows "leads env vs nm (op_level f) (Bin f a b)"
  unfolding leads_def
proof (intro allI impI)
  fix t ts z n ws
  let ?p = "op_level f"
  assume t: "stops (?p + 1) (kind t)" and l: "loops env vs (PBinLoop ?p (tree (Bin f a b) NULL)) (t # ts) z n ws"
  have b: "reads env vs (PBin (?p + 1)) (ptoks nm b @ t # ts) (tree b NULL) (nodes b) (t # ts)"
    by (rule reads_exp_bin [OF assms(2) _ assms(3) t]) (rule op_level_range)
  have "loops env vs (PBinLoop ?p (tree a NULL)) (LT (op_tok f) # ptoks nm b @ t # ts) z (nodes b + 1 + n) ws"
    by (rule loops_step [OF _ b]) (use l bin_node_op [of f] in simp_all)
  moreover have "stops (?p + 1) (kind (LT (op_tok f)))" using stops_op [of f "?p + 1"] by simp
  ultimately have "reads env vs (PBin ?p) (ptoks nm a @ LT (op_tok f) # ptoks nm b @ t # ts) z (nodes a + (nodes b + 1 + n)) ws"
    using assms(1) unfolding leads_def by blast
  thus "reads env vs (PBin ?p) (ptoks nm (Bin f a b) @ t # ts) z (nodes (Bin f a b) + n) ws" by (simp add: ac_simps)
qed

lemma leads_reads_exp:
  assumes "leads env vs nm (level e) e" "1 \<le> level e" "level e \<le> 6"
  shows "reads_exp env vs nm e"
  unfolding reads_exp_def
proof (intro allI impI)
  fix l t ts
  assume l: "l \<le> level e" "stops l (kind t)"
  have s: "stops (level e) (kind t)" "stops (level e + 1) (kind t)" using stops_mono [OF l(2)] l(1) by auto
  have "loops env vs (PBinLoop (level e) (tree e NULL)) (t # ts) (tree e NULL) 0 (t # ts)"
    by (rule loops_end) (use s in \<open>simp add: stops_def\<close>)
  hence "reads env vs (PBin (level e)) (ptoks nm e @ t # ts) (tree e NULL) (nodes e + 0) (t # ts)"
    using assms(1) s(2) unfolding leads_def by blast
  hence "reads env vs (nt_of (level e)) (ptoks nm e @ t # ts) (tree e NULL) (nodes e) (t # ts)"
    using assms(2,3) by (auto simp: not_le)
  from reads_level [OF this l(1) _ l(2)] assms(3)
  show "reads env vs (nt_of l) (ptoks nm e @ t # ts) (tree e NULL) (nodes e) (t # ts)" by simp
qed

lemma reads_exp_primary:
  assumes "level e = 8" "ptoks nm e = u # us" "kind u \<in> {finsh_token_type_identifier, finsh_token_type_value_int, finsh_token_type_value_char}"
    and "\<And>t ts. stops 8 (kind t) \<Longrightarrow> reads env vs PPostfix (ptoks nm e @ t # ts) (tree e NULL) (nodes e) (t # ts)"
  shows "reads_exp env vs nm e"
  unfolding reads_exp_def
proof (intro allI impI)
  fix l t ts
  assume l: "l \<le> level e" "stops l (kind t)"
  have "reads env vs PPostfix (u # us @ t # ts) (tree e NULL) (nodes e) (t # ts)"
    using assms(4) [of t ts] stops_mono [OF l(2)] l(1) assms(1,2) by simp
  from reads_from_postfix [OF this _ l(2) assms(3)] l(1) assms(1,2)
  show "reads env vs (nt_of l) (ptoks nm e @ t # ts) (tree e NULL) (nodes e) (t # ts)" by simp
qed

lemma stops_postfix: "stops l t \<Longrightarrow> t \<notin> {finsh_token_type_inc, finsh_token_type_dec, finsh_token_type_left_paren}"
  unfolding stops_def by simp

lemma reads_exp_leaf:
  assumes "ptoks nm e = [u]" "level e = 8" "nodes e = 1"
    and "kind u \<in> {finsh_token_type_identifier, finsh_token_type_value_int, finsh_token_type_value_char}"
    and "\<And>ts. reads env vs PPrimary (u # ts) (tree e NULL) 1 ts"
  shows "reads_exp env vs nm e"
proof (rule reads_exp_primary [OF assms(2,1,4)])
  fix t ts
  assume "stops 8 (kind t)"
  from reads_primary [OF assms(5) _ loops_postfix_end [OF stops_postfix [OF this]]]
  show "reads env vs PPostfix (ptoks nm e @ t # ts) (tree e NULL) (nodes e) (t # ts)" using assms(1,3) by simp
qed

lemma reads_exp_unary:
  assumes "level e = 7" "ptoks nm e = LT u # ptoks nm a" "unary_node u = Some nt" "tree e NULL = Node (info nt) (tree a NULL) NULL"
    and "nodes e = nodes a + 1" "reads_exp env vs nm a" "7 \<le> level a"
  shows "reads_exp env vs nm e"
  unfolding reads_exp_def
proof (intro allI impI)
  fix l t ts
  assume l: "l \<le> level e" "stops l (kind t)"
  have "stops 7 (kind t)" using stops_mono [OF l(2)] l(1) assms(1) by simp
  hence "reads env vs PCast (ptoks nm a @ t # ts) (tree a NULL) (nodes a) (t # ts)"
    using reads_expD [OF assms(6), of 7 t ts] assms(7) by simp
  from reads_unary [OF _ this, of "LT u" nt] assms(2-5)
  have "reads env vs (nt_of 7) (ptoks nm e @ t # ts) (tree e NULL) (nodes e) (t # ts)" by simp
  from reads_level [OF this _ _ l(2)] l(1) assms(1)
  show "reads env vs (nt_of l) (ptoks nm e @ t # ts) (tree e NULL) (nodes e) (t # ts)" by simp
qed

lemma reads_exp_Var: "names env vs nm s \<Longrightarrow> reads_exp env vs nm (Var s)"
  by (rule reads_exp_leaf) (use reads_id in \<open>auto simp: names_def\<close>)

lemma reads_exp_Post:
  assumes "names env vs nm s" shows "reads_exp env vs nm (Post up s)"
proof (rule reads_exp_primary [where u = "LId (nm s)"])
  fix t ts
  assume "stops 8 (kind t)"
  note e = loops_postfix_end [OF stops_postfix [OF this]]
  have i: "reads env vs PPrimary (LId (nm s) # step_tok up # t # ts) (Node (id_info s) NULL NULL) 1 (step_tok up # t # ts)"
    using reads_id assms unfolding names_def by blast
  show "reads env vs PPostfix (ptoks nm (Post up s) @ t # ts) (tree (Post up s) NULL) (nodes (Post up s)) (t # ts)"
    using reads_primary [OF i _ loops_postfix_step [where up = up, OF _ _ _ e]] by (simp add: numeral_2_eq_2)
qed simp_all

lemma reads_exp_Asg:
  assumes "names env vs nm s" "reads_exp env vs nm e" shows "reads_exp env vs nm (Asg s e)"
  unfolding reads_exp_def
proof (intro allI impI)
  fix l t ts
  let ?a = "LT finsh_token_type_assign"
  assume l: "l \<le> level (Asg s e)" "stops l (kind t)"
  have r: "reads env vs PAssign (ptoks nm e @ t # ts) (tree e NULL) (nodes e) (t # ts)"
    using reads_expD [OF assms(2), of 0 t ts] l by simp
  have i: "reads env vs (PBin 1) (LId (nm s) # ?a # ptoks nm e @ t # ts) (Node (id_info s) NULL NULL) 1 (?a # ptoks nm e @ t # ts)"
    using reads_expD [OF reads_exp_Var [OF assms(1)], of 1 ?a] stops_more(4) [of 1] by simp
  show "reads env vs (nt_of l) (ptoks nm (Asg s e) @ t # ts) (tree (Asg s e) NULL) (nodes (Asg s e)) (t # ts)"
    using reads_assign_to [OF i _ r] l by (simp add: ac_simps)
qed

lemma reads_exp_DerefAsg:
  assumes "reads_exp env vs nm (Deref a)" "reads_exp env vs nm e" shows "reads_exp env vs nm (DerefAsg a e)"
  unfolding reads_exp_def
proof (intro allI impI)
  fix l t ts
  let ?a = "LT finsh_token_type_assign"
  assume l: "l \<le> level (DerefAsg a e)" "stops l (kind t)"
  have r: "reads env vs PAssign (ptoks nm e @ t # ts) (tree e NULL) (nodes e) (t # ts)"
    using reads_expD [OF assms(2), of 0 t ts] l by simp
  have i: "reads env vs (PBin 1) (ptoks nm (Deref a) @ ?a # ptoks nm e @ t # ts) (tree (Deref a) NULL) (nodes (Deref a)) (?a # ptoks nm e @ t # ts)"
    using reads_expD [OF assms(1), of 1 ?a] stops_more(4) [of 1] by simp
  show "reads env vs (nt_of l) (ptoks nm (DerefAsg a e) @ t # ts) (tree (DerefAsg a e) NULL) (nodes (DerefAsg a e)) (t # ts)"
    using reads_assign_to [OF i _ r] l by (simp add: ac_simps)
qed

text \<open>Arguments of a call.\<close>

abbreviation more_args :: "(symbol \<Rightarrow> u8 list) \<Rightarrow> fexp list \<Rightarrow> ltok list" where
  "more_args nm es \<equiv> (if es = [] then [LT finsh_token_type_right_paren] else LT finsh_token_type_comma # ptoks_args nm es)"

lemma reads_arg:
  assumes "reads_exp env vs nm e"
  shows "reads env vs PAssign (ptoks nm e @ more_args nm es @ us) (tree e NULL) (nodes e) (more_args nm es @ us)"
  using reads_expD [OF assms, of 0] stops_more by simp

lemma loops_args:
  assumes "\<And>e. e \<in> set es \<Longrightarrow> reads_exp env vs nm e"
  shows "loops env vs (PParamLoop xs) (more_args nm es @ us) (chain (xs @ map (\<lambda>e. tree e NULL) es)) (nodes_list es)
    (LT finsh_token_type_right_paren # us)"
  using assms
proof (induction es arbitrary: xs)
  case Nil
  show ?case using loops_param_end [of "LT finsh_token_type_right_paren"] by simp
next
  case (Cons e es)
  have "loops env vs (PParamLoop (xs @ [tree e NULL])) (more_args nm es @ us)
      (chain ((xs @ [tree e NULL]) @ map (\<lambda>e. tree e NULL) es)) (nodes_list es) (LT finsh_token_type_right_paren # us)"
    by (rule Cons.IH) (simp add: Cons.prems)
  from loops_param [OF _ reads_arg _ _ this] Cons.prems [of e] show ?case by simp
qed

lemma first_token: "printable N e \<Longrightarrow> \<exists>u us. ptoks nm e = u # us \<and> kind u \<in> {finsh_token_type_identifier,
    finsh_token_type_value_int, finsh_token_type_value_char, finsh_token_type_bitwise, finsh_token_type_inc, finsh_token_type_dec,
    finsh_token_type_mul, finsh_token_type_and}"
  by (induction e) auto

lemma reads_exp_Call:
  assumes "names env vs nm (SymSyscall p f)" "\<And>e. e \<in> set args \<Longrightarrow> reads_exp env vs nm e \<and> printable N e"
  shows "reads_exp env vs nm (Call p f args)"
proof (rule reads_exp_primary [where u = "LId (nm (SymSyscall p f))"])
  fix t ts
  assume "stops 8 (kind t)"
  note e = loops_postfix_end [OF stops_postfix [OF this]]
  let ?i = "Node (id_info (SymSyscall p f)) NULL NULL" and ?l = "LT finsh_token_type_left_paren" and ?r = "LT finsh_token_type_right_paren"
  let ?us = "?l # ptoks_args nm args @ t # ts"
  have i: "reads env vs PPrimary (LId (nm (SymSyscall p f)) # ?us) ?i 1 ?us"
    using reads_id assms(1) unfolding names_def by blast
  have "loops env vs (PPostfixLoop ?i) ?us (tree (Call p f args) NULL) (nodes_list args + 1 + 0) (t # ts)"
  proof (cases args)
    case Nil
    thus ?thesis using loops_call_empty [OF _ _ _ _ e, of ?l ?r ?i] by simp
  next
    case (Cons a as)
    obtain u us where u: "ptoks nm a = u # us" "kind u \<noteq> finsh_token_type_right_paren"
      using first_token [of N a nm] assms(2) [of a] Cons by auto
    have "loops env vs (PParamLoop [tree a NULL]) (more_args nm as @ t # ts) (chain ([tree a NULL] @ map (\<lambda>e. tree e NULL) as))
        (nodes_list as) (?r # t # ts)"
      by (rule loops_args) (use assms(2) Cons in auto)
    hence "reads env vs PParams (ptoks_args nm args @ t # ts) (trees args) (nodes_list args) (?r # t # ts)"
      using reads_params [OF reads_arg, of env vs nm a as "t # ts"] assms(2) [of a] Cons chain_trees [of as] by auto
    from loops_call [OF _ _ _ _ _ u(2) this e, of ?l ?i] u(1) Cons show ?thesis by simp
  qed
  from reads_primary [OF i _ this]
  show "reads env vs PPostfix (ptoks nm (Call p f args) @ t # ts) (tree (Call p f args) NULL) (nodes (Call p f args)) (t # ts)" by simp
qed simp_all

lemma reads_exp_Deref:
  assumes "reads_exp env vs nm e" "7 \<le> level e" shows "reads_exp env vs nm (Deref e)"
  by (rule reads_exp_unary [where u = finsh_token_type_mul and a = e and nt = FINSH_NODE_SYS_GETVALUE]) (simp_all add: assms)

lemma reads_exp_Inv:
  assumes "reads_exp env vs nm e" "7 \<le> level e" shows "reads_exp env vs nm (Inv e)"
  by (rule reads_exp_unary [where u = finsh_token_type_bitwise and a = e and nt = FINSH_NODE_SYS_BITWISE]) (simp_all add: assms)

lemma reads_exp_Addr: "names env vs nm s \<Longrightarrow> reads_exp env vs nm (Addr s)"
  by (rule reads_exp_unary [where u = finsh_token_type_and and a = "Var s" and nt = FINSH_NODE_SYS_GETADDR])
    (simp_all add: reads_exp_Var)

lemma reads_exp_Pre: "names env vs nm s \<Longrightarrow> reads_exp env vs nm (Pre up s)"
  by (rule reads_exp_unary [where u = "if up then finsh_token_type_inc else finsh_token_type_dec" and a = "Var s"
        and nt = "if up then FINSH_NODE_SYS_PREINC else FINSH_NODE_SYS_PREDEC"])
    (simp_all add: reads_exp_Var)

lemma reads_exp_Num: "reads_exp env vs nm (Num v)"
  by (rule reads_exp_leaf [where u = "LInt v"]) (use reads_num in simp_all)

lemma reads_exp_Chr: "reads_exp env vs nm (Chr c)"
  by (rule reads_exp_leaf [where u = "LChr c"]) (use reads_chr in simp_all)

lemmas reads_exp_rules = reads_exp_Num reads_exp_Chr
  reads_exp_Var reads_exp_Post reads_exp_Asg reads_exp_DerefAsg reads_exp_Deref reads_exp_Inv reads_exp_Addr reads_exp_Pre

lemma reads_exp_both:
  "reads_exp env vs nm e \<Longrightarrow> level e = 0 \<or> 7 \<le> level e \<Longrightarrow>
   reads_exp env vs nm e \<and> (\<forall>p. 1 \<le> p \<longrightarrow> p \<le> 6 \<longrightarrow> p \<le> level e \<longrightarrow> leads env vs nm p e)"
  using reads_exp_leads [of env vs nm e] by auto

lemma reads_exp_all:
  assumes "printable (names env vs nm) e"
  shows "reads_exp env vs nm e \<and> (\<forall>p. 1 \<le> p \<longrightarrow> p \<le> 6 \<longrightarrow> p \<le> level e \<longrightarrow> leads env vs nm p e)"
  using assms
proof (induction e)
  case (Bin f a b)
  have l: "leads env vs nm (op_level f) (Bin f a b)" by (rule leads_Bin) (use Bin op_level_range in auto)
  have r: "reads_exp env vs nm (Bin f a b)" by (rule leads_reads_exp) (use l op_level_range in auto)
  show ?case using l r reads_exp_leads [OF r] by (auto simp: le_less)
next
  case (Call p f args)
  have "reads_exp env vs nm (Call p f args)"
    by (rule reads_exp_Call [where N = "names env vs nm"]) (use Call in auto)
  thus ?case by (rule reads_exp_both) simp
qed (rule reads_exp_both; simp add: reads_exp_rules)+

section \<open>Variables\<close>

lemma find_index_of_None: "find_index_of P xs = None \<longleftrightarrow> (\<forall>x\<in>set xs. \<not> P x)"
  by (induction xs) auto

lemma find_index_of_bound: "find_index_of P xs = Some i \<Longrightarrow> i < length xs \<and> P (xs ! i)"
  by (induction xs arbitrary: i) (auto split: if_splits)

lemma find_index_of_update:
  "find_index_of P xs = None \<Longrightarrow> i < length xs \<Longrightarrow> P x \<Longrightarrow> find_index_of P (xs[i := x]) = Some i"
  by (induction xs arbitrary: i) (auto split: if_splits nat.splits)

text \<open>A variable is found where it was inserted.\<close>

lemma var_insert_lookup:
  assumes "finsh_var_insert i t vs = (int r, vs')"
  shows "finsh_var_lookup i vs' = Some r" "fv_type (vs' ! r) = t" "r < length vs'"
proof -
  have n: "finsh_var_lookup i vs = None" using assms by (auto simp: finsh_var_insert_def split: if_splits)
  then obtain k where k: "find_index_of (\<lambda>v. fv_type v = finsh_type_unknown) vs = Some k" "r = k"
      "vs' = vs[k := \<lparr>fv_name = take FINSH_NAME_MAX i, fv_type = t\<rparr>]"
    using assms by (auto simp: finsh_var_insert_def split: option.splits)
  have "k < length vs" using find_index_of_bound k(1) by blast
  thus "fv_type (vs' ! r) = t" "r < length vs'" using k by simp_all
  show "finsh_var_lookup i vs' = Some r" unfolding finsh_var_lookup_def k(2,3)
    by (rule find_index_of_update) (use n \<open>k < length vs\<close> in \<open>simp_all add: finsh_var_lookup_def same_name_def\<close>)
qed

section \<open>The parser reads printed statements\<close>

text \<open>An expression, or the declaration of a variable with its first value.\<close>

datatype stmt = SExp fexp | SDecl finsh_type "u8 list" fexp

fun type_toks :: "finsh_type \<Rightarrow> finsh_token_type list" where
  "type_toks finsh_type_unknown = []"
| "type_toks finsh_type_void = [finsh_token_type_void]"
| "type_toks finsh_type_voidp = [finsh_token_type_void, finsh_token_type_mul]"
| "type_toks finsh_type_char = [finsh_token_type_char]"
| "type_toks finsh_type_uchar = [finsh_token_type_unsigned, finsh_token_type_char]"
| "type_toks finsh_type_charp = [finsh_token_type_char, finsh_token_type_mul]"
| "type_toks finsh_type_short = [finsh_token_type_short]"
| "type_toks finsh_type_ushort = [finsh_token_type_unsigned, finsh_token_type_short]"
| "type_toks finsh_type_shortp = [finsh_token_type_short, finsh_token_type_mul]"
| "type_toks finsh_type_int = [finsh_token_type_int]"
| "type_toks finsh_type_uint = [finsh_token_type_unsigned, finsh_token_type_int]"
| "type_toks finsh_type_intp = [finsh_token_type_int, finsh_token_type_mul]"
| "type_toks finsh_type_long = [finsh_token_type_long]"
| "type_toks finsh_type_ulong = [finsh_token_type_unsigned, finsh_token_type_long]"
| "type_toks finsh_type_longp = [finsh_token_type_long, finsh_token_type_mul]"

fun stoks :: "(symbol \<Rightarrow> u8 list) \<Rightarrow> stmt \<Rightarrow> ltok list" where
  "stoks nm (SExp e) = ptoks nm e @ [LT finsh_token_type_semicolon]"
| "stoks nm (SDecl t i e) =
     map LT (type_toks t) @ LId i # LT finsh_token_type_assign # ptoks nm e @ [LT finsh_token_type_semicolon]"

fun snodes :: "stmt \<Rightarrow> nat" where
  "snodes (SExp e) = nodes e"
| "snodes (SDecl _ _ e) = nodes e + 2"

text \<open>What a statement means when the variables are \<open>vs\<close>: an expression and the variables afterwards.\<close>

definition elab :: "finsh_env \<Rightarrow> stmt \<Rightarrow> finsh_var list \<Rightarrow> fexp \<times> finsh_var list" where
  "elab env s vs =
     (case s of
        SExp e \<Rightarrow> (e, vs)
      | SDecl t i e \<Rightarrow> let (r, vs) = finsh_var_insert i t vs in (Asg (var_symbol env (nat r) vs) e, vs))"

fun elabs :: "finsh_env \<Rightarrow> stmt list \<Rightarrow> finsh_var list \<Rightarrow> fexp list \<times> finsh_var list" where
  "elabs env [] vs = ([], vs)"
| "elabs env (s # ss) vs = (let (e, vs) = elab env s vs; (es, vs) = elabs env ss vs in (e # es, vs))"

text \<open>The names of a statement are known, those of declarations new; there is room for the variable.\<close>

fun stmt_ok :: "finsh_env \<Rightarrow> (symbol \<Rightarrow> u8 list) \<Rightarrow> stmt \<Rightarrow> finsh_var list \<Rightarrow> bool" where
  "stmt_ok env nm (SExp e) vs = printable (names env vs nm) e"
| "stmt_ok env nm (SDecl t i e) vs =
     (t \<noteq> finsh_type_unknown \<and> length i < FINSH_NAME_MAX \<and> 0 \<le> fst (finsh_var_insert i t vs) \<and>
      printable (names env (snd (finsh_var_insert i t vs)) nm) e)"

fun stmts_ok :: "finsh_env \<Rightarrow> (symbol \<Rightarrow> u8 list) \<Rightarrow> stmt list \<Rightarrow> finsh_var list \<Rightarrow> bool" where
  "stmts_ok env nm [] vs = True"
| "stmts_ok env nm (s # ss) vs = (stmt_ok env nm s vs \<and> stmts_ok env nm ss (snd (elab env s vs)))"

lemma type_read:
  assumes "before st k vs (map LT (type_toks t) @ LId i # ts)" "t \<noteq> finsh_type_unknown"
  shows "\<exists>st'. proc_type st = Some (t, st') \<and> before st' k vs (LId i # ts)"
proof -
  have star: "\<exists>st'. proc_pointer u st = Some (pointer_type u, st') \<and> before st' k vs (LId i # ts)"
    if b: "before st k vs (LT finsh_token_type_mul # LId i # ts)" for u st
    using before_next [OF b] after_kind after_before by (fastforce simp: proc_pointer_def)
  have none: "\<exists>st'. proc_pointer u st = Some (u, st') \<and> before st' k vs (LId i # ts)"
    if b: "before st k vs (LId i # ts)" for u st
    using before_next [OF b] after_kind after_replay by (fastforce simp: proc_pointer_def)
  obtain b bs where b: "map LT (type_toks t) = LT b # bs" using assms(2) by (cases t) auto
  obtain st1 where s1: "next_token st = Some st1" "after st1 k vs (LT b) (bs @ LId i # ts)"
    using before_next assms(1) unfolding b by fastforce
  note s1 = s1 after_kind [OF s1(2)] after_before [OF s1(2)]
  show ?thesis
  proof (cases "b = finsh_token_type_unsigned")
    case True
    then obtain u where u: "bs = [LT u]" "base_type u \<noteq> None" "unsigned_type (the (base_type u)) = Some t"
      using b assms(2) by (cases t) auto
    obtain st2 where s2: "next_token st1 = Some st2" "after st2 k vs (LT u) (LId i # ts)"
      using before_next s1(4) unfolding u by fastforce
    show ?thesis using none [OF after_before [OF s2(2)], of t] u True s1 s2 after_kind [OF s2(2)] by (auto simp: proc_type_def)
  next
    case False
    then obtain u where u: "base_type b = Some u" using b assms(2) by (cases t) auto
    show ?thesis
    proof (cases bs)
      case Nil
      hence "u = t" using b u assms(2) False by (cases t) auto
      thus ?thesis using none [of st1 t] s1 u Nil by (auto simp: proc_type_def)
    next
      case (Cons c cs)
      hence "c = LT finsh_token_type_mul \<and> cs = [] \<and> pointer_type u = t" using b u assms(2) False by (cases t) auto
      thus ?thesis using star [of st1 u] s1 u Cons by (auto simp: proc_type_def)
    qed
  qed
qed

lemma exp_stmt_read:
  assumes "before st k vs (stoks nm (SExp e) @ ts)" "printable (names env vs nm) e" "k + nodes e \<le> FINSH_NODE_MAX"
  shows "\<exists>st'. evn (\<lambda>j. proc_expr_statement j env st = Some (tree e NULL, st')) \<and>
    after st' (k + nodes e) vs (LT finsh_token_type_semicolon) ts"
proof -
  let ?s = "LT finsh_token_type_semicolon"
  obtain u us where u: "ptoks nm e = u # us" "kind u \<noteq> finsh_token_type_semicolon" using first_token [OF assms(2), of nm] by auto
  obtain st1 where s1: "next_token st = Some st1" "after st1 k vs u (us @ ?s # ts)" using before_next assms(1) u(1) by fastforce
  have r: "reads env vs PAssign (ptoks nm e @ ?s # ts) (tree e NULL) (nodes e) (?s # ts)"
    using reads_expD [of env vs nm e 0 ?s] reads_exp_all [OF assms(2)] stops_more(1) by simp
  obtain st2 where s2: "parses env PAssign (finsh_token_replay st1) (tree e NULL) st2" "before st2 (k + nodes e) vs (?s # ts)"
    using readsD [OF r] after_replay [OF s1(2)] assms(3) u(1) by fastforce
  obtain st3 where s3: "match_token finsh_token_type_semicolon st2 = Some st3" "after st3 (k + nodes e) vs ?s ts"
    using after_match [OF s2(2)] by auto
  have "evn (\<lambda>j. proc_expr_statement j env st = Some (tree e NULL, st3))"
    by (rule evn_mono [OF s2(1) [unfolded parses_def]]) (use s1 s3(1) after_kind [OF s1(2)] u(2) in \<open>simp add: proc_expr_statement_def\<close>)
  thus ?thesis using s3(2) by blast
qed

lemma declare_read:
  assumes "before st k vs (LId i # ts)" "finsh_var_insert i t vs = (int r, vs')" "length i < FINSH_NAME_MAX"
  shows "\<exists>st'. declare_var t st = Some (i, st') \<and> before st' k vs' ts"
proof -
  obtain st1 where s1: "next_token st = Some st1" "after st1 k vs (LId i) ts" using before_next [OF assms(1)] by blast
  hence "tk_string (ps_token st1) = i" "global_variable st1 = vs" "ps_nodes st1 = k" "stream (ps_token st1) ts"
    by (auto simp: after_def has_read_def before_def)
  thus ?thesis using s1 after_kind [OF s1(2)] assms(2,3)
    by (auto simp: declare_var_def proc_identifier_def match_token_def check_token_def before_def)
qed

lemma new_id_read:
  assumes "before st k vs ts" "k < FINSH_NODE_MAX" "find_symbol env i vs = Some s" "length i < FINSH_NAME_MAX"
  shows "\<exists>st'. finsh_node_new_id env i st = Some (Node (id_info s) NULL NULL, st') \<and> before st' (k + 1) vs ts"
  using assms by (auto simp: finsh_node_new_id_def finsh_node_allocate_def id_info_def before_def)

lemma initialiser_read:
  assumes "before st k vs (ptoks nm e @ LT finsh_token_type_semicolon # ts)" "printable (names env vs nm) e"
    and "k + (nodes e + 2) \<le> FINSH_NODE_MAX" "find_symbol env i vs = Some s" "length i < FINSH_NAME_MAX"
  shows "\<exists>st'. evn (\<lambda>j. proc_initialiser j env i [] st = Some ([tree (Asg s e) NULL], finsh_token_type_semicolon, st')) \<and>
    after st' (k + (nodes e + 2)) vs (LT finsh_token_type_semicolon) ts"
proof -
  let ?s = "LT finsh_token_type_semicolon"
  have r: "reads env vs PAssign (ptoks nm e @ ?s # ts) (tree e NULL) (nodes e) (?s # ts)"
    using reads_expD [of env vs nm e 0 ?s] reads_exp_all [OF assms(2)] stops_more(1) by simp
  obtain st1 where s1: "parses env PAssign st (tree e NULL) st1" "before st1 (k + nodes e) vs (?s # ts)"
    using readsD [OF r assms(1)] assms(3) by auto
  obtain st2 where s2: "finsh_node_new_id env i st1 = Some (Node (id_info s) NULL NULL, st2)" "before st2 (k + nodes e + 1) vs (?s # ts)"
    using new_id_read [OF s1(2) _ assms(4,5)] assms(3) by auto
  obtain st3 where s3: "make_sys_node FINSH_NODE_SYS_ASSIGN (Node (id_info s) NULL NULL) (tree e NULL) st2 = (tree (Asg s e) NULL, st3)"
    "before st3 (k + nodes e + 2) vs (?s # ts)"
    using make_node [OF _ _ s2(2), of "Node (id_info s) NULL NULL" FINSH_NODE_SYS_ASSIGN "tree e NULL"] assms(3) by auto
  obtain st4 where s4: "next_token st3 = Some st4" "after st4 (k + nodes e + 2) vs ?s ts" using before_next [OF s3(2)] by blast
  have "evn (\<lambda>j. proc_initialiser j env i [] st = Some ([tree (Asg s e) NULL], finsh_token_type_semicolon, st4))"
    by (rule evn_mono [OF s1(1) [unfolded parses_def]])
      (use s2(1) s3(1) s4(1) after_kind [OF s4(2)] in \<open>simp add: proc_initialiser_def\<close>)
  thus ?thesis using s4(2) by (auto simp: add.assoc)
qed

lemma decl_stmt_read:
  assumes "before st k vs (stoks nm (SDecl t i e) @ ts)" "stmt_ok env nm (SDecl t i e) vs" "k + snodes (SDecl t i e) \<le> FINSH_NODE_MAX"
    and "elab env (SDecl t i e) vs = (a, vs')"
  shows "\<exists>st'. evn (\<lambda>j. proc_variable_decl j env st = Some ([tree a NULL], st')) \<and>
    after st' (k + snodes (SDecl t i e)) vs' (LT finsh_token_type_semicolon) ts"
proof -
  let ?s = "LT finsh_token_type_semicolon" and ?a = "LT finsh_token_type_assign"
  obtain r where ins: "finsh_var_insert i t vs = (int r, vs')"
    using assms(2,4) by (cases "finsh_var_insert i t vs") (auto simp: elab_def dest: zero_le_imp_eq_int)
  have a: "a = Asg (var_symbol env r vs') e" and sym: "find_symbol env i vs' = Some (var_symbol env r vs')"
    using assms(4) ins var_insert_lookup [OF ins] by (simp_all add: elab_def find_symbol_def)
  have p: "printable (names env vs' nm) e" "length i < FINSH_NAME_MAX" "t \<noteq> finsh_type_unknown" using assms(2) ins by simp_all
  obtain st1 where s1: "proc_type st = Some (t, st1)" "before st1 k vs (LId i # ?a # ptoks nm e @ ?s # ts)"
    using type_read [of st k vs t i] assms(1) p(3) by fastforce
  obtain st2 where s2: "declare_var t st1 = Some (i, st2)" "before st2 k vs' (?a # ptoks nm e @ ?s # ts)"
    using declare_read [OF s1(2) ins p(2)] by blast
  obtain st3 where s3: "next_token st2 = Some st3" "after st3 k vs' ?a (ptoks nm e @ ?s # ts)" using before_next [OF s2(2)] by blast
  obtain st4 where s4: "evn (\<lambda>j. proc_initialiser j env i [] st3 = Some ([tree a NULL], finsh_token_type_semicolon, st4))"
      "after st4 (k + (nodes e + 2)) vs' ?s ts"
    using initialiser_read [OF after_before [OF s3(2)] p(1) _ sym p(2)] assms(3) a by auto
  have pos: "evn (\<lambda>j. j \<noteq> 0)" unfolding evn_def by (rule exI [of _ 1]) auto
  have "evn (\<lambda>j. proc_variable_decl j env st = Some ([tree a NULL], st4))"
  proof (rule evn_mono [OF evn_conj [OF s4(1) pos]])
    fix j
    assume "proc_initialiser j env i [] st3 = Some ([tree a NULL], finsh_token_type_semicolon, st4) \<and> j \<noteq> 0"
    thus "proc_variable_decl j env st = Some ([tree a NULL], st4)"
      using s1(1) s2(1) s3(1) after_kind [OF s3(2)] by (cases j) (simp_all add: proc_variable_decl_def check_token_def)
  qed
  thus ?thesis using s4(2) by auto
qed

text \<open>The loop over the statements, with enough fuel.\<close>

definition parsed :: "finsh_env \<Rightarrow> finsh_node list \<Rightarrow> nat \<Rightarrow> finsh_ps \<Rightarrow> finsh_node list \<Rightarrow> finsh_ps \<Rightarrow> bool" where
  "parsed env root c st root' st' \<longleftrightarrow> (\<exists>K. \<forall>j\<ge>K. \<forall>k\<ge>K. parser_loop j k env root c st = Some (root', st'))"

lemma parsed_step:
  assumes "evn (\<lambda>k. \<forall>j. parser_loop (Suc j) k env root c st = parser_loop j k env root1 c1 st1)" "parsed env root1 c1 st1 root' st'"
  shows "parsed env root c st root' st'"
proof -
  obtain K where K: "\<And>j k. k \<ge> K \<Longrightarrow> parser_loop (Suc j) k env root c st = parser_loop j k env root1 c1 st1"
    using assms(1) unfolding evn_def by blast
  obtain L where L: "\<And>j k. j \<ge> L \<Longrightarrow> k \<ge> L \<Longrightarrow> parser_loop j k env root1 c1 st1 = Some (root', st')"
    using assms(2) unfolding parsed_def by blast
  show ?thesis unfolding parsed_def
  proof (intro exI allI impI)
    fix j k
    assume "Suc (K + L) \<le> j" "Suc (K + L) \<le> k"
    thus "parser_loop j k env root c st = Some (root', st')" using K [of k "j - 1"] L [of "j - 1" k] by (cases j) auto
  qed
qed

lemma stmt_read:
  assumes "after st k vs u us" "stoks nm s @ ts = u # us" "stmt_ok env nm s vs" "k + snodes s \<le> FINSH_NODE_MAX"
    and "elab env s vs = (e, vs')" "ts = v # ts'"
  shows "\<exists>st'. evn (\<lambda>k. \<forall>j. parser_loop (Suc j) k env root (length root - 1) st =
      parser_loop j k env (root @ [tree e NULL]) (length (root @ [tree e NULL]) - 1) st') \<and> after st' (k + snodes s) vs' v ts'"
proof -
  have b: "before (finsh_token_replay st) k vs (stoks nm s @ ts)" using after_replay [OF assms(1)] assms(2) by simp
  have link: "link_statement root (length root - Suc 0) [tree e NULL] = (root @ [tree e NULL], length root)"
    by (cases root) (simp_all add: link_statement_def)
  show ?thesis
  proof (cases s)
    case (SExp e')
    hence [simp]: "e' = e" "vs' = vs" using assms(5) by (simp_all add: elab_def)
    obtain st1 where s1: "evn (\<lambda>j. proc_expr_statement j env (finsh_token_replay st) = Some (tree e NULL, st1))"
      "after st1 (k + nodes e) vs (LT finsh_token_type_semicolon) ts"
      using exp_stmt_read [of "finsh_token_replay st" k vs nm e ts env] b assms(3,4) SExp by auto
    obtain st2 where s2: "next_token st1 = Some st2" "after st2 (k + nodes e) vs v ts'"
      using before_next after_before [OF s1(2)] assms(6) by blast
    obtain w ws where "ptoks nm e = w # ws" "kind w \<in> {finsh_token_type_identifier, finsh_token_type_value_int, finsh_token_type_value_char,
        finsh_token_type_bitwise, finsh_token_type_inc, finsh_token_type_dec, finsh_token_type_mul, finsh_token_type_and}"
      using first_token [of _ e nm] assms(3) SExp by fastforce
    hence "token_of st \<notin> {finsh_token_type_eof, finsh_token_type_bad, finsh_token_type_unsigned} \<and> \<not> is_base_type (token_of st)"
      using after_kind [OF assms(1)] assms(2) SExp by (auto simp: is_base_type_def)
    hence "evn (\<lambda>k. \<forall>j. parser_loop (Suc j) k env root (length root - 1) st =
      parser_loop j k env (root @ [tree e NULL]) (length (root @ [tree e NULL]) - 1) st2)"
      by (intro evn_mono [OF s1(1)]) (simp add: link s2(1))
    thus ?thesis using s2(2) SExp by (auto simp del: parser_loop.simps)
  next
    case (SDecl t i e')
    obtain st1 where s1: "evn (\<lambda>j. proc_variable_decl j env (finsh_token_replay st) = Some ([tree e NULL], st1))"
      "after st1 (k + snodes s) vs' (LT finsh_token_type_semicolon) ts"
      using decl_stmt_read [of "finsh_token_replay st" k vs nm t i e' ts env e vs'] b assms(3-5) SDecl by auto
    obtain st2 where s2: "next_token st1 = Some st2" "after st2 (k + snodes s) vs' v ts'"
      using before_next after_before [OF s1(2)] assms(6) by blast
    have "is_base_type (token_of st) \<or> token_of st = finsh_token_type_unsigned"
      using after_kind [OF assms(1)] assms(2,3) SDecl by (cases t) (auto simp: is_base_type_def)
    moreover from this have "token_of st \<notin> {finsh_token_type_eof, finsh_token_type_bad}" by (auto simp: is_base_type_def)
    ultimately have "evn (\<lambda>k. \<forall>j. parser_loop (Suc j) k env root (length root - 1) st =
      parser_loop j k env (root @ [tree e NULL]) (length (root @ [tree e NULL]) - 1) st2)"
      by (intro evn_mono [OF s1(1)]) (auto simp: link s2(1))
    thus ?thesis using s2(2) by blast
  qed
qed

lemma stmts_read:
  assumes "after st k vs u us" "concat (map (stoks nm) ss) @ [LT finsh_token_type_eof] = u # us" "stmts_ok env nm ss vs"
    and "k + sum_list (map snodes ss) \<le> FINSH_NODE_MAX" "elabs env ss vs = (es, vs')"
  shows "\<exists>st' k'. parsed env root (length root - 1) st (root @ map (\<lambda>e. tree e NULL) es) st' \<and>
    after st' k' vs' (LT finsh_token_type_eof) []"
  using assms
proof (induction ss arbitrary: st k vs u us root es)
  case Nil
  have "parsed env root (length root - 1) st root st"
    unfolding parsed_def
  proof (intro exI allI impI)
    fix j k :: nat
    assume "1 \<le> j"
    thus "parser_loop j k env root (length root - 1) st = Some (root, st)" using after_kind [OF Nil(1)] Nil(2) by (cases j) auto
  qed
  thus ?case using Nil by auto
next
  case (Cons s ss)
  obtain e vs1 where e: "elab env s vs = (e, vs1)" by fastforce
  obtain es1 where es: "elabs env ss vs1 = (es1, vs')" "es = e # es1" using Cons.prems(5) e by (auto split: prod.splits)
  obtain v ts where v: "concat (map (stoks nm) ss) @ [LT finsh_token_type_eof] = v # ts" by (cases "concat (map (stoks nm) ss)") auto
  have u: "stoks nm s @ (v # ts) = u # us" using Cons.prems(2) unfolding v [symmetric] by simp
  have s: "stmt_ok env nm s vs" "k + snodes s \<le> FINSH_NODE_MAX" using Cons.prems(3,4) by simp_all
  obtain st1 where s1: "evn (\<lambda>k. \<forall>j. parser_loop (Suc j) k env root (length root - 1) st =
      parser_loop j k env (root @ [tree e NULL]) (length (root @ [tree e NULL]) - 1) st1)" "after st1 (k + snodes s) vs1 v ts"
    using stmt_read [OF Cons.prems(1) u s e refl] by blast
  have "stmts_ok env nm ss vs1" "k + snodes s + sum_list (map snodes ss) \<le> FINSH_NODE_MAX" using Cons.prems(3,4) e by simp_all
  from Cons.IH [OF s1(2) v this es(1), of "root @ [tree e NULL]"] parsed_step [OF s1(1)] es(2)
  show ?case by fastforce
qed

text \<open>From a stream of tokens to the tree.\<close>

lemma parser_run_stream:
  assumes "stream (finsh_token_init line 0) (concat (map (stoks nm) ss) @ [LT finsh_token_type_eof])" "stmts_ok env nm ss vs"
    and "sum_list (map snodes ss) \<le> FINSH_NODE_MAX" "elabs env ss vs = (es, vs')"
  shows "\<exists>st'. evn (\<lambda>k. finsh_parser_run k env line 0 vs = Some (trees es, st')) \<and> global_errno (ps_token st') = 0 \<and> global_variable st' = vs'"
proof -
  let ?st = "\<lparr>ps_token = finsh_token_init line 0, ps_nodes = 0, global_variable = vs\<rparr>"
  obtain v ts where v: "concat (map (stoks nm) ss) @ [LT finsh_token_type_eof] = v # ts" by (cases "concat (map (stoks nm) ss)") auto
  have "before ?st 0 vs (v # ts)" using assms(1) unfolding v by (simp add: before_def)
  then obtain st1 where s1: "next_token ?st = Some st1" "after st1 0 vs v ts" using before_next by blast
  obtain st2 k where s2: "parsed env [] 0 st1 (map (\<lambda>e. tree e NULL) es) st2" "after st2 k vs' (LT finsh_token_type_eof) []"
    using stmts_read [OF s1(2) v assms(2) _ assms(4), of "[]"] assms(3) by auto
  obtain K where "\<And>k. k \<ge> K \<Longrightarrow> parser_loop k k env [] 0 st1 = Some (map (\<lambda>e. tree e NULL) es, st2)"
    using s2(1) unfolding parsed_def by blast
  hence "evn (\<lambda>k. finsh_parser_run k env line 0 vs = Some (trees es, st2))"
    unfolding evn_def by (intro exI [of _ K]) (simp add: s1(1) finsh_parser_run_def chain_trees)
  thus ?thesis using s2(2) by (auto simp: after_def has_read_def before_def)
qed

end
