(* ===== verification/Rt_Finsh_Scan.thy ===== *)
theory Rt_Finsh_Scan
  imports Rt_Finsh_Grammar
begin

text \<open>
  Tokens as text, and that the scanner reads them back from a line where a space follows every token.
\<close>

section \<open>The scanner reads printed tokens\<close>

fun tok_text :: "finsh_token_type \<Rightarrow> u8 list" where
  "tok_text finsh_token_type_left_paren = [40]"
| "tok_text finsh_token_type_right_paren = [41]"
| "tok_text finsh_token_type_comma = [44]"
| "tok_text finsh_token_type_semicolon = [59]"
| "tok_text finsh_token_type_mul = [42]"
| "tok_text finsh_token_type_add = [43]"
| "tok_text finsh_token_type_inc = [43, 43]"
| "tok_text finsh_token_type_sub = [45]"
| "tok_text finsh_token_type_dec = [45, 45]"
| "tok_text finsh_token_type_div = [47]"
| "tok_text finsh_token_type_mod = [37]"
| "tok_text finsh_token_type_assign = [61]"
| "tok_text finsh_token_type_and = [38]"
| "tok_text finsh_token_type_or = [124]"
| "tok_text finsh_token_type_xor = [94]"
| "tok_text finsh_token_type_bitwise = [126]"
| "tok_text finsh_token_type_shl = [60, 60]"
| "tok_text finsh_token_type_shr = [62, 62]"
| "tok_text finsh_token_type_void = [118, 111, 105, 100]"
| "tok_text finsh_token_type_char = [99, 104, 97, 114]"
| "tok_text finsh_token_type_short = [115, 104, 111, 114, 116]"
| "tok_text finsh_token_type_int = [105, 110, 116]"
| "tok_text finsh_token_type_long = [108, 111, 110, 103]"
| "tok_text finsh_token_type_unsigned = [117, 110, 115, 105, 103, 110, 101, 100]"
| "tok_text _ = []"

fun dec_digits :: "nat \<Rightarrow> u8 list" where
  "dec_digits n = (if n < 10 then [48 + of_nat n] else dec_digits (n div 10) @ [48 + of_nat (n mod 10)])"

declare dec_digits.simps [simp del]

fun ltext :: "ltok \<Rightarrow> u8 list" where
  "ltext (LT t) = tok_text t"
| "ltext (LInt v) = dec_digits (unat v)"
| "ltext (LChr c) = [39, c, 39]"
| "ltext (LId s) = s"

definition line_text :: "ltok list \<Rightarrow> u8 list" where "line_text ts = concat (map (\<lambda>t. ltext t @ [32]) ts)"

text \<open>A word of the language, and a name among them.\<close>

definition is_word :: "u8 list \<Rightarrow> bool" where
  "is_word s \<longleftrightarrow> s \<noteq> [] \<and> \<not> is_digit (hd s) \<and> list_all (\<lambda>c. \<not> is_separator c) s \<and> length s < FINSH_STRING_MAX"

definition is_name :: "u8 list \<Rightarrow> bool" where "is_name s \<longleftrightarrow> is_word s \<and> token_match_name s = None"

fun tok_ok :: "ltok \<Rightarrow> bool" where
  "tok_ok (LT t) = (tok_text t \<noteq> [])"
| "tok_ok (LInt _) = True"
| "tok_ok (LChr c) = (c \<notin> {0, 10, 92})"
| "tok_ok (LId s) = is_name s"

definition adv :: "nat \<Rightarrow> finsh_token \<Rightarrow> finsh_token" where "adv n tk = tk\<lparr>tk_position := tk_position tk + n\<rparr>"

text \<open>What is left of the line.\<close>

definition rest :: "finsh_token \<Rightarrow> u8 list \<Rightarrow> bool" where
  "rest tk s \<longleftrightarrow> \<not> tk_eof tk \<and> tk_position tk \<le> length (tk_line tk) \<and> drop (tk_position tk) (tk_line tk) = s"

lemma adv_simps [simp]:
  "tk_eof (adv n tk) = tk_eof tk" "tk_replay (adv n tk) = tk_replay tk" "tk_line (adv n tk) = tk_line tk"
  "tk_string (adv n tk) = tk_string tk" "tk_value (adv n tk) = tk_value tk" "current_token (adv n tk) = current_token tk"
  "global_errno (adv n tk) = global_errno tk" "tk_position (adv n tk) = tk_position tk + n"
  "adv m (adv n tk) = adv (n + m) tk" "adv 0 tk = tk"
  by (simp_all add: adv_def add.assoc)

lemma adv_update [simp]:
  "adv n (tk\<lparr>tk_string := s\<rparr>) = (adv n tk)\<lparr>tk_string := s\<rparr>" "adv n (tk\<lparr>current_token := t\<rparr>) = (adv n tk)\<lparr>current_token := t\<rparr>"
  by (simp_all add: adv_def)

lemma rest_update [simp]:
  "rest (tk\<lparr>tk_string := x\<rparr>) s = rest tk s" "rest (tk\<lparr>current_token := t\<rparr>) s = rest tk s" "rest (tk\<lparr>tk_value := v\<rparr>) s = rest tk s"
  by (simp_all add: rest_def)

lemma rest_adv: "rest tk (xs @ s) \<Longrightarrow> rest (adv (length xs) tk) s"
  unfolding rest_def by (auto simp: add.commute [of _ "length xs"] simp flip: drop_drop)
    (metis diff_le_self le_add1 length_append length_drop ordered_cancel_comm_monoid_diff_class.le_diff_conv2)

lemma rest_adv1: "rest tk (c # s) \<Longrightarrow> rest (adv 1 tk) s"
  using rest_adv [of tk "[c]" s] by simp

lemma next_char: "rest tk (c # s) \<Longrightarrow> c \<noteq> 10 \<Longrightarrow> token_next_char tk = (c, adv 1 tk)"
proof -
  assume r: "rest tk (c # s)" "c \<noteq> 10"
  hence p: "tk_position tk < length (tk_line tk)" unfolding rest_def by (metis drop_all list.distinct(1) not_less)
  hence "tk_line tk ! tk_position tk = c" using r(1) unfolding rest_def by (metis Cons_nth_drop_Suc list.inject)
  thus ?thesis using r p by (auto simp: token_next_char_def rest_def adv_def)
qed

lemma prev_char [simp]: "\<not> tk_eof tk \<Longrightarrow> token_prev_char (adv (Suc n) tk) = adv n tk"
  by (simp add: token_prev_char_def adv_def)

lemma prev_char_string [simp]: "token_prev_char (tk\<lparr>tk_string := s\<rparr>) = (token_prev_char tk)\<lparr>tk_string := s\<rparr>"
  by (simp add: token_prev_char_def)

lemma while_stop: "\<not> P c \<Longrightarrow> token_while P c tk = Some ([], c, tk)"
  by (subst token_while.simps) simp

lemma while_run:
  assumes "rest tk (xs @ d # s)" "P c" "\<forall>x\<in>set xs. P x" "\<not> P d" "10 \<notin> set xs" "d \<noteq> 10"
  shows "token_while P c tk = Some (c # xs, d, adv (length xs + 1) tk)"
  using assms
proof (induction xs arbitrary: c tk)
  case Nil
  thus ?case using next_char [of tk d s] by (subst token_while.simps) (simp add: while_stop)
next
  case (Cons x xs)
  have "token_while P x (adv 1 tk) = Some (x # xs, d, adv (length xs + 1) (adv 1 tk))"
    by (rule Cons.IH) (use Cons.prems rest_adv1 [of tk x] in auto)
  thus ?case using next_char [of tk x "xs @ d # s"] Cons.prems by (subst token_while.simps) simp
qed

lemma trim_space:
  assumes "rest tk (replicate n 32 @ c # s)" "c \<notin> {32, 9, 13, 10}"
  shows "token_trim_space tk = Some (adv n tk)"
proof (cases n)
  case 0
  thus ?thesis using next_char [of tk c s] assms by (simp add: token_trim_space_def while_stop rest_def)
next
  case (Suc m)
  have r: "rest tk (32 # replicate m 32 @ c # s)" using assms(1) Suc by simp
  have "token_while (\<lambda>ch. ch = 32 \<or> ch = 9 \<or> ch = 13) 32 (adv 1 tk) =
      Some (32 # replicate m 32, c, adv (length (replicate m (32 :: u8)) + 1) (adv 1 tk))"
    by (rule while_run [OF rest_adv1 [OF r]]) (use assms(2) in auto)
  thus ?thesis using next_char [OF r] Suc assms(1) by (simp add: token_trim_space_def rest_def)
qed

lemma prev_char_back:
  "\<not> tk_eof tk \<Longrightarrow> token_prev_char ((adv (Suc n) tk)\<lparr>tk_string := s, tk_eof := False\<rparr>) = (adv n tk)\<lparr>tk_string := s\<rparr>"
  by (cases tk) (simp add: token_prev_char_def adv_def)

lemma get_string_none:
  assumes "rest tk (c # s)" "c \<noteq> 10" "is_digit c \<or> is_separator c"
  shows "token_get_string tk = Some (tk\<lparr>tk_string := []\<rparr>)"
proof -
  have e: "\<not> tk_eof tk" using assms(1) by (simp add: rest_def)
  show ?thesis using next_char [OF assms(1,2)] assms(3) e prev_char [of tk 0]
    by (auto simp: token_get_string_def while_stop FINSH_STRING_MAX_def Let_def prev_char_back)
qed

lemma separator_32 [simp]: "is_separator 32" "\<not> is_separator c \<Longrightarrow> c \<noteq> 10"
  by (auto simp: is_separator_def)

lemma get_string_word:
  assumes "rest tk (w @ 32 # s)" "is_word w"
  shows "token_get_string tk = Some ((adv (length w) tk)\<lparr>tk_string := w\<rparr>)"
proof -
  obtain c xs where w: "w = c # xs" using assms(2) by (cases w) (auto simp: is_word_def)
  have p: "\<not> is_digit c" "\<not> is_separator c" "\<forall>x\<in>set xs. \<not> is_separator x" "length w < FINSH_STRING_MAX"
    using assms(2) w by (auto simp: is_word_def list_all_iff)
  have "10 \<notin> set xs" using p(3) separator_32(2) by blast
  have e: "\<not> tk_eof tk" using assms(1) by (simp add: rest_def)
  have r: "rest tk (c # xs @ 32 # s)" using assms(1) w by simp
  have n: "token_next_char tk = (c, adv 1 tk)" by (rule next_char [OF r]) (use p(2) separator_32(2) in blast)
  have "token_while (\<lambda>ch. \<not> is_separator ch) c ((adv 1 tk)\<lparr>tk_string := []\<rparr>) =
      Some (c # xs, 32, adv (length xs + 1) ((adv 1 tk)\<lparr>tk_string := []\<rparr>))"
    by (rule while_run) (use rest_adv1 [OF r] p \<open>10 \<notin> set xs\<close> in auto)
  thus ?thesis using n p e w by (simp add: token_get_string_def prev_char_back)
qed

text \<open>The scanner on a line of which \<open>s\<close> is left.\<close>

definition scans :: "finsh_token \<Rightarrow> u8 list \<Rightarrow> bool" where
  "scans tk s \<longleftrightarrow> rest tk s \<and> \<not> tk_replay tk \<and> global_errno tk = 0"

lemma scan_word:
  assumes "scans tk (replicate n 32 @ w @ 32 # s)" "is_word w"
  shows "finsh_token_token tk = Some ((adv (n + length w) tk)\<lparr>tk_string := w,
    current_token := (case token_match_name w of Some t \<Rightarrow> t | None \<Rightarrow> finsh_token_type_identifier)\<rparr>)"
proof -
  obtain c xs where w: "w = c # xs" using assms(2) by (cases w) (auto simp: is_word_def)
  have "\<not> is_separator c" using assms(2) w by (simp add: is_word_def)
  hence "c \<notin> {32, 9, 13, 10}" by (auto simp: is_separator_def)
  hence t: "token_trim_space tk = Some (adv n tk)" using trim_space [of tk n c "xs @ 32 # s"] assms(1) w by (simp add: scans_def)
  have "rest (adv n tk) (w @ 32 # s)" using rest_adv [of tk "replicate n 32"] assms(1) by (simp add: scans_def)
  from get_string_word [OF this assms(2)] t show ?thesis using assms w
    by (auto simp: finsh_token_token_def token_run_def scans_def rest_def split: option.split)
qed

lemma scan_operator:
  assumes "scans tk (replicate n 32 @ c # s)" "c \<notin> {32, 9, 13, 10}" "is_digit c \<or> is_separator c"
  shows "finsh_token_token tk = token_operator ((adv n tk)\<lparr>tk_string := []\<rparr>)"
proof -
  have t: "token_trim_space tk = Some (adv n tk)" using trim_space [of tk n c s] assms(1,2) by (simp add: scans_def)
  have "rest (adv n tk) (c # s)" using rest_adv [of tk "replicate n 32"] assms(1) by (simp add: scans_def)
  from get_string_none [OF this _ assms(3)] t assms show ?thesis
    by (simp add: finsh_token_token_def token_run_def scans_def rest_def)
qed

lemma scan_end:
  assumes "scans tk [32]" shows "\<exists>tk'. finsh_token_token tk = Some tk' \<and> has_read (LT finsh_token_type_eof) tk'"
proof -
  have r: "rest tk [32]" using assms by (simp add: scans_def)
  let ?e = "(adv 1 tk)\<lparr>tk_eof := True, tk_position := 0\<rparr>"
  have "rest (adv 1 tk) []" by (rule rest_adv1 [OF r])
  hence "token_next_char (adv 1 tk) = (0, ?e)" by (auto simp: token_next_char_def rest_def)
  moreover have "token_next_char ?e = (0, ?e)" by (simp add: token_next_char_def)
  ultimately have "token_trim_space tk = Some ?e"
    using next_char [OF r] by (simp add: token_trim_space_def) (subst token_while.simps, simp add: while_stop token_prev_char_def)
  thus ?thesis using assms
    by (simp add: finsh_token_token_def token_run_def scans_def token_get_string_def token_next_char_def has_read_def)
qed

lemma operator_text:
  assumes "rest tk (tok_text t @ 32 # s)" "tok_text t \<noteq> []" "is_separator (hd (tok_text t))"
  shows "token_operator tk = Some ((adv (length (tok_text t)) tk)\<lparr>current_token := t\<rparr>)"
proof -
  have e: "\<not> tk_eof tk" using assms(1) by (simp add: rest_def)
  have one: "token_next_char tk = (c, adv (Suc 0) tk)" if "tok_text t = c # cs" "c \<noteq> 10" for c cs
    using next_char [of tk c] assms(1) that by simp
  have two: "token_next_char (adv (Suc 0) tk) = (d, adv (Suc (Suc 0)) tk)" if "tok_text t @ 32 # s = c # d # cs" "d \<noteq> 10" for c d cs
    using next_char [of "adv 1 tk" d cs] rest_adv1 [of tk c] assms(1) that by simp
  show ?thesis using assms(2,3)
    by (cases t) (auto simp: token_operator_def token_pair_def one two e is_separator_def)
qed

lemma less_10_cases: "k < 10 \<Longrightarrow> k \<in> {0, 1, 2, 3, 4, 5, 6, 7, 8, 9 :: nat}"
  by auto

lemma dec_digits_value: "decimal (dec_digits n) = of_nat n"
proof (induction n rule: dec_digits.induct)
  case (1 n)
  have d: "(ucast (48 + of_nat k :: u8) :: u32) - 48 = of_nat k" if "k < 10" for k
    using less_10_cases [OF that] by auto
  show ?case
  proof (cases "n < 10")
    case True
    thus ?thesis using d [OF True] by (subst dec_digits.simps) (simp add: decimal_def)
  next
    case False
    have "decimal (dec_digits n) = of_nat (n div 10) * 10 + of_nat (n mod 10)"
      using 1 False d [of "n mod 10"] by (subst dec_digits.simps) (simp add: decimal_def)
    also have "\<dots> = (of_nat (n div 10 * 10 + n mod 10) :: u32)" by (simp only: of_nat_add of_nat_mult of_nat_numeral)
    finally show ?thesis by (simp only: div_mult_mod_eq)
  qed
qed

lemma dec_digits_digit: "c \<in> set (dec_digits n) \<Longrightarrow> is_digit c"
proof (induction n rule: dec_digits.induct)
  case (1 n)
  have d: "is_digit (48 + of_nat k :: u8)" if "k < 10" for k
    using less_10_cases [OF that] by (auto simp: is_digit_def)
  show ?case using 1 d [of n] d [of "n mod 10"] by (subst (asm) dec_digits.simps) (auto split: if_splits)
qed

lemma dec_digits_first: "\<exists>c cs. dec_digits n = c # cs \<and> (0 < n \<longrightarrow> c \<noteq> 48)"
proof (induction n rule: dec_digits.induct)
  case (1 n)
  have d: "0 < k \<longrightarrow> (48 + of_nat k :: u8) \<noteq> 48" if "k < 10" for k
    using less_10_cases [OF that] by auto
  show ?case
  proof (cases "n < 10")
    case False
    then obtain c cs where "dec_digits (n div 10) = c # cs" "c \<noteq> 48" using 1 by fastforce
    thus ?thesis using False by (subst dec_digits.simps) simp
  qed (use d [of n] in \<open>simp add: dec_digits.simps\<close>)
qed

lemma digit_not_10: "is_digit c \<Longrightarrow> c \<noteq> 10"
  by (auto simp: is_digit_def)

lemma proc_number:
  assumes "rest tk (dec_digits (unat v) @ 32 # s)"
  shows "token_proc_number tk = Some (adv (length (dec_digits (unat v))) (set_int v tk))"
proof -
  have e: "\<not> tk_eof tk" using assms by (simp add: rest_def)
  obtain c cs where c: "dec_digits (unat v) = c # cs" "0 < unat v \<longrightarrow> c \<noteq> 48" using dec_digits_first by blast
  have dig: "is_digit c" "\<forall>x\<in>set cs. is_digit x" using dec_digits_digit [of _ "unat v"] c(1) by auto
  have n: "token_next_char tk = (c, adv (Suc 0) tk)" using next_char [of tk c] assms c(1) digit_not_10 [OF dig(1)] by simp
  show ?thesis
  proof (cases "unat v = 0")
    case True
    hence d: "c = 48" "cs = []" using c(1) by (simp_all add: dec_digits.simps)
    have "token_next_char (adv (Suc 0) tk) = (32, adv (Suc (Suc 0)) tk)"
      using next_char [of "adv 1 tk" 32 s] rest_adv1 [of tk c] assms c(1) d by simp
    thus ?thesis using n d e True c(1) by (simp add: token_proc_number_def set_int_def adv_def unat_eq_0 token_prev_char_def)
  next
    case False
    hence "c \<noteq> 48" using c(2) by simp
    have "token_while is_digit c (adv (Suc 0) tk) = Some (c # cs, 32, adv (length cs + 1) (adv (Suc 0) tk))"
      by (rule while_run) (use rest_adv1 [of tk c "cs @ 32 # s"] assms c(1) dig digit_not_10 in \<open>auto simp: is_digit_def\<close>)
    moreover have "decimal (c # cs) = v" using dec_digits_value [of "unat v"] c(1) by simp
    ultimately show ?thesis using n \<open>c \<noteq> 48\<close> e c(1)
      by (simp add: token_proc_number_def set_int_def number_end_def adv_def token_prev_char_def)
  qed
qed

lemma operator_number:
  assumes "rest tk (dec_digits (unat v) @ 32 # s)"
  shows "token_operator tk = Some (adv (length (dec_digits (unat v))) (set_int v tk))"
proof -
  have e: "\<not> tk_eof tk" using assms by (simp add: rest_def)
  obtain c cs where c: "dec_digits (unat v) = c # cs" using dec_digits_first by blast
  have dig: "is_digit c" using dec_digits_digit [of _ "unat v"] c by auto
  have "token_next_char tk = (c, adv (Suc 0) tk)" using next_char [of tk c] assms c digit_not_10 [OF dig] by simp
  moreover have "c \<notin> {40, 41, 44, 59, 38, 42, 43, 45, 47, 60, 62, 124, 37, 126, 94, 61, 39, 34}" using dig by (auto simp: is_digit_def)
  ultimately show ?thesis using proc_number [OF assms] dig e by (simp add: token_operator_def)
qed

lemma operator_char:
  assumes "rest tk (39 # c # 39 # s)" "c \<notin> {0, 10, 92}"
  shows "token_operator tk = Some ((adv 3 tk)\<lparr>tk_value := set_char_value c (tk_value tk), current_token := finsh_token_type_value_char\<rparr>)"
proof -
  have n: "token_next_char tk = (39, adv (Suc 0) tk)" using next_char [OF assms(1)] by simp
  have r: "rest (adv (Suc 0) tk) (c # 39 # s)" using rest_adv1 [OF assms(1)] by simp
  have n2: "token_next_char (adv (Suc 0) tk) = (c, adv (Suc (Suc 0)) tk)" using next_char [OF r] assms(2) by simp
  have "rest (adv (Suc (Suc 0)) tk) (39 # s)" using rest_adv1 [OF r] by simp
  hence n3: "token_next_char (adv (Suc (Suc 0)) tk) = (39, adv (Suc (Suc (Suc 0))) tk)" using next_char by fastforce
  show ?thesis using assms(2) by (simp add: token_operator_def token_proc_char_def n n2 n3 numeral_3_eq_3)
qed

text \<open>Every printed token is read back.\<close>

lemma keyword_text: "tok_text t \<noteq> [] \<Longrightarrow> \<not> is_separator (hd (tok_text t)) \<Longrightarrow> is_word (tok_text t) \<and> token_match_name (tok_text t) = Some t"
  by (cases t) (simp_all add: is_word_def is_separator_def is_digit_def token_match_name_def finsh_name_table_def FINSH_STRING_MAX_def)

lemma tok_text_first: "tok_text t = c # cs \<Longrightarrow> c \<notin> {32, 9, 13, 10}"
  by (cases t) auto

lemma scan_token:
  assumes "scans tk (replicate n 32 @ ltext t @ 32 # s)" "tok_ok t"
  shows "\<exists>tk'. finsh_token_token tk = Some tk' \<and> has_read t tk' \<and> scans tk' (32 # s)"
proof -
  have p: "\<not> tk_replay tk" "global_errno tk = 0" "rest tk ((replicate n 32 @ ltext t) @ 32 # s)" using assms(1) by (simp_all add: scans_def)
  have r: "rest (adv (n + length (ltext t)) tk) (32 # s)" using rest_adv [OF p(3)] by simp
  let ?tk = "(adv n tk)\<lparr>tk_string := []\<rparr>"
  have rt: "rest ?tk (ltext t @ 32 # s)" using rest_adv [of tk "replicate n 32"] p(3) by simp
  show ?thesis
  proof (cases t)
    case (LT ty)
    show ?thesis
    proof (cases "is_separator (hd (tok_text ty))")
      case True
      obtain c cs where c: "tok_text ty = c # cs" using assms(2) LT by (cases "tok_text ty") auto
      have "finsh_token_token tk = Some ((adv (length (tok_text ty)) ?tk)\<lparr>current_token := ty\<rparr>)"
        using scan_operator [of tk n c] operator_text [of ?tk ty s] assms LT c True tok_text_first [OF c] rt by simp
      thus ?thesis using p r LT by (simp add: has_read_def scans_def)
    next
      case False
      hence w: "is_word (tok_text ty)" "token_match_name (tok_text ty) = Some ty" using keyword_text assms(2) LT by auto
      thus ?thesis using scan_word [of tk n "tok_text ty" s] assms(1) p r LT by (simp add: has_read_def scans_def)
    qed
  next
    case (LInt v)
    obtain c cs where c: "dec_digits (unat v) = c # cs" using dec_digits_first by blast
    have "is_digit c" using dec_digits_digit [of _ "unat v"] c by auto
    moreover from this have "c \<notin> {32, 9, 13, 10}" by (auto simp: is_digit_def)
    ultimately have "finsh_token_token tk = Some (adv (length (dec_digits (unat v))) (set_int v ?tk))"
      using scan_operator [of tk n c] operator_number [of ?tk v s] assms LInt c rt by simp
    thus ?thesis using p r LInt by (simp add: has_read_def scans_def set_int_def adv_def rest_def add.assoc)
  next
    case (LChr c)
    have "finsh_token_token tk = Some ((adv 3 ?tk)\<lparr>tk_value := set_char_value c (tk_value tk), current_token := finsh_token_type_value_char\<rparr>)"
      using scan_operator [of tk n 39] operator_char [of ?tk c "32 # s"] assms LChr rt by (simp add: is_separator_def)
    thus ?thesis using p r LChr by (simp add: has_read_def scans_def numeral_3_eq_3)
  next
    case (LId w)
    hence "is_word w" "token_match_name w = None" using assms(2) by (simp_all add: is_name_def)
    thus ?thesis using scan_word [of tk n w s] assms(1) p r LId by (simp add: has_read_def scans_def)
  qed
qed

lemma scan_line: "scans tk (32 # line_text ts) \<Longrightarrow> list_all tok_ok ts \<Longrightarrow> stream tk (ts @ [LT finsh_token_type_eof])"
proof (induction ts arbitrary: tk)
  case Nil
  thus ?case using scan_end [of tk] by (simp add: line_text_def)
next
  case (Cons t ts)
  have "scans tk (replicate 1 32 @ ltext t @ 32 # line_text ts)" using Cons.prems(1) by (simp add: line_text_def)
  from scan_token [OF this] Cons show ?case by fastforce
qed

lemma scan_line_init:
  assumes "list_all tok_ok ts" "ts \<noteq> []"
  shows "stream (finsh_token_init (line_text ts) 0) (ts @ [LT finsh_token_type_eof])"
proof -
  obtain t us where t: "ts = t # us" using assms(2) by (cases ts) auto
  have "scans (finsh_token_init (line_text ts) 0) (replicate 0 32 @ ltext t @ 32 # line_text us)"
    by (simp add: scans_def rest_def finsh_token_init_def t line_text_def)
  from scan_token [OF this] assms(1) t scan_line [of _ us] show ?thesis by fastforce
qed

end
