(* ===== verification/Rt_Finsh_Fuel.thy ===== *)
theory Rt_Finsh_Fuel
  imports Rt_Finsh_Grammar
begin

text \<open>
  Two facts about every run of the parser: its result does not depend on the fuel, and it keeps whatever the scanner's operations keep.
\<close>

section \<open>More fuel gives the same\<close>

text \<open>The first result is none, or the same as the second.\<close>

definition le_opt :: "'a option \<Rightarrow> 'a option \<Rightarrow> bool" where "le_opt a b \<longleftrightarrow> (\<forall>r. a = Some r \<longrightarrow> b = Some r)"

lemma le_opt_refl [intro]: "le_opt a a"
  by (simp add: le_opt_def)

lemma le_opt_bind: "le_opt a b \<Longrightarrow> (\<And>x. le_opt (f x) (g x)) \<Longrightarrow> le_opt (a \<bind> f) (b \<bind> g)"
  unfolding le_opt_def by (cases a) auto

lemma le_opt_prod: "(\<And>x y. le_opt (f x y) (g x y)) \<Longrightarrow> le_opt (case_prod f p) (case_prod g p)"
  by (cases p) simp

lemma le_opt_if: "(c \<Longrightarrow> le_opt a b) \<Longrightarrow> (\<not> c \<Longrightarrow> le_opt a' b') \<Longrightarrow> le_opt (if c then a else a') (if c then b else b')"
  by simp

lemma le_opt_option: "le_opt a b \<Longrightarrow> (\<And>x. le_opt (f x) (g x)) \<Longrightarrow> le_opt (case_option a f z) (case_option b g z)"
  by (cases z) simp_all

lemma le_opt_Let: "(\<And>x. le_opt (f x) (g x)) \<Longrightarrow> le_opt (Let x f) (Let x g)"
  by (simp add: Let_def)

lemmas le_opt_intros = le_opt_bind le_opt_prod le_opt_if le_opt_option le_opt_Let le_opt_refl

lemmas proc_defs = proc_assign_expr_def proc_binary_expr_def proc_binary_loop_def proc_cast_expr_def proc_unary_expr_def proc_postfix_expr_def
  proc_call_def proc_postfix_loop_def proc_primary_expr_def proc_param_list_def proc_param_loop_def

lemma proc_step_mono: "(\<And>nt st. le_opt (R nt st) (S nt st)) \<Longrightarrow> le_opt (proc_step env R nt st) (proc_step env S nt st)"
  by (cases nt) (simp_all only: proc_step_def nonterm.case proc_defs, (rule le_opt_intros | assumption)+)

lemma proc_mono: "k \<le> k' \<Longrightarrow> le_opt (proc k env nt st) (proc k' env nt st)"
proof (induction k arbitrary: k' nt st)
  case (Suc k)
  then obtain j where "k' = Suc j" "k \<le> j" by (cases k') auto
  thus ?case using proc_step_mono [of "proc k env" "proc j env"] Suc.IH by simp
qed (simp add: le_opt_def)

lemma parses_unique: "parses env nt st x st' \<Longrightarrow> proc k env nt st = Some r \<Longrightarrow> r = (x, st')"
proof -
  assume "parses env nt st x st'" and k: "proc k env nt st = Some r"
  then obtain K where "\<And>k. k \<ge> K \<Longrightarrow> proc k env nt st = Some (x, st')" unfolding parses_def evn_def by blast
  hence "proc (max k K) env nt st = Some (x, st')" by simp
  thus ?thesis using proc_mono [of k "max k K" env nt st] k by (simp add: le_opt_def)
qed

section \<open>What the parser keeps of the scanner\<close>

text \<open>When there is a result, the scanner in it satisfies \<open>T\<close>.\<close>

definition ends :: "(finsh_token \<Rightarrow> bool) \<Rightarrow> ('a \<times> finsh_ps) option \<Rightarrow> bool" where
  "ends T m \<longleftrightarrow> (\<forall>x st. m = Some (x, st) \<longrightarrow> T (ps_token st))"

lemma ends_bind: "ends T m \<Longrightarrow> (\<And>x st. T (ps_token st) \<Longrightarrow> ends T (f x st)) \<Longrightarrow> ends T (m \<bind> (\<lambda>(x, st). f x st))"
  unfolding ends_def by (cases m) auto

lemma ends_pair: "T (ps_token (snd p)) \<Longrightarrow> (\<And>x st. T (ps_token st) \<Longrightarrow> ends T (f x st)) \<Longrightarrow> ends T (let (x, st) = p in f x st)"
  unfolding Let_def by (cases p) auto

lemma ends_Some: "T (ps_token (snd p)) \<Longrightarrow> ends T (Some p)"
  unfolding ends_def by auto

lemma ends_if: "(c \<Longrightarrow> ends T a) \<Longrightarrow> (\<not> c \<Longrightarrow> ends T b) \<Longrightarrow> ends T (if c then a else b)"
  by simp

lemma ends_option: "ends T a \<Longrightarrow> (\<And>x. ends T (f x)) \<Longrightarrow> ends T (case_option a f z)"
  by (cases z) simp_all

locale scanner_invariant =
  fixes T :: "finsh_token \<Rightarrow> bool"
  assumes T_next: "T tk \<Longrightarrow> finsh_token_token tk = Some tk' \<Longrightarrow> T tk'"
    and T_replay: "T tk \<Longrightarrow> T (tk\<lparr>tk_replay := True\<rparr>)"
    and T_error: "T tk \<Longrightarrow> T (finsh_error_set e tk)"
begin

lemma T_simps [simp]:
  "T (ps_token st) \<Longrightarrow> T (ps_token (finsh_token_replay st))"
  "T (ps_token st) \<Longrightarrow> T (ps_token (set_error e st))"
  "T (ps_token st) \<Longrightarrow> T (ps_token (check_token a b st))"
  using T_replay T_error by (simp_all add: finsh_token_replay_def set_error_def check_token_def)

lemma T_nodes [simp]:
  "T (ps_token st) \<Longrightarrow> T (ps_token (snd (make_sys_node nt x y st)))"
  "T (ps_token st) \<Longrightarrow> T (ps_token (snd (new_value nt v st)))"
  by (auto simp: make_sys_node_def new_value_def finsh_node_allocate_def)

lemma T_next_token: "T (ps_token st) \<Longrightarrow> next_token st = Some st' \<Longrightarrow> T (ps_token st')"
  using T_next by (auto simp: next_token_def)

lemma ends_next:
  assumes "T (ps_token st)" "\<And>st'. T (ps_token st') \<Longrightarrow> ends T (f st')" shows "ends T (next_token st \<bind> f)"
  using assms T_next_token [OF assms(1)] by (cases "next_token st") (simp_all add: ends_def [of T None])

lemma ends_match:
  assumes "T (ps_token st)" "\<And>st'. T (ps_token st') \<Longrightarrow> ends T (f st')" shows "ends T (match_token t st \<bind> f)"
  using assms T_next_token [OF assms(1)] by (cases "next_token st") (simp_all add: match_token_def ends_def [of T None])

lemmas ends_intros = ends_next ends_match ends_bind ends_pair ends_if ends_option ends_Some

lemma ends_new_id: "T (ps_token st) \<Longrightarrow> ends T (finsh_node_new_id env i st)"
  by (auto simp: finsh_node_new_id_def finsh_node_allocate_def ends_def bind_eq_Some_conv split: option.splits if_splits)

lemma ends_identifier: "T (ps_token st) \<Longrightarrow> ends T (proc_identifier st)"
  unfolding proc_identifier_def by (intro ends_intros) simp_all

lemma ends_leaf: "T (ps_token st) \<Longrightarrow> ends T (primary_leaf env st)"
  unfolding primary_leaf_def
  by (cases "token_of st") (auto intro!: ends_intros ends_identifier ends_new_id simp: finsh_node_new_int_def finsh_node_new_long_def
      finsh_node_new_char_def finsh_node_new_string_def finsh_node_new_ptr_def)

lemma ends_pointer: "T (ps_token st) \<Longrightarrow> ends T (proc_pointer t st)"
  unfolding proc_pointer_def by (intro ends_intros) simp_all

lemma ends_type: "T (ps_token st) \<Longrightarrow> ends T (proc_type st)"
  unfolding proc_type_def Let_def by (intro ends_intros ends_pointer) simp_all

lemma ends_step:
  assumes "\<And>nt st. T (ps_token st) \<Longrightarrow> ends T (R nt st)" "T (ps_token st)"
  shows "ends T (proc_step env R nt st)"
  using assms(2)
  by (cases nt) (simp_all only: proc_step_def nonterm.case proc_defs finsh_node_new_long_def,
    (intro ends_intros assms(1) ends_type ends_leaf; simp)+)

lemma ends_proc: "T (ps_token st) \<Longrightarrow> ends T (proc k env nt st)"
proof (induction k arbitrary: nt st)
  case (Suc k)
  show ?case using ends_step [of "proc k env"] Suc by simp
qed (simp add: ends_def)

lemma ends_statement: "T (ps_token st) \<Longrightarrow> ends T (proc_expr_statement k env st)"
  unfolding proc_expr_statement_def by (intro ends_intros ends_proc) simp_all

end

end
