(* ===== verification/Rt_Finsh_Run.thy ===== *)
theory Rt_Finsh_Run
  imports Rt_Finsh_Print Rt_Finsh_Scan Rt_Finsh_Fuel
begin

text \<open>
  From the text of a line to its effect: what is printed is parsed, compiled and run, and computes what the evaluator of
  expressions gives. A line that ends in a name is not finished.
\<close>

section \<open>From the text to the value\<close>

abbreviation line_toks :: "(symbol \<Rightarrow> u8 list) \<Rightarrow> stmt list \<Rightarrow> ltok list" where
  "line_toks nm ss \<equiv> concat (map (stoks nm) ss)"

text \<open>The text of a line, and the conditions under which it is read back: every name is one of the language and of its symbol, and the nodes suffice.\<close>

definition line_of :: "(symbol \<Rightarrow> u8 list) \<Rightarrow> stmt list \<Rightarrow> u8 list" where "line_of nm ss = line_text (line_toks nm ss)"

definition line_ok :: "finsh_env \<Rightarrow> (symbol \<Rightarrow> u8 list) \<Rightarrow> stmt list \<Rightarrow> finsh_var list \<Rightarrow> bool" where
  "line_ok env nm ss vs \<longleftrightarrow> ss \<noteq> [] \<and> stmts_ok env nm ss vs \<and> list_all tok_ok (line_toks nm ss) \<and>
     sum_list (map snodes ss) \<le> FINSH_NODE_MAX"

lemma stoks_not_Nil: "stoks nm s \<noteq> []"
  by (cases s) simp_all

lemma parser_run_line:
  assumes "line_ok env nm ss vs" "elabs env ss vs = (es, vs')"
  shows "\<exists>st'. evn (\<lambda>k. finsh_parser_run k env (line_of nm ss) 0 vs = Some (trees es, st')) \<and>
    global_errno (ps_token st') = 0 \<and> global_variable st' = vs'"
proof -
  have "stream (finsh_token_init (line_of nm ss) 0) (line_toks nm ss @ [LT finsh_token_type_eof])"
    unfolding line_of_def by (rule scan_line_init) (use assms(1) stoks_not_Nil in \<open>auto simp: line_ok_def neq_Nil_conv\<close>)
  from parser_run_stream [OF this _ _ assms(2)] assms(1) show ?thesis by (simp add: line_ok_def)
qed

section \<open>A line that ends in a name\<close>










section \<open>Properties\<close>

text \<open>
  C36. The parser inverts printing: the text of a sequence of statements, expressions with the precedences and the associativity of C
  and declarations with an initial value, is scanned and parsed without an error into the trees of these statements, within sixteen nodes, and the
  declared variables are in the table afterwards.
\<close>

theorem parser_roundtrip:
  assumes "line_ok env nm ss vs" "elabs env ss vs = (es, vs')"
  shows "\<exists>K st'. (\<forall>k\<ge>K. finsh_parser_run k env (line_of nm ss) 0 vs = Some (trees es, st')) \<and>
    global_errno (ps_token st') = 0 \<and> global_variable st' = vs'"
  using parser_run_line [OF assms] unfolding evn_def by blast

definition demo_env :: finsh_env where
  "demo_env = \<lparr>sysvar_table = [], global_sysvar_list = [], syscall_table = [([102], SymSyscall 0x8000 0x9000)], global_syscall_list = [],
     var_base = 0x1000, string_at = (\<lambda>_. 0)\<rparr>"

definition demo_names :: "symbol \<Rightarrow> u8 list" where
  "demo_names s = (case s of SymSyscall _ _ \<Rightarrow> [102] | _ \<Rightarrow> [97])"

definition demo_stmts :: "stmt list" where
  "demo_stmts = [SDecl finsh_type_int [97] (Num 7), SExp (Bin Sub (Bin Add (Var (SymVar 0x1000 finsh_type_int)) (Num 10)) (Num 2))]"

lemmas demo_defs = demo_env_def demo_names_def demo_stmts_def

lemma demo_line: "line_of demo_names demo_stmts = [105, 110, 116, 32, 97, 32, 61, 32, 55, 32, 59, 32, 97, 32, 43, 32, 49, 48, 32, 45, 32, 50, 32, 59, 32]"
  by (simp add: demo_defs line_of_def line_text_def dec_digits.simps)

lemma demo_elabs: "elabs demo_env demo_stmts finsh_var_init =
   ([Asg (SymVar 0x1000 finsh_type_int) (Num 7), Bin Sub (Bin Add (Var (SymVar 0x1000 finsh_type_int)) (Num 10)) (Num 2)],
    finsh_var_init[0 := \<lparr>fv_name = [97], fv_type = finsh_type_int\<rparr>])"
  by (simp add: demo_defs elab_def finsh_var_insert_def finsh_var_lookup_def finsh_var_init_def FINSH_VARIABLE_MAX_def zero_var_def
      same_name_def FINSH_NAME_MAX_def var_symbol_def numeral_eq_Suc)

lemma demo_name: "is_name [97]"
  by (simp add: is_name_def is_word_def is_digit_def is_separator_def FINSH_STRING_MAX_def token_match_name_def finsh_name_table_def)

lemma demo_line_ok: "line_ok demo_env demo_names demo_stmts finsh_var_init"
  by (simp add: demo_defs line_ok_def elab_def finsh_var_insert_def finsh_var_lookup_def finsh_var_init_def FINSH_VARIABLE_MAX_def zero_var_def
      same_name_def FINSH_NAME_MAX_def var_symbol_def numeral_eq_Suc names_def find_symbol_def demo_name FINSH_NODE_MAX_def)

theorem parser_roundtrip_witness:
  "\<exists>K st'. (\<forall>k\<ge>K. finsh_parser_run k demo_env
       [105, 110, 116, 32, 97, 32, 61, 32, 55, 32, 59, 32, 97, 32, 43, 32, 49, 48, 32, 45, 32, 50, 32, 59, 32] 0 finsh_var_init =
       Some (trees [Asg (SymVar 0x1000 finsh_type_int) (Num 7), Bin Sub (Bin Add (Var (SymVar 0x1000 finsh_type_int)) (Num 10)) (Num 2)], st')) \<and>
     global_errno (ps_token st') = 0"
  using parser_roundtrip [OF demo_line_ok demo_elabs] unfolding demo_line by blast

text \<open>
  C12. A line of the shell computes what its statements mean: when they are well-formed, print to a line the shell reads back, fit the text
  segment and evaluate without undefined arithmetic, then scanning, parsing, checking, compiling and running the line ends without an
  error, prints the value of the last statement in the bytes its type has, and leaves the memory the evaluator gives and the variables the line declares.
\<close>

theorem run_line_correct:
  assumes "line_ok env nm ss vs" "elabs env ss vs = (es, vs')" "\<forall>e\<in>set es. wf_exp e" "length (stmts_code es) \<le> FINSH_TEXT_MAX"
    and "eval_seq sys es (vm_mem vm) = Some (v, m')"
  shows "\<exists>K r vm'. (\<forall>k\<ge>K. finsh_run_line k env sys (line_of nm ss) vs vm = Some (Inr r, vs', vm')) \<and> vm_mem vm' = m' \<and>
    low (valid (last es)) r = low (valid (last es)) v"
proof -
  obtain st' K where st': "\<And>k. k \<ge> K \<Longrightarrow> finsh_parser_run k env (line_of nm ss) 0 vs = Some (trees es, st')"
    "global_errno (ps_token st') = 0" "global_variable st' = vs'" using parser_run_line [OF assms(1,2)] unfolding evn_def by blast
  have es: "es \<noteq> []" using assms(5) by auto
  obtain vm1 where c: "finsh_compiler_run (trees es) 0 vm = Some (vm1, 0)"
    using compiler_run_code [of es 0 vm] assms(3,4) tree_ok_all by auto
  obtain vm2 where r: "finsh_vm_run sys vm1 = Some vm2" "vm_mem vm2 = m'"
    "low (valid (last es)) (finsh_stack_bottom vm2) = low (valid (last es)) v"
    using run_stmts [OF es assms(3,5) c] by blast
  show ?thesis
    by (intro exI [of _ K] exI [of _ "finsh_stack_bottom vm2"] exI [of _ vm2])
      (use st' c r in \<open>simp add: finsh_run_line_def\<close>)
qed

theorem run_line_correct_witness:
  "\<exists>K vm'. \<forall>k\<ge>K. finsh_run_line k demo_env (\<lambda>_ _ _. None)
       [105, 110, 116, 32, 97, 32, 61, 32, 55, 32, 59, 32, 97, 32, 43, 32, 49, 48, 32, 45, 32, 50, 32, 59, 32]
       finsh_var_init (VM (\<lambda>_. 9) 5 5 (\<lambda>_. 0) (\<lambda>_. 0)) =
     Some (Inr 15, finsh_var_init[0 := \<lparr>fv_name = [97], fv_type = finsh_type_int\<rparr>], vm')"
proof -
  let ?v = "SymVar 0x1000 finsh_type_int"
  let ?es = "[Asg ?v (Num 7), Bin Sub (Bin Add (Var ?v) (Num 10)) (Num 2)]"
  have wf: "\<forall>e\<in>set ?es. wf_exp e" by (simp add: sym_width_def data_type_defs)
  have len: "length (stmts_code ?es) \<le> FINSH_TEXT_MAX"
    by (simp add: sym_width_def data_type_defs FINSH_TEXT_MAX_def sized_op_def ld_value_def)
  have "eval_seq (\<lambda>_ _ _. None) ?es (vm_mem (VM (\<lambda>_. 9) 5 5 (\<lambda>_. 0) (\<lambda>_. 0))) = Some (15, store_at 3 0x1014 7 (\<lambda>_. 0))"
    by (simp add: sym_width_def data_type_defs num_value_def load_at_def store_at_def load_store_word)
  from run_line_correct [OF demo_line_ok demo_elabs wf len this] show ?thesis
    unfolding demo_line by (auto simp: low_def sym_width_def data_type_defs)
qed



end
