(* ===== verification/Spec2Isabelle.thy ===== *)
theory Spec2Isabelle
  imports Rt_Drv_Ipc Rt_Ringbuffer Rt_Spinlock Rt_Printf Rt_Align Rt_Finsh_Run
begin

text \<open>
  The kernel of RT-Thread with SMP support, the directory \<^verbatim>\<open>src/rt-thread\<close> of the repository, in the
  configuration of \<^verbatim>\<open>bsp/qemu-vexpress-a9/rtconfig.h\<close>: two CPUs, 32 priorities, objects named by at most
  eight characters, alignment 4, one timer skip list level. All file names below are relative to that directory.

  \<^bold>\<open>The program.\<close> Every kernel object begins with a header that \<^verbatim>\<open>src/object.c\<close> registers. A thread is such
  an object and contains a timer. Ready threads that run nowhere stand in one list per priority, either shared or
  owned by the CPU a thread is bound to; a bitmap per group of lists says which are not empty. The scheduler
  takes the first thread of the most urgent list. All kernel data is protected by one lock for all CPUs,
  taken with interrupts off, counted per thread and handed over across a context switch. IPC objects hold
  wait queues; a blocking call puts the caller into one, arms its timer and calls the scheduler; the call on
  the other side, or the timer, makes it ready again. The tick interrupt advances the clock and runs the
  expired timers.

  \<^bold>\<open>Theories and sources.\<close>
  \<^item> \<open>Rt_Prelude\<close>: integer types, alignment, the option monad for asserted code, shared lemmas.
  \<^item> \<open>Rt_List\<close>: \<^verbatim>\<open>include/rtservice.h\<close>. The list operations as pointer code on a store of \<^verbatim>\<open>next\<close> and
    \<^verbatim>\<open>prev\<close>, and the proof that they implement insertion, removal and emptiness of sequences. The other
    theories use the sequences.
  \<^item> \<open>Rt_Kservice\<close>, \<open>Rt_Memory\<close>, \<open>Rt_Printf\<close>, \<open>Rt_Align\<close>: \<^verbatim>\<open>src/kservice.c\<close>. \<^verbatim>\<open>__rt_ffs\<close> with its table and the strings; filling, copying
    and comparing memory by words; formatted output up to the bytes the console gets; aligned allocation on the heap.
  \<^item> \<open>Rt_Kernel\<close>: \<^verbatim>\<open>include/rtdef.h\<close>, \<^verbatim>\<open>src/cpu.c\<close>, \<^verbatim>\<open>src/irq.c\<close>. The records, the kernel state \<open>kstate\<close>
    (the data \<open>kcore\<close> and the locks \<open>klock\<close>), the CPUs lock, interrupt nesting, context checks.
  \<^item> \<open>Rt_Scheduler\<close>: \<^verbatim>\<open>src/scheduler.c\<close>, the context switch of \<^verbatim>\<open>bsp/qemu-vexpress-a9/cpu/context_gcc.S\<close>.
    The invariant \<open>sched_inv\<close>: lists, bitmaps, thread states and running threads agree.
  \<^item> \<open>Rt_Locking\<close>: the lock across switches, with the invariant \<open>lock_inv\<close>.
  \<^item> \<open>Rt_Object\<close>, \<open>Rt_Timer\<close>, \<open>Rt_Thread\<close>: \<^verbatim>\<open>src/object.c\<close>, \<^verbatim>\<open>src/timer.c\<close>, \<^verbatim>\<open>src/thread.c\<close>, \<^verbatim>\<open>src/clock.c\<close>.
  \<^item> \<open>Rt_Ipc\<close>, \<open>Rt_Sem\<close>, \<open>Rt_Mutex\<close>, \<open>Rt_Event\<close>, \<open>Rt_Mailbox\<close>, \<open>Rt_Mq\<close>: the parts of \<^verbatim>\<open>src/ipc.c\<close>, each with
    its operations, its invariant, and that every call returns and keeps it.
  \<^item> \<open>Rt_Fifo\<close>: the contract of a bounded queue as a locale, with its client lemmas. It is interpreted for
    the circular array of the mailbox and for the ring buffer.
  \<^item> \<open>Rt_Mempool\<close>: \<^verbatim>\<open>src/mempool.c\<close>, the chain of free blocks in the pool's memory, waiting for a block.
  \<^item> \<open>Rt_Mem\<close>: \<^verbatim>\<open>src/mem.c\<close>, the heap of the configuration. The headers form a list through offsets; the invariant \<open>heap_inv\<close>
    says that the walk over them covers the region, and the locale \<open>allocator\<close> states what clients rely on.
  \<^item> \<open>Rt_Ringbuffer\<close>: \<^verbatim>\<open>components/drivers/src/ringbuffer.c\<close>, with its mirror bits.
  \<^item> \<open>Rt_Drv_Ipc\<close>: completions and data queues of the drivers, \<^verbatim>\<open>components/drivers/src/completion.c\<close> and \<^verbatim>\<open>dataqueue.c\<close>, on the kernel's wait lists.
  \<^item> \<open>Rt_Spinlock\<close>: the ticket lock of \<^verbatim>\<open>bsp/qemu-vexpress-a9/drivers/board.c\<close> under the CPUs lock, as steps of several CPUs.
  \<^item> \<open>Rt_Finsh_Vm\<close>, \<open>Rt_Finsh_Compiler\<close>, \<open>Rt_Finsh_Token\<close>, \<open>Rt_Finsh_Parser\<close>: the C interpreter of the shell, in \<^verbatim>\<open>components/finsh\<close>: the machine
    (\<^verbatim>\<open>finsh_ops.c\<close>, \<^verbatim>\<open>finsh_vm.c\<close>), the type check and code generation (\<^verbatim>\<open>finsh_compiler.c\<close>), the scanner (\<^verbatim>\<open>finsh_token.c\<close>), the parser with its nodes and
    variables (\<^verbatim>\<open>finsh_parser.c\<close>, \<^verbatim>\<open>finsh_node.c\<close>, \<^verbatim>\<open>finsh_var.c\<close>) and the evaluation of a line (\<^verbatim>\<open>shell.c\<close>).
  \<^item> \<open>Rt_Finsh\<close>: an evaluator of expressions in the manner of C, and that compiled code computes what it gives.
  \<^item> \<open>Rt_Finsh_Grammar\<close>, \<open>Rt_Finsh_Fuel\<close>, \<open>Rt_Finsh_Print\<close>, \<open>Rt_Finsh_Scan\<close>, \<open>Rt_Finsh_Run\<close>: the parser as grammar rules on tokens, statements as text, and
    that the text is read back as the trees of the statements; together with the compiler, from the text of a line to its value.
  \<^item> \<open>Rt_Demo\<close>: one concrete kernel state with six threads on two CPUs, at which the properties are applied.
  \<^item> This theory: the properties that span components.

  \<^bold>\<open>Reading the model.\<close> An operation takes the number of the CPU that executes it and the state and returns
  an option. \<open>None\<close> stands for a failed assertion, a null pointer that is followed, a lock that is already
  held elsewhere or a loop that does not end; a theorem that says a call returns therefore excludes all of
  these. Error codes are the negative integers of the source. A call that blocks is split at the call of the
  scheduler: the first part ends with the caller suspended and the CPU given to another thread (its result
  tells so), and the continuation, named \<open>_cont\<close>, is what the thread does when it runs again. Machine integers are words of
  their width, so counters wrap as in C. Code outside the kernel is a parameter: timeout functions,
  the memory the allocator returns, the initial contents of a thread's stack.

  \<^bold>\<open>Loops.\<close> Loops over lists are structural. Loops that the source ends by a condition on the
  state, the timer check, releasing all waiters, emptying a message queue and counting a list, are \<open>partial_function\<close>s;
  each is proved to return under the invariants. The formatting loop, the copying loops and the
  machine of the shell terminate by a measure. The parser of the shell (\<open>proc\<close>, \<open>parser_loop\<close>, \<open>proc_decl_loop\<close>) carries a bound on the depth of its calls,
  since some lines make it run for ever: more fuel never changes a result (\<open>proc_mono\<close>), enough fuel is proved to exist for every line
  covered by the round trip, and \<open>None\<close> for every bound means that the parser does not return. Apart from this only \<open>heap_walk\<close>, a definition of the heap's invariant, uses fuel: the length of the region divided by the
  smallest distance of two headers, which no walk over distinct headers exceeds.

  \<^bold>\<open>What the theorems show.\<close>
  \<^item> Scheduling: the CPU runs a ready thread that no other eligible thread is more urgent than; the queue,
    object and lock invariants survive every switch, from a thread or from an interrupt.
  \<^item> Locks: nesting is balanced, at most one CPU holds the lock, the scheduler lock prevents switches.
  \<^item> Threads and timers: starting, deleting, sleeping, changing a priority; insertion keeps the timer list
    sorted across the wrap of the clock; the tick wakes exactly the expired threads.
  \<^item> IPC: semaphores and mutexes hand over to the first waiter; a blocked mutex caller lends its priority to the owner; an
    event wakes every waiter it satisfies; mailboxes and message queues refine bounded queues; the slots of
    a message queue are never shared whatever the interleaving of its critical sections.
  \<^item> Drivers: a data queue refines a bounded queue until its 16-bit index wraps, and loses items after that; a completion wakes its waiter; the ring buffer
    refines a bounded queue of bytes.
  \<^item> Memory: the heap and the pools hand out disjoint blocks, take them back, and stay well-formed under every sequence
    of calls; resizing keeps the contents; aligned blocks lie inside a block in use.
  \<^item> Library: first set bit, lists, strings, word-wise memory functions against byte-wise ones, formatted output against the text a format
    stands for, milliseconds to ticks with the overflow of the product.
  \<^item> Shell: a line of declarations and expressions is scanned, parsed, compiled and run, and computes what the evaluator gives, on every type
    width; printing and parsing are inverse; a line that ends in a name is never finished.

  \<^bold>\<open>Simplifications.\<close> The kernel's assertions are on. Hooks are empty (\<^verbatim>\<open>RT_USING_HOOK\<close> is set, no hook is
  installed). The signal support the board file enables (\<^verbatim>\<open>RT_USING_SIGNALS\<close>) is left out together with its branches
  in the scheduler, and so are modules. The queue of a wait list is the sequence of its threads; membership of a thread in several
  lists through its one link is excluded by the invariant. One kernel call is one step except where stated
  (\<open>Rt_Mq\<close>): the CPUs lock serialises them, which \<open>lock_inv\<close> supports.

  \<^bold>\<open>Not modelled.\<close> Single CPU builds and builds with more than 32 priorities of the scheduler, the soft timer
  thread, signals, the other allocators, device frameworks, file systems, the shell's line editor, commands and string heap,
  and board start-up: hardware access, input and output, vendored code, or configurations that are not built here.
\<close>

section \<open>Scheduling\<close>

text \<open>
  C1. When the scheduler may switch, \<^verbatim>\<open>rt_schedule\<close> returns and the CPU then runs a ready thread
  such that no ready thread that could run on this CPU is more urgent.
\<close>

theorem schedule_runs_highest:
  assumes "lk_ok (Some t) L" "cur c k = Some t" "c < RT_CPUS_NR" "sched_inv k" "stacks_ok k" "may_switch c t L k"
  shows "\<exists>s' u. rt_schedule c (mk L k) = Some s' \<and> cur c (kc s') = Some u \<and> is_ready (threads k u) \<and>
     (\<forall>v. is_ready (threads k v) \<and> oncpu (threads k v) = RT_CPU_DETACHED \<and> bind_cpu (threads k v) \<in> {RT_CPUS_NR, c} \<longrightarrow>
        current_priority (threads k u) \<le> current_priority (threads k v))"
proof -
  obtain s' where s': "rt_schedule c (mk L k) = Some s'"
    using rt_schedule_returns [OF assms(1,2,4,3,5)] by blast
  have inv: "queue_inv {} k" using assms(4) by (simp add: sched_inv_def)
  have gr: "ready_priority_group k \<noteq> 0 \<or> cpu_priority_group (cpus k c) \<noteq> 0"
    using assms(6) by (simp add: may_switch_def)
  obtain to hp h where get: "get_highest_priority_thread c k = Some (to, hp)"
    and low: "\<And>p. p < unat hp \<Longrightarrow> lists k (Ready p) = [] \<and> lists k (CpuReady c p) = []"
    using get_highest_spec [OF inv assms(3) gr] by metis
  note to = highest_is_other [OF assms(4,2,3) gr get]
  have least: "unat hp \<le> unat (current_priority (threads k v))"
    if "is_ready (threads k v)" "oncpu (threads k v) = RT_CPU_DETACHED" "bind_cpu (threads k v) \<in> {RT_CPUS_NR, c}" for v
  proof -
    have "v \<in> set (lists k (home (threads k v)))"
      using that queue_invD(3) [OF inv, of "home (threads k v)" v] by (simp add: home_inj)
    moreover have "home (threads k v) \<in> {Ready (unat (current_priority (threads k v))),
        CpuReady c (unat (current_priority (threads k v)))}"
      using that(3) by (auto simp: home_def)
    ultimately show ?thesis using low [of "unat (current_priority (threads k v))"] by (force simp: not_less [symmetric])
  qed
  show ?thesis
  proof (cases rule: rt_schedule_cases [OF assms(1,2,4,3) s'])
    case 1
    then show ?thesis using assms(6) by (simp add: may_switch_def)
  next
    case 2
    then show ?thesis using assms(6) by simp
  next
    case (3 to' hp')
    then have "hp' = hp" "is_ready (threads k t)" "unat (current_priority (threads k t)) < unat hp"
      using get by (auto simp: keeps_cpu_def word_less_nat_alt unat_ucast_8_32)
    then show ?thesis using s' 3(4) assms(2) least by (force simp: word_le_nat_alt)
  next
    case (4 to' hp')
    then have eq: "to' = to" "hp' = hp" using get by auto
    have "cur c (kc s') = Some to" unfolding 4(6) eq by simp
    then show ?thesis using s' to(2,4) least by (auto simp: word_le_nat_alt)
  qed
qed

theorem schedule_runs_highest_witness:
  "\<exists>s' u. rt_schedule 0 (mk demo_lock demo_core) = Some s' \<and> cur 0 (kc s') = Some u \<and>
     is_ready (threads demo_core u) \<and> current_priority (threads demo_core u) \<le> 8"
proof -
  have "sched_inv demo_core" using demo_kinv by (simp add: kinv_def)
  from schedule_runs_highest [OF ipc_ctxD(1,2,3) [OF demo_ctx] this demo_stacks demo_may_switch]
  obtain s' u where su: "rt_schedule 0 (mk demo_lock demo_core) = Some s'" "cur 0 (kc s') = Some u"
    "is_ready (threads demo_core u)"
    and le: "\<forall>v. is_ready (threads demo_core v) \<and> oncpu (threads demo_core v) = RT_CPU_DETACHED \<and>
      bind_cpu (threads demo_core v) \<in> {RT_CPUS_NR, 0} \<longrightarrow>
      current_priority (threads demo_core u) \<le> current_priority (threads demo_core v)" by blast
  have "is_ready (threads demo_core 3) \<and> oncpu (threads demo_core 3) = RT_CPU_DETACHED \<and>
      bind_cpu (threads demo_core 3) \<in> {RT_CPUS_NR, 0}" "current_priority (threads demo_core 3) = 8"
    by (simp_all add: is_ready_def RT_CPU_DETACHED_def RT_CPUS_NR_def stat_defs)
  with su le show ?thesis by metis
qed

text \<open>
  C2. \<^verbatim>\<open>rt_schedule\<close> keeps the invariants of the ready queues, of the objects and of the CPUs lock: in
  particular at most one CPU holds the lock, and it is held exactly by the running thread whose nest
  counter is not zero.
\<close>

theorem schedule_invariants:
  assumes "lk_ok (Some t) L" "cur c k = Some t" "c < RT_CPUS_NR" "kinv k" "lock_inv (mk L k)" "stacks_ok k"
  shows "\<exists>s'. rt_schedule c (mk L k) = Some s' \<and> kinv (kc s') \<and> lock_inv s'"
proof -
  have inv: "sched_inv k" using assms(4) by (simp add: kinv_def)
  obtain s' where s': "rt_schedule c (mk L k) = Some s'"
    using rt_schedule_returns [OF assms(1,2) inv assms(3,6)] by blast
  show ?thesis
    using s' rt_schedule_kinv [OF assms(1,2,4,3) s'] rt_schedule_lock_inv [OF assms(5) inv assms(3,2,1) s'] by blast
qed

theorem schedule_invariants_witness:
  "\<exists>s'. rt_schedule 0 (mk demo_lock demo_core) = Some s' \<and> kinv (kc s') \<and> lock_inv s'"
  by (rule schedule_invariants [OF ipc_ctxD(1,2,3,4) [OF demo_ctx] demo_lock_inv demo_stacks])



text \<open>
  \<^verbatim>\<open>rt_system_scheduler_init\<close> establishes the invariant of the ready queues.
\<close>

lemma scheduler_init_establishes:
  assumes "\<forall>t. \<not> started (threads k t) \<and> oncpu (threads k t) = RT_CPU_DETACHED"
    and "\<forall>q. lists k (SuspendQ q) = [] \<and> lists k (SenderQ q) = []"
    and "\<forall>p. RT_THREAD_PRIORITY_MAX \<le> p \<longrightarrow> lists k (Ready p) = []"
    and "\<forall>c p. RT_CPUS_NR \<le> c \<or> RT_THREAD_PRIORITY_MAX \<le> p \<longrightarrow> lists k (CpuReady c p) = []"
  shows "sched_inv (rt_system_scheduler_init k)"
proof (rule scheduler_init_inv)
  show "\<not> started (threads k t) \<and> oncpu (threads k t) = RT_CPU_DETACHED" for t using assms(1) by blast
  show "lists k h = []" if "h \<noteq> Defunct" "\<nexists>p. h = Ready p \<and> p < RT_THREAD_PRIORITY_MAX"
    "\<nexists>c p. h = CpuReady c p \<and> c < RT_CPUS_NR \<and> p < RT_THREAD_PRIORITY_MAX" for h
    using that assms(2-4) by (cases h) (auto simp: not_less)
qed

lemma scheduler_init_establishes_witness:
  "sched_inv (rt_system_scheduler_init (demo_core\<lparr>threads := \<lambda>_. demo_thread RT_THREAD_INIT 31 2,
     lists := \<lambda>h. case h of Ready p \<Rightarrow> if p < 32 then [7] else [] | _ \<Rightarrow> []\<rparr>))"
  by (rule scheduler_init_establishes)
    (simp_all add: started_def stat_defs RT_CPU_DETACHED_def RT_CPUS_NR_def RT_THREAD_PRIORITY_MAX_def)

section \<open>Locks\<close>

text \<open>
  Taking and releasing the CPUs lock is balanced: the lock call returns, interrupts are off and a
  running thread holds the lock, and the matching unlock restores the whole state, nested or not.
\<close>

lemma cpus_lock_unlock:
  assumes "lk_ok th L" "cur c k = th"
  shows "\<exists>level s. rt_cpus_lock c (mk L k) = Some (level, s) \<and> irq_disabled (lk s) c \<and> kc s = k \<and>
     (\<forall>t. th = Some t \<longrightarrow> cpus_lock_nest (lk s) t = cpus_lock_nest L t + 1 \<and>
        (cpus_lock_nest L t = 0 \<longrightarrow> cpus_lock (lk s))) \<and>
     rt_cpus_unlock c level s = mk L k"
proof -
  have "rt_cpus_lock c (mk L k) = Some (irq_disabled L c, mk (lockn c th (Suc 0) L) k)"
    "rt_cpus_unlock c (irq_disabled L c) (mk (lockn c th (Suc 0) L) k) = mk L k"
    using assms by simp_all
  then show ?thesis by (cases th) (auto simp: lockn_def Let_def)
qed

lemma cpus_lock_unlock_witness:
  "\<exists>level s. rt_cpus_lock 0 (mk demo_lock demo_core) = Some (level, s) \<and> cpus_lock (lk s) \<and>
     rt_cpus_unlock 0 level s = mk demo_lock demo_core"
  using cpus_lock_unlock [OF ipc_ctxD(1,2) [OF demo_ctx]] by (force simp: demo_lock_def)

text \<open>
  With the scheduler locked by \<^verbatim>\<open>rt_enter_critical\<close>, \<^verbatim>\<open>rt_schedule\<close> changes nothing, whatever is
  ready.
\<close>

lemma critical_section_keeps_cpu:
  assumes "cur c k = Some t" "cpus_lock_nest L t = 0" "scheduler_lock_nest L t = 0"
    and "\<not> critical_lock L" "\<not> cpus_lock L" "irq_nest (cpus k c) = 0"
  shows "\<exists>s. rt_enter_critical c (mk L k) = Some s \<and> kc s = k \<and> rt_schedule c s = Some s"
proof -
  let ?L = "L\<lparr>critical_lock := True, scheduler_lock_nest := (scheduler_lock_nest L)(t := 1)\<rparr>"
  have "lk_ok (Some t) ?L" using assms(2,5) by (simp add: lk_ok_def)
  moreover have "scheduler_lock_nest (lockn c (Some t) (Suc 0) ?L) t \<noteq> 1" using assms(2) by (simp add: lockn_def)
  ultimately have "rt_schedule c (mk ?L k) = Some (mk ?L k)"
    using critical_no_switch [OF _ assms(1,6)] by blast
  with enter_critical_first [OF assms(1-4)] show ?thesis by simp
qed

lemma critical_section_keeps_cpu_witness:
  "\<exists>s. rt_enter_critical 0 (mk demo_lock demo_core) = Some s \<and> kc s = demo_core \<and> rt_schedule 0 s = Some s"
  by (rule critical_section_keeps_cpu [where t = 1]) (simp_all add: demo_lock_def)

section \<open>Threads and timers\<close>

text \<open>
  \<^verbatim>\<open>rt_thread_startup\<close> of an initialised thread returns \<^verbatim>\<open>RT_EOK\<close>, keeps the invariants and leaves
  the thread ready with its initial priority.
\<close>

lemma thread_startup_ready:
  assumes "ipc_ctx c t L k" "init_thread u k" "stack_guard (threads k u) = 0x23"
    and "stack_addr (threads k u) < sp (threads k u)" "sp (threads k u) \<le> stack_addr (threads k u) + stack_size (threads k u)"
    and "stacks_ok k"
  shows "\<exists>s'. rt_thread_startup c u (mk L k) = Some (RT_EOK, s') \<and> kinv (kc s') \<and> is_ready (threads (kc s') u) \<and>
     current_priority (threads (kc s') u) = init_priority (threads k u)"
proof -
  note d = ipc_ctxD [OF assms(1)]
  let ?k = "startup_core c u k"
  have k: "kinv ?k" "cur c ?k = Some t" using startup_core_inv [OF d(4) assms(2)] d(2) by simp_all
  have si: "sched_inv ?k" using k(1) by (simp add: kinv_def)
  have th: "threads ?k = (threads k)(u := (set_priority (init_priority (threads k u)) (threads k u))
      \<lparr>stat := set_tstate RT_THREAD_READY RT_THREAD_SUSPEND\<rparr>)"
    by (simp add: startup_core_def)
  have "rt_scheduler_stack_check v ?k = Some ()" if "started (threads ?k v)" for v
    using that assms(3-6) by (cases "v = u")
      (auto simp: th rt_scheduler_stack_check_def set_priority_def stacks_ok_def)
  then have st: "stacks_ok ?k" by (simp add: stacks_ok_def)
  obtain s' where s': "rt_schedule c (mk L ?k) = Some s'" using rt_schedule_returns [OF d(1) k(2) si d(3) st] by blast
  have "is_ready (threads ?k u)" "current_priority (threads ?k u) = init_priority (threads k u)"
    by (simp_all add: th is_ready_def)
  then show ?thesis
    using s' startup_first [OF d(1,2,4) assms(2)] rt_schedule_kinv [OF d(1) k(2,1) d(3) s']
      rt_schedule_ready [OF d(1) k(2) si d(3) s'] schedule_keeps_waiters(8) [OF d(1) k(2) si d(3) s', of u]
    by simp
qed

lemma thread_startup_ready_witness:
  "\<exists>s'. rt_thread_startup 0 7 (mk demo_lock demo_core) = Some (RT_EOK, s') \<and> kinv (kc s') \<and>
     is_ready (threads (kc s') 7)"
proof -
  have "init_thread 7 demo_core" "stack_guard (threads demo_core 7) = 0x23"
    "stack_addr (threads demo_core 7) < sp (threads demo_core 7)"
    "sp (threads demo_core 7) \<le> stack_addr (threads demo_core 7) + stack_size (threads demo_core 7)"
    by (simp_all add: init_thread_def tstate_def stat_defs demo_thread_def RT_THREAD_PRIORITY_MAX_def RT_CPUS_NR_def)
  from thread_startup_ready [OF demo_ctx this demo_stacks] show ?thesis by blast
qed

text \<open>
  C24. \<^verbatim>\<open>rt_thread_delete\<close> of a dynamic thread in any state but closed keeps the invariant of the ready
  queues: the thread leaves every list, is closed and stands first among the dead threads.
\<close>

theorem thread_delete_closes:
  assumes "lk_ok th L" "cur c k = th" "sched_inv k" "tstate t k \<noteq> RT_THREAD_CLOSE"
    and "rt_object_get_type (OThread t) k = RT_Object_Class_Thread" "\<not> rt_object_is_systemobject (OThread t) k"
    and "rt_object_get_type (OThreadTimer t) k = RT_Object_Class_Timer" "rt_object_is_systemobject (OThreadTimer t) k"
  shows "\<exists>k'. rt_thread_delete c t (mk L k) = Some (RT_EOK, mk L k') \<and> sched_inv k' \<and>
     tstate t k' = RT_THREAD_CLOSE \<and> hd (lists k' Defunct) = t \<and>
     (\<forall>h. h \<noteq> Defunct \<longrightarrow> t \<notin> set (lists k' h)) \<and> OThreadTimer t \<notin> set (rt_timer_list k')"
proof -
  note cl = close_core_inv [OF assms(3,4)]
  have "OThreadTimer t \<notin> set (rt_timer_list (defunct_insert t (close_core t k)))"
    by (simp add: defunct_insert_def close_core_def object_detach_core_def upd_thread_def upd_obj_def)
  moreover have "\<forall>h. h \<noteq> Defunct \<longrightarrow> t \<notin> set (lists (defunct_insert t (close_core t k)) h)"
    "hd (lists (defunct_insert t (close_core t k)) Defunct) = t"
    using cl(2) by (auto simp: defunct_insert_def ll_insert_head_def detached_def)
  moreover have "tstate t (defunct_insert t (close_core t k)) = RT_THREAD_CLOSE"
    using cl(3) by (simp add: tstate_def)
  ultimately show ?thesis
    using thread_delete_first [OF assms(1,2,5-8)] sched_inv_defunct [OF cl] by blast
qed

theorem thread_delete_closes_witness:
  "\<exists>k'. rt_thread_delete 0 4 (mk demo_lock demo_core) = Some (RT_EOK, mk demo_lock k') \<and> sched_inv k' \<and>
     tstate 4 k' = RT_THREAD_CLOSE"
proof -
  have "tstate 4 demo_core \<noteq> RT_THREAD_CLOSE" "\<not> rt_object_is_systemobject (OThread 4) demo_core"
    "rt_object_is_systemobject (OThreadTimer 4) demo_core" "sched_inv demo_core"
    using demo_kinv by (simp_all add: tstate_def stat_defs rt_object_is_systemobject_def class_defs kinv_def)
  with thread_delete_closes [OF ipc_ctxD(1,2) [OF demo_ctx], of 4] show ?thesis by fastforce
qed

text \<open>
  C25. Changing the priority of a started thread keeps the invariants: a ready thread moves to the list
  of its new priority, a running or waiting one only changes its fields.
\<close>

theorem change_priority_invariants:
  assumes "lk_ok th L" "cur c k = th" "kinv k" "started (threads k t)" "unat p < RT_THREAD_PRIORITY_MAX"
  shows "\<exists>k'. rt_thread_control c t (CTRL_CHANGE_PRIORITY p) (mk L k) = Some (RT_EOK, mk L k') \<and> kinv k' \<and>
     current_priority (threads k' t) = p \<and> (\<forall>u. u \<noteq> t \<longrightarrow> threads k' u = threads k u)"
proof -
  have "rt_object_get_type (OThread t) k = RT_Object_Class_Thread"
    using assms(3,4) objs_okD(1) by (simp add: kinv_def)
  then show ?thesis
    using assms change_priority_inv [OF assms(3,5,4), of c] by (simp add: change_priority_threads)
qed

theorem change_priority_invariants_witness:
  "\<exists>k'. rt_thread_control 0 3 (CTRL_CHANGE_PRIORITY 12) (mk demo_lock demo_core) = Some (RT_EOK, mk demo_lock k') \<and>
     kinv k' \<and> current_priority (threads k' 3) = 12"
proof -
  have "started (threads demo_core 3)" "unat (12 :: u8) < RT_THREAD_PRIORITY_MAX"
    by (simp_all add: started_def stat_defs RT_THREAD_PRIORITY_MAX_def)
  from change_priority_invariants [OF ipc_ctxD(1,2,4) [OF demo_ctx] this] show ?thesis by blast
qed



text \<open>
  \<^verbatim>\<open>rt_thread_sleep\<close> suspends the caller, arms its timer for the given number of ticks, schedules
  and keeps the invariants.
\<close>

lemma sleep_suspends:
  assumes "ipc_ctx c t L k" "tick < RT_TICK_MAX div 2" "stacks_ok k"
  shows "\<exists>s'. rt_thread_sleep c tick (mk L k) = Some s' \<and> kinv (kc s') \<and> waits (threads (kc s') t) \<and>
     timeout_tick (timers (kc s') (OThreadTimer t)) = rt_tick_get k + tick \<and>
     OThreadTimer t \<in> set (rt_timer_list (kc s'))"
proof -
  note d = ipc_ctxD [OF assms(1)]
  let ?k = "block_core t tick (suspend_core t k)"
  have k: "kinv ?k" "cur c ?k = Some t" using kinv_suspend [OF d(4,2,3,6)] d(2) by simp_all
  have si: "sched_inv ?k" using k(1) by (simp add: kinv_def)
  have "started (threads k t)" using d(6) by (simp add: state_excl)
  then have "\<exists>s'. rt_schedule c (mk L ?k) = Some s'"
    by (intro schedule_after [OF assms(1,3) k]) (auto simp: stack_view_def split: if_splits)
  then obtain s' where s': "rt_schedule c (mk L ?k) = Some s'" by blast
  have tm: "timers (kc s') = timers ?k \<and> rt_timer_list (kc s') = rt_timer_list ?k"
  proof (cases rule: rt_schedule_cases [OF d(1) k(2) si d(3) s'])
    case (4 to hp)
    then show ?thesis by (simp add: 4(6) switch_core_def requeue_core_def Let_def upd_cpu_def upd_thread_def
      sched_insert_body_def sched_remove_body_def rt_hw_ipi_send_def)
  qed (simp_all add: upd_cpu_def)
  have "timeout_tick (timers ?k (OThreadTimer t)) = rt_tick_get k + tick"
    by (simp add: block_core_def timer_arm_core_def Let_def upd_timer_def rt_tick_get_def suspend_core_def)
  moreover have "OThreadTimer t \<in> set (rt_timer_list ?k)"
    unfolding block_core_def using d(8) by (intro timer_arm_linked) simp
  moreover have "waits (threads (kc s') t)"
    using schedule_keeps_waiters(9) [OF d(1) k(2) si d(3) s', of t] by (simp add: waits_def)
  ultimately show ?thesis
    using sleep_first [OF d(1,2,5,6) assms(2) d(8)] s' rt_schedule_kinv [OF d(1) k(2,1) d(3) s'] tm by simp
qed

lemma sleep_suspends_witness:
  "\<exists>s'. rt_thread_sleep 0 10 (mk demo_lock demo_core) = Some s' \<and> kinv (kc s') \<and> waits (threads (kc s') 1) \<and>
     timeout_tick (timers (kc s') (OThreadTimer 1)) = 15"
proof -
  have "(10 :: u32) < RT_TICK_MAX div 2" "rt_tick_get demo_core = 5"
    by (simp_all add: RT_TICK_MAX_def rt_tick_get_def demo_cpu_def)
  with sleep_suspends [OF demo_ctx _ demo_stacks, of 10] show ?thesis by auto
qed

section \<open>Semaphores, mutexes, events\<close>

text \<open>
  C13. \<^verbatim>\<open>rt_sem_take\<close> returns in every case. It keeps the invariants, so nobody waits for a semaphore with
  a positive value; a positive value is decremented, a call that must not wait fails with
  \<^verbatim>\<open>-RT_ETIMEOUT\<close> and changes nothing, any other puts the caller in the queue.
\<close>

theorem sem_take_correct:
  assumes "ipc_ctx c t L k" "rt_object_get_type (OSem i) k = RT_Object_Class_Semaphore"
    and "ipc_flag (obj_flag (objs k (OSem i)))" "time = 0 \<or> wait_time time" "sem_inv i k" "stacks_ok k"
  shows "\<exists>r s'. rt_sem_take c i time (mk L k) = Some (r, s') \<and> kinv (kc s') \<and> sem_inv i (kc s') \<and>
     (if sem_value (sems k i) > 0
      then r = Some RT_EOK \<and> sem_value (sems (kc s') i) = sem_value (sems k i) - 1
      else if time = 0 then r = Some (- RT_ETIMEOUT) \<and> s' = mk L k
      else r = None \<and> t \<in> set (lists (kc s') (SuspendQ (OSem i))))"
proof -
  note d = ipc_ctxD [OF assms(1)]
  obtain r s' where s': "rt_sem_take c i time (mk L k) = Some (r, s')"
    using sem_take_returns [OF assms(1-4,6)] by blast
  note inv = sem_take_inv [OF assms(1-5) s']
  show ?thesis
  proof (cases "sem_value (sems k i) > 0")
    case True
    then show ?thesis using sem_take_available [OF d(1,2) assms(2) True, of time] inv s' by simp
  next
    case False
    then have v: "sem_value (sems k i) = 0" by (simp add: word_neq_0_conv [symmetric])
    show ?thesis
    proof (cases "time = 0")
      case True
      then show ?thesis using sem_take_timeout0 [OF d(1,2) assms(2) v] inv s' v by simp
    next
      case False
      then have w: "wait_time time" using assms(4) by simp
      obtain s where s: "rt_schedule c (mk L (wait_core (SuspendQ (OSem i)) (obj_flag (objs k (OSem i))) t time k)) = Some s"
        "r = None" "s' = s"
        using s' sem_take_blocks [OF assms(1,2) v w] by (auto simp: bind_Some_iff Some_bind_iff)
      show ?thesis using mb_block_post(4) [OF assms(1) _ assms(3) s(1)] s inv s' v False by simp
    qed
  qed
qed

theorem sem_take_correct_witness:
  "(\<exists>s'. rt_sem_take 0 1 0 (mk demo_lock demo_core) = Some (Some RT_EOK, s') \<and> sem_value (sems (kc s') 1) = 1) \<and>
   (\<exists>s'. rt_sem_take 0 0 20 (mk demo_lock demo_core) = Some (None, s') \<and> kinv (kc s') \<and>
      1 \<in> set (lists (kc s') (SuspendQ (OSem 0))))"
proof
  show "\<exists>s'. rt_sem_take 0 1 0 (mk demo_lock demo_core) = Some (Some RT_EOK, s') \<and> sem_value (sems (kc s') 1) = 1"
    using sem_take_correct [OF demo_ctx _ _ _ demo_objects_inv(1) demo_stacks, of 1 0] by auto
  have "wait_time 20" by (simp add: wait_time_def)
  then show "\<exists>s'. rt_sem_take 0 0 20 (mk demo_lock demo_core) = Some (None, s') \<and> kinv (kc s') \<and>
      1 \<in> set (lists (kc s') (SuspendQ (OSem 0)))"
    using sem_take_correct [OF demo_ctx _ _ _ demo_objects_inv(1) demo_stacks, of 0 20] by auto
qed

text \<open>
  C14. \<^verbatim>\<open>rt_sem_release\<close> returns \<^verbatim>\<open>RT_EOK\<close> and keeps the invariants: with a waiter, the first one becomes
  ready and leaves the queue, and the value stays; without, the value is incremented modulo
  \<open>2 ^ 16\<close>.
\<close>

theorem sem_release_correct:
  assumes "ipc_ctx c t L k" "rt_object_get_type (OSem i) k = RT_Object_Class_Semaphore" "sem_inv i k" "stacks_ok k"
  shows "\<exists>s'. rt_sem_release c i (mk L k) = Some (RT_EOK, s') \<and> kinv (kc s') \<and> sem_inv i (kc s') \<and>
     (case lists k (SuspendQ (OSem i)) of
        [] \<Rightarrow> sem_value (sems (kc s') i) = sem_value (sems k i) + 1
      | u # us \<Rightarrow> is_ready (threads (kc s') u) \<and> lists (kc s') (SuspendQ (OSem i)) = us \<and>
                  sem_value (sems (kc s') i) = sem_value (sems k i))"
proof -
  note d = ipc_ctxD [OF assms(1)]
  obtain s' where s': "rt_sem_release c i (mk L k) = Some (RT_EOK, s')"
    using sem_release_returns [OF assms(1,2,4)] by blast
  note inv = sem_release_inv [OF assms(1-3) s']
  show ?thesis
  proof (cases "lists k (SuspendQ (OSem i))")
    case Nil
    then show ?thesis using sem_release_none [OF d(1,2) assms(2) Nil] inv s' by simp
  next
    case (Cons u us)
    let ?k = "resume_core c u k"
    have sch: "rt_schedule c (mk L ?k) = Some s'"
      using s' sem_release_wakes [OF d(1,2) assms(2) d(4) Cons] by (auto simp: bind_Some_iff Some_bind_iff)
    have "waits (threads k u)" using waiter_waits [OF d(4), of "SuspendQ (OSem i)" u] Cons by simp
    then have si: "sched_inv ?k" using kinv_resume [OF d(4)] by (simp add: kinv_def)
    have cu: "cur c ?k = Some t" using d(2) by simp
    note keep = schedule_keeps_waiters [OF d(1) cu si d(3) sch]
    have "is_ready (threads (kc s') u)"
      using rt_schedule_ready [OF d(1) cu si d(3) sch, of u] by (simp add: is_ready_def)
    moreover have "lists ?k (SuspendQ (OSem i)) = us"
      using lists_resume_first [OF d(4) Cons, of "SuspendQ (OSem i)" c] by simp
    ultimately show ?thesis using s' inv keep(1) keep(6) [of "SuspendQ (OSem i)"] Cons by simp
  qed
qed

theorem sem_release_correct_witness:
  "\<exists>s'. rt_sem_release 0 0 (mk demo_lock demo_core) = Some (RT_EOK, s') \<and> kinv (kc s') \<and>
     is_ready (threads (kc s') 4) \<and> lists (kc s') (SuspendQ (OSem 0)) = []"
  using sem_release_correct [OF demo_ctx _ demo_objects_inv(1) demo_stacks, of 0] by auto

text \<open>
  Resetting a semaphore with \<^verbatim>\<open>rt_sem_control\<close> releases every waiter with the error \<^verbatim>\<open>-RT_ERROR\<close>, empties
  the queue and sets the low 16 bits of the argument as the value.
\<close>

lemma sem_reset_correct:
  assumes "ipc_ctx c t L k" "rt_object_get_type (OSem i) k = RT_Object_Class_Semaphore" "stacks_ok k"
  shows "\<exists>s'. rt_sem_control c i (IPC_CMD_RESET v) (mk L k) = Some (RT_EOK, s') \<and> kinv (kc s') \<and> sem_inv i (kc s') \<and>
     sem_value (sems (kc s') i) = ucast v \<and> lists (kc s') (SuspendQ (OSem i)) = [] \<and>
     (\<forall>u. u \<in> set (lists k (SuspendQ (OSem i))) \<longrightarrow>
        is_ready (threads (kc s') u) \<and> th_error (threads (kc s') u) = - RT_ERROR)"
proof -
  note d = ipc_ctxD [OF assms(1)]
  obtain s' where s': "rt_sem_control c i (IPC_CMD_RESET v) (mk L k) = Some (RT_EOK, s')"
    using sem_reset_returns [OF assms] by blast
  note inv = sem_reset_inv [OF assms(1,2) s']
  let ?k = "set_sem i (ucast v) (resume_all_core c (SuspendQ (OSem i)) k)"
  note all = resume_all_n [OF d(1,2) _ d(4), of 0 "SuspendQ (OSem i)", simplified]
  have sch: "rt_schedule c (mk L ?k) = Some s'"
    using s' sem_reset [OF d(1,2) assms(2) d(4), of v] by (auto simp: bind_Some_iff Some_bind_iff)
  have "kinv ?k" using all by simp
  then have k: "cur c ?k = Some t" "sched_inv ?k" using all by (simp_all add: kinv_def)
  note keep = schedule_keeps_waiters [OF d(1) k d(3) sch]
  show ?thesis
    using s' inv keep(1) keep(6) [of "SuspendQ (OSem i)"] all rt_schedule_ready [OF d(1) k d(3) sch] by simp
qed

lemma sem_reset_correct_witness:
  "\<exists>s'. rt_sem_control 0 0 (IPC_CMD_RESET 3) (mk demo_lock demo_core) = Some (RT_EOK, s') \<and>
     sem_value (sems (kc s') 0) = 3 \<and> is_ready (threads (kc s') 4) \<and> th_error (threads (kc s') 4) = - 1"
  using sem_reset_correct [OF demo_ctx _ demo_stacks, of 0 3] by auto



text \<open>
  C4. The owner's \<^verbatim>\<open>rt_mutex_release\<close> returns \<^verbatim>\<open>RT_EOK\<close> and keeps the invariants; the last release hands the
  mutex to the first waiter, or leaves it free when nobody waits. For anybody but the owner it returns
  \<^verbatim>\<open>-RT_ERROR\<close> and changes nothing but the caller's error field.
\<close>

theorem mutex_release_correct:
  assumes "ipc_ctx c t L k" "rt_object_get_type (OMutex i) k = RT_Object_Class_Mutex" "mutex_inv i k" "stacks_ok k"
  shows "if owner (mutexes k i) = Some t
     then \<exists>s'. rt_mutex_release c i (mk L k) = Some (RT_EOK, s') \<and> kinv (kc s') \<and> mutex_inv i (kc s') \<and>
       (hold (mutexes k i) = 1 \<longrightarrow> owner (mutexes (kc s') i) =
          (case lists k (SuspendQ (OMutex i)) of [] \<Rightarrow> None | u # _ \<Rightarrow> Some u))
     else rt_mutex_release c i (mk L k) = Some (- RT_ERROR, mk L (upd_thread t (\<lambda>th. th\<lparr>th_error := - RT_ERROR\<rparr>) k))"
proof (cases "owner (mutexes k i) = Some t")
  case True
  obtain s' where s': "rt_mutex_release c i (mk L k) = Some (RT_EOK, s')"
    using mutex_release_returns [OF assms(1-3) True assms(4)] by blast
  from mutex_release_inv [OF assms(1-3) True s'] s' True show ?thesis by auto
next
  case False
  then show ?thesis using mutex_release_not_owner [OF assms(1,2) False] by simp
qed

theorem mutex_release_correct_witness:
  "\<exists>s'. rt_mutex_release 0 1 (mk demo_lock demo_core) = Some (RT_EOK, s') \<and> kinv (kc s') \<and>
     owner (mutexes (kc s') 1) = Some 5"
  using mutex_release_correct [OF demo_ctx _ demo_objects_inv(3) demo_stacks] by auto

text \<open>
  C31. The retry of \<^verbatim>\<open>rt_mutex_take\<close> after \<^verbatim>\<open>-RT_EINTR\<close> runs without the lock: when the mutex is free
  by then, the call returns \<^verbatim>\<open>RT_EOK\<close> with the caller's lock nest counter at 65535.
\<close>

theorem mutex_retry_unlocks_unlocked:
  assumes "cur c k = Some t" "cpus_lock_nest L t = 0" "th_error (threads k t) = - RT_EINTR" "mtx_value (mutexes k i) > 0"
  shows "\<exists>s'. rt_mutex_take_cont c i time t temp (mk L k) = Some (Inl RT_EOK, s') \<and> cpus_lock_nest (lk s') t = 0xffff"
  by (rule mutex_retry_underflow [OF assms])

theorem mutex_retry_unlocks_unlocked_witness:
  "\<exists>s'. rt_mutex_take_cont 0 0 10 1 False
      (mk demo_lock (upd_thread 1 (\<lambda>th. th\<lparr>th_error := - RT_EINTR\<rparr>) demo_core)) = Some (Inl RT_EOK, s') \<and>
     cpus_lock_nest (lk s') 1 = 0xffff"
  by (rule mutex_retry_unlocks_unlocked) (simp_all add: demo_lock_def upd_thread_def)





section \<open>Mailboxes\<close>

text \<open>
  C6. \<^verbatim>\<open>rt_mb_send_wait\<close> returns, keeps the invariants and refines a bounded queue: with room the word is
  appended, without room the queue is unchanged and the call fails with \<^verbatim>\<open>-RT_EFULL\<close> or the caller waits
  among the senders.
\<close>

theorem mb_send_correct:
  assumes "ipc_ctx c t L k" "rt_object_get_type (OMailBox i) k = RT_Object_Class_MailBox"
    and "ipc_flag (obj_flag (objs k (OMailBox i)))" "timeout = 0 \<or> wait_time timeout"
    and "mb_wf (mailboxes k i)" "stacks_ok k"
  shows "\<exists>r s'. rt_mb_send_wait c i v timeout (mk L k) = Some (r, s') \<and> kinv (kc s') \<and> mb_wf (mailboxes (kc s') i) \<and>
     (if length (mb_contents (mailboxes k i)) < mb_capacity (mailboxes k i)
      then r = Inl RT_EOK \<and> mb_contents (mailboxes (kc s') i) = mb_contents (mailboxes k i) @ [v]
      else (if timeout = 0 then r = Inl (- RT_EFULL) \<and> kc s' = k else t \<in> set (lists (kc s') (SenderQ (OMailBox i)))) \<and>
           mailboxes (kc s') i = mailboxes k i)"
  using mb_send_returns [OF assms] mb_send_refines [OF assms(1-5)] by metis

theorem mb_send_correct_witness:
  "\<exists>s'. rt_mb_send_wait 0 0 9 0 (mk demo_lock demo_core) = Some (Inl RT_EOK, s') \<and>
     mb_contents (mailboxes (kc s') 0) = [7, 9]"
proof -
  have "mb_contents (mailboxes demo_core 0) = [7]" "mb_capacity (mailboxes demo_core 0) = 2"
    by (simp_all add: mb_contents_def mb_capacity_def ring_contents_def)
  with mb_send_correct [OF demo_ctx _ _ _ demo_objects_inv(4) demo_stacks, of 0 0 9] show ?thesis by auto
qed

text \<open>
  C7. \<^verbatim>\<open>rt_mb_recv\<close> returns, keeps the invariants and refines the same queue: it delivers and removes the
  oldest word, or the queue is empty and stays so.
\<close>

theorem mb_recv_correct:
  assumes "ipc_ctx c t L k" "rt_object_get_type (OMailBox i) k = RT_Object_Class_MailBox"
    and "ipc_flag (obj_flag (objs k (OMailBox i)))" "timeout = 0 \<or> wait_time timeout"
    and "mb_wf (mailboxes k i)" "stacks_ok k"
  shows "\<exists>r s'. rt_mb_recv c i timeout (mk L k) = Some (r, s') \<and> kinv (kc s') \<and> mb_wf (mailboxes (kc s') i) \<and>
     (case mb_contents (mailboxes k i) of
        v # vs \<Rightarrow> r = Inl (RT_EOK, Some v) \<and> mb_contents (mailboxes (kc s') i) = vs
      | [] \<Rightarrow> (if timeout = 0 then r = Inl (- RT_ETIMEOUT, None) \<and> kc s' = k
               else t \<in> set (lists (kc s') (SuspendQ (OMailBox i)))) \<and> mailboxes (kc s') i = mailboxes k i)"
  using mb_recv_returns [OF assms] mb_recv_refines [OF assms(1-5)] by metis

theorem mb_recv_correct_witness:
  "\<exists>s'. rt_mb_recv 0 0 0 (mk demo_lock demo_core) = Some (Inl (RT_EOK, Some 7), s') \<and>
     mb_contents (mailboxes (kc s') 0) = []"
proof -
  have "mb_contents (mailboxes demo_core 0) = [7]" by (simp add: mb_contents_def ring_contents_def)
  with mb_recv_correct [OF demo_ctx _ _ _ demo_objects_inv(4) demo_stacks, of 0 0] show ?thesis by auto
qed

section \<open>Message queues\<close>

text \<open>
  C8. On a message queue with room \<^verbatim>\<open>rt_mq_send\<close> appends the message and \<^verbatim>\<open>rt_mq_urgent\<close> puts it in front;
  both return \<^verbatim>\<open>RT_EOK\<close>, keep the invariants and make the first waiting receiver ready. On a full queue
  both return \<^verbatim>\<open>-RT_EFULL\<close> and change nothing.
\<close>

theorem mq_send_correct:
  assumes "ipc_ctx c t L k" "rt_object_get_type (OMq i) k = RT_Object_Class_MessageQueue"
    and "buf \<noteq> []" "length buf \<le> unat (mq_msg_size (mqueues k i))" "mq_wf (mqueues k i)" "stacks_ok k"
    and "send = (if urgent then rt_mq_urgent c i buf else rt_mq_send c i buf)"
  shows "if length (mq_contents (mqueues k i)) < unat (mq_max_msgs (mqueues k i))
     then \<exists>s' m. send (mk L k) = Some (RT_EOK, s') \<and> kinv (kc s') \<and> mq_wf (mqueues (kc s') i) \<and>
       mq_contents (mqueues (kc s') i) =
         (if urgent then m # mq_contents (mqueues k i) else mq_contents (mqueues k i) @ [m]) \<and>
       take (length buf) m = buf \<and>
       (case lists k (SuspendQ (OMq i)) of [] \<Rightarrow> True | u # us \<Rightarrow> is_ready (threads (kc s') u))
     else send (mk L k) = Some (- RT_EFULL, mk L k)"
proof (cases "length (mq_contents (mqueues k i)) < unat (mq_max_msgs (mqueues k i))")
  case True
  then show ?thesis using mq_send_ok [OF assms(1-6)] assms(7) by simp
next
  case False
  then have "length (mq_contents (mqueues k i)) = unat (mq_max_msgs (mqueues k i))"
    using mq_wf_free(2) assms(5) unfolding mq_wf_def by (metis le_neq_implies_less)
  with False show ?thesis using mq_send_full [OF assms(1-5)] assms(7) by simp
qed

theorem mq_send_correct_witness:
  "\<exists>s' m. rt_mq_send 0 0 [5, 6] (mk demo_lock demo_core) = Some (RT_EOK, s') \<and>
     mq_contents (mqueues (kc s') 0) = [m] \<and> take (length [5, 6 :: u8]) m = [5, 6]"
  using mq_send_correct [OF demo_ctx _ _ _ _ demo_stacks, of 0 "[5, 6]" _ False] demo_mq_wf by auto

text \<open>
  C9. \<^verbatim>\<open>rt_mq_recv\<close> returns and keeps the invariants. It delivers and removes the first message, cut to
  the caller's buffer; on an empty queue it fails with \<^verbatim>\<open>-RT_ETIMEOUT\<close> without waiting, or the caller waits.
\<close>

theorem mq_recv_correct:
  assumes "ipc_ctx c t L k" "rt_object_get_type (OMq i) k = RT_Object_Class_MessageQueue"
    and "ipc_flag (obj_flag (objs k (OMq i)))" "timeout = 0 \<or> wait_time timeout" "sz \<noteq> 0"
    and "mq_wf (mqueues k i)" "stacks_ok k"
  shows "\<exists>r s'. rt_mq_recv c i sz timeout (mk L k) = Some (r, s') \<and> kinv (kc s') \<and> mq_wf (mqueues (kc s') i) \<and>
     (case mq_contents (mqueues k i) of
        m # ms \<Rightarrow> r = Inl (RT_EOK, Some (take (min sz (unat (mq_msg_size (mqueues k i)))) m)) \<and>
                  mq_contents (mqueues (kc s') i) = ms
      | [] \<Rightarrow> if timeout = 0 then r = Inl (- RT_ETIMEOUT, None) \<and> s' = mk L k
              else mqueues (kc s') i = mqueues k i \<and> t \<in> set (lists (kc s') (SuspendQ (OMq i))))"
proof (cases "mq_contents (mqueues k i)")
  case Nil
  then have "mq_entry (mqueues k i) = 0" using mq_entry_empty [OF assms(6)] by simp
  then show ?thesis
    using Nil mq_recv_empty(1) [OF assms(1,2,5)] mq_recv_waits [OF assms(1-3,7,5,6) Nil, of timeout] assms(4,6)
      ipc_ctxD(4) [OF assms(1)] by (cases "timeout = 0") auto
next
  case (Cons m ms)
  then show ?thesis using mq_recv_ok [OF assms(1,2,5,6) Cons, of timeout] by auto
qed

theorem mq_recv_correct_witness:
  "\<exists>s'. rt_mq_recv 0 0 3 0 (mk demo_lock (set_mq 0 demo_mq1 demo_core)) = Some (Inl (RT_EOK, Some [9, 8, 7]), s') \<and>
     mq_contents (mqueues (kc s') 0) = []"
proof -
  have "ipc_ctx 0 1 demo_lock (set_mq 0 demo_mq1 demo_core)" "stacks_ok (set_mq 0 demo_mq1 demo_core)"
    using demo_ctx demo_stacks by simp_all
  from mq_recv_correct [OF this(1) _ _ _ _ _ this(2), of 0 0 3] show ?thesis by (auto simp: demo_mq1_wf)
qed

text \<open>
  Resetting a message queue with \<^verbatim>\<open>rt_mq_control\<close> empties it, returns every slot to the free list and
  releases every waiting receiver with the error \<^verbatim>\<open>-RT_ERROR\<close>.
\<close>

lemma mq_reset_correct:
  assumes "ipc_ctx c t L k" "rt_object_get_type (OMq i) k = RT_Object_Class_MessageQueue" "stacks_ok k"
    and "mq_wf (mqueues k i)"
  shows "\<exists>s'. rt_mq_control c i (IPC_CMD_RESET v) (mk L k) = Some (RT_EOK, s') \<and> kinv (kc s') \<and>
     mq_wf (mqueues (kc s') i) \<and> mq_contents (mqueues (kc s') i) = [] \<and> lists (kc s') (SuspendQ (OMq i)) = [] \<and>
     (\<forall>u \<in> set (lists k (SuspendQ (OMq i))). is_ready (threads (kc s') u) \<and> th_error (threads (kc s') u) = - RT_ERROR)"
  by (rule mq_reset_ok [OF assms])

lemma mq_reset_correct_witness:
  "\<exists>s'. rt_mq_control 0 0 (IPC_CMD_RESET 0) (mk demo_lock (set_mq 0 demo_mq1 demo_core)) = Some (RT_EOK, s') \<and>
     mq_contents (mqueues (kc s') 0) = []"
proof -
  have "ipc_ctx 0 1 demo_lock (set_mq 0 demo_mq1 demo_core)" "stacks_ok (set_mq 0 demo_mq1 demo_core)"
    using demo_ctx demo_stacks by simp_all
  from mq_reset_correct [OF this(1) _ this(2), of 0 0] show ?thesis by (auto simp: demo_mq1_wf)
qed

section \<open>Memory pools\<close>

text \<open>
  C16. \<^verbatim>\<open>rt_mp_alloc\<close> returns and keeps the invariants. From a pool with a free block it returns a block that
  was not in use and now is, all others staying as they are; from an empty pool it returns a null pointer and sets the error
  number, or the caller waits.
\<close>

theorem mp_alloc_correct:
  assumes "ipc_ctx c t L k" "stacks_ok k" "mp_wf i (mempools k i)" "time = 0 \<or> wait_time time"
  shows "\<exists>r s'. rt_mp_alloc c i time (mk L k) = Some (r, s') \<and> kinv (kc s') \<and> mp_wf i (mempools (kc s') i) \<and>
     (if block_free_count (mempools k i) \<noteq> 0
      then \<exists>b. r = Inl (Some (i, b)) \<and> b \<notin> mp_used i (mempools k i) \<and>
             mp_used i (mempools (kc s') i) = insert b (mp_used i (mempools k i))
      else mp_used i (mempools (kc s') i) = mp_used i (mempools k i) \<and>
        (if time = 0 then r = Inl None \<and> th_error (threads (kc s') t) = - RT_ETIMEOUT
         else hd (lists (kc s') (SuspendQ (OMemPool i))) = t))"
proof (cases "block_free_count (mempools k i) = 0")
  case True
  note d = ipc_ctxD [OF assms(1)]
  show ?thesis
  proof (cases "time = 0")
    case t0: True
    then show ?thesis
      using mp_alloc_fails [OF d(1,2,7) True] True d(4) assms(3) by (simp add: sview_def)
  next
    case False
    then show ?thesis
      using mp_alloc_waits_post [OF assms(1,2) True, of time] assms(3,4) True
      by (auto simp: mp_wf_def mp_shape_def mp_used_def)
  qed
next
  case False
  note d = ipc_ctxD [OF assms(1)]
  obtain fs where sh: "mp_shape i fs (mempools k i)" using assms(3) by (auto simp: mp_wf_def)
  then obtain b rs where fs: "fs = b # rs" using False by (cases fs) (auto simp: mp_shape_def unat_eq_0)
  obtain m where m: "mp_take_block i (mempools k i) = Some (b, m)" "mp_shape i rs m"
    "block_total_count m = block_total_count (mempools k i)" using mp_take_shape [OF sh [unfolded fs]] by blast
  have "mp_used i m = insert b (mp_used i (mempools k i))" "b \<notin> mp_used i (mempools k i)"
    using mp_used_shape [OF sh] mp_used_shape [OF m(2)] m(3) sh unfolding fs by (auto simp: mp_shape_def)
  moreover have "mp_wf i m" using m(2) by (auto simp: mp_wf_def)
  ultimately show ?thesis using mp_alloc_some [OF d(1,2) False m(1), of time] d(4) False by simp
qed

theorem mp_alloc_correct_witness:
  "\<exists>b s'. rt_mp_alloc 0 0 0 (mk demo_lock demo_core) = Some (Inl (Some (0, b)), s') \<and>
     mp_used 0 (mempools (kc s') 0) = {b}"
  using mp_alloc_correct [OF demo_ctx demo_stacks, of 0 0] by (auto simp: demo_mp_wf)

text \<open>
  C17. \<^verbatim>\<open>rt_mp_free\<close> of a block in use, with the counter of waiting threads right, returns, keeps the
  invariants and makes the block free again; when threads wait, the one that waits first in the list is ready
  afterwards.
\<close>

theorem mp_free_correct:
  assumes "ipc_ctx c t L k" "stacks_ok k" "mp_wf i (mempools k i)" "mp_count_ok i k" "b \<in> mp_used i (mempools k i)"
  shows "\<exists>s'. rt_mp_free c (i, b) (mk L k) = Some s' \<and> kinv (kc s') \<and> mp_wf i (mempools (kc s') i) \<and> mp_count_ok i (kc s') \<and>
     mp_used i (mempools (kc s') i) = mp_used i (mempools k i) - {b} \<and>
     (case lists k (SuspendQ (OMemPool i)) of [] \<Rightarrow> True | u # _ \<Rightarrow> is_ready (threads (kc s') u))"
proof -
  note d = ipc_ctxD [OF assms(1)]
  obtain fs where sh: "mp_shape i fs (mempools k i)" using assms(3) by (auto simp: mp_wf_def)
  let ?m = "mp_put_block b (mempools k i)"
  have m: "mp_shape i (b # fs) (?m\<lparr>suspend_thread_count := n\<rparr>)" for n
    using mp_put_shape [OF sh assms(5)] by (simp add: mp_shape_def)
  have used: "mp_used i (?m\<lparr>suspend_thread_count := n\<rparr>) = mp_used i (mempools k i) - {b}" for n
    using mp_used_shape [OF m [of n]] mp_used_shape [OF sh] by auto
  have wf: "mp_wf i (?m\<lparr>suspend_thread_count := n\<rparr>)" for n using m by (auto simp: mp_wf_def)
  show ?thesis
  proof (cases "lists k (SuspendQ (OMemPool i))")
    case Nil
    then have "suspend_thread_count (mempools k i) = 0" using assms(4) by (simp add: mp_count_ok_def unat_eq_0)
    moreover have "mp_used i ?m = mp_used i (mempools k i) - {b}" "mp_wf i ?m"
      using mp_put_shape [OF sh assms(5)] mp_used_shape [OF mp_put_shape [OF sh assms(5)]] mp_used_shape [OF sh]
      by (auto simp: mp_wf_def)
    ultimately show ?thesis using mp_free_quiet [OF d(1,2) assms(5)] Nil d(4) by (simp add: mp_count_ok_def)
  next
    case (Cons u us)
    with mp_free_wakes_post [OF assms(1,2,5,4) Cons] used wf show ?thesis by auto
  qed
qed

theorem mp_free_correct_witness:
  "\<exists>s'. rt_mp_free 0 (0, 0) (mk demo_lock (set_mp 0 demo_mp1 demo_core)) = Some s' \<and> mp_used 0 (mempools (kc s') 0) = {}"
proof -
  have "ipc_ctx 0 1 demo_lock (set_mp 0 demo_mp1 demo_core)" "stacks_ok (set_mp 0 demo_mp1 demo_core)"
    "mp_count_ok 0 (set_mp 0 demo_mp1 demo_core)"
    using demo_ctx demo_stacks by (simp_all add: mp_count_ok_def demo_mp1_def)
  from mp_free_correct [OF this(1,2) _ this(3), of 0] show ?thesis by (auto simp: demo_mp1_wf)
qed



section \<open>Objects\<close>

text \<open>
  \<^verbatim>\<open>rt_object_init\<close> registers an object: afterwards it has its type and is found under every name
  that agrees with its own on the first \<^verbatim>\<open>RT_NAME_MAX\<close> characters.
\<close>

lemma object_init_found:
  assumes "lk_ok th L" "cur c k = th" "rt_object_get_information ty = Some i"
  shows "\<exists>k'. rt_object_init c r ty name (mk L k) = Some (mk L k') \<and> rt_object_get_type r k' = ty \<and>
     rt_object_is_systemobject r k' \<and>
     (\<forall>name'. take RT_NAME_MAX (cstr name') = take RT_NAME_MAX (cstr name) \<longrightarrow> find_object name' i k' = Some r)"
  using assms object_init_type [OF assms(3)] find_object_init by simp

lemma object_init_found_witness:
  "\<exists>k'. rt_object_init 0 (OSem 9) RT_Object_Class_Semaphore [115, 57] (mk demo_lock demo_core) = Some (mk demo_lock k') \<and>
     find_object [115, 57, 0, 33] 1 k' = Some (OSem 9)"
proof -
  have "rt_object_get_information RT_Object_Class_Semaphore = Some 1"
    by (simp add: rt_object_get_information_def rt_object_container_def class_defs)
  moreover have "take RT_NAME_MAX (cstr [115, 57, 0, 33 :: u8]) = take RT_NAME_MAX (cstr [115, 57])"
    by (simp add: RT_NAME_MAX_def cstr_def)
  ultimately show ?thesis
    using object_init_found [OF ipc_ctxD(1,2) [OF demo_ctx], of RT_Object_Class_Semaphore 1 "OSem 9" "[115, 57]"]
    by blast
qed

end
